(* ===== verification/Prelude.thy ===== *)
theory Prelude
  imports Main "HOL-Library.Word"
begin

text \<open>
  Shared vocabulary of the development: the machine integers of the C code, the
  reading of a NUL-terminated string, and the lemmas on words and lists that the
  components share.
\<close>

unbundle bit_operations_syntax

type_synonym u8 = "8 word"
type_synonym u16 = "16 word"
type_synonym u32 = "32 word"
type_synonym u64 = "64 word"

text \<open>
  \<open>at s i\<close> is the byte \<open>s[i]\<close> of a NUL-terminated C string whose characters are
  the list \<open>s\<close>: the byte at \<open>length s\<close> is the terminator.
\<close>

definition at :: "u8 list \<Rightarrow> nat \<Rightarrow> u8" where
  "at s i = (if i < length s then s ! i else 0)"

definition nul_free :: "u8 list \<Rightarrow> bool" where
  "nul_free s \<longleftrightarrow> 0 \<notin> set s"

named_theorems bits_simps

subsection \<open>Words, bit by bit\<close>

lemma word8_eqI:
  fixes x y :: u8
  assumes "bit x 0 = bit y 0" "bit x 1 = bit y 1" "bit x 2 = bit y 2" "bit x 3 = bit y 3"
    "bit x 4 = bit y 4" "bit x 5 = bit y 5" "bit x 6 = bit y 6" "bit x 7 = bit y 7"
  shows "x = y"
proof (rule bit_word_eqI)
  fix n
  assume "n < LENGTH(8)"
  moreover have "\<forall>i<8. bit x i = bit y i"
    using assms by (simp add: numeral_eq_Suc All_less_Suc)
  ultimately show "bit x n = bit y n" by simp
qed

lemma word16_eqI:
  fixes x y :: u16
  assumes "bit x 0 = bit y 0" "bit x 1 = bit y 1" "bit x 2 = bit y 2" "bit x 3 = bit y 3"
    "bit x 4 = bit y 4" "bit x 5 = bit y 5" "bit x 6 = bit y 6" "bit x 7 = bit y 7"
    "bit x 8 = bit y 8" "bit x 9 = bit y 9" "bit x 10 = bit y 10" "bit x 11 = bit y 11"
    "bit x 12 = bit y 12" "bit x 13 = bit y 13" "bit x 14 = bit y 14" "bit x 15 = bit y 15"
  shows "x = y"
proof (rule bit_word_eqI)
  fix n
  assume "n < LENGTH(16)"
  moreover have "\<forall>i<16. bit x i = bit y i"
    using assms by (simp add: numeral_eq_Suc All_less_Suc)
  ultimately show "bit x n = bit y n" by simp
qed

lemma small_not_bit:
  assumes "unat (w :: 'a::len word) < 2 ^ n" "n \<le> m"
  shows "\<not> bit w m"
proof -
  have "take_bit n (unat w) = unat w" using assms(1) by (rule take_bit_nat_eq_self)
  then have "bit (unat w) m = (bit (take_bit n (unat w)) m)" by simp
  then show ?thesis using assms(2) by (simp add: bit_simps)
qed

lemma bit_imp_le: "bit (w :: 'a::len word) n \<Longrightarrow> 2 ^ n \<le> unat w"
  using small_not_bit [of w n n] by (meson le_refl not_le)

lemma unat_ucast_up [simp]:
  "LENGTH('a) \<le> LENGTH('b) \<Longrightarrow> unat (ucast (w :: 'a::len word) :: 'b::len word) = unat w"
  by (metis unsigned_ucast_eq take_bit_nat_eq_self unsigned_less order_less_le_trans
      one_le_numeral power_increasing)

lemma unat_ucast_down:
  "unat (ucast (w :: 'a::len word) :: 'b::len word) = unat w mod 2 ^ LENGTH('b)"
  by (simp add: unsigned_ucast_eq take_bit_eq_mod)

lemma unat_or_disjoint:
  fixes a b :: "'a::len word"
  assumes "unat b < 2 ^ n" "\<And>m. m < n \<Longrightarrow> \<not> bit a m"
  shows "unat (a OR b) = unat a + unat b"
proof -
  have d: "\<not> (bit a m \<and> bit b m)" for m
    using assms small_not_bit [OF assms(1)] by (cases "m < n") auto
  have "or (unat a) (unat b) = unat a + unat b"
    by (rule disjunctive_add_eq_or [symmetric], rule bit_eqI) (use d in \<open>auto simp: bit_simps\<close>)
  then show ?thesis by (simp add: unsigned_or_eq)
qed

lemma unat_or_push:
  fixes a b :: "'a::len word"
  assumes "unat b < 2 ^ n" "a = push_bit n k"
  shows "unat (a OR b) = unat a + unat b"
  using assms by (intro unat_or_disjoint) (auto simp: bit_simps)

lemma unat_drop_bit_div: "unat (drop_bit n w) = unat (w :: 'a::len word) div 2 ^ n"
  by (subst unat_drop_bit_eq) (rule drop_bit_eq_div)

lemma word32_bits_eqI:
  fixes x y :: u32
  assumes "bit x 0 = bit y 0" "bit x 1 = bit y 1" "bit x 2 = bit y 2" "bit x 3 = bit y 3"
    "bit x 4 = bit y 4" "bit x 5 = bit y 5" "bit x 6 = bit y 6" "bit x 7 = bit y 7"
    "bit x 8 = bit y 8" "bit x 9 = bit y 9" "bit x 10 = bit y 10" "bit x 11 = bit y 11"
    "bit x 12 = bit y 12" "bit x 13 = bit y 13" "bit x 14 = bit y 14" "bit x 15 = bit y 15"
    "bit x 16 = bit y 16" "bit x 17 = bit y 17" "bit x 18 = bit y 18" "bit x 19 = bit y 19"
    "bit x 20 = bit y 20" "bit x 21 = bit y 21" "bit x 22 = bit y 22" "bit x 23 = bit y 23"
    "bit x 24 = bit y 24" "bit x 25 = bit y 25" "bit x 26 = bit y 26" "bit x 27 = bit y 27"
    "bit x 28 = bit y 28" "bit x 29 = bit y 29" "bit x 30 = bit y 30" "bit x 31 = bit y 31"
  shows "x = y"
proof (rule bit_word_eqI)
  fix n
  assume "n < LENGTH(32)"
  moreover have "\<forall>i<32. bit x i = bit y i"
    using assms by (simp add: numeral_eq_Suc All_less_Suc)
  ultimately show "bit x n = bit y n" by simp
qed

lemma at_simps [simp]: "at (x # xs) 0 = x" "at (x # xs) (Suc n) = at xs n" "at [] n = 0"
  by (auto simp: at_def)

lemma at_numeral [simp]: "at (x # xs) (numeral n) = at xs (numeral n - 1)"
  by (simp add: at_def nth_Cons' less_Suc_eq_0_disj numeral_eq_Suc)

lemma word32_eqI:
  fixes x y :: u32
  assumes "ucast x = (ucast y :: u16)" "unat x < 2 ^ 16" "unat y < 2 ^ 16"
  shows "x = y"
proof -
  have "unat x mod 2 ^ 16 = unat y mod 2 ^ 16"
    using arg_cong [OF assms(1), of unat] by (simp add: unat_ucast_down)
  then show ?thesis using assms(2,3) by (simp add: word_unat_eq_iff)
qed

lemma unat_and_le: "unat (x AND y) \<le> unat (y :: 'a::len word)"
  using word_and_le1 word_le_nat_alt by blast

lemma unat_and_less: "unat (y :: 'a::len word) < n \<Longrightarrow> unat (x AND y) < n"
  using unat_and_le [of x y] by linarith

lemma unat_u8_less [simp]: "unat (r :: u8) < 256"
  using unsigned_less [of r] by simp

lemma unat_u8_mod [simp]: "unat (r :: u8) mod 65536 = unat r"
  using unat_u8_less [of r] by (simp del: unat_u8_less)

lemma unat_u16_less [simp]: "unat (r :: u16) < 65536"
  using unsigned_less [of r] by simp

lemma u8_bit_high [simp]: "8 \<le> n \<Longrightarrow> \<not> bit (b :: u8) n"
  using bit_imp_le_length [of b n] by auto

lemma ucast_8_32_16 [simp]: "ucast (ucast (b :: u8) :: u32) = (ucast b :: u16)"
  by (rule word16_eqI) (simp_all add: bit_simps)

lemma ucast_ucast_16 [simp]: "ucast (ucast (r :: u16) :: u32) = r"
  by (rule word16_eqI) (simp_all add: bit_simps)

lemma at_ge [simp]: "length s \<le> i \<Longrightarrow> at s i = 0"
  by (simp add: at_def)

lemma bit_unat_div: "bit (w :: 'a::len word) n \<longleftrightarrow> odd (unat w div 2 ^ n)"
proof -
  have "bit w n = bit (unat w) n" by (simp add: bit_simps)
  then show ?thesis by (simp add: bit_iff_odd)
qed

lemma ucast_ucast_32: "unat (l :: u32) < 65536 \<Longrightarrow> ucast (ucast l :: u16) = l"
  by (simp add: word_unat_eq_iff unat_ucast_down)

lemma at_drop: "at (drop k s) i = at s (k + i)"
  by (simp add: at_def add.commute less_diff_conv)

lemma at_nonempty: "at s i \<noteq> 0 \<Longrightarrow> i < length s"
  by (simp add: at_def split: if_splits)

lemma uint_eq_iff [simp]: "uint a = uint b \<longleftrightarrow> a = (b :: 'a::len word)"
  by (simp add: word_uint_eq_iff)

lemma u32_bit_high [simp]: "32 \<le> n \<Longrightarrow> \<not> bit (b :: u32) n"
  using bit_imp_le_length [of b n] by auto

lemma list4E:
  assumes "4 \<le> length xs"
  obtains a b c d r where "xs = a # b # c # d # r"
  using assms by (auto simp: Suc_le_length_iff numeral_eq_Suc)

lemma take_drop_append [simp]: "take n xs @ drop n xs @ ys = xs @ ys"
  by (simp add: append_assoc [symmetric] del: append_assoc)

lemma unat_of_nat_small: "n < 2 ^ LENGTH('a) \<Longrightarrow> unat (of_nat n :: 'a::len word) = n"
  by (simp add: unat_of_nat)


text \<open>The string an array holds: its bytes up to the first NUL.\<close>

definition cstr :: "u8 list \<Rightarrow> u8 list" where
  "cstr s = takeWhile (\<lambda>b. b \<noteq> 0) s"

lemma cstr_nul: "nul_free t \<Longrightarrow> cstr (t @ 0 # r) = t"
  by (auto simp: cstr_def nul_free_def takeWhile_append)

definition strlen :: "u8 list \<Rightarrow> nat" where
  "strlen s = length (takeWhile (\<lambda>b. b \<noteq> 0) s)"

fun dec_n :: "('b list \<Rightarrow> ('a \<times> 'b list) option) \<Rightarrow> nat \<Rightarrow> 'b list \<Rightarrow> ('a list \<times> 'b list) option" where
  "dec_n dec 0 inp = Some ([], inp)"
| "dec_n dec (Suc n) inp =
     (case dec inp of None \<Rightarrow> None
      | Some (x, t) \<Rightarrow> (case dec_n dec n t of None \<Rightarrow> None | Some (xs, u) \<Rightarrow> Some (x # xs, u)))"

locale codec =
  fixes enc :: "'a \<Rightarrow> 'b list"
    and dec :: "'b list \<Rightarrow> ('a \<times> 'b list) option"
    and dom :: "'a \<Rightarrow> bool"
  assumes dec_enc: "dom x \<Longrightarrow> dec (enc x @ t) = Some (x, t)"
begin

lemma dec_n_enc:
  "list_all dom xs \<Longrightarrow> dec_n dec (length xs) (concat (map enc xs) @ t) = Some (xs, t)"
  by (induction xs) (auto simp: dec_enc)

lemma enc_prefix_free: "dom x \<Longrightarrow> dom y \<Longrightarrow> enc x @ s = enc y @ t \<Longrightarrow> x = y \<and> s = t"
  by (metis dec_enc option.inject prod.inject)

end

locale strict_codec = codec +
  assumes enc_dec: "dec inp = Some (x, t) \<Longrightarrow> dom x \<and> inp = enc x @ t"
begin

lemma enc_dec_n:
  "dec_n dec n inp = Some (xs, t) \<Longrightarrow>
   length xs = n \<and> list_all dom xs \<and> inp = concat (map enc xs) @ t"
proof (induction n arbitrary: inp xs)
  case 0
  then show ?case by simp
next
  case (Suc n)
  then obtain x u ys where d: "dec inp = Some (x, u)" "dec_n dec n u = Some (ys, t)" "xs = x # ys"
    by (auto split: option.splits)
  show ?case using enc_dec [OF d(1)] Suc.IH [OF d(2)] d(3) by simp
qed

end

end
