(* ===== verification/Rune.thy ===== *)
theory Rune
  imports Prelude
begin

text \<open>
  \<open>lib9/rune.c\<close> and the \<open>utf*.c\<close> routines beside it: runes are the 16-bit
  \<open>Rune\<close> of \<open>include/lib9.h\<close>, a NUL-terminated C string is the list of its bytes before the
  NUL, read through \<open>at\<close> (so reading the terminator is reading 0, and nothing is
  read beyond it).  \<open>ulong\<close> arithmetic on a rune stays under 32 bits, so \<open>u32\<close>
  is used for it.  \<open>encode\<close> and \<open>fits\<close> are the specification: a sequence of runes
  as bytes, and how many runes of it have their last byte within a prefix.
\<close>

abbreviation Tx :: u32 where "Tx \<equiv> 0x80"
abbreviation T2 :: u32 where "T2 \<equiv> 0xC0"
abbreviation T3 :: u32 where "T3 \<equiv> 0xE0"
abbreviation T4 :: u32 where "T4 \<equiv> 0xF0"
abbreviation Rune1 :: u32 where "Rune1 \<equiv> 0x7F"
abbreviation Rune2 :: u32 where "Rune2 \<equiv> 0x7FF"
abbreviation Rune3 :: u32 where "Rune3 \<equiv> 0xFFFF"
abbreviation Maskx :: u32 where "Maskx \<equiv> 0x3F"
abbreviation Testx :: u32 where "Testx \<equiv> 0xC0"
abbreviation Bad :: u16 where "Bad \<equiv> 0x80"

definition chartorune :: "u8 list \<Rightarrow> u16 \<times> nat" where
  "chartorune s =
     (let c = ucast (at s 0) :: u32 in
      if c < Tx then (ucast c, 1) else
      let c1 = ucast (at s 1) XOR Tx in
      if c1 AND Testx \<noteq> 0 then (Bad, 1) else
      if c < T3 then
        (if c < T2 then (Bad, 1) else
         let l = (push_bit 6 c OR c1) AND Rune2 in
         if l \<le> Rune1 then (Bad, 1) else (ucast l, 2))
      else
      let c2 = ucast (at s 2) XOR Tx in
      if c2 AND Testx \<noteq> 0 then (Bad, 1) else
      if c < T4 then
        (let l = (push_bit 6 (push_bit 6 c OR c1) OR c2) AND Rune3 in
         if l \<le> Rune2 then (Bad, 1) else (ucast l, 3))
      else (Bad, 1))"

definition runetochar :: "u16 \<Rightarrow> u8 list" where
  "runetochar r =
     (let c = ucast r :: u32 in
      if c \<le> Rune1 then [ucast c]
      else if c \<le> Rune2 then [ucast (T2 OR drop_bit 6 c), ucast (Tx OR (c AND Maskx))]
      else [ucast (T3 OR drop_bit 12 c), ucast (Tx OR (drop_bit 6 c AND Maskx)),
            ucast (Tx OR (c AND Maskx))])"

lemma unat_and_Maskx: "unat (x AND Maskx) = unat x mod 64"
proof -
  have "x AND Maskx = take_bit 6 x" using take_bit_eq_mask [of 6 x] by (simp add: mask_eq_exp_minus_1)
  then show ?thesis by (simp only: unsigned_take_bit_eq) (simp add: take_bit_eq_mod)
qed

lemma unat_cont: "unat (ucast (Tx OR (x AND Maskx)) :: u8) = 128 + unat x mod 64"
  by (simp add: unat_ucast_down unat_or_push [where n = 6 and k = 2] unat_and_Maskx)

lemma unat_lead2: "unat x < 2 ^ 11 \<Longrightarrow> unat (ucast (T2 OR drop_bit 6 x) :: u8) = 192 + unat x div 64"
  by (simp add: unat_ucast_down unat_or_push [where n = 5 and k = 6] unat_drop_bit_div)

lemma unat_lead3: "unat x < 2 ^ 16 \<Longrightarrow> unat (ucast (T3 OR drop_bit 12 x) :: u8) = 224 + unat x div 4096"
  by (simp add: unat_ucast_down unat_or_push [where n = 4 and k = 14] unat_drop_bit_div)

lemma decode2_bits:
  assumes "\<And>n. 11 \<le> n \<Longrightarrow> \<not> bit (r::u16) n"
  shows "(push_bit 6 (ucast (ucast (T2 OR drop_bit 6 (ucast r :: u32)) :: u8)) OR
     (ucast (ucast (Tx OR (ucast r AND Maskx)) :: u8) XOR Tx)) AND Rune2 = (ucast r :: u32)"
  by (rule word32_eqI, rule word16_eqI) (simp_all add: bit_simps assms unat_and_less)

lemma decode3_bits:
  "(push_bit 6 (push_bit 6 (ucast (ucast (T3 OR drop_bit 12 (ucast (r::u16) :: u32)) :: u8)) OR
      (ucast (ucast (Tx OR (drop_bit 6 (ucast r) AND Maskx)) :: u8) XOR Tx)) OR
     (ucast (ucast (Tx OR (ucast r AND Maskx)) :: u8) XOR Tx)) AND Rune3 = (ucast r :: u32)"
  by (rule word32_eqI, rule word16_eqI) (simp_all add: bit_simps unat_and_less)

lemma cont_Testx [simp]: "(ucast (ucast (Tx OR (x AND Maskx)) :: u8) XOR Tx) AND Testx = 0"
  by (rule word32_eqI, rule word16_eqI) (simp_all add: bit_simps unat_and_less)

lemma chartorune_runetochar: "chartorune (runetochar r @ s) = (r, length (runetochar r))"
proof -
  have r: "unat r < 2 ^ 16" by simp
  consider "unat r < 128" | "128 \<le> unat r" "unat r < 2048" | "2048 \<le> unat r" by linarith
  then show ?thesis
  proof cases
    case 1
    then show ?thesis
      by (auto simp: runetochar_def chartorune_def word_le_nat_alt word_less_nat_alt unat_ucast_down
          word_unat_eq_iff)
  next
    case 2
    have h: "\<And>n. 11 \<le> n \<Longrightarrow> \<not> bit r n" using 2 by (intro small_not_bit [where n = 11]) auto
    have e: "runetochar r = [ucast (T2 OR drop_bit 6 (ucast r :: u32)), ucast (Tx OR (ucast r AND Maskx))]"
      using 2 by (simp add: runetochar_def Let_def word_le_nat_alt)
    have "unat r div 64 < 32" using 2 by simp
    then show ?thesis using 2 unat_lead2 [of "ucast r"]
      by (simp add: e chartorune_def Let_def decode2_bits h word_less_nat_alt word_le_nat_alt)
  next
    case 3
    have e: "runetochar r = [ucast (T3 OR drop_bit 12 (ucast r :: u32)), 
        ucast (Tx OR (drop_bit 6 (ucast r) AND Maskx)), ucast (Tx OR (ucast r AND Maskx))]"
      using 3 by (simp add: runetochar_def Let_def word_le_nat_alt)
    have "unat r div 4096 < 16" using unat_u16_less [of r] by arith
    then show ?thesis using 3 r unat_lead3 [of "ucast r"] 
      by (simp add: e chartorune_def Let_def decode3_bits word_less_nat_alt word_le_nat_alt
          del: push_bit_or push_bit_xor push_bit_push_bit)
  qed
qed

lemma chartorune_width: "snd (chartorune s) = 1 \<or> snd (chartorune s) = 2 \<or> snd (chartorune s) = 3"
  by (simp add: chartorune_def Let_def)

lemma cont_inside: "(ucast (at s i) XOR Tx) AND Testx = 0 \<Longrightarrow> i < length s"
  by (rule ccontr) simp

lemma chartorune_cont:
  "snd (chartorune s) = 2 \<Longrightarrow> (ucast (at s 1) XOR Tx) AND Testx = 0"
  "snd (chartorune s) = 3 \<Longrightarrow> (ucast (at s 2) XOR Tx) AND Testx = 0"
  by (auto simp: chartorune_def Let_def split: if_splits)

lemma chartorune_inside:
  assumes "s \<noteq> []"
  shows "snd (chartorune s) \<le> length s"
  using chartorune_width [of s]
proof (elim disjE)
  assume "snd (chartorune s) = 1"
  then show ?thesis using assms by (simp add: Suc_le_eq)
next
  assume "snd (chartorune s) = 2"
  then show ?thesis using cont_inside [OF chartorune_cont(1) [of s]] by simp
next
  assume "snd (chartorune s) = 3"
  then show ?thesis using cont_inside [OF chartorune_cont(2) [of s]] by simp
qed

lemma cont_bits:
  assumes "(ucast (b :: u8) XOR Tx) AND Testx = 0"
  shows "bit b 7" "\<not> bit b 6"
  using arg_cong [OF assms, of "\<lambda>w. bit w 7"] arg_cong [OF assms, of "\<lambda>w. bit w 6"]
  by (simp_all add: bit_simps)

lemma lead2_bits: 
  assumes "\<not> ucast (a::u8) < T2" "ucast a < T3"
  shows "bit a 7" "bit a 6" "\<not> bit a 5"
proof -
  have "192 \<le> unat a" "unat a < 224" using assms by (simp_all add: word_less_nat_alt)
  then have "unat a div 128 = 1" "unat a div 64 = 3" "unat a div 32 = 6" by auto
  then show "bit a 7" "bit a 6" "\<not> bit a 5" by (simp_all add: bit_unat_div)
qed

lemma lead3_bits: 
  assumes "\<not> ucast (a::u8) < T3" "ucast a < T4"
  shows "bit a 7" "bit a 6" "bit a 5" "\<not> bit a 4"
proof -
  have "224 \<le> unat a" "unat a < 240" using assms by (simp_all add: word_less_nat_alt)
  then have "unat a div 128 = 1" "unat a div 64 = 3" "unat a div 32 = 7" "unat a div 16 = 14" by auto
  then show "bit a 7" "bit a 6" "bit a 5" "\<not> bit a 4" by (simp_all add: bit_unat_div)
qed

lemma encode2_bits:
  assumes "bit (a::u8) 7" "bit a 6" "\<not> bit a 5" "bit (b::u8) 7" "\<not> bit b 6"
    and l: "l = (push_bit 6 (ucast a) OR (ucast b XOR Tx)) AND Rune2" "\<not> l \<le> Rune1"
  shows "runetochar (ucast l) = [a, b]"
proof -
  have r: "unat l < 65536" "unat l \<le> 2047"
    using unat_and_less [of Rune2 65536] unat_and_le [of _ Rune2] by (simp_all add: l(1))
  then have "runetochar (ucast l) = [ucast (T2 OR drop_bit 6 l), ucast (Tx OR (l AND Maskx))]"
    using l(2) by (simp add: runetochar_def Let_def ucast_ucast_32 word_le_nat_alt)
  also have "\<dots> = [a, b]"
    by (intro list.inject [THEN iffD2] conjI refl; rule word8_eqI)
      (simp_all add: l(1) bit_simps assms(1-5))
  finally show ?thesis .
qed

lemma encode3_bits:
  assumes "bit (a::u8) 7" "bit a 6" "bit a 5" "\<not> bit a 4" "bit (b::u8) 7" "\<not> bit b 6" "bit (c::u8) 7" "\<not> bit c 6"
    and l: "l = (push_bit 6 (push_bit 6 (ucast a) OR (ucast b XOR Tx)) OR (ucast c XOR Tx)) AND Rune3" "\<not> l \<le> Rune2"
  shows "runetochar (ucast l) = [a, b, c]"
proof -
  have r: "unat l < 65536"
    using unat_and_less [of Rune3 65536] by (simp add: l(1))
  moreover have "\<not> l \<le> Rune1" using l(2) by (simp add: word_le_nat_alt)
  ultimately have "runetochar (ucast l) = [ucast (T3 OR drop_bit 12 l), ucast (Tx OR (drop_bit 6 l AND Maskx)), ucast (Tx OR (l AND Maskx))]"
    using l(2) by (simp add: runetochar_def Let_def ucast_ucast_32)
  also have "\<dots> = [a, b, c]"
    by (intro list.inject [THEN iffD2] conjI refl; rule word8_eqI)
      (simp_all add: l(1) bit_simps assms(1-8))
  finally show ?thesis .
qed

lemma at_take: "take 2 (x # s) = x # (if s = [] then [] else [at s 0])"
  by (cases s) auto

lemma runetochar_chartorune:
  assumes "s \<noteq> []" "chartorune s = (r, n)" "1 < n \<or> at s 0 < 0x80"
  shows "runetochar r = take n s"
proof (cases "at s 0 < 0x80")
  case True
  then have "r = ucast (at s 0)" "n = 1" using assms(2)
    by (auto simp: chartorune_def Let_def word_less_nat_alt)
  moreover have "unat (ucast (at s 0) :: u16) < 128" using True by (simp add: word_less_nat_alt)
  ultimately show ?thesis using assms(1)
    by (cases s) (auto simp: runetochar_def Let_def word_le_nat_alt word_unat_eq_iff unat_ucast_down)
next
  case False
  note F = False
  then have c0: "\<not> ucast (at s 0) < Tx" by (simp add: word_less_nat_alt)
  have c1: "(ucast (at s 1) XOR Tx) AND Testx = 0"
    using assms(2,3) F c0 by (auto simp: chartorune_def Let_def split: if_splits)
  show ?thesis
  proof (cases "ucast (at s 0) < T3")
    case True
    let ?l = "(push_bit 6 (ucast (at s 0)) OR (ucast (at s 1) XOR Tx)) AND Rune2"
    have *: "\<not> ucast (at s 0) < T2" "\<not> ?l \<le> Rune1" "r = ucast ?l" "n = 2"
      using assms(2,3) F c0 c1 True by (auto simp: chartorune_def Let_def split: if_splits)
    have "runetochar r = [at s 0, at s 1]"
      unfolding *(3) by (rule encode2_bits [OF lead2_bits [OF *(1) True] cont_bits [OF c1] refl *(2)])
    also have "\<dots> = take 2 s" using cont_inside [OF c1]
      by (cases s; cases "tl s") (auto simp: at_def)
    finally show ?thesis using *(4) by simp
  next
    case False
    let ?l = "(push_bit 6 (push_bit 6 (ucast (at s 0)) OR (ucast (at s 1) XOR Tx)) OR (ucast (at s 2) XOR Tx)) AND Rune3"
    have *: "(ucast (at s 2) XOR Tx) AND Testx = 0" "ucast (at s 0) < T4" "\<not> ?l \<le> Rune2" "r = ucast ?l" "n = 3"
      using assms(2,3) F c0 c1 False by (auto simp: chartorune_def Let_def split: if_splits)
    have "runetochar r = [at s 0, at s 1, at s 2]"
      unfolding *(4) by (rule encode3_bits [OF lead3_bits [OF False *(2)] cont_bits [OF c1] cont_bits [OF *(1)] refl *(3)])
    also have "\<dots> = take 3 s" using cont_inside [OF *(1)]
      by (cases s; cases "tl s"; cases "tl (tl s)") (auto simp: at_def numeral_eq_Suc)
    finally show ?thesis using *(5) by simp
  qed
qed

definition runelen :: "int \<Rightarrow> nat" where
  "runelen c = (if c \<le> 0x7F then 1 else if c \<le> 0x7FF then 2 else 3)"

fun runenlen :: "u16 list \<Rightarrow> nat \<Rightarrow> nat" where
  "runenlen r 0 = 0"
| "runenlen r (Suc l) =
     (let c = ucast (hd r) :: u32
      in (if c \<le> Rune1 then 1 else if c \<le> Rune2 then 2 else 3) + runenlen (tl r) l)"

definition fullrune :: "u8 list \<Rightarrow> int \<Rightarrow> bool" where
  "fullrune str n =
     (if n > 0 then
        (let c = ucast (at str 0) :: u32
         in if c < Tx then True
            else if n > 1 then (c < T3 \<or> n > 2) else False)
      else False)"

lemma chartorune_pos: "0 < snd (chartorune s)"
  using chartorune_width [of s] by auto

function utflen_loop :: "u8 list \<Rightarrow> nat \<Rightarrow> nat" where
  "utflen_loop s n =
     (let c = at s 0 in
      if c < 0x80 then (if c = 0 then n else utflen_loop (drop 1 s) (n + 1))
      else utflen_loop (drop (snd (chartorune s)) s) (n + 1))"
  by pat_completeness auto

termination
proof (relation "measure (\<lambda>(s, n). length s)")
  fix s :: "u8 list" and n :: nat and x
  assume "x = at s 0" "x < 0x80" "x \<noteq> 0"
  then show "((drop 1 s, n + 1), s, n) \<in> measure (\<lambda>(s, n). length s)"
    using at_nonempty [of s 0] by simp
next
  fix s :: "u8 list" and n :: nat and x
  assume "x = at s 0" "\<not> x < 0x80"
  then have "0 < length s" using at_nonempty [of s 0] by (cases s) auto
  then show "((drop (snd (chartorune s)) s, n + 1), s, n) \<in> measure (\<lambda>(s, n). length s)"
    using chartorune_pos [of s] by simp
qed simp

declare utflen_loop.simps [simp del]

definition utflen :: "u8 list \<Rightarrow> nat" where
  "utflen s = utflen_loop s 0"

function utfnlen_loop :: "u8 list \<Rightarrow> int \<Rightarrow> nat \<Rightarrow> nat" where
  "utfnlen_loop s m n =
     (if m > 0 then
        (let c = at s 0 in
         if c < 0x80 then (if c = 0 then n else utfnlen_loop (drop 1 s) (m - 1) (n + 1))
         else if \<not> fullrune s m then n
         else utfnlen_loop (drop (snd (chartorune s)) s) (m - int (snd (chartorune s))) (n + 1))
      else n)"
  by pat_completeness auto
termination
  by (relation "measure (\<lambda>(s, m, n). nat m)") (use chartorune_pos in auto)

declare utfnlen_loop.simps [simp del]

definition utfnlen :: "u8 list \<Rightarrow> int \<Rightarrow> nat" where
  "utfnlen s m = utfnlen_loop s m 0"

definition encode :: "u16 list \<Rightarrow> u8 list" where
  "encode rs = concat (map runetochar rs)"

fun fits :: "u16 list \<Rightarrow> nat \<Rightarrow> nat" where
  "fits [] m = 0"
| "fits (r # rs) m =
     (if length (runetochar r) \<le> m then Suc (fits rs (m - length (runetochar r))) else 0)"

lemma encode_simps [simp]: "encode [] = []" "encode (r # rs) = runetochar r @ encode rs"
  "encode (rs @ ss) = encode rs @ encode ss"
  by (simp_all add: encode_def)

lemma length_runetochar_pos [simp]: "0 < length (runetochar r)" "runetochar r \<noteq> []"
  by (simp_all add: runetochar_def Let_def)

lemma runetochar_ascii: "unat r < 128 \<Longrightarrow> runetochar r = [ucast r]"
  by (simp add: runetochar_def Let_def word_le_nat_alt) (rule word8_eqI; simp add: bit_simps)

lemma runetochar_lead2:
  "128 \<le> unat r \<Longrightarrow> unat r < 2048 \<Longrightarrow>
   length (runetochar r) = 2 \<and> unat (at (runetochar r @ t) 0) = 192 + unat r div 64"
  using unat_lead2 [of "ucast r"] by (simp add: runetochar_def Let_def word_le_nat_alt)

lemma runetochar_lead3:
  "2048 \<le> unat r \<Longrightarrow>
   length (runetochar r) = 3 \<and> unat (at (runetochar r @ t) 0) = 224 + unat r div 4096"
  using unat_lead3 [of "ucast r"] unat_u16_less [of r]
  by (simp add: runetochar_def Let_def word_le_nat_alt)

lemma runetochar_lead_ge:
  assumes "128 \<le> unat r"
  shows "192 \<le> unat (at (runetochar r @ t) 0)"
  using runetochar_lead2 [of r t] runetochar_lead3 [of r t] assms
  by (cases "unat r < 2048") auto

lemma utflen_loop_encode: "0 \<notin> set rs \<Longrightarrow> utflen_loop (encode rs) n = n + length rs"
proof (induction rs arbitrary: n)
  case Nil
  then show ?case by (simp add: utflen_loop.simps)
next
  case (Cons r rs)
  have nz: "r \<noteq> 0" using Cons.prems by auto
  show ?case
  proof (cases "unat r < 128")
    case True
    then have u: "unat (ucast r :: u8) = unat r" by (simp add: unat_ucast_down)
    then have "(ucast r :: u8) \<noteq> 0" using nz by (metis unat_eq_zero unsigned_0)
    then show ?thesis using Cons True u
      by (subst utflen_loop.simps) (auto simp: runetochar_ascii word_less_nat_alt Let_def)
  next
    case False
    then have "\<not> at (runetochar r @ encode rs) 0 < 0x80"
      using runetochar_lead_ge [of r "encode rs"] by (simp add: word_less_nat_alt)
    then show ?thesis using Cons
      by (subst utflen_loop.simps) (simp add: Let_def chartorune_runetochar)
  qed
qed

lemma utflen_encode: "0 \<notin> set rs \<Longrightarrow> utflen (encode rs) = length rs"
  by (simp add: utflen_def utflen_loop_encode)

lemma fullrune_local:
  assumes "\<And>i. int i < m \<Longrightarrow> at s i = at t i"
  shows "fullrune s m = fullrune t m"
  using assms [of 0] by (auto simp: fullrune_def Let_def)

lemma chartorune_local:
  assumes "fullrune s m" "\<And>i. int i < m \<Longrightarrow> at s i = at t i"
  shows "chartorune s = chartorune t \<and> int (snd (chartorune s)) \<le> m"
proof -
  have "at s 0 = at t 0" using assms by (auto simp: fullrune_def split: if_splits)
  moreover have "at s 1 = at t 1 \<and> 2 \<le> m" if "\<not> ucast (at s 0) < Tx"
    using that assms by (auto simp: fullrune_def Let_def split: if_splits)
  moreover have "at s 2 = at t 2 \<and> 3 \<le> m" if "\<not> ucast (at s 0) < Tx" "\<not> ucast (at s 0) < T3"
    using that assms by (auto simp: fullrune_def Let_def split: if_splits)
  moreover have "1 \<le> m" using assms(1) by (auto simp: fullrune_def split: if_splits)
  ultimately show ?thesis by (auto simp: chartorune_def Let_def)
qed

lemma utfnlen_loop_local:
  "(\<And>i. int i < m \<Longrightarrow> at s i = at t i) \<Longrightarrow> utfnlen_loop s m n = utfnlen_loop t m n"
proof (induction s m n arbitrary: t rule: utfnlen_loop.induct)
  case (1 s m n)
  show ?case
  proof (cases "m > 0")
    case True
    then have a: "at s 0 = at t 0" using 1(3) [of 0] by simp
    have d1: "at (drop 1 s) i = at (drop 1 t) i" if "int i < m - 1" for i
      using 1(3) [of "1 + i"] that by (simp add: at_drop)
    have dk: "at (drop k s) i = at (drop k t) i" if "int i < m - int k" for i k
      using 1(3) [of "k + i"] that by (simp add: at_drop)
    show ?thesis
      using True a 1(1) [OF True refl _ _ d1] 1(2) [OF True refl _ _ dk] fullrune_local [OF 1(3)]
        chartorune_local [OF _ 1(3)]
      by (subst (1 2) utfnlen_loop.simps) (auto simp: Let_def)
  next
    case False
    then show ?thesis by (subst (1 2) utfnlen_loop.simps) simp
  qed
qed

lemma fullrune_runetochar:
  "128 \<le> unat r \<Longrightarrow> fullrune (runetochar r @ t) m \<longleftrightarrow> int (length (runetochar r)) \<le> m"
  using runetochar_lead2 [of r t] runetochar_lead3 [of r t] unat_u16_less [of r]
  by (cases "unat r < 2048") (auto simp: fullrune_def Let_def word_less_nat_alt)

lemma utfnlen_loop_encode:
  "0 \<notin> set rs \<Longrightarrow> utfnlen_loop (encode rs) m n = n + fits rs (nat m)"
proof (induction rs arbitrary: n m)
  case Nil
  then show ?case by (simp add: utfnlen_loop.simps)
next
  case (Cons r rs)
  have nz: "r \<noteq> 0" using Cons.prems by auto
  show ?case
  proof (cases "unat r < 128")
    case True
    then have u: "unat (ucast r :: u8) = unat r" by (simp add: unat_ucast_down)
    then have "(ucast r :: u8) \<noteq> 0" using nz by (metis unat_eq_zero unsigned_0)
    then show ?thesis using Cons True u
      by (subst utfnlen_loop.simps)
        (auto simp: runetochar_ascii word_less_nat_alt Let_def nat_diff_distrib)
  next
    case False
    then have "\<not> at (runetochar r @ encode rs) 0 < 0x80"
      using runetochar_lead_ge [of r "encode rs"] by (simp add: word_less_nat_alt)
    then show ?thesis using Cons False
      by (subst utfnlen_loop.simps)
        (auto simp: Let_def chartorune_runetochar fullrune_runetochar nat_diff_distrib)
  qed
qed

lemma utfnlen_encode: "0 \<notin> set rs \<Longrightarrow> utfnlen (encode rs) m = fits rs (nat m)"
  by (simp add: utfnlen_def utfnlen_loop_encode)

fun backup :: "u8 list \<Rightarrow> nat \<Rightarrow> nat" where
  "backup b 0 = 0"
| "backup b (Suc i) = (if b ! i AND 0xC0 = 0x80 then backup b i else i)"

definition utfecpy :: "u8 list \<Rightarrow> u8 list \<Rightarrow> nat \<times> u8 list" where
  "utfecpy buf from =
     (let k = length buf in
      if k = 0 then (0, buf)
      else if length from < k then (length from, from @ [0] @ drop (length from + 1) buf)
      else let b = take k from; i = backup b k in (i, b[i := 0]))"

lemma runetochar_cont:
  assumes "0 < i" "i < length (runetochar r)"
  shows "runetochar r ! i AND 0xC0 = 0x80"
proof -
  have c: "(ucast (Tx OR (x AND Maskx)) :: u8) AND 0xC0 = 0x80" for x
    by (rule word8_eqI) (simp_all add: bit_simps)
  show ?thesis using assms c
    by (auto simp: runetochar_def Let_def less_Suc_eq numeral_eq_Suc split: if_splits)
qed

lemma runetochar_not_cont: "runetochar r ! 0 AND 0xC0 \<noteq> 0x80"
proof (cases "unat r < 128")
  case True
  then have "\<not> bit r 7" by (intro small_not_bit [where n = 7]) auto
  then have "bit (runetochar r ! 0 AND 0xC0) 7 \<noteq> bit (0x80 :: u8) 7"
    using True by (simp add: runetochar_ascii bit_simps)
  then show ?thesis by metis
next
  case False
  let ?a = "runetochar r ! 0"
  have "192 \<le> unat ?a" using runetochar_lead_ge [of r "[]"] False by (simp add: at_def)
  then have "unat ?a div 64 = 3" using unat_u8_less [of ?a] by linarith
  then have "bit ?a 6" by (simp add: bit_unat_div)
  then have "bit (?a AND 0xC0) 6 \<noteq> bit (0x80 :: u8) 6" by (simp add: bit_simps)
  then show ?thesis by metis
qed

lemma backup_encode:
  assumes "k < length (encode (rs @ [r]))" "length (encode rs) \<le> k"
  shows "backup (take (Suc k) (encode (rs @ r # ss))) (Suc k) = length (encode rs)"
  using assms
proof (induction "k - length (encode rs)" arbitrary: k)
  case 0
  then show ?case using runetochar_not_cont [of r] by (simp add: nth_append)
next
  case (Suc d)
  then obtain k' where k: "k = Suc k'" by (cases k) auto
  let ?e = "encode (rs @ r # ss)"
  have "?e ! k = runetochar r ! (k - length (encode rs))"
    using Suc.prems Suc.hyps(2) by (simp add: nth_append less_diff_conv2)
  then have c: "?e ! k AND 0xC0 = 0x80"
    using runetochar_cont [of "k - length (encode rs)" r] Suc.prems Suc.hyps(2) by simp
  have b: "backup (take (Suc n) e) n = backup (take n e) n" for n and e :: "u8 list"
  proof -
    have "m \<le> n \<Longrightarrow> backup (take (Suc n) e) m = backup (take n e) m" for m
      by (induction m) auto
    then show ?thesis by simp
  qed
  have "backup (take (Suc k) ?e) (Suc k) = backup (take (Suc k) ?e) k"
    by (simp only: backup.simps nth_take [OF lessI] c if_True simp_thms)
  also have "\<dots> = backup (take k ?e) k" by (rule b)
  also have "\<dots> = length (encode rs)"
    unfolding k using Suc.hyps(1) [of k'] Suc.hyps(2) Suc.prems k by simp
  finally show ?case .
qed

lemma fits_split:
  "fits rs m < length rs \<Longrightarrow>
   length (encode (take (fits rs m) rs)) \<le> m \<and> m < length (encode (take (Suc (fits rs m)) rs))"
  by (induction rs m rule: fits.induct) auto

lemma fits_all: "fits rs m = length rs \<longleftrightarrow> length (encode rs) \<le> m"
  by (induction rs m rule: fits.induct) (auto simp: le_diff_conv2)

lemma fits_le: "fits rs m \<le> length rs"
  by (induction rs m rule: fits.induct) auto

lemma backup_whole:
  assumes "k < length (encode rs)"
  shows "fits rs k < length rs"
    and "length (encode (take (fits rs k) rs)) \<le> k"
    and "backup (take (Suc k) (encode rs)) (Suc k) = length (encode (take (fits rs k) rs))"
    and "take (length (encode (take (fits rs k) rs))) (encode rs) = encode (take (fits rs k) rs)"
proof -
  let ?j = "fits rs k"
  show j: "?j < length rs" using assms fits_all [of rs k] fits_le [of rs k] by auto
  have sp: "rs = take ?j rs @ rs ! ?j # drop (Suc ?j) rs" using j by (rule id_take_nth_drop)
  have b: "length (encode (take ?j rs)) \<le> k \<and> k < length (encode (take ?j rs @ [rs ! ?j]))"
    using fits_split [of rs k] j by (simp add: take_Suc_conv_app_nth)
  then show "length (encode (take ?j rs)) \<le> k" by simp
  show "backup (take (Suc k) (encode rs)) (Suc k) = length (encode (take ?j rs))"
    using backup_encode [OF conjunct2 [OF b] conjunct1 [OF b], of "drop (Suc ?j) rs"]
    by (simp only: sp [symmetric])
  show "take (length (encode (take ?j rs))) (encode rs) = encode (take ?j rs)"
    using arg_cong [OF sp, of encode] by simp
qed

lemma utfecpy_encode:
  assumes "buf \<noteq> []" "utfecpy buf (encode rs) = (e, out)"
  shows "length out = length buf \<and> e < length buf \<and> out ! e = 0 \<and>
    take e out = encode (take (fits rs (length buf - 1)) rs)"
proof (cases "length (encode rs) < length buf")
  case True
  then have "fits rs (length buf - 1) = length rs" by (simp add: fits_all)
  then show ?thesis using assms True by (auto simp: utfecpy_def Let_def nth_append)
next
  case False
  obtain k where k: "length buf = Suc k" using assms(1) by (cases buf) auto
  have l: "k < length (encode rs)" using False k by simp
  note b = backup_whole [OF l]
  have "e = length (encode (take (fits rs k) rs))" "out = (take (Suc k) (encode rs))[e := 0]"
    using assms False k b(3) by (auto simp: utfecpy_def Let_def)
  then show ?thesis using b k l by (auto simp: min_def)
qed

fun strchr :: "u8 list \<Rightarrow> u8 \<Rightarrow> nat option" where
  "strchr [] c = (if c = 0 then Some 0 else None)"
| "strchr (x # s) c = (if x = c then Some 0 else map_option Suc (strchr s c))"

fun strrchr_loop :: "u8 list \<Rightarrow> u8 \<Rightarrow> nat \<Rightarrow> nat option \<Rightarrow> nat option" where
  "strrchr_loop [] c i r = (if c = 0 then Some i else r)"
| "strrchr_loop (x # s) c i r = strrchr_loop s c (Suc i) (if x = c then Some i else r)"

lemma lead_nonempty: "\<not> at s 0 < 0x80 \<Longrightarrow> s \<noteq> []"
  by (cases s) auto

lemma chartorune_shorter:
  "\<not> at s 0 < 0x80 \<Longrightarrow> (r, n) = chartorune s \<Longrightarrow> length (drop n s) < length s"
  using lead_nonempty [of s] chartorune_pos [of s] by (cases "chartorune s") simp

lemma uint_ge_128: "128 \<le> unat c \<Longrightarrow> \<not> uint c < 128"
proof -
  assume "128 \<le> unat c"
  then have "int 128 \<le> int (unat c)" by (simp only: of_nat_le_iff)
  then show ?thesis by simp
qed

function utfrune_loop :: "u8 list \<Rightarrow> int \<Rightarrow> nat \<Rightarrow> nat option" where
  "utfrune_loop s c off =
     (let c1 = at s 0 in
      if c1 < 0x80 then
        (if c1 = 0 then None
         else if uint c1 = c then Some off
         else utfrune_loop (drop 1 s) c (off + 1))
      else let (r, n) = chartorune s in
        if uint r = c then Some off else utfrune_loop (drop n s) c (off + n))"
  by pat_completeness auto

termination
  by (relation "measure (\<lambda>(s, c, off). length s)")
    (use at_nonempty [of _ 0] chartorune_shorter in auto)

declare utfrune_loop.simps [simp del]

definition utfrune :: "u8 list \<Rightarrow> int \<Rightarrow> nat option" where
  "utfrune s c = (if c < 0x80 then strchr s (word_of_int c) else utfrune_loop s c 0)"

function utfrrune_loop :: "u8 list \<Rightarrow> int \<Rightarrow> nat \<Rightarrow> nat option \<Rightarrow> nat option" where
  "utfrrune_loop s c off s1 =
     (let c1 = at s 0 in
      if c1 < 0x80 then
        (if c1 = 0 then s1
         else utfrrune_loop (drop 1 s) c (off + 1) (if uint c1 = c then Some off else s1))
      else let (r, n) = chartorune s in
        utfrrune_loop (drop n s) c (off + n) (if uint r = c then Some off else s1))"
  by pat_completeness auto
termination
  by (relation "measure (\<lambda>(s, c, off, s1). length s)")
    (use at_nonempty [of _ 0] chartorune_shorter in auto)

declare utfrrune_loop.simps [simp del]

definition utfrrune :: "u8 list \<Rightarrow> int \<Rightarrow> nat option" where
  "utfrrune s c =
     (if c < 0x80 then strrchr_loop s (word_of_int c) 0 None else utfrrune_loop s c 0 None)"

lemma utfrune_loop_encode:
  "0 \<notin> set rs \<Longrightarrow> 128 \<le> unat c \<Longrightarrow> utfrune_loop (encode rs) (uint c) off =
     (if c \<in> set rs then Some (off + length (encode (takeWhile (\<lambda>r. r \<noteq> c) rs))) else None)"
proof (induction rs arbitrary: off)
  case Nil
  then show ?case by (simp add: utfrune_loop.simps)
next
  case (Cons r rs)
  show ?case
  proof (cases "unat r < 128")
    case True
    then have u: "unat (ucast r :: u8) = unat r" by (simp add: unat_ucast_down)
    then have "(ucast r :: u8) \<noteq> 0" using Cons.prems by (metis unat_eq_zero unsigned_0 list.set_intros(1))
    moreover have "uint (ucast r :: u8) \<noteq> uint c" 
      using u True Cons.prems(2) by (metis nat_uint_eq not_le)
    ultimately show ?thesis using Cons True u
      by (subst utfrune_loop.simps) (auto simp: runetochar_ascii word_less_nat_alt Let_def)
  next
    case False
    then have "\<not> at (runetochar r @ encode rs) 0 < 0x80"
      using runetochar_lead_ge [of r "encode rs"] by (simp add: word_less_nat_alt)
    then show ?thesis using Cons
      by (subst utfrune_loop.simps) (auto simp: Let_def chartorune_runetochar)
  qed
qed

lemma utfrune_encode:
  "0 \<notin> set rs \<Longrightarrow> 128 \<le> unat c \<Longrightarrow> utfrune (encode rs) (uint c) =
     (if c \<in> set rs then Some (length (encode (takeWhile (\<lambda>r. r \<noteq> c) rs))) else None)"
  using utfrune_loop_encode [of rs c 0] by (simp add: utfrune_def uint_ge_128)

lemma utfrrune_loop_step:
  assumes "r \<noteq> 0" "128 \<le> unat c"
  shows "utfrrune_loop (runetochar r @ t) (uint c) off s1 =
     utfrrune_loop t (uint c) (off + length (runetochar r)) (if r = c then Some off else s1)"
proof (cases "unat r < 128")
  case True
  then have u: "unat (ucast r :: u8) = unat r" by (simp add: unat_ucast_down)
  then have "(ucast r :: u8) \<noteq> 0" using assms(1) by (metis unat_eq_zero unsigned_0)
  moreover have "uint (ucast r :: u8) \<noteq> uint c" "r \<noteq> c"
    using u True assms(2) by (metis nat_uint_eq not_le)+
  ultimately show ?thesis using True u
    by (subst utfrrune_loop.simps) (auto simp: runetochar_ascii word_less_nat_alt Let_def)
next
  case False
  then have "\<not> at (runetochar r @ t) 0 < 0x80"
    using runetochar_lead_ge [of r t] by (simp add: word_less_nat_alt)
  then show ?thesis
    by (subst utfrrune_loop.simps) (auto simp: Let_def chartorune_runetochar)
qed

lemma utfrrune_loop_absent:
  "0 \<notin> set rs \<Longrightarrow> 128 \<le> unat c \<Longrightarrow> c \<notin> set rs \<Longrightarrow> utfrrune_loop (encode rs) (uint c) off s1 = s1"
proof (induction rs arbitrary: off s1)
  case Nil
  then show ?case by (simp add: utfrrune_loop.simps)
next
  case (Cons r rs)
  then show ?case by (auto simp: utfrrune_loop_step)
qed

lemma utfrrune_loop_present:
  "0 \<notin> set xs \<Longrightarrow> 0 \<notin> set ys \<Longrightarrow> 128 \<le> unat c \<Longrightarrow> c \<notin> set ys \<Longrightarrow>
   utfrrune_loop (encode (xs @ c # ys)) (uint c) off s1 = Some (off + length (encode xs))"
proof (induction xs arbitrary: off s1)
  case Nil
  then have "c \<noteq> 0" by auto
  then show ?case using Nil utfrrune_loop_absent [of ys c]
    by (simp add: utfrrune_loop_step)
next
  case (Cons r xs)
  then show ?case by (auto simp: utfrrune_loop_step)
qed

lemma runenlen_encode: "l \<le> length rs \<Longrightarrow> runenlen rs l = length (encode (take l rs))"
proof (induction l arbitrary: rs)
  case 0
  then show ?case by simp
next
  case (Suc l)
  then obtain r rs' where "rs = r # rs'" by (cases rs) auto
  then show ?case using Suc by (simp add: Let_def runetochar_def)
qed

lemma utfrrune_encode:
  assumes "0 \<notin> set rs" "128 \<le> unat c"
  shows "utfrrune (encode rs) (uint c) =
     (if c \<in> set rs then Some (length (encode (rev (tl (dropWhile (\<lambda>r. r \<noteq> c) (rev rs)))))) else None)"
proof (cases "c \<in> set rs")
  case True
  then obtain xs ys where rs: "rs = xs @ c # ys" "c \<notin> set ys" by (metis split_list_last)
  have "dropWhile (\<lambda>r. r \<noteq> c) (rev ys) = []" using rs(2) by (auto simp: dropWhile_eq_Nil_conv)
  then have "dropWhile (\<lambda>r. r \<noteq> c) (rev rs) = c # rev xs"
    using rs by (simp add: dropWhile_append)
  then show ?thesis using utfrrune_loop_present [of xs ys c 0 None] assms rs uint_ge_128 [OF assms(2)]
    by (simp add: utfrrune_def)
next
  case False
  then show ?thesis using utfrrune_loop_absent [OF assms False] uint_ge_128 [OF assms(2)]
    by (simp add: utfrrune_def)
qed

definition decrune :: "u8 list \<Rightarrow> (u16 \<times> u8 list) option" where
  "decrune s = (if s = [] then None else case chartorune s of (r, n) \<Rightarrow> Some (r, drop n s))"

interpretation utf: codec runetochar decrune "\<lambda>r. True"
  by unfold_locales (simp add: decrune_def chartorune_runetochar)

lemma encode_inj: "encode rs = encode ss \<Longrightarrow> rs = ss"
proof (induction rs arbitrary: ss)
  case Nil
  then show ?case by (cases ss) auto
next
  case (Cons r rs)
  then obtain q qs where ss: "ss = q # qs" by (cases ss) auto
  show ?case using utf.enc_prefix_free [where x = r and y = q and s = "encode rs" and t = "encode qs"] Cons ss by auto
qed

lemma runelen_runetochar: "runelen (uint r) = length (runetochar r)"
proof -
  have "uint r = int (unat r)" by simp
  then have "uint r \<le> int k \<longleftrightarrow> unat r \<le> k" for k by (simp only: of_nat_le_iff)
  from this [of 127] this [of 2047] show ?thesis
    by (auto simp: runelen_def runetochar_def Let_def word_le_nat_alt)
qed

subsection \<open>What the routines promise\<close>

text \<open>
  C17: decoding the bytes \<open>runetochar\<close> wrote for a rune gives that rune and the number of
  bytes written, whatever bytes follow; so encodings are uniquely decodable.
\<close>
theorem chartorune_of_runetochar:
  "chartorune (runetochar r @ s) = (r, length (runetochar r)) \<and>
   runelen (uint r) = length (runetochar r)"
  by (simp add: chartorune_runetochar runelen_runetochar)

text \<open>
  C18: \<open>chartorune\<close> takes only shortest-form encodings: unless it reports an error (one byte
  consumed, first byte not ASCII), the bytes it consumed are the ones \<open>runetochar\<close> writes.
\<close>
theorem runetochar_of_chartorune:
  "s \<noteq> [] \<Longrightarrow> chartorune s = (r, n) \<Longrightarrow> 1 < n \<or> at s 0 < 0x80 \<Longrightarrow> runetochar r = take n s"
  by (rule runetochar_chartorune)

lemma runetochar_of_chartorune_witness: "runetochar 0x20AC = take 3 [0xE2, 0x82, 0xAC, 0x21]"
  by (rule runetochar_of_chartorune) (simp_all add: chartorune_def)

text \<open>
  on a non-empty string \<open>chartorune\<close> consumes at least one byte and never one past the
  terminating NUL, so a scan by \<open>chartorune\<close> stays inside its string.
\<close>
theorem chartorune_reads_inside:
  "s \<noteq> [] \<Longrightarrow> 0 < snd (chartorune s) \<and> snd (chartorune s) \<le> length s"
  using chartorune_pos chartorune_inside by blast

lemma chartorune_reads_inside_witness:
  "0 < snd (chartorune [0xE2, 0x82]) \<and> snd (chartorune [0xE2, 0x82]) \<le> 2"
  using chartorune_reads_inside [of "[0xE2, 0x82]"] by simp

text \<open>
  \<open>utflen\<close> counts the runes of a string and \<open>utfnlen\<close> those that end within its
  first \<open>m\<close> bytes: a rune cut at \<open>m\<close> is not counted.
\<close>
theorem utfnlen_counts:
  assumes "0 \<notin> set rs"
  shows "utflen (encode rs) = length rs \<and> utfnlen (encode rs) m = fits rs (nat m)"
  using utflen_encode [OF assms] utfnlen_encode [OF assms] by simp

lemma utfnlen_counts_witness:
  "utflen (encode [0x41, 0xE9]) = 2 \<and> utfnlen (encode [0x41, 0xE9]) 2 = 1"
  using utfnlen_counts [of "[0x41, 0xE9]" 2] by (simp add: runetochar_def)

text \<open>
  \<open>utfecpy\<close> copies the longest prefix of whole runes that fits before the terminating NUL,
  returns the position of that NUL and keeps to the destination.
\<close>
theorem utfecpy_whole_runes:
  assumes "buf \<noteq> []" "utfecpy buf (encode rs) = (e, out)"
  shows "length out = length buf \<and> e < length buf \<and> out ! e = 0 \<and>
    take e out = encode (take (fits rs (length buf - 1)) rs)"
  by (rule utfecpy_encode [OF assms])

lemma encode_sample: "encode [0x41, 0xE9, 0xE9] = [0x41, 0xC3, 0xA9, 0xC3, 0xA9]"
  by (simp add: runetochar_def)

lemma backup_step:
  "backup b (numeral n) =
     (if b ! pred_numeral n AND 0xC0 = 0x80 then backup b (pred_numeral n) else pred_numeral n)"
  by (simp add: numeral_eq_Suc)

lemma utfecpy_whole_runes_witness:
  "take 1 [0x41, 0, 0xA9] = encode (take (fits [0x41, 0xE9, 0xE9] 2) [0x41, 0xE9, 0xE9]) \<and>
   [0x41, 0, 0xA9 :: u8] ! 1 = 0"
proof -
  have "utfecpy [0, 0, 0] (encode [0x41, 0xE9, 0xE9]) = (1, [0x41, 0, 0xA9])"
    unfolding encode_sample by (simp add: utfecpy_def Let_def backup_step)
  from utfecpy_whole_runes [OF _ this] show ?thesis by (simp del: encode_simps fits.simps add: numeral_2_eq_2)
qed

text \<open>
  for a rune outside ASCII, \<open>utfrune\<close> gives the offset of its first occurrence,
  \<open>utfrrune\<close> that of its last, and both give nil when the string does not hold it.
\<close>
theorem utfrune_finds:
  assumes "0 \<notin> set rs" "128 \<le> unat c"
  shows "utfrune (encode rs) (uint c) =
      (if c \<in> set rs then Some (length (encode (takeWhile (\<lambda>r. r \<noteq> c) rs))) else None) \<and>
    utfrrune (encode rs) (uint c) =
      (if c \<in> set rs then Some (length (encode (rev (tl (dropWhile (\<lambda>r. r \<noteq> c) (rev rs)))))) else None)"
  using utfrune_encode [OF assms] utfrrune_encode [OF assms] by simp

lemma utfrune_finds_witness:
  "utfrune (encode [0xE9, 0x41, 0xE9]) 0xE9 = Some 0 \<and> utfrrune (encode [0xE9, 0x41, 0xE9]) 0xE9 = Some 3"
  using utfrune_finds [of "[0xE9, 0x41, 0xE9]" "0xE9"] by (simp add: runetochar_def)

end
