(* ===== verification/Fcall.thy ===== *)
theory Fcall
  imports Prelude
begin

text \<open>
  The message structure \<open>Fcall\<close> of \<open>include/fcall.h\<close> and its byte-order macros: \<open>GBITn m p\<close>
  reads \<open>n\<close> bits at index \<open>p\<close> of a buffer, \<open>PBITn v\<close> is the bytes a store of
  \<open>v\<close> writes.  A string field is a C string or nil; the union members are separate fields.
\<close>

record qid =
  q_path :: u64
  q_vers :: u32
  q_type :: u8

type_synonym cstring = "u8 list option"

record fcall =
  f_type :: u8
  f_fid :: u32
  f_tag :: u16
  f_msize :: u32
  f_version :: cstring
  f_oldtag :: u16
  f_ename :: cstring
  f_qid :: qid
  f_iounit :: u32
  f_aqid :: qid
  f_afid :: u32
  f_uname :: cstring
  f_aname :: cstring
  f_perm :: u32
  f_name :: cstring
  f_mode :: u8
  f_newfid :: u32
  f_nwname :: u16
  f_wname :: "cstring list"
  f_nwqid :: u16
  f_wqid :: "qid list"
  f_offset :: u64
  f_count :: u32
  f_data :: "u8 list"
  f_nstat :: u16
  f_stat :: "u8 list"

abbreviation (input) MAXWELEM :: nat where "MAXWELEM \<equiv> 16"
abbreviation (input) BIT8SZ :: nat where "BIT8SZ \<equiv> 1"
abbreviation (input) BIT16SZ :: nat where "BIT16SZ \<equiv> 2"
abbreviation (input) BIT32SZ :: nat where "BIT32SZ \<equiv> 4"
abbreviation (input) BIT64SZ :: nat where "BIT64SZ \<equiv> 8"
abbreviation (input) QIDSZ :: nat where "QIDSZ \<equiv> 13"
abbreviation (input) STATFIXLEN :: nat where "STATFIXLEN \<equiv> 49"

abbreviation (input) Tversion :: u8 where "Tversion \<equiv> 100"
abbreviation (input) Rversion :: u8 where "Rversion \<equiv> 101"
abbreviation (input) Tauth :: u8 where "Tauth \<equiv> 102"
abbreviation (input) Rauth :: u8 where "Rauth \<equiv> 103"
abbreviation (input) Tattach :: u8 where "Tattach \<equiv> 104"
abbreviation (input) Rattach :: u8 where "Rattach \<equiv> 105"
abbreviation (input) Terror :: u8 where "Terror \<equiv> 106"
abbreviation (input) Rerror :: u8 where "Rerror \<equiv> 107"
abbreviation (input) Tflush :: u8 where "Tflush \<equiv> 108"
abbreviation (input) Rflush :: u8 where "Rflush \<equiv> 109"
abbreviation (input) Twalk :: u8 where "Twalk \<equiv> 110"
abbreviation (input) Rwalk :: u8 where "Rwalk \<equiv> 111"
abbreviation (input) Topen :: u8 where "Topen \<equiv> 112"
abbreviation (input) Ropen :: u8 where "Ropen \<equiv> 113"
abbreviation (input) Tcreate :: u8 where "Tcreate \<equiv> 114"
abbreviation (input) Rcreate :: u8 where "Rcreate \<equiv> 115"
abbreviation (input) Tread :: u8 where "Tread \<equiv> 116"
abbreviation (input) Rread :: u8 where "Rread \<equiv> 117"
abbreviation (input) Twrite :: u8 where "Twrite \<equiv> 118"
abbreviation (input) Rwrite :: u8 where "Rwrite \<equiv> 119"
abbreviation (input) Tclunk :: u8 where "Tclunk \<equiv> 120"
abbreviation (input) Rclunk :: u8 where "Rclunk \<equiv> 121"
abbreviation (input) Tremove :: u8 where "Tremove \<equiv> 122"
abbreviation (input) Rremove :: u8 where "Rremove \<equiv> 123"
abbreviation (input) Tstat :: u8 where "Tstat \<equiv> 124"
abbreviation (input) Rstat :: u8 where "Rstat \<equiv> 125"
abbreviation (input) Twstat :: u8 where "Twstat \<equiv> 126"
abbreviation (input) Rwstat :: u8 where "Rwstat \<equiv> 127"

definition GBIT8 :: "u8 list \<Rightarrow> nat \<Rightarrow> u8" where
  "GBIT8 m p = m ! p"

definition GBIT16 :: "u8 list \<Rightarrow> nat \<Rightarrow> u16" where
  "GBIT16 m p = ucast (m ! p) OR push_bit 8 (ucast (m ! (p + 1)))"

definition GBIT32 :: "u8 list \<Rightarrow> nat \<Rightarrow> u32" where
  "GBIT32 m p = ucast (m ! p) OR push_bit 8 (ucast (m ! (p + 1))) OR
     push_bit 16 (ucast (m ! (p + 2))) OR push_bit 24 (ucast (m ! (p + 3)))"

definition GBIT64 :: "u8 list \<Rightarrow> nat \<Rightarrow> u64" where
  "GBIT64 m p = ucast (GBIT32 m p) OR push_bit 32 (ucast (GBIT32 m (p + 4)))"

definition PBIT8 :: "u8 \<Rightarrow> u8 list" where
  "PBIT8 v = [v]"

definition PBIT16 :: "u16 \<Rightarrow> u8 list" where
  "PBIT16 v = [ucast v, ucast (drop_bit 8 v)]"

definition PBIT32 :: "u32 \<Rightarrow> u8 list" where
  "PBIT32 v = [ucast v, ucast (drop_bit 8 v), ucast (drop_bit 16 v), ucast (drop_bit 24 v)]"

definition PBIT64 :: "u64 \<Rightarrow> u8 list" where
  "PBIT64 v = [ucast v, ucast (drop_bit 8 v), ucast (drop_bit 16 v), ucast (drop_bit 24 v),
     ucast (drop_bit 32 v), ucast (drop_bit 40 v), ucast (drop_bit 48 v), ucast (drop_bit 56 v)]"

lemma GBIT_append [simp]:
  "length pre = p \<Longrightarrow> 1 \<le> length inp \<Longrightarrow> GBIT8 (pre @ inp @ post) p = GBIT8 inp 0"
  "length pre = p \<Longrightarrow> 2 \<le> length inp \<Longrightarrow> GBIT16 (pre @ inp @ post) p = GBIT16 inp 0"
  "length pre = p \<Longrightarrow> 4 \<le> length inp \<Longrightarrow> GBIT32 (pre @ inp @ post) p = GBIT32 inp 0"
  "length pre = p \<Longrightarrow> 8 \<le> length inp \<Longrightarrow> GBIT64 (pre @ inp @ post) p = GBIT64 inp 0"
  by (auto simp: GBIT8_def GBIT16_def GBIT32_def GBIT64_def nth_append numeral_2_eq_2)

lemma length_PBIT [simp]: "length (PBIT8 a) = 1" "length (PBIT16 b) = 2" "length (PBIT32 c) = 4"
  "length (PBIT64 d) = 8"
  by (simp_all add: PBIT8_def PBIT16_def PBIT32_def PBIT64_def)

lemma GBIT8_PBIT8 [simp]: "GBIT8 (PBIT8 v @ t) 0 = v"
  by (simp add: GBIT8_def PBIT8_def)

lemma GBIT16_PBIT16 [simp]: "GBIT16 (PBIT16 v @ t) 0 = v"
  by (rule word16_eqI) (simp_all add: GBIT16_def PBIT16_def bit_simps)

lemma GBIT32_PBIT32 [simp]: "GBIT32 (PBIT32 v @ t) 0 = v"
  by (rule word32_bits_eqI) (simp_all add: GBIT32_def PBIT32_def bit_simps)

lemma PBIT64_split: "PBIT64 v = PBIT32 (ucast v) @ PBIT32 (ucast (drop_bit 32 v))"
  by (simp add: PBIT64_def PBIT32_def) (intro conjI; rule word8_eqI; simp add: bit_simps)

lemma GBIT32_skip: "GBIT32 (PBIT32 v @ t) 4 = GBIT32 t 0"
  by (simp add: GBIT32_def PBIT32_def numeral_2_eq_2)

lemma ucast_halves: "ucast (ucast v :: u32) OR push_bit 32 (ucast (ucast (drop_bit 32 v) :: u32)) = (v :: u64)"
  by (rule bit_word_eqI) (auto simp: bit_simps)

lemma GBIT64_PBIT64 [simp]: "GBIT64 (PBIT64 v @ t) 0 = v"
  by (simp add: GBIT64_def PBIT64_split GBIT32_skip ucast_halves)

lemma PBIT16_GBIT16: "2 \<le> length inp \<Longrightarrow> PBIT16 (GBIT16 inp 0) = take 2 inp"
  by (cases inp; cases "tl inp")
    (auto simp: PBIT16_def GBIT16_def intro!: word8_eqI simp: bit_simps)

lemma PBIT32_GBIT32:
  assumes "4 \<le> length inp"
  shows "PBIT32 (GBIT32 inp 0) = take 4 inp"
proof -
  obtain a b c d r where "inp = a # b # c # d # r"
    using assms by (rule list4E)
  then show ?thesis
    by (simp add: PBIT32_def GBIT32_def) (intro conjI; rule word8_eqI; simp add: bit_simps)
qed

lemma GBIT64_halves:
  "ucast (GBIT64 inp 0) = GBIT32 inp 0" "ucast (drop_bit 32 (GBIT64 inp 0)) = GBIT32 inp 4"
  by (auto simp: GBIT64_def bit_simps intro!: bit_word_eqI)

lemma PBIT64_GBIT64:
  assumes "8 \<le> length inp"
  shows "PBIT64 (GBIT64 inp 0) = take 8 inp"
proof -
  have "GBIT32 inp 4 = GBIT32 (drop 4 inp) 0"
    using assms by (simp add: GBIT32_def)
  then show ?thesis using assms
    by (simp add: PBIT64_split GBIT64_halves PBIT32_GBIT32 take_add [symmetric])
qed
end
