(* ===== verification/Grammar.thy ===== *)
theory Grammar
  imports Fcall
begin

text \<open>
  The 9P message grammar: for each message type the list of its fields, with the encoder and the decoder it
  determines.  Strings and qids are interpretations of the codec contract of \<open>Prelude\<close>.
\<close>

definition sval :: "cstring \<Rightarrow> u8 list" where
  "sval s = (case s of None \<Rightarrow> [] | Some s \<Rightarrow> takeWhile (\<lambda>b. b \<noteq> 0) s)"

definition enc_str :: "u8 list \<Rightarrow> u8 list" where
  "enc_str s = PBIT16 (of_nat (length s)) @ s"

definition dec_str :: "u8 list \<Rightarrow> (u8 list \<times> u8 list) option" where
  "dec_str inp =
     (if length inp < 2 then None
      else let n = unat (GBIT16 inp 0)
           in if length inp < 2 + n then None else Some (take n (drop 2 inp), drop (2 + n) inp))"

definition enc_qid :: "qid \<Rightarrow> u8 list" where
  "enc_qid q = PBIT8 (q_type q) @ PBIT32 (q_vers q) @ PBIT64 (q_path q)"

definition dec_qid :: "u8 list \<Rightarrow> (qid \<times> u8 list) option" where
  "dec_qid inp =
     (if length inp < 13 then None
      else Some (\<lparr>q_path = GBIT64 (drop 5 inp) 0, q_vers = GBIT32 (drop 1 inp) 0, q_type = GBIT8 inp 0\<rparr>,
                 drop 13 inp))"

interpretation str: strict_codec enc_str dec_str "\<lambda>s. length s < 65536"
proof unfold_locales
  fix s t :: "u8 list"
  assume "length s < 65536"
  then have "unat (of_nat (length s) :: u16) = length s" by (simp add: unat_of_nat)
  then show "dec_str (enc_str s @ t) = Some (s, t)"
    by (simp add: dec_str_def enc_str_def)
next
  fix inp s t
  assume d: "dec_str inp = Some (s, t)"
  let ?n = "unat (GBIT16 inp 0)"
  from d have l: "2 \<le> length inp" "2 + ?n \<le> length inp" "s = take ?n (drop 2 inp)" "t = drop (2 + ?n) inp"
    by (auto simp: dec_str_def Let_def split: if_splits)
  then have n: "length s = ?n" by simp
  have "enc_str s = take 2 inp @ take ?n (drop 2 inp)"
    using l by (simp add: enc_str_def n PBIT16_GBIT16 del: take_drop)
  then show "length s < 65536 \<and> inp = enc_str s @ t"
    using l unat_u16_less [of "GBIT16 inp 0"] n by (simp add: take_add [symmetric] del: take_drop)
qed

interpretation qidc: strict_codec enc_qid dec_qid "\<lambda>q. True"
proof unfold_locales
  fix q :: qid and t
  show "dec_qid (enc_qid q @ t) = Some (q, t)"
    by (simp add: dec_qid_def enc_qid_def)
next
  fix inp q t
  assume d: "dec_qid inp = Some (q, t)"
  then have l: "13 \<le> length inp" "t = drop 13 inp"
    "q = \<lparr>q_path = GBIT64 (drop 5 inp) 0, q_vers = GBIT32 (drop 1 inp) 0, q_type = GBIT8 inp 0\<rparr>"
    by (auto simp: dec_qid_def split: if_splits)
  have "PBIT8 (GBIT8 inp 0) = take 1 inp" using l(1) by (cases inp) (auto simp: PBIT8_def GBIT8_def)
  moreover have "PBIT32 (GBIT32 (drop 1 inp) 0) = take 4 (drop 1 inp)"
    using l(1) by (intro PBIT32_GBIT32) simp
  moreover have "PBIT64 (GBIT64 (drop 5 inp) 0) = take 8 (drop 5 inp)"
    using l(1) by (intro PBIT64_GBIT64) simp
  ultimately have "enc_qid q = take 1 inp @ take 4 (drop 1 inp) @ take 8 (drop 5 inp)"
    by (simp add: enc_qid_def l(3))
  also have "\<dots> = take 13 inp"
    using take_add [of 1 4 inp] take_add [of 5 8 inp] by simp
  finally show "True \<and> inp = enc_qid q @ t" using l(2) by simp
qed

datatype field =
    I8 "fcall \<Rightarrow> u8" "u8 \<Rightarrow> fcall \<Rightarrow> fcall"
  | I16 "fcall \<Rightarrow> u16" "u16 \<Rightarrow> fcall \<Rightarrow> fcall"
  | I32 "fcall \<Rightarrow> u32" "u32 \<Rightarrow> fcall \<Rightarrow> fcall"
  | I64 "fcall \<Rightarrow> u64" "u64 \<Rightarrow> fcall \<Rightarrow> fcall"
  | Str "fcall \<Rightarrow> cstring" "cstring \<Rightarrow> fcall \<Rightarrow> fcall"
  | QidF "fcall \<Rightarrow> qid" "qid \<Rightarrow> fcall \<Rightarrow> fcall"
  | Wnames
  | Wqids
  | Data
  | Stat

fun emit :: "field \<Rightarrow> fcall \<Rightarrow> u8 list" where
  "emit (I8 g u) f = PBIT8 (g f)"
| "emit (I16 g u) f = PBIT16 (g f)"
| "emit (I32 g u) f = PBIT32 (g f)"
| "emit (I64 g u) f = PBIT64 (g f)"
| "emit (Str g u) f = enc_str (sval (g f))"
| "emit (QidF g u) f = enc_qid (g f)"
| "emit Wnames f = PBIT16 (f_nwname f) @
     concat (map enc_str (map sval (take (unat (f_nwname f)) (f_wname f))))"
| "emit Wqids f = PBIT16 (f_nwqid f) @ concat (map enc_qid (take (unat (f_nwqid f)) (f_wqid f)))"
| "emit Data f = PBIT32 (f_count f) @ take (unat (f_count f)) (f_data f)"
| "emit Stat f = PBIT16 (f_nstat f) @ take (unat (f_nstat f)) (f_stat f)"

fun wf_field :: "field \<Rightarrow> fcall \<Rightarrow> bool" where
  "wf_field (Str g u) f \<longleftrightarrow> length (sval (g f)) < 65536"
| "wf_field Wnames f \<longleftrightarrow> unat (f_nwname f) \<le> MAXWELEM \<and> length (f_wname f) = MAXWELEM \<and>
     list_all (\<lambda>s. length (sval s) < 65536) (take (unat (f_nwname f)) (f_wname f))"
| "wf_field Wqids f \<longleftrightarrow> unat (f_nwqid f) \<le> MAXWELEM \<and> length (f_wqid f) = MAXWELEM"
| "wf_field Data f \<longleftrightarrow> unat (f_count f) \<le> length (f_data f)"
| "wf_field Stat f \<longleftrightarrow> unat (f_nstat f) \<le> length (f_stat f)"
| "wf_field _ f \<longleftrightarrow> True"

fun put :: "field \<Rightarrow> fcall \<Rightarrow> fcall \<Rightarrow> fcall" where
  "put (I8 g u) f h = u (g f) h"
| "put (I16 g u) f h = u (g f) h"
| "put (I32 g u) f h = u (g f) h"
| "put (I64 g u) f h = u (g f) h"
| "put (Str g u) f h = u (Some (sval (g f))) h"
| "put (QidF g u) f h = u (g f) h"
| "put Wnames f h = h\<lparr>f_nwname := f_nwname f,
     f_wname := map (Some \<circ> sval) (take (unat (f_nwname f)) (f_wname f)) @
       drop (unat (f_nwname f)) (f_wname h)\<rparr>"
| "put Wqids f h = h\<lparr>f_nwqid := f_nwqid f,
     f_wqid := take (unat (f_nwqid f)) (f_wqid f) @ drop (unat (f_nwqid f)) (f_wqid h)\<rparr>"
| "put Data f h = h\<lparr>f_count := f_count f, f_data := take (unat (f_count f)) (f_data f)\<rparr>"
| "put Stat f h = h\<lparr>f_nstat := f_nstat f, f_stat := take (unat (f_nstat f)) (f_stat f)\<rparr>"

fun accept :: "field \<Rightarrow> fcall \<Rightarrow> u8 list \<Rightarrow> (fcall \<times> u8 list) option" where
  "accept (I8 g u) h inp = (if length inp < 1 then None else Some (u (GBIT8 inp 0) h, drop 1 inp))"
| "accept (I16 g u) h inp = (if length inp < 2 then None else Some (u (GBIT16 inp 0) h, drop 2 inp))"
| "accept (I32 g u) h inp = (if length inp < 4 then None else Some (u (GBIT32 inp 0) h, drop 4 inp))"
| "accept (I64 g u) h inp = (if length inp < 8 then None else Some (u (GBIT64 inp 0) h, drop 8 inp))"
| "accept (Str g u) h inp =
     (case dec_str inp of None \<Rightarrow> None | Some (s, t) \<Rightarrow> Some (u (Some s) h, t))"
| "accept (QidF g u) h inp =
     (case dec_qid inp of None \<Rightarrow> None | Some (q, t) \<Rightarrow> Some (u q h, t))"
| "accept Wnames h inp =
     (if length inp < 2 then None
      else let n = unat (GBIT16 inp 0) in
        if n > MAXWELEM then None
        else case dec_n dec_str n (drop 2 inp) of None \<Rightarrow> None
          | Some (ss, t) \<Rightarrow> Some (h\<lparr>f_nwname := GBIT16 inp 0,
              f_wname := map Some ss @ drop n (f_wname h)\<rparr>, t))"
| "accept Wqids h inp =
     (if length inp < 2 then None
      else let n = unat (GBIT16 inp 0) in
        if n > MAXWELEM then None
        else case dec_n dec_qid n (drop 2 inp) of None \<Rightarrow> None
          | Some (qs, t) \<Rightarrow> Some (h\<lparr>f_nwqid := GBIT16 inp 0,
              f_wqid := qs @ drop n (f_wqid h)\<rparr>, t))"
| "accept Data h inp =
     (if length inp < 4 then None
      else let n = unat (GBIT32 inp 0) in
        if length inp < 4 + n then None
        else Some (h\<lparr>f_count := GBIT32 inp 0, f_data := take n (drop 4 inp)\<rparr>, drop (4 + n) inp))"
| "accept Stat h inp =
     (if length inp < 2 then None
      else let n = unat (GBIT16 inp 0) in
        if length inp < 2 + n then None
        else Some (h\<lparr>f_nstat := GBIT16 inp 0, f_stat := take n (drop 2 inp)\<rparr>, drop (2 + n) inp))"

fun emits :: "field list \<Rightarrow> fcall \<Rightarrow> u8 list" where
  "emits [] f = []"
| "emits (x # xs) f = emit x f @ emits xs f"

fun puts :: "field list \<Rightarrow> fcall \<Rightarrow> fcall \<Rightarrow> fcall" where
  "puts [] f h = h"
| "puts (x # xs) f h = puts xs f (put x f h)"

fun accepts :: "field list \<Rightarrow> fcall \<Rightarrow> u8 list \<Rightarrow> (fcall \<times> u8 list) option" where
  "accepts [] h inp = Some (h, inp)"
| "accepts (x # xs) h inp =
     (case accept x h inp of None \<Rightarrow> None | Some (h', t) \<Rightarrow> accepts xs h' t)"

lemma accept_emit:
  assumes "wf_field x f"
  shows "accept x h (emit x f @ t) = Some (put x f h, t)"
proof (cases x)
  case Wnames
  let ?ss = "take (unat (f_nwname f)) (f_wname f)"
  have "dec_n dec_str (length (map sval ?ss)) (concat (map enc_str (map sval ?ss)) @ t) = Some (map sval ?ss, t)"
    using assms Wnames by (intro str.dec_n_enc) (simp add: list_all_iff)
  moreover have "length (map sval ?ss) = unat (f_nwname f)" using assms Wnames by simp
  ultimately show ?thesis using assms Wnames by (simp add: Let_def)
next
  case Wqids
  let ?qs = "take (unat (f_nwqid f)) (f_wqid f)"
  have "dec_n dec_qid (length ?qs) (concat (map enc_qid ?qs) @ t) = Some (?qs, t)"
    by (intro qidc.dec_n_enc) (simp add: list_all_iff)
  moreover have "length ?qs = unat (f_nwqid f)" using assms Wqids by simp
  ultimately show ?thesis using assms Wqids by (simp add: Let_def)
qed (use assms in \<open>auto simp: str.dec_enc qidc.dec_enc\<close>)

lemma accepts_emits:
  "list_all (\<lambda>x. wf_field x f) gr \<Longrightarrow> accepts gr h (emits gr f @ t) = Some (puts gr f h, t)"
  by (induction gr arbitrary: h) (auto simp: accept_emit)

definition grammar :: "u8 \<Rightarrow> field list option" where
  "grammar t =
    (let fid = I32 f_fid (\<lambda>v f. f\<lparr>f_fid := v\<rparr>);
         afid = I32 f_afid (\<lambda>v f. f\<lparr>f_afid := v\<rparr>);
         uname = Str f_uname (\<lambda>v f. f\<lparr>f_uname := v\<rparr>);
         aname = Str f_aname (\<lambda>v f. f\<lparr>f_aname := v\<rparr>);
         offset = I64 f_offset (\<lambda>v f. f\<lparr>f_offset := v\<rparr>);
         count = I32 f_count (\<lambda>v f. f\<lparr>f_count := v\<rparr>);
         mode = I8 f_mode (\<lambda>v f. f\<lparr>f_mode := v\<rparr>);
         qid = QidF f_qid (\<lambda>v f. f\<lparr>f_qid := v\<rparr>);
         version = [I32 f_msize (\<lambda>v f. f\<lparr>f_msize := v\<rparr>), Str f_version (\<lambda>v f. f\<lparr>f_version := v\<rparr>)]
     in if t = Tversion \<or> t = Rversion then Some version
        else if t = Tauth then Some [afid, uname, aname]
        else if t = Rauth then Some [QidF f_aqid (\<lambda>v f. f\<lparr>f_aqid := v\<rparr>)]
        else if t = Tattach then Some [fid, afid, uname, aname]
        else if t = Rattach then Some [qid]
        else if t = Rerror then Some [Str f_ename (\<lambda>v f. f\<lparr>f_ename := v\<rparr>)]
        else if t = Tflush then Some [I16 f_oldtag (\<lambda>v f. f\<lparr>f_oldtag := v\<rparr>)]
        else if t = Twalk then Some [fid, I32 f_newfid (\<lambda>v f. f\<lparr>f_newfid := v\<rparr>), Wnames]
        else if t = Rwalk then Some [Wqids]
        else if t = Topen then Some [fid, mode]
        else if t = Tcreate then
          Some [fid, Str f_name (\<lambda>v f. f\<lparr>f_name := v\<rparr>), I32 f_perm (\<lambda>v f. f\<lparr>f_perm := v\<rparr>), mode]
        else if t = Ropen \<or> t = Rcreate then Some [qid, I32 f_iounit (\<lambda>v f. f\<lparr>f_iounit := v\<rparr>)]
        else if t = Tread then Some [fid, offset, count]
        else if t = Rread then Some [Data]
        else if t = Twrite then Some [fid, offset, Data]
        else if t = Rwrite then Some [count]
        else if t = Tclunk \<or> t = Tremove \<or> t = Tstat then Some [fid]
        else if t = Rstat then Some [Stat]
        else if t = Twstat then Some [fid, Stat]
        else if t = Rflush \<or> t = Rclunk \<or> t = Rremove \<or> t = Rwstat then Some []
        else None)"

end
