(* ===== verification/ConvM2S.thy ===== *)
theory ConvM2S
  imports Fcall
begin

text \<open>
  \<open>lib9/convM2S.c\<close>: unpacking a message in place.  The state is the buffer, the read pointer and the
  \<open>Fcall\<close> so far; each statement group of a case is a reader \<open>rd\<close> that may return early,
  and \<open>gstring\<close> overwrites the buffer as the code does.
\<close>

definition gstring :: "u8 list \<Rightarrow> nat \<Rightarrow> nat \<Rightarrow> (u8 list \<times> nat \<times> u8 list) option" where
  "gstring m p ep =
     (if p + BIT16SZ > ep then None
      else
        let n = unat (GBIT16 m p);
            p = p + (BIT16SZ - 1)
        in if p + n + 1 > ep then None
           else let s = take n (drop (p + 1) m)
                in Some (take p m @ s @ [0] @ drop (p + n + 1) m, p + (n + 1), s))"

definition gqid :: "u8 list \<Rightarrow> nat \<Rightarrow> nat \<Rightarrow> (nat \<times> qid) option" where
  "gqid m p ep =
     (if p + QIDSZ > ep then None
      else Some (p + BIT8SZ + BIT32SZ + BIT64SZ,
        \<lparr>q_path = GBIT64 m (p + BIT8SZ + BIT32SZ), q_vers = GBIT32 m (p + BIT8SZ), q_type = GBIT8 m p\<rparr>))"

type_synonym rst = "u8 list \<times> nat \<times> fcall"
type_synonym rd = "nat \<Rightarrow> rst \<Rightarrow> bool \<times> rst"

fun rd_seq :: "rd list \<Rightarrow> rd" where
  "rd_seq [] ep s = (True, s)"
| "rd_seq (r # rs) ep s = (case r ep s of (ok, s') \<Rightarrow> if ok then rd_seq rs ep s' else (False, s'))"

definition need :: "nat \<Rightarrow> rd" where
  "need k ep = (\<lambda>(m, p, f). (\<not> p + k > ep, m, p, f))"

definition get8 :: "(u8 \<Rightarrow> fcall \<Rightarrow> fcall) \<Rightarrow> rd" where
  "get8 u ep = (\<lambda>(m, p, f). (True, m, p + BIT8SZ, u (GBIT8 m p) f))"

definition get16 :: "(u16 \<Rightarrow> fcall \<Rightarrow> fcall) \<Rightarrow> rd" where
  "get16 u ep = (\<lambda>(m, p, f). (True, m, p + BIT16SZ, u (GBIT16 m p) f))"

definition get32 :: "(u32 \<Rightarrow> fcall \<Rightarrow> fcall) \<Rightarrow> rd" where
  "get32 u ep = (\<lambda>(m, p, f). (True, m, p + BIT32SZ, u (GBIT32 m p) f))"

definition get64 :: "(u64 \<Rightarrow> fcall \<Rightarrow> fcall) \<Rightarrow> rd" where
  "get64 u ep = (\<lambda>(m, p, f). (True, m, p + BIT64SZ, u (GBIT64 m p) f))"

definition getstr :: "(cstring \<Rightarrow> fcall \<Rightarrow> fcall) \<Rightarrow> rd" where
  "getstr u ep = (\<lambda>(m, p, f). case gstring m p ep of
     None \<Rightarrow> (False, m, p, f)
   | Some (m', p', s) \<Rightarrow> (True, m', p', u (Some s) f))"

definition getqid :: "(qid \<Rightarrow> fcall \<Rightarrow> fcall) \<Rightarrow> rd" where
  "getqid u ep = (\<lambda>(m, p, f). case gqid m p ep of
     None \<Rightarrow> (False, m, p, f)
   | Some (p', q) \<Rightarrow> (True, m, p', u q f))"

text \<open>\<open>if(p+n > ep) return 0; f->x = p; p += n;\<close> for a count already in \<open>f\<close>.\<close>

definition getbytes :: "(fcall \<Rightarrow> nat) \<Rightarrow> (u8 list \<Rightarrow> fcall \<Rightarrow> fcall) \<Rightarrow> rd" where
  "getbytes n u ep = (\<lambda>(m, p, f).
     if p + n f > ep then (False, m, p, f)
     else (True, m, p + n f, u (take (n f) (drop p m)) f))"

definition check :: "(fcall \<Rightarrow> bool) \<Rightarrow> rd" where
  "check P ep = (\<lambda>(m, p, f). (P f, m, p, f))"

fun rd_for :: "nat \<Rightarrow> nat \<Rightarrow> (nat \<Rightarrow> rd) \<Rightarrow> rd" where
  "rd_for i 0 body ep s = (True, s)"
| "rd_for i (Suc n) body ep s =
     (case body i ep s of (ok, s') \<Rightarrow> if ok then rd_for (Suc i) n body ep s' else (False, s'))"

definition rd_loop :: "(fcall \<Rightarrow> nat) \<Rightarrow> (nat \<Rightarrow> rd) \<Rightarrow> rd" where
  "rd_loop n body ep = (\<lambda>(m, p, f). rd_for 0 (n f) body ep (m, p, f))"

abbreviation (input) "set_fid \<equiv> \<lambda>v f. f\<lparr>f_fid := v\<rparr>"

definition convM2S_T :: "u8 \<Rightarrow> rd option" where
  "convM2S_T t =
     (if t = Tversion then Some (rd_seq
        [need BIT32SZ, get32 (\<lambda>v f. f\<lparr>f_msize := v\<rparr>), getstr (\<lambda>v f. f\<lparr>f_version := v\<rparr>)])
      else if t = Tflush then Some (rd_seq [need BIT16SZ, get16 (\<lambda>v f. f\<lparr>f_oldtag := v\<rparr>)])
      else if t = Tauth then Some (rd_seq
        [need BIT32SZ, get32 (\<lambda>v f. f\<lparr>f_afid := v\<rparr>),
         getstr (\<lambda>v f. f\<lparr>f_uname := v\<rparr>), getstr (\<lambda>v f. f\<lparr>f_aname := v\<rparr>)])
      else if t = Tattach then Some (rd_seq
        [need BIT32SZ, get32 (\<lambda>v f. f\<lparr>f_fid := v\<rparr>),
         need BIT32SZ, get32 (\<lambda>v f. f\<lparr>f_afid := v\<rparr>),
         getstr (\<lambda>v f. f\<lparr>f_uname := v\<rparr>), getstr (\<lambda>v f. f\<lparr>f_aname := v\<rparr>)])
      else if t = Twalk then Some (rd_seq
        [need (BIT32SZ + BIT32SZ + BIT16SZ), get32 (\<lambda>v f. f\<lparr>f_fid := v\<rparr>),
         get32 (\<lambda>v f. f\<lparr>f_newfid := v\<rparr>), get16 (\<lambda>v f. f\<lparr>f_nwname := v\<rparr>),
         check (\<lambda>f. \<not> unat (f_nwname f) > MAXWELEM),
         rd_loop (\<lambda>f. unat (f_nwname f)) (\<lambda>i. getstr (\<lambda>v f. f\<lparr>f_wname := (f_wname f)[i := v]\<rparr>))])
      else if t = Topen then Some (rd_seq
        [need (BIT32SZ + BIT8SZ), get32 (\<lambda>v f. f\<lparr>f_fid := v\<rparr>), get8 (\<lambda>v f. f\<lparr>f_mode := v\<rparr>)])
      else if t = Tcreate then Some (rd_seq
        [need BIT32SZ, get32 (\<lambda>v f. f\<lparr>f_fid := v\<rparr>), getstr (\<lambda>v f. f\<lparr>f_name := v\<rparr>),
         need (BIT32SZ + BIT8SZ), get32 (\<lambda>v f. f\<lparr>f_perm := v\<rparr>), get8 (\<lambda>v f. f\<lparr>f_mode := v\<rparr>)])
      else if t = Tread then Some (rd_seq
        [need (BIT32SZ + BIT64SZ + BIT32SZ), get32 (\<lambda>v f. f\<lparr>f_fid := v\<rparr>),
         get64 (\<lambda>v f. f\<lparr>f_offset := v\<rparr>), get32 (\<lambda>v f. f\<lparr>f_count := v\<rparr>)])
      else if t = Twrite then Some (rd_seq
        [need (BIT32SZ + BIT64SZ + BIT32SZ), get32 (\<lambda>v f. f\<lparr>f_fid := v\<rparr>),
         get64 (\<lambda>v f. f\<lparr>f_offset := v\<rparr>), get32 (\<lambda>v f. f\<lparr>f_count := v\<rparr>),
         getbytes (\<lambda>f. unat (f_count f)) (\<lambda>d f. f\<lparr>f_data := d\<rparr>)])
      else if t = Tclunk \<or> t = Tremove then Some (rd_seq [need BIT32SZ, get32 (\<lambda>v f. f\<lparr>f_fid := v\<rparr>)])
      else if t = Tstat then Some (rd_seq [need BIT32SZ, get32 (\<lambda>v f. f\<lparr>f_fid := v\<rparr>)])
      else if t = Twstat then Some (rd_seq
        [need (BIT32SZ + BIT16SZ), get32 (\<lambda>v f. f\<lparr>f_fid := v\<rparr>), get16 (\<lambda>v f. f\<lparr>f_nstat := v\<rparr>),
         getbytes (\<lambda>f. unat (f_nstat f)) (\<lambda>d f. f\<lparr>f_stat := d\<rparr>)])
      else None)"

definition convM2S_R :: "u8 \<Rightarrow> rd option" where
  "convM2S_R t =
     (if t = Rversion then Some (rd_seq
        [need BIT32SZ, get32 (\<lambda>v f. f\<lparr>f_msize := v\<rparr>), getstr (\<lambda>v f. f\<lparr>f_version := v\<rparr>)])
      else if t = Rerror then Some (rd_seq [getstr (\<lambda>v f. f\<lparr>f_ename := v\<rparr>)])
      else if t = Rflush then Some (rd_seq [])
      else if t = Rauth then Some (rd_seq [getqid (\<lambda>v f. f\<lparr>f_aqid := v\<rparr>)])
      else if t = Rattach then Some (rd_seq [getqid (\<lambda>v f. f\<lparr>f_qid := v\<rparr>)])
      else if t = Rwalk then Some (rd_seq
        [need BIT16SZ, get16 (\<lambda>v f. f\<lparr>f_nwqid := v\<rparr>),
         check (\<lambda>f. \<not> unat (f_nwqid f) > MAXWELEM),
         rd_loop (\<lambda>f. unat (f_nwqid f)) (\<lambda>i. getqid (\<lambda>v f. f\<lparr>f_wqid := (f_wqid f)[i := v]\<rparr>))])
      else if t = Ropen \<or> t = Rcreate then Some (rd_seq
        [getqid (\<lambda>v f. f\<lparr>f_qid := v\<rparr>), need BIT32SZ, get32 (\<lambda>v f. f\<lparr>f_iounit := v\<rparr>)])
      else if t = Rread then Some (rd_seq
        [need BIT32SZ, get32 (\<lambda>v f. f\<lparr>f_count := v\<rparr>),
         getbytes (\<lambda>f. unat (f_count f)) (\<lambda>d f. f\<lparr>f_data := d\<rparr>)])
      else if t = Rwrite then Some (rd_seq [need BIT32SZ, get32 (\<lambda>v f. f\<lparr>f_count := v\<rparr>)])
      else if t = Rclunk \<or> t = Rremove then Some (rd_seq [])
      else if t = Rstat then Some (rd_seq
        [need BIT16SZ, get16 (\<lambda>v f. f\<lparr>f_nstat := v\<rparr>),
         getbytes (\<lambda>f. unat (f_nstat f)) (\<lambda>d f. f\<lparr>f_stat := d\<rparr>)])
      else if t = Rwstat then Some (rd_seq [])
      else None)"

definition convM2S :: "u8 list \<Rightarrow> nat \<Rightarrow> fcall \<Rightarrow> u32 \<times> fcall \<times> u8 list" where
  "convM2S m nap f =
     (let ep = nap in
      if BIT32SZ + BIT8SZ + BIT16SZ > ep then (0, f, m)
      else
        let size = GBIT32 m 0
        in if unat size < BIT32SZ + BIT8SZ + BIT16SZ then (0, f, m)
           else
             let f = f\<lparr>f_type := GBIT8 m BIT32SZ\<rparr>;
                 f = f\<lparr>f_tag := GBIT16 m (BIT32SZ + BIT8SZ)\<rparr>
             in case (case convM2S_T (f_type f) of None \<Rightarrow> convM2S_R (f_type f) | Some r \<Rightarrow> Some r) of
                  None \<Rightarrow> (0, f, m)
                | Some r \<Rightarrow>
                    (case r ep (m, BIT32SZ + BIT8SZ + BIT16SZ, f) of
                       (ok, m', p, f') \<Rightarrow>
                         if \<not> ok \<or> p > ep then (0, f', m')
                         else if unat size = p then (size, f', m')
                         else (0, f', m')))"

end
