(* ===== verification/ConvS2M.thy ===== *)
theory ConvS2M
  imports Fcall
begin

text \<open>
  \<open>lib9/convS2M.c\<close>: packing a message.  The routines that write through a moving pointer return the
  bytes they write; \<open>convS2M\<close> puts them over the start of the buffer.  Sizes are 32-bit words.
\<close>

definition pstring :: "cstring \<Rightarrow> u8 list" where
  "pstring s =
     (case s of
        None \<Rightarrow> PBIT16 0
      | Some s \<Rightarrow> let n = of_nat (strlen s) :: u32 in PBIT16 (ucast n) @ take (unat n) s)"

definition pqid :: "qid \<Rightarrow> u8 list" where
  "pqid q = PBIT8 (q_type q) @ PBIT32 (q_vers q) @ PBIT64 (q_path q)"

definition stringsz :: "cstring \<Rightarrow> u32" where
  "stringsz s = (case s of None \<Rightarrow> 2 | Some s \<Rightarrow> 2 + of_nat (strlen s))"

definition sizeS2M :: "fcall \<Rightarrow> u32" where
  "sizeS2M f =
     (let n = 4 + 1 + 2; t = f_type f in
      if t = Tversion then n + 4 + stringsz (f_version f)
      else if t = Tflush then n + 2
      else if t = Tauth then n + 4 + stringsz (f_uname f) + stringsz (f_aname f)
      else if t = Tattach then n + 4 + 4 + stringsz (f_uname f) + stringsz (f_aname f)
      else if t = Twalk then
        foldl (\<lambda>n i. n + stringsz (f_wname f ! i)) (n + 4 + 4 + 2) [0..<unat (f_nwname f)]
      else if t = Topen then n + 4 + 1
      else if t = Tcreate then n + 4 + stringsz (f_name f) + 4 + 1
      else if t = Tread then n + 4 + 8 + 4
      else if t = Twrite then n + 4 + 8 + 4 + f_count f
      else if t = Tclunk \<or> t = Tremove then n + 4
      else if t = Tstat then n + 4
      else if t = Twstat then n + 4 + 2 + ucast (f_nstat f)
      else if t = Rversion then n + 4 + stringsz (f_version f)
      else if t = Rerror then n + stringsz (f_ename f)
      else if t = Rflush then n
      else if t = Rauth then n + 13
      else if t = Rattach then n + 13
      else if t = Rwalk then n + 2 + ucast (f_nwqid f) * 13
      else if t = Ropen \<or> t = Rcreate then n + 13 + 4
      else if t = Rread then n + 4 + f_count f
      else if t = Rwrite then n + 4
      else if t = Rclunk then n
      else if t = Rremove then n
      else if t = Rstat then n + 2 + ucast (f_nstat f)
      else if t = Rwstat then n
      else 0)"

text \<open>
  The body of the switch of \<open>convS2M\<close>: the bytes written, and whether the case
  ran to its end (\<open>False\<close> for a \<open>return 0\<close> in the middle); \<open>None\<close> where the
  switch takes its default.
\<close>

definition convS2M_T :: "fcall \<Rightarrow> (u8 list \<times> bool) option" where
  "convS2M_T f =
     (let t = f_type f in
      if t = Tversion then Some (PBIT32 (f_msize f) @ pstring (f_version f), True)
      else if t = Tflush then Some (PBIT16 (f_oldtag f), True)
      else if t = Tauth then
        Some (PBIT32 (f_afid f) @ pstring (f_uname f) @ pstring (f_aname f), True)
      else if t = Tattach then
        Some (PBIT32 (f_fid f) @ PBIT32 (f_afid f) @ pstring (f_uname f) @ pstring (f_aname f), True)
      else if t = Twalk then
        (let hdr = PBIT32 (f_fid f) @ PBIT32 (f_newfid f) @ PBIT16 (f_nwname f) in
         if unat (f_nwname f) > MAXWELEM then Some (hdr, False)
         else Some (hdr @ concat (map (\<lambda>i. pstring (f_wname f ! i)) [0..<unat (f_nwname f)]), True))
      else if t = Topen then Some (PBIT32 (f_fid f) @ PBIT8 (f_mode f), True)
      else if t = Tcreate then
        Some (PBIT32 (f_fid f) @ pstring (f_name f) @ PBIT32 (f_perm f) @ PBIT8 (f_mode f), True)
      else if t = Tread then
        Some (PBIT32 (f_fid f) @ PBIT64 (f_offset f) @ PBIT32 (f_count f), True)
      else if t = Twrite then
        Some (PBIT32 (f_fid f) @ PBIT64 (f_offset f) @ PBIT32 (f_count f) @
              take (unat (f_count f)) (f_data f), True)
      else if t = Tclunk \<or> t = Tremove then Some (PBIT32 (f_fid f), True)
      else if t = Tstat then Some (PBIT32 (f_fid f), True)
      else if t = Twstat then
        Some (PBIT32 (f_fid f) @ PBIT16 (f_nstat f) @ take (unat (f_nstat f)) (f_stat f), True)
      else None)"

definition convS2M_R :: "fcall \<Rightarrow> (u8 list \<times> bool) option" where
  "convS2M_R f =
     (let t = f_type f in
      if t = Rversion then Some (PBIT32 (f_msize f) @ pstring (f_version f), True)
      else if t = Rerror then Some (pstring (f_ename f), True)
      else if t = Rflush then Some ([], True)
      else if t = Rauth then Some (pqid (f_aqid f), True)
      else if t = Rattach then Some (pqid (f_qid f), True)
      else if t = Rwalk then
        (let hdr = PBIT16 (f_nwqid f) in
         if unat (f_nwqid f) > MAXWELEM then Some (hdr, False)
         else Some (hdr @ concat (map (\<lambda>i. pqid (f_wqid f ! i)) [0..<unat (f_nwqid f)]), True))
      else if t = Ropen \<or> t = Rcreate then Some (pqid (f_qid f) @ PBIT32 (f_iounit f), True)
      else if t = Rread then
        Some (PBIT32 (f_count f) @ take (unat (f_count f)) (f_data f), True)
      else if t = Rwrite then Some (PBIT32 (f_count f), True)
      else if t = Rclunk then Some ([], True)
      else if t = Rremove then Some ([], True)
      else if t = Rstat then
        Some (PBIT16 (f_nstat f) @ take (unat (f_nstat f)) (f_stat f), True)
      else if t = Rwstat then Some ([], True)
      else None)"

definition convS2M :: "fcall \<Rightarrow> u8 list \<Rightarrow> u32 \<times> u8 list" where
  "convS2M f ap =
     (let size = sizeS2M f in
      if size = 0 then (0, ap)
      else if unat size > length ap then (0, ap)
      else
        let hdr = PBIT32 size @ PBIT8 (f_type f) @ PBIT16 (f_tag f);
            upd = (\<lambda>out. out @ drop (length out) ap)
        in case (case convS2M_T f of None \<Rightarrow> convS2M_R f | Some r \<Rightarrow> Some r) of
             None \<Rightarrow> (0, upd hdr)
           | Some (body, ok) \<Rightarrow>
               let out = hdr @ body in
               if \<not> ok then (0, upd out)
               else if unat size \<noteq> length out then (0, upd out)
               else (size, upd out))"

end
