(* ===== verification/StyxPack.thy ===== *)
theory StyxPack
  imports Grammar ConvS2M
begin

text \<open>
  The packer against the message grammar: \<open>sizeS2M\<close> computes the length of
  the wire form without wrapping for a well-formed message, and \<open>convS2M\<close>
  writes exactly the wire form, or nothing when the caller's buffer is too small.
\<close>

lemma grammar_types:
  assumes "grammar t = Some gr"
  shows "t = Tversion \<or> t = Rversion \<or> t = Tauth \<or> t = Rauth \<or> t = Tattach \<or> t = Rattach \<or>
    t = Rerror \<or> t = Tflush \<or> t = Rflush \<or> t = Twalk \<or> t = Rwalk \<or> t = Topen \<or> t = Ropen \<or>
    t = Tcreate \<or> t = Rcreate \<or> t = Tread \<or> t = Rread \<or> t = Twrite \<or> t = Rwrite \<or>
    t = Tclunk \<or> t = Rclunk \<or> t = Tremove \<or> t = Rremove \<or> t = Tstat \<or> t = Rstat \<or>
    t = Twstat \<or> t = Rwstat"
  using assms by (auto simp: grammar_def Let_def split: if_splits)

definition wf_fcall :: "fcall \<Rightarrow> bool" where
  "wf_fcall f \<longleftrightarrow>
     (case grammar (f_type f) of None \<Rightarrow> False
      | Some gr \<Rightarrow> list_all (\<lambda>x. wf_field x f) gr \<and> 7 + length (emits gr f) < 2 ^ 32)"

definition wire :: "fcall \<Rightarrow> u8 list" where
  "wire f =
     (case grammar (f_type f) of None \<Rightarrow> []
      | Some gr \<Rightarrow> PBIT32 (of_nat (7 + length (emits gr f))) @ PBIT8 (f_type f) @ PBIT16 (f_tag f) @
          emits gr f)"

lemma strlen_sval: "strlen s = length (sval (Some s))"
  by (simp add: strlen_def sval_def)

lemma stringsz_eq: "stringsz s = of_nat (2 + length (sval s))"
  by (cases s) (auto simp: stringsz_def strlen_sval, simp_all add: sval_def)

lemma ucast_of_nat: "ucast (of_nat n :: u32) = (of_nat n :: u16)"
  by (simp add: word_unat_eq_iff unat_ucast_down unat_of_nat mod_mod_cancel)

lemma pstring_eq: 
  assumes "length (sval s) < 65536"
  shows "pstring s = enc_str (sval s)"
proof (cases s)
  case None
  then show ?thesis by (simp add: pstring_def enc_str_def sval_def)
next
  case (Some x)
  have "take (strlen x) x = sval s" by (simp add: strlen_def sval_def Some takeWhile_eq_take [symmetric])
  moreover have "unat (of_nat (strlen x) :: u32) = strlen x"
    using assms by (simp add: unat_of_nat strlen_sval Some)
  ultimately show ?thesis
    by (simp add: pstring_def Let_def Some enc_str_def ucast_of_nat strlen_sval)
qed

lemma pqid_eq: "pqid q = enc_qid q"
  by (simp add: pqid_def enc_qid_def)

lemma concat_index: "n \<le> length xs \<Longrightarrow> concat (map (\<lambda>i. g (xs ! i)) [0..<n]) = concat (map g (take n xs))"
  by (rule arg_cong [where f = concat]) (simp add: list_eq_iff_nth_eq)

lemma foldl_size: "foldl (\<lambda>n i. n + g (xs ! i)) n0 [0..<n] = n0 + (\<Sum>i<n. g (xs ! i))"
  by (induction n) (simp_all add: lessThan_Suc ac_simps)

lemma wnames_size:
  "n \<le> length xs \<Longrightarrow> (\<Sum>i<n. stringsz (xs ! i)) =
     of_nat (length (concat (map enc_str (map sval (take n xs)))))"
proof (induction n)
  case 0
  then show ?case by simp
next
  case (Suc n)
  then show ?case by (simp add: take_Suc_conv_app_nth stringsz_eq enc_str_def)
qed

lemma wqids_size: "length (concat (map enc_qid qs)) = 13 * length qs"
  by (induction qs) (simp_all add: enc_qid_def)

lemma sizeS2M_walk:
  assumes "f_type f = Twalk" "unat (f_nwname f) \<le> length (f_wname f)"
  shows "sizeS2M f = of_nat (7 + length (emits (the (grammar Twalk)) f))"
  using assms by (simp add: sizeS2M_def grammar_def Let_def foldl_size wnames_size)

lemma sizeS2M_rwalk:
  assumes "f_type f = Rwalk" "unat (f_nwqid f) \<le> length (f_wqid f)"
  shows "sizeS2M f = of_nat (7 + length (emits (the (grammar Rwalk)) f))"
  using assms by (simp add: sizeS2M_def grammar_def Let_def wqids_size min_def)

lemma sizeS2M_eq:
  assumes "grammar (f_type f) = Some gr" "list_all (\<lambda>x. wf_field x f) gr"
  shows "sizeS2M f = of_nat (7 + length (emits gr f))"
proof -
  have gr: "gr = the (grammar (f_type f))" using assms(1) by simp
  consider "f_type f = Twalk" | "f_type f = Rwalk" | "f_type f \<noteq> Twalk" "f_type f \<noteq> Rwalk" by blast
  then show ?thesis
  proof cases
    case 1
    then have "unat (f_nwname f) \<le> length (f_wname f)" using assms(2) by (simp add: gr grammar_def Let_def)
    then show ?thesis using sizeS2M_walk 1 by (simp add: gr)
  next
    case 2
    then have "unat (f_nwqid f) \<le> length (f_wqid f)" using assms(2) by (simp add: gr grammar_def Let_def)
    then show ?thesis using sizeS2M_rwalk 2 by (simp add: gr)
  next
    case 3
    show ?thesis using grammar_types [OF assms(1)] 3 assms(2) unfolding gr
      by (elim disjE) (simp_all add: grammar_def sizeS2M_def Let_def stringsz_eq enc_str_def enc_qid_def min_def)
  qed
qed

lemma pstrings_eq:
  "list_all (\<lambda>s. length (sval s) < 65536) ss \<Longrightarrow> map pstring ss = map (enc_str \<circ> sval) ss"
  by (simp add: list_all_iff pstring_eq)

lemma body_eq:
  assumes "grammar (f_type f) = Some gr" "list_all (\<lambda>x. wf_field x f) gr"
  shows "(case convS2M_T f of None \<Rightarrow> convS2M_R f | Some r \<Rightarrow> Some r) = Some (emits gr f, True)"
proof -
  have gr: "gr = the (grammar (f_type f))" using assms(1) by simp
  show ?thesis using grammar_types [OF assms(1)] assms(2) unfolding gr
    by (elim disjE) (simp_all add: grammar_def convS2M_T_def convS2M_R_def Let_def pstring_eq pqid_eq concat_index pstrings_eq)
qed

lemma grammar_None_size: "grammar (f_type f) = None \<Longrightarrow> sizeS2M f = 0"
  by (simp add: grammar_def sizeS2M_def Let_def split: if_splits)

lemma length_wire:
  "grammar (f_type f) = Some gr \<Longrightarrow> length (wire f) = 7 + length (emits gr f)"
  by (simp add: wire_def)

lemma sizeS2M_wire:
  assumes "wf_fcall f"
  shows "sizeS2M f = of_nat (length (wire f))" "unat (sizeS2M f) = length (wire f)"
proof -
  from assms obtain gr where gr: "grammar (f_type f) = Some gr" "list_all (\<lambda>x. wf_field x f) gr"
    "7 + length (emits gr f) < 2 ^ 32"
    by (auto simp: wf_fcall_def split: option.splits)
  show "sizeS2M f = of_nat (length (wire f))" using sizeS2M_eq [OF gr(1,2)] length_wire [OF gr(1)] by simp
  moreover have "unat (of_nat (length (wire f)) :: u32) = length (wire f)"
    using gr(3) length_wire [OF gr(1)] by (intro unat_of_nat_small) simp
  ultimately show "unat (sizeS2M f) = length (wire f)" by simp
qed

lemma convS2M_wire_eq:
  assumes "wf_fcall f"
  shows "convS2M f ap =
    (if length (wire f) \<le> length ap
     then (of_nat (length (wire f)), wire f @ drop (length (wire f)) ap) else (0, ap))"
proof -
  from assms obtain gr where gr: "grammar (f_type f) = Some gr" "list_all (\<lambda>x. wf_field x f) gr"
    by (auto simp: wf_fcall_def split: option.splits)
  have w: "PBIT32 (sizeS2M f) @ PBIT8 (f_type f) @ PBIT16 (f_tag f) @ emits gr f = wire f"
    using sizeS2M_eq [OF gr] by (simp add: wire_def gr)
  have s0: "sizeS2M f \<noteq> 0"
    using sizeS2M_wire(2) [OF assms] length_wire [OF gr(1)] by (intro notI) simp
  show ?thesis
    using s0 sizeS2M_wire(2) [OF assms]
    by (simp add: convS2M_def Let_def body_eq [OF gr] w not_le sizeS2M_wire(1) [OF assms, symmetric]
        length_wire [OF gr(1), symmetric])
qed

text \<open>
  C4: for a well-formed message \<open>convS2M\<close> writes exactly the bytes the 9P grammar
  prescribes (size, type, tag, fields) and leaves the rest of the buffer alone; when the
  buffer is shorter than that it returns 0 and writes nothing.
\<close>
theorem convS2M_wire:
  assumes "wf_fcall f"
  shows "convS2M f ap =
    (if length (wire f) \<le> length ap
     then (of_nat (length (wire f)), wire f @ drop (length (wire f)) ap) else (0, ap))"
  by (rule convS2M_wire_eq [OF assms])

text \<open>A zeroed \<open>Fcall\<close>, with its two arrays of \<open>MAXWELEM\<close> entries.\<close>

definition qid0 :: qid where
  "qid0 = \<lparr>q_path = 0, q_vers = 0, q_type = 0\<rparr>"

definition fcall0 :: fcall where
  "fcall0 = \<lparr>f_type = 0, f_fid = 0, f_tag = 0, f_msize = 0, f_version = None, f_oldtag = 0,
     f_ename = None, f_qid = qid0, f_iounit = 0, f_aqid = qid0, f_afid = 0, f_uname = None,
     f_aname = None, f_perm = 0, f_name = None, f_mode = 0, f_newfid = 0, f_nwname = 0,
     f_wname = replicate 16 None, f_nwqid = 0, f_wqid = replicate 16 qid0, f_offset = 0,
     f_count = 0, f_data = [], f_nstat = 0, f_stat = []\<rparr>"

definition tversion0 :: fcall where
  "tversion0 = fcall0\<lparr>f_type := Tversion, f_tag := 0xFFFF, f_msize := 8216, f_version := Some [57, 80]\<rparr>"

lemma tversion0_wf: "wf_fcall tversion0"
  by (simp add: wf_fcall_def tversion0_def fcall0_def grammar_def Let_def sval_def enc_str_def)

lemma tversion0_wire: "wire tversion0 = [15, 0, 0, 0, 100, 255, 255, 24, 32, 0, 0, 2, 0, 57, 80]"
  by (simp add: wire_def tversion0_def fcall0_def grammar_def Let_def sval_def enc_str_def
      PBIT8_def PBIT16_def PBIT32_def)

lemma convS2M_wire_witness:
  "convS2M tversion0 (replicate 16 0) = (15, [15, 0, 0, 0, 100, 255, 255, 24, 32, 0, 0, 2, 0, 57, 80, 0])"
  using convS2M_wire [OF tversion0_wf, of "replicate 16 0"] by (simp add: tversion0_wire numeral_eq_Suc)

end
