(* ===== verification/StyxSim.thy ===== *)
theory StyxSim
  imports Grammar ConvM2S StyxPack
begin

text \<open>
  The reader combinators of \<open>ConvM2S\<close> simulate the grammar: \<open>sim k r gr\<close> says
  that, standing after \<open>pre\<close> with \<open>inp\<close> left before \<open>ep\<close>, the reader
  \<open>r\<close> succeeds exactly when the grammar accepts a prefix of \<open>inp\<close>, consumes what the
  grammar consumes, fills the \<open>fcall\<close> the same way and never touches the bytes
  after \<open>ep\<close>.  \<open>k\<close> is the number of bytes already known to be there.
\<close>

fun min_len :: "field \<Rightarrow> nat" where
  "min_len (I8 g u) = 1"
| "min_len (I16 g u) = 2"
| "min_len (I32 g u) = 4"
| "min_len (I64 g u) = 8"
| "min_len (Str g u) = 2"
| "min_len (QidF g u) = 13"
| "min_len Wnames = 2"
| "min_len Wqids = 2"
| "min_len Data = 4"
| "min_len Stat = 2"

lemma dec_n_shrinks:
  assumes "\<And>inp x t. dec inp = Some (x, t) \<Longrightarrow> length t \<le> length inp"
  shows "dec_n dec n inp = Some (xs, t) \<Longrightarrow> length t \<le> length inp"
proof (induction n arbitrary: inp xs)
  case (Suc n)
  then obtain x u ys where "dec inp = Some (x, u)" "dec_n dec n u = Some (ys, t)"
    by (auto split: option.splits)
  then show ?case using assms Suc.IH by (meson le_trans)
qed simp

lemma dec_str_shrinks: "dec_str inp = Some (s, t) \<Longrightarrow> length t + 2 \<le> length inp"
  by (auto simp: dec_str_def Let_def split: if_splits)

lemma dec_qid_shrinks: "dec_qid inp = Some (s, t) \<Longrightarrow> length t + 13 = length inp"
  by (auto simp: dec_qid_def Let_def split: if_splits)

lemma accept_shrinks:
  assumes "accept x f inp = Some (f', t)"
  shows "length t + min_len x \<le> length inp"
proof (cases x)
  case Wnames
  then obtain ss where d: "dec_n dec_str (unat (GBIT16 inp 0)) (drop 2 inp) = Some (ss, t)" "2 \<le> length inp"
    using assms by (auto simp: Let_def split: if_splits option.splits)
  have "length t \<le> length (drop 2 inp)"
    by (rule dec_n_shrinks [OF _ d(1)]) (use dec_str_shrinks in fastforce)
  then show ?thesis using d(2) Wnames by simp
next
  case Wqids
  then obtain ss where d: "dec_n dec_qid (unat (GBIT16 inp 0)) (drop 2 inp) = Some (ss, t)" "2 \<le> length inp"
    using assms by (auto simp: Let_def split: if_splits option.splits)
  have "length t \<le> length (drop 2 inp)"
    by (rule dec_n_shrinks [OF _ d(1)]) (use dec_qid_shrinks in fastforce)
  then show ?thesis using d(2) Wqids by simp
qed (use assms in \<open>auto simp: Let_def split: if_splits option.splits dest!: dec_str_shrinks dec_qid_shrinks\<close>)

lemma accepts_short:
  "length inp < sum_list (map min_len gr) \<Longrightarrow> accepts gr f inp = None"
proof (induction gr arbitrary: f inp)
  case (Cons x gr)
  show ?case
  proof (cases "accept x f inp")
    case (Some r)
    obtain f' t where r: "r = (f', t)" by (cases r)
    then have "length t < sum_list (map min_len gr)"
      using accept_shrinks [of x f inp f' t] Some Cons.prems by simp
    then show ?thesis using Some r Cons.IH by simp
  qed simp
qed simp

definition arr_ok :: "fcall \<Rightarrow> bool" where
  "arr_ok f \<longleftrightarrow> length (f_wname f) = MAXWELEM \<and> length (f_wqid f) = MAXWELEM"

definition sim :: "nat \<Rightarrow> rd \<Rightarrow> field list \<Rightarrow> bool" where
  "sim k r gr \<longleftrightarrow>
     (\<forall>pre inp post f. k \<le> length inp \<longrightarrow> arr_ok f \<longrightarrow>
        (case accepts gr f inp of
           None \<Rightarrow> \<exists>pre' p f'. length pre' = length pre + length inp \<and>
             r (length pre + length inp) (pre @ inp @ post, length pre, f) = (False, pre' @ post, p, f')
         | Some (f', t) \<Rightarrow> \<exists>pre'. length pre' + length t = length pre + length inp \<and>
             r (length pre + length inp) (pre @ inp @ post, length pre, f) =
               (True, pre' @ t @ post, length pre', f')))"

lemma simI:
  assumes "\<And>pre inp post f f' t. k \<le> length inp \<Longrightarrow> arr_ok f \<Longrightarrow> accepts gr f inp = Some (f', t) \<Longrightarrow>
     \<exists>pre'. length pre' + length t = length pre + length inp \<and>
       r (length pre + length inp) (pre @ inp @ post, length pre, f) = (True, pre' @ t @ post, length pre', f')"
    and "\<And>pre inp post f. k \<le> length inp \<Longrightarrow> arr_ok f \<Longrightarrow> accepts gr f inp = None \<Longrightarrow>
     \<exists>pre' p f'. length pre' = length pre + length inp \<and>
       r (length pre + length inp) (pre @ inp @ post, length pre, f) = (False, pre' @ post, p, f')"
  shows "sim k r gr"
  using assms by (auto simp: sim_def split: option.splits)

lemma simD_Some:
  "sim k r gr \<Longrightarrow> k \<le> length inp \<Longrightarrow> arr_ok f \<Longrightarrow> accepts gr f inp = Some (f', t) \<Longrightarrow>
   \<exists>pre'. length pre' + length t = length pre + length inp \<and>
     r (length pre + length inp) (pre @ inp @ post, length pre, f) = (True, pre' @ t @ post, length pre', f')"
  by (fastforce simp: sim_def split: option.splits)

lemma simD_None:
  "sim k r gr \<Longrightarrow> k \<le> length inp \<Longrightarrow> arr_ok f \<Longrightarrow> accepts gr f inp = None \<Longrightarrow>
   \<exists>pre' p f'. length pre' = length pre + length inp \<and>
     r (length pre + length inp) (pre @ inp @ post, length pre, f) = (False, pre' @ post, p, f')"
  by (fastforce simp: sim_def split: option.splits)

lemma sim_nil: "sim k (rd_seq []) []"
  by (rule simI) auto

lemma sim_mono: "sim k r gr \<Longrightarrow> k \<le> k' \<Longrightarrow> sim k' r gr"
  by (auto simp: sim_def)

definition simf :: "nat \<Rightarrow> nat \<Rightarrow> rd \<Rightarrow> field \<Rightarrow> bool" where
  "simf k k' r x \<longleftrightarrow>
     (\<forall>pre inp post f. k \<le> length inp \<longrightarrow> arr_ok f \<longrightarrow>
        (case accept x f inp of
           None \<Rightarrow> \<exists>pre' p f'. length pre' = length pre + length inp \<and>
             r (length pre + length inp) (pre @ inp @ post, length pre, f) = (False, pre' @ post, p, f')
         | Some (f', t) \<Rightarrow> k' \<le> length t \<and> arr_ok f' \<and>
             (\<exists>pre'. length pre' + length t = length pre + length inp \<and>
               r (length pre + length inp) (pre @ inp @ post, length pre, f) =
                 (True, pre' @ t @ post, length pre', f'))))"

lemma simf_Some:
  "simf k k' r x \<Longrightarrow> k \<le> length inp \<Longrightarrow> arr_ok f \<Longrightarrow> accept x f inp = Some (f', t) \<Longrightarrow>
   k' \<le> length t \<and> arr_ok f' \<and> (\<exists>pre'. length pre' + length t = length pre + length inp \<and>
     r (length pre + length inp) (pre @ inp @ post, length pre, f) = (True, pre' @ t @ post, length pre', f'))"
  by (fastforce simp: simf_def split: option.splits)

lemma simf_None:
  "simf k k' r x \<Longrightarrow> k \<le> length inp \<Longrightarrow> arr_ok f \<Longrightarrow> accept x f inp = None \<Longrightarrow>
   \<exists>pre' p f'. length pre' = length pre + length inp \<and>
     r (length pre + length inp) (pre @ inp @ post, length pre, f) = (False, pre' @ post, p, f')"
  by (fastforce simp: simf_def split: option.splits)

lemma sim_cons:
  assumes "simf k k' r x" "sim k' (rd_seq rs) gr"
  shows "sim k (rd_seq (r # rs)) (x # gr)"
proof (rule simI)
  fix pre inp post t :: "u8 list" and f f'
  assume a: "k \<le> length inp" "arr_ok f" "accepts (x # gr) f inp = Some (f', t)"
  then obtain g u where g: "accept x f inp = Some (g, u)" "accepts gr g u = Some (f', t)"
    by (auto split: option.splits)
  obtain q where q: "k' \<le> length u" "arr_ok g" "length q + length u = length pre + length inp"
    "r (length pre + length inp) (pre @ inp @ post, length pre, f) = (True, q @ u @ post, length q, g)"
    using simf_Some [OF assms(1) a(1,2) g(1), of pre post] by blast
  show "\<exists>pre'. length pre' + length t = length pre + length inp \<and>
     rd_seq (r # rs) (length pre + length inp) (pre @ inp @ post, length pre, f) = (True, pre' @ t @ post, length pre', f')"
    using simD_Some [OF assms(2) q(1,2) g(2), of q post] q(3,4) by simp
next
  fix pre inp post :: "u8 list" and f
  assume a: "k \<le> length inp" "arr_ok f" "accepts (x # gr) f inp = None"
  show "\<exists>pre' p f'. length pre' = length pre + length inp \<and>
     rd_seq (r # rs) (length pre + length inp) (pre @ inp @ post, length pre, f) = (False, pre' @ post, p, f')"
  proof (cases "accept x f inp")
    case None
    then show ?thesis using simf_None [OF assms(1) a(1,2), of pre post] by fastforce
  next
    case (Some gu)
    then obtain g u where g: "accept x f inp = Some (g, u)" "accepts gr g u = None"
      using a(3) by (cases gu) auto
    obtain q where q: "k' \<le> length u" "arr_ok g" "length q + length u = length pre + length inp"
      "r (length pre + length inp) (pre @ inp @ post, length pre, f) = (True, q @ u @ post, length q, g)"
      using simf_Some [OF assms(1) a(1,2) g(1), of pre post] by blast
    show ?thesis
      using simD_None [OF assms(2) q(1,2) g(2), of q post] q(3,4) by simp
  qed
qed

lemma sim_need:
  assumes "n \<le> sum_list (map min_len gr)" "sim (max k n) (rd_seq rs) gr"
  shows "sim k (rd_seq (need n # rs)) gr"
proof (rule simI)
  fix pre inp post t :: "u8 list" and f f'
  assume a: "k \<le> length inp" "arr_ok f" "accepts gr f inp = Some (f', t)"
  then have "n \<le> length inp" using accepts_short [of inp gr f] assms(1) by fastforce
  then show "\<exists>pre'. length pre' + length t = length pre + length inp \<and>
     rd_seq (need n # rs) (length pre + length inp) (pre @ inp @ post, length pre, f) = (True, pre' @ t @ post, length pre', f')"
    using simD_Some [OF assms(2) _ a(2,3), of pre post] a(1) by (simp add: need_def)
next
  fix pre inp post :: "u8 list" and f
  assume a: "k \<le> length inp" "arr_ok f" "accepts gr f inp = None"
  show "\<exists>pre' p f'. length pre' = length pre + length inp \<and>
     rd_seq (need n # rs) (length pre + length inp) (pre @ inp @ post, length pre, f) = (False, pre' @ post, p, f')"
  proof (cases "n \<le> length inp")
    case True
    then show ?thesis
      using simD_None [OF assms(2) _ a(2,3), of pre post] a(1) by (simp add: need_def)
  next
    case False
    then show ?thesis by (auto simp: need_def intro: exI [of _ "pre @ inp"])
  qed
qed

lemma simf_get:
  assumes "\<And>m p ep f. r ep (m, p, f) = (True, m, p + n, u m p f)"
    and "\<And>inp f. n \<le> length inp \<Longrightarrow> accept x f inp = Some (u inp 0 f, drop n inp)"
    and "\<And>pre inp post f. n \<le> length inp \<Longrightarrow> u (pre @ inp @ post) (length pre) f = u inp 0 f"
    and "n \<le> k" "k' \<le> k - n" "\<And>m p f. arr_ok (u m p f) = arr_ok f"
  shows "simf k k' r x"
  unfolding simf_def
proof (intro allI impI)
  fix pre inp post :: "u8 list" and f
  assume a: "k \<le> length inp" "arr_ok f"
  then show "case accept x f inp of
           None \<Rightarrow> \<exists>pre' p f'. length pre' = length pre + length inp \<and>
             r (length pre + length inp) (pre @ inp @ post, length pre, f) = (False, pre' @ post, p, f')
         | Some (f', t) \<Rightarrow> k' \<le> length t \<and> arr_ok f' \<and>
             (\<exists>pre'. length pre' + length t = length pre + length inp \<and>
               r (length pre + length inp) (pre @ inp @ post, length pre, f) =
                 (True, pre' @ t @ post, length pre', f'))"
    using assms by (auto intro!: exI [of _ "pre @ take n inp"])
qed

lemma simf_get8:
  "1 \<le> k \<Longrightarrow> k' \<le> k - 1 \<Longrightarrow> (\<And>v f. arr_ok (u v f) = arr_ok f) \<Longrightarrow> simf k k' (get8 u) (I8 g u)"
  by (rule simf_get [where n = 1 and u = "\<lambda>m p f. u (GBIT8 m p) f"]) (auto simp: get8_def Suc_le_eq)

lemma simf_get16:
  "2 \<le> k \<Longrightarrow> k' \<le> k - 2 \<Longrightarrow> (\<And>v f. arr_ok (u v f) = arr_ok f) \<Longrightarrow> simf k k' (get16 u) (I16 g u)"
  by (rule simf_get [where n = 2 and u = "\<lambda>m p f. u (GBIT16 m p) f"]) (auto simp: get16_def)

lemma simf_get32:
  "4 \<le> k \<Longrightarrow> k' \<le> k - 4 \<Longrightarrow> (\<And>v f. arr_ok (u v f) = arr_ok f) \<Longrightarrow> simf k k' (get32 u) (I32 g u)"
  by (rule simf_get [where n = 4 and u = "\<lambda>m p f. u (GBIT32 m p) f"]) (auto simp: get32_def)

lemma simf_get64:
  "8 \<le> k \<Longrightarrow> k' \<le> k - 8 \<Longrightarrow> (\<And>v f. arr_ok (u v f) = arr_ok f) \<Longrightarrow> simf k k' (get64 u) (I64 g u)"
  by (rule simf_get [where n = 8 and u = "\<lambda>m p f. u (GBIT64 m p) f"]) (auto simp: get64_def)

lemma gstring_None:
  "dec_str inp = None \<Longrightarrow> gstring (pre @ inp @ post) (length pre) (length pre + length inp) = None"
  by (auto simp: dec_str_def gstring_def Let_def split: if_splits)

lemma gstring_Some:
  assumes "dec_str inp = Some (s, t)"
  shows "\<exists>pre'. length pre' + length t = length pre + length inp \<and>
    gstring (pre @ inp @ post) (length pre) (length pre + length inp) =
      Some (pre' @ t @ post, length pre', s)"
proof -
  let ?n = "unat (GBIT16 inp 0)"
  have l: "2 \<le> length inp" "2 + ?n \<le> length inp" "s = take ?n (drop 2 inp)" "t = drop (2 + ?n) inp"
    using assms by (auto simp: dec_str_def Let_def split: if_splits)
  let ?p = "take (Suc (length pre)) (pre @ inp @ post) @ s @ [0]"
  have lp: "length ?p = length pre + 2 + ?n" using l by simp
  have "gstring (pre @ inp @ post) (length pre) (length pre + length inp) =
      Some (?p @ t @ post, length ?p, s)"
    using l lp by (simp add: gstring_def Let_def)
  then show ?thesis using lp l by (intro exI [of _ ?p]) simp
qed

lemma simf_getstr:
  assumes "\<And>v f. arr_ok (u v f) = arr_ok f"
  shows "simf k 0 (getstr u) (Str g u)"
  unfolding simf_def
proof (intro allI impI)
  fix pre inp post :: "u8 list" and f
  assume a: "arr_ok f"
  show "case accept (Str g u) f inp of
           None \<Rightarrow> \<exists>pre' p f'. length pre' = length pre + length inp \<and>
             getstr u (length pre + length inp) (pre @ inp @ post, length pre, f) = (False, pre' @ post, p, f')
         | Some (f', t) \<Rightarrow> 0 \<le> length t \<and> arr_ok f' \<and>
             (\<exists>pre'. length pre' + length t = length pre + length inp \<and>
               getstr u (length pre + length inp) (pre @ inp @ post, length pre, f) =
                 (True, pre' @ t @ post, length pre', f'))"
  proof (cases "dec_str inp")
    case None
    then show ?thesis using gstring_None [OF None, of pre post]
      by (auto simp: getstr_def intro: exI [of _ "pre @ inp"])
  next
    case (Some r)
    then obtain s t where r: "dec_str inp = Some (s, t)" by (cases r) auto
    show ?thesis using gstring_Some [OF r, of pre post] r a assms by (auto simp: getstr_def)
  qed
qed

lemma simfI:
  assumes "\<And>pre inp post f f' t. k \<le> length inp \<Longrightarrow> arr_ok f \<Longrightarrow> accept x f inp = Some (f', t) \<Longrightarrow>
     k' \<le> length t \<and> arr_ok f' \<and> (\<exists>pre'. length pre' + length t = length pre + length inp \<and>
       r (length pre + length inp) (pre @ inp @ post, length pre, f) = (True, pre' @ t @ post, length pre', f'))"
    and "\<And>pre inp post f. k \<le> length inp \<Longrightarrow> arr_ok f \<Longrightarrow> accept x f inp = None \<Longrightarrow>
     \<exists>pre' p f'. length pre' = length pre + length inp \<and>
       r (length pre + length inp) (pre @ inp @ post, length pre, f) = (False, pre' @ post, p, f')"
  shows "simf k k' r x"
  using assms by (auto simp: simf_def split: option.splits)

lemma gqid_None:
  "dec_qid inp = None \<Longrightarrow> gqid (pre @ inp @ post) (length pre) (length pre + length inp) = None"
  by (auto simp: dec_qid_def gqid_def split: if_splits)

lemma gqid_Some:
  assumes "dec_qid inp = Some (q, t)"
  shows "gqid (pre @ inp @ post) (length pre) (length pre + length inp) = Some (length pre + 13, q) \<and>
    t = drop 13 inp \<and> 13 \<le> length inp"
proof -
  have l: "13 \<le> length inp" "t = drop 13 inp" using assms by (auto simp: dec_qid_def split: if_splits)
  have e: "pre @ inp @ post = (pre @ take 1 inp) @ drop 1 inp @ post"
    "pre @ inp @ post = (pre @ take 5 inp) @ drop 5 inp @ post" by simp_all
  have "GBIT32 (pre @ inp @ post) (length pre + 1) = GBIT32 (drop 1 inp) 0"
    by (subst e(1), rule GBIT_append(3)) (use l in auto)
  moreover have "GBIT64 (pre @ inp @ post) (length pre + 5) = GBIT64 (drop 5 inp) 0"
    by (subst e(2), rule GBIT_append(4)) (use l in auto)
  ultimately show ?thesis using l assms by (auto simp: gqid_def dec_qid_def add.commute add.left_commute)
qed

lemma simf_getqid:
  assumes "\<And>v f. arr_ok (u v f) = arr_ok f"
  shows "simf k 0 (getqid u) (QidF g u)"
proof (rule simfI)
  fix pre inp post t :: "u8 list" and f f'
  assume a: "arr_ok f" "accept (QidF g u) f inp = Some (f', t)"
  then obtain q where q: "dec_qid inp = Some (q, t)" "f' = u q f" by (auto split: option.splits)
  show "0 \<le> length t \<and> arr_ok f' \<and> (\<exists>pre'. length pre' + length t = length pre + length inp \<and>
       getqid u (length pre + length inp) (pre @ inp @ post, length pre, f) = (True, pre' @ t @ post, length pre', f'))"
    using gqid_Some [OF q(1), of pre post] a(1) assms q(2)
    by (auto simp: getqid_def intro!: exI [of _ "pre @ take 13 inp"])
next
  fix pre inp post :: "u8 list" and f
  assume "accept (QidF g u) f inp = None"
  then have "dec_qid inp = None" by (auto split: option.splits)
  then show "\<exists>pre' p f'. length pre' = length pre + length inp \<and>
       getqid u (length pre + length inp) (pre @ inp @ post, length pre, f) = (False, pre' @ post, p, f')"
    using gqid_None [of inp pre post] by (auto simp: getqid_def intro: exI [of _ "pre @ inp"])
qed

lemma simf_Data:
  assumes "4 \<le> k"
  shows "simf k 0 (rd_seq [get32 (\<lambda>v f. f\<lparr>f_count := v\<rparr>),
     getbytes (\<lambda>f. unat (f_count f)) (\<lambda>d f. f\<lparr>f_data := d\<rparr>)]) Data"
proof (rule simfI)
  fix pre inp post t :: "u8 list" and f f'
  assume a: "k \<le> length inp" "arr_ok f" "accept Data f inp = Some (f', t)"
  then show "0 \<le> length t \<and> arr_ok f' \<and> (\<exists>pre'. length pre' + length t = length pre + length inp \<and>
      rd_seq [get32 (\<lambda>v f. f\<lparr>f_count := v\<rparr>),
     getbytes (\<lambda>f. unat (f_count f)) (\<lambda>d f. f\<lparr>f_data := d\<rparr>)] (length pre + length inp) (pre @ inp @ post, length pre, f) = (True, pre' @ t @ post, length pre', f'))"
    using assms by (auto simp: get32_def getbytes_def arr_ok_def Let_def split: if_splits
      intro!: exI [of _ "pre @ take (4 + unat (GBIT32 inp 0)) inp"])
next
  fix pre inp post :: "u8 list" and f
  assume a: "k \<le> length inp" "accept Data f inp = None"
  then show "\<exists>pre' p f'. length pre' = length pre + length inp \<and>
       rd_seq [get32 (\<lambda>v f. f\<lparr>f_count := v\<rparr>),
     getbytes (\<lambda>f. unat (f_count f)) (\<lambda>d f. f\<lparr>f_data := d\<rparr>)] (length pre + length inp) (pre @ inp @ post, length pre, f) = (False, pre' @ post, p, f')"
    using assms by (auto simp: get32_def getbytes_def Let_def split: if_splits
      intro!: exI [of _ "pre @ inp"])
qed

lemma simf_Stat:
  assumes "2 \<le> k"
  shows "simf k 0 (rd_seq [get16 (\<lambda>v f. f\<lparr>f_nstat := v\<rparr>),
     getbytes (\<lambda>f. unat (f_nstat f)) (\<lambda>d f. f\<lparr>f_stat := d\<rparr>)]) Stat"
proof (rule simfI)
  fix pre inp post t :: "u8 list" and f f'
  assume a: "k \<le> length inp" "arr_ok f" "accept Stat f inp = Some (f', t)"
  then show "0 \<le> length t \<and> arr_ok f' \<and> (\<exists>pre'. length pre' + length t = length pre + length inp \<and>
      rd_seq [get16 (\<lambda>v f. f\<lparr>f_nstat := v\<rparr>),
     getbytes (\<lambda>f. unat (f_nstat f)) (\<lambda>d f. f\<lparr>f_stat := d\<rparr>)] (length pre + length inp) (pre @ inp @ post, length pre, f) = (True, pre' @ t @ post, length pre', f'))"
    using assms by (auto simp: get16_def getbytes_def arr_ok_def Let_def split: if_splits
      intro!: exI [of _ "pre @ take (2 + unat (GBIT16 inp 0)) inp"])
next
  fix pre inp post :: "u8 list" and f
  assume a: "k \<le> length inp" "accept Stat f inp = None"
  then show "\<exists>pre' p f'. length pre' = length pre + length inp \<and>
       rd_seq [get16 (\<lambda>v f. f\<lparr>f_nstat := v\<rparr>),
     getbytes (\<lambda>f. unat (f_nstat f)) (\<lambda>d f. f\<lparr>f_stat := d\<rparr>)] (length pre + length inp) (pre @ inp @ post, length pre, f) = (False, pre' @ post, p, f')"
    using assms by (auto simp: get16_def getbytes_def Let_def split: if_splits
      intro!: exI [of _ "pre @ inp"])
qed

fun upd_all :: "(nat \<Rightarrow> 'a \<Rightarrow> 'f \<Rightarrow> 'f) \<Rightarrow> nat \<Rightarrow> 'a list \<Rightarrow> 'f \<Rightarrow> 'f" where
  "upd_all u i [] f = f"
| "upd_all u i (x # xs) f = upd_all u (Suc i) xs (u i x f)"

lemma rd_for_Some:
  assumes body: "\<And>i pre inp f x t. dec inp = Some (x, t) \<Longrightarrow>
      \<exists>pre'. length pre' + length t = length pre + length inp \<and>
       body i (length pre + length inp) (pre @ inp @ post, length pre, f) = (True, pre' @ t @ post, length pre', u i x f)"
  shows "dec_n dec n inp = Some (xs, t) \<Longrightarrow>
     \<exists>pre'. length pre' + length t = length pre + length inp \<and>
       rd_for i n body (length pre + length inp) (pre @ inp @ post, length pre, f) =
         (True, pre' @ t @ post, length pre', upd_all u i xs f)"
proof (induction n arbitrary: i inp xs pre f)
  case 0
  then show ?case by auto
next
  case (Suc n)
  then obtain x v ys where d: "dec inp = Some (x, v)" "dec_n dec n v = Some (ys, t)" "xs = x # ys"
    by (auto split: option.splits)
  obtain q where q: "length q + length v = length pre + length inp"
    "body i (length pre + length inp) (pre @ inp @ post, length pre, f) = (True, q @ v @ post, length q, u i x f)"
    using body [OF d(1)] by blast
  show ?case using Suc.IH [OF d(2), of q "Suc i" "u i x f"] q d(3) by simp
qed

lemma rd_for_None:
  assumes body: "\<And>i pre inp f x t. dec inp = Some (x, t) \<Longrightarrow>
      \<exists>pre'. length pre' + length t = length pre + length inp \<and>
       body i (length pre + length inp) (pre @ inp @ post, length pre, f) = (True, pre' @ t @ post, length pre', u i x f)"
    and fail: "\<And>i pre inp f. dec inp = None \<Longrightarrow>
      \<exists>p f'. body i (length pre + length inp) (pre @ inp @ post, length pre, f) = (False, pre @ inp @ post, p, f')"
  shows "dec_n dec n inp = None \<Longrightarrow>
     \<exists>pre' p f'. length pre' = length pre + length inp \<and>
       rd_for i n body (length pre + length inp) (pre @ inp @ post, length pre, f) = (False, pre' @ post, p, f')"
proof (induction n arbitrary: i inp pre f)
  case 0
  then show ?case by auto
next
  case (Suc n)
  show ?case
  proof (cases "dec inp")
    case None
    then show ?thesis using fail [OF None, of i pre f] by (fastforce intro: exI [of _ "pre @ inp"])
  next
    case (Some r)
    then obtain x v where d: "dec inp = Some (x, v)" "dec_n dec n v = None"
      using Suc.prems by (cases r) (auto split: option.splits)
    obtain q where q: "length q + length v = length pre + length inp"
      "body i (length pre + length inp) (pre @ inp @ post, length pre, f) = (True, q @ v @ post, length q, u i x f)"
      using body [OF d(1)] by blast
    show ?thesis using Suc.IH [OF d(2), of q "Suc i" "u i x f"] q by simp
  qed
qed


lemma upd_all_wname:
  "i + length ss \<le> length (f_wname f) \<Longrightarrow>
   upd_all (\<lambda>i v f. f\<lparr>f_wname := (f_wname f)[i := Some v]\<rparr>) i ss f =
   f\<lparr>f_wname := take i (f_wname f) @ map Some ss @ drop (i + length ss) (f_wname f)\<rparr>"
  by (induction ss arbitrary: i f) (simp_all add: upd_conv_take_nth_drop take_Suc_conv_app_nth add.commute)

lemma upd_all_wqid:
  "i + length ss \<le> length (f_wqid f) \<Longrightarrow>
   upd_all (\<lambda>i v f. f\<lparr>f_wqid := (f_wqid f)[i := v]\<rparr>) i ss f =
   f\<lparr>f_wqid := take i (f_wqid f) @ ss @ drop (i + length ss) (f_wqid f)\<rparr>"
  by (induction ss arbitrary: i f) (simp_all add: upd_conv_take_nth_drop take_Suc_conv_app_nth add.commute)

lemma getstr_body:
  "dec_str inp = Some (x, t) \<Longrightarrow>
   \<exists>pre'. length pre' + length t = length pre + length inp \<and>
     getstr (\<lambda>v f. u i v f) (length pre + length inp) (pre @ inp @ post, length pre, f) =
       (True, pre' @ t @ post, length pre', u i (Some x) f)"
  using gstring_Some [of inp x t pre post] by (auto simp: getstr_def)

lemma getqid_body:
  "dec_qid inp = Some (x, t) \<Longrightarrow>
   \<exists>pre'. length pre' + length t = length pre + length inp \<and>
     getqid (\<lambda>v f. u i v f) (length pre + length inp) (pre @ inp @ post, length pre, f) =
       (True, pre' @ t @ post, length pre', u i x f)"
  using gqid_Some [of inp x t pre post]
  by (auto simp: getqid_def intro!: exI [of _ "pre @ take 13 inp"])

lemma simf_Wnames:
  assumes "2 \<le> k"
  shows "simf k 0 (rd_seq [get16 (\<lambda>v f. f\<lparr>f_nwname := v\<rparr>),
     check (\<lambda>f. \<not> unat (f_nwname f) > MAXWELEM),
     rd_loop (\<lambda>f. unat (f_nwname f)) (\<lambda>i. getstr (\<lambda>v f. f\<lparr>f_wname := (f_wname f)[i := v]\<rparr>))]) Wnames"
proof (rule simfI)
  fix pre inp post t :: "u8 list" and f f'
  assume a: "k \<le> length inp" "arr_ok f" "accept Wnames f inp = Some (f', t)"
  let ?n = "unat (GBIT16 inp 0)" and ?f = "f\<lparr>f_nwname := GBIT16 inp 0\<rparr>"
  have e: "Suc (Suc (length pre + length inp - 2)) = length pre + length inp" using a(1) assms by simp
  obtain ss where d: "?n \<le> MAXWELEM" "dec_n dec_str ?n (drop 2 inp) = Some (ss, t)"
    "f' = f\<lparr>f_nwname := GBIT16 inp 0, f_wname := map Some ss @ drop ?n (f_wname f)\<rparr>"
    using a(3) by (auto simp: Let_def split: if_splits option.splits)
  have n: "length ss = ?n" using str.enc_dec_n [OF d(2)] by simp
  have u: "upd_all (\<lambda>i v f. f\<lparr>f_wname := (f_wname f)[i := Some v]\<rparr>) 0 ss ?f = f'"
    using d(1,3) n a(2) by (simp add: upd_all_wname arr_ok_def)
  obtain q where "length q + length t = length (pre @ take 2 inp) + length (drop 2 inp)"
    "rd_for 0 ?n (\<lambda>i. getstr (\<lambda>v f. f\<lparr>f_wname := (f_wname f)[i := v]\<rparr>))
       (length (pre @ take 2 inp) + length (drop 2 inp))
       ((pre @ take 2 inp) @ drop 2 inp @ post, length (pre @ take 2 inp), ?f) =
     (True, q @ t @ post, length q, upd_all (\<lambda>i v f. f\<lparr>f_wname := (f_wname f)[i := Some v]\<rparr>) 0 ss ?f)"
    using rd_for_Some [where dec = dec_str and body = "\<lambda>i. getstr (\<lambda>v f. f\<lparr>f_wname := (f_wname f)[i := v]\<rparr>)" and u = "\<lambda>i v f. f\<lparr>f_wname := (f_wname f)[i := Some v]\<rparr>" and n = ?n and inp = "drop 2 inp" and pre = "pre @ take 2 inp" and post = post and f = ?f and i = 0]
      getstr_body [where u = "\<lambda>i v f. f\<lparr>f_wname := (f_wname f)[i := v]\<rparr>"] d(2) by blast
  then show "0 \<le> length t \<and> arr_ok f' \<and> (\<exists>pre'. length pre' + length t = length pre + length inp \<and>
      rd_seq [get16 (\<lambda>v f. f\<lparr>f_nwname := v\<rparr>), check (\<lambda>f. \<not> unat (f_nwname f) > MAXWELEM),
       rd_loop (\<lambda>f. unat (f_nwname f)) (\<lambda>i. getstr (\<lambda>v f. f\<lparr>f_wname := (f_wname f)[i := v]\<rparr>))]
       (length pre + length inp) (pre @ inp @ post, length pre, f) = (True, pre' @ t @ post, length pre', f'))"
    using a(1,2) assms d n unfolding u
    by (auto simp: e get16_def check_def rd_loop_def arr_ok_def intro!: exI [of _ q])
next
  fix pre inp post :: "u8 list" and f
  assume a: "k \<le> length inp" "accept Wnames f inp = None"
  let ?n = "unat (GBIT16 inp 0)" and ?f = "f\<lparr>f_nwname := GBIT16 inp 0\<rparr>"
  have e: "Suc (Suc (length pre + length inp - 2)) = length pre + length inp" using a(1) assms by simp
  have "?n > MAXWELEM \<or> dec_n dec_str ?n (drop 2 inp) = None"
    using a assms by (auto simp: Let_def split: if_splits option.splits)
  then show "\<exists>pre' p f'. length pre' = length pre + length inp \<and>
       rd_seq [get16 (\<lambda>v f. f\<lparr>f_nwname := v\<rparr>), check (\<lambda>f. \<not> unat (f_nwname f) > MAXWELEM),
       rd_loop (\<lambda>f. unat (f_nwname f)) (\<lambda>i. getstr (\<lambda>v f. f\<lparr>f_wname := (f_wname f)[i := v]\<rparr>))]
       (length pre + length inp) (pre @ inp @ post, length pre, f) = (False, pre' @ post, p, f')"
  proof (cases "?n > MAXWELEM")
    case True
    then show ?thesis using a(1) assms
      by (auto simp: get16_def check_def intro!: exI [of _ "pre @ inp"])
  next
    case False
    with \<open>?n > MAXWELEM \<or> _\<close> have d: "dec_n dec_str ?n (drop 2 inp) = None" by blast
    obtain q p f' where "length q = length (pre @ take 2 inp) + length (drop 2 inp)"
      "rd_for 0 ?n (\<lambda>i. getstr (\<lambda>v f. f\<lparr>f_wname := (f_wname f)[i := v]\<rparr>))
       (length (pre @ take 2 inp) + length (drop 2 inp))
       ((pre @ take 2 inp) @ drop 2 inp @ post, length (pre @ take 2 inp), ?f) = (False, q @ post, p, f')"
      using rd_for_None [where dec = dec_str and body = "\<lambda>i. getstr (\<lambda>v f. f\<lparr>f_wname := (f_wname f)[i := v]\<rparr>)" and u = "\<lambda>i v f. f\<lparr>f_wname := (f_wname f)[i := Some v]\<rparr>" and n = ?n and inp = "drop 2 inp" and pre = "pre @ take 2 inp" and post = post and f = ?f and i = 0]
      getstr_body [where u = "\<lambda>i v f. f\<lparr>f_wname := (f_wname f)[i := v]\<rparr>"] d gstring_None
      by (fastforce simp: getstr_def)
    then show ?thesis using a(1) assms False
      by (auto simp: e get16_def check_def rd_loop_def intro!: exI [of _ q])
  qed
qed

lemma simf_Wqids:
  assumes "2 \<le> k"
  shows "simf k 0 (rd_seq [get16 (\<lambda>v f. f\<lparr>f_nwqid := v\<rparr>),
     check (\<lambda>f. \<not> unat (f_nwqid f) > MAXWELEM),
     rd_loop (\<lambda>f. unat (f_nwqid f)) (\<lambda>i. getqid (\<lambda>v f. f\<lparr>f_wqid := (f_wqid f)[i := v]\<rparr>))]) Wqids"
proof (rule simfI)
  fix pre inp post t :: "u8 list" and f f'
  assume a: "k \<le> length inp" "arr_ok f" "accept Wqids f inp = Some (f', t)"
  let ?n = "unat (GBIT16 inp 0)" and ?f = "f\<lparr>f_nwqid := GBIT16 inp 0\<rparr>"
  have e: "Suc (Suc (length pre + length inp - 2)) = length pre + length inp" using a(1) assms by simp
  obtain ss where d: "?n \<le> MAXWELEM" "dec_n dec_qid ?n (drop 2 inp) = Some (ss, t)"
    "f' = f\<lparr>f_nwqid := GBIT16 inp 0, f_wqid := ss @ drop ?n (f_wqid f)\<rparr>"
    using a(3) by (auto simp: Let_def split: if_splits option.splits)
  have n: "length ss = ?n" using qidc.enc_dec_n [OF d(2)] by simp
  have u: "upd_all (\<lambda>i v f. f\<lparr>f_wqid := (f_wqid f)[i := v]\<rparr>) 0 ss ?f = f'"
    using d(1,3) n a(2) by (simp add: upd_all_wqid arr_ok_def)
  obtain q where "length q + length t = length (pre @ take 2 inp) + length (drop 2 inp)"
    "rd_for 0 ?n (\<lambda>i. getqid (\<lambda>v f. f\<lparr>f_wqid := (f_wqid f)[i := v]\<rparr>))
       (length (pre @ take 2 inp) + length (drop 2 inp))
       ((pre @ take 2 inp) @ drop 2 inp @ post, length (pre @ take 2 inp), ?f) =
     (True, q @ t @ post, length q, upd_all (\<lambda>i v f. f\<lparr>f_wqid := (f_wqid f)[i := v]\<rparr>) 0 ss ?f)"
    using rd_for_Some [where dec = dec_qid and body = "\<lambda>i. getqid (\<lambda>v f. f\<lparr>f_wqid := (f_wqid f)[i := v]\<rparr>)" and u = "\<lambda>i v f. f\<lparr>f_wqid := (f_wqid f)[i := v]\<rparr>" and n = ?n and inp = "drop 2 inp" and pre = "pre @ take 2 inp" and post = post and f = ?f and i = 0]
      getqid_body [where u = "\<lambda>i v f. f\<lparr>f_wqid := (f_wqid f)[i := v]\<rparr>"] d(2) by blast
  then show "0 \<le> length t \<and> arr_ok f' \<and> (\<exists>pre'. length pre' + length t = length pre + length inp \<and>
      rd_seq [get16 (\<lambda>v f. f\<lparr>f_nwqid := v\<rparr>), check (\<lambda>f. \<not> unat (f_nwqid f) > MAXWELEM),
       rd_loop (\<lambda>f. unat (f_nwqid f)) (\<lambda>i. getqid (\<lambda>v f. f\<lparr>f_wqid := (f_wqid f)[i := v]\<rparr>))]
       (length pre + length inp) (pre @ inp @ post, length pre, f) = (True, pre' @ t @ post, length pre', f'))"
    using a(1,2) assms d n unfolding u
    by (auto simp: e get16_def check_def rd_loop_def arr_ok_def intro!: exI [of _ q])
next
  fix pre inp post :: "u8 list" and f
  assume a: "k \<le> length inp" "accept Wqids f inp = None"
  let ?n = "unat (GBIT16 inp 0)" and ?f = "f\<lparr>f_nwqid := GBIT16 inp 0\<rparr>"
  have e: "Suc (Suc (length pre + length inp - 2)) = length pre + length inp" using a(1) assms by simp
  have "?n > MAXWELEM \<or> dec_n dec_qid ?n (drop 2 inp) = None"
    using a assms by (auto simp: Let_def split: if_splits option.splits)
  then show "\<exists>pre' p f'. length pre' = length pre + length inp \<and>
       rd_seq [get16 (\<lambda>v f. f\<lparr>f_nwqid := v\<rparr>), check (\<lambda>f. \<not> unat (f_nwqid f) > MAXWELEM),
       rd_loop (\<lambda>f. unat (f_nwqid f)) (\<lambda>i. getqid (\<lambda>v f. f\<lparr>f_wqid := (f_wqid f)[i := v]\<rparr>))]
       (length pre + length inp) (pre @ inp @ post, length pre, f) = (False, pre' @ post, p, f')"
  proof (cases "?n > MAXWELEM")
    case True
    then show ?thesis using a(1) assms
      by (auto simp: get16_def check_def intro!: exI [of _ "pre @ inp"])
  next
    case False
    with \<open>?n > MAXWELEM \<or> _\<close> have d: "dec_n dec_qid ?n (drop 2 inp) = None" by blast
    obtain q p f' where "length q = length (pre @ take 2 inp) + length (drop 2 inp)"
      "rd_for 0 ?n (\<lambda>i. getqid (\<lambda>v f. f\<lparr>f_wqid := (f_wqid f)[i := v]\<rparr>))
       (length (pre @ take 2 inp) + length (drop 2 inp))
       ((pre @ take 2 inp) @ drop 2 inp @ post, length (pre @ take 2 inp), ?f) = (False, q @ post, p, f')"
      using rd_for_None [where dec = dec_qid and body = "\<lambda>i. getqid (\<lambda>v f. f\<lparr>f_wqid := (f_wqid f)[i := v]\<rparr>)" and u = "\<lambda>i v f. f\<lparr>f_wqid := (f_wqid f)[i := v]\<rparr>" and n = ?n and inp = "drop 2 inp" and pre = "pre @ take 2 inp" and post = post and f = ?f and i = 0]
      getqid_body [where u = "\<lambda>i v f. f\<lparr>f_wqid := (f_wqid f)[i := v]\<rparr>"] d gqid_None
      by (fastforce simp: getqid_def)
    then show ?thesis using a(1) assms False
      by (auto simp: e get16_def check_def rd_loop_def intro!: exI [of _ q])
  qed
qed

lemma sim_single: "simf k k' r x \<Longrightarrow> sim k (rd_seq [r]) [x]"
  by (rule sim_cons [OF _ sim_nil])

lemma sim_last: "simf k k' (rd_seq rs) x \<Longrightarrow> sim k (rd_seq rs) [x]"
proof -
  assume s: "simf k k' (rd_seq rs) x"
  have "sim k (rd_seq [rd_seq rs]) [x]" by (rule sim_single [OF s])
  moreover have "rd_seq [rd_seq rs] = rd_seq rs"
    by (intro ext) (simp split: prod.splits)
  ultimately show ?thesis by simp
qed

lemma sim_get:
  "1 \<le> k \<Longrightarrow> (\<And>v f. arr_ok (u8 v f) = arr_ok f) \<Longrightarrow> sim (k - 1) (rd_seq rs) gr \<Longrightarrow>
   sim k (rd_seq (get8 u8 # rs)) (I8 g8 u8 # gr)"
  "2 \<le> k \<Longrightarrow> (\<And>v f. arr_ok (u16 v f) = arr_ok f) \<Longrightarrow> sim (k - 2) (rd_seq rs) gr \<Longrightarrow>
   sim k (rd_seq (get16 u16 # rs)) (I16 g16 u16 # gr)"
  "4 \<le> k \<Longrightarrow> (\<And>v f. arr_ok (u32 v f) = arr_ok f) \<Longrightarrow> sim (k - 4) (rd_seq rs) gr \<Longrightarrow>
   sim k (rd_seq (get32 u32 # rs)) (I32 g32 u32 # gr)"
  "8 \<le> k \<Longrightarrow> (\<And>v f. arr_ok (u64 v f) = arr_ok f) \<Longrightarrow> sim (k - 8) (rd_seq rs) gr \<Longrightarrow>
   sim k (rd_seq (get64 u64 # rs)) (I64 g64 u64 # gr)"
  "(\<And>v f. arr_ok (us v f) = arr_ok f) \<Longrightarrow> sim 0 (rd_seq rs) gr \<Longrightarrow>
   sim k (rd_seq (getstr us # rs)) (Str gs us # gr)"
  "(\<And>v f. arr_ok (uq v f) = arr_ok f) \<Longrightarrow> sim 0 (rd_seq rs) gr \<Longrightarrow>
   sim k (rd_seq (getqid uq # rs)) (QidF gq uq # gr)"
  by (blast intro: sim_cons simf_get8 simf_get16 simf_get32 simf_get64 simf_getstr simf_getqid order_refl)+

definition reader :: "u8 \<Rightarrow> rd option" where
  "reader t = (case convM2S_T t of None \<Rightarrow> convM2S_R t | Some r \<Rightarrow> Some r)"

lemma reader_None: "reader t = None \<longleftrightarrow> grammar t = None"
  by (auto simp: reader_def convM2S_T_def convM2S_R_def grammar_def Let_def)

lemmas sim_steps = sim_nil sim_need sim_get sim_last [OF simf_Data] sim_last [OF simf_Stat]
  sim_last [OF simf_Wnames] sim_last [OF simf_Wqids]

lemma reader_sim:
  assumes "reader t = Some r" "grammar t = Some gr"
  shows "sim 0 r gr"
proof -
  have e: "gr = the (grammar t)" "r = the (reader t)" using assms by simp_all
  show ?thesis using grammar_types [OF assms(2)] unfolding e
    by (elim disjE; simp add: grammar_def reader_def convM2S_T_def convM2S_R_def Let_def;
      intro sim_steps; simp add: arr_ok_def)
qed

end
