(* ===== verification/StyxParse.thy ===== *)
theory StyxParse
  imports StyxSim
begin

text \<open>
  \<open>convM2S\<close> against its specification \<open>parse\<close>: a pure function from the bytes
  of one message to the decoded \<open>fcall\<close>, written over the grammar with no pointers
  and no shared buffer.
\<close>

definition parse :: "u8 list \<Rightarrow> fcall \<Rightarrow> (nat \<times> fcall) option" where
  "parse inp f =
     (if length inp < 7 then None
      else case grammar (GBIT8 inp 4) of None \<Rightarrow> None
        | Some gr \<Rightarrow>
            (case accepts gr (f\<lparr>f_type := GBIT8 inp 4, f_tag := GBIT16 inp 5\<rparr>) (drop 7 inp) of
               None \<Rightarrow> None
             | Some (f', t) \<Rightarrow>
                 let n = length inp - length t
                 in if unat (GBIT32 inp 0) = n then Some (n, f') else None))"

lemma sim0D:
  assumes "sim 0 r gr" "arr_ok f"
  shows "accepts gr f inp = None \<Longrightarrow> \<exists>pre' p f'. length pre' = length pre + length inp \<and>
       r (length pre + length inp) (pre @ inp @ post, length pre, f) = (False, pre' @ post, p, f')"
    "accepts gr f inp = Some (f', t) \<Longrightarrow> \<exists>pre'. length pre' + length t = length pre + length inp \<and>
     r (length pre + length inp) (pre @ inp @ post, length pre, f) = (True, pre' @ t @ post, length pre', f')"
  using simD_None [OF assms(1) _ assms(2)] simD_Some [OF assms(1) _ assms(2)] by auto

lemma accepts_shrinks: "accepts gr f inp = Some (f', t) \<Longrightarrow> length t \<le> length inp"
proof (induction gr arbitrary: f inp)
  case (Cons x gr)
  then obtain g u where g: "accept x f inp = Some (g, u)" "accepts gr g u = Some (f', t)"
    by (auto split: option.splits)
  show ?case using accept_shrinks [OF g(1)] Cons.IH [OF g(2)] by simp
qed simp

lemma GBIT_take: "GBIT8 (take (Suc n) m) p = (if p \<le> n then GBIT8 m p else GBIT8 (take (Suc n) m) p)"
  by (auto simp: GBIT8_def)

lemma convM2S_parse:
  assumes "arr_ok f" "nap \<le> length m"
  shows "\<exists>pre f' n. length pre = nap \<and> convM2S m nap f = (n, f', pre @ drop nap m) \<and>
    (case parse (take nap m) f of None \<Rightarrow> n = 0 | Some (k, g) \<Rightarrow> unat n = k \<and> k \<noteq> 0 \<and> f' = g)"
proof (cases "nap < 7")
  case True
  then show ?thesis using assms by (auto simp: convM2S_def parse_def intro: exI [of _ "take nap m"])
next
  case False
  let ?inp = "take nap m"
  have l: "length ?inp = nap" "7 \<le> nap" using assms(2) False by simp_all
  have g: "GBIT32 ?inp 0 = GBIT32 m 0" "GBIT8 ?inp 4 = GBIT8 m 4" "GBIT16 ?inp 5 = GBIT16 m 5"
    using l by (simp_all add: GBIT8_def GBIT16_def GBIT32_def)
  let ?f = "f\<lparr>f_type := GBIT8 m 4, f_tag := GBIT16 m 5\<rparr>"
  have m: "m = take 7 m @ drop 7 ?inp @ drop nap m"
    using l by (metis append_assoc append_take_drop_id min_absorb1 take_take)
  have len: "length (take 7 m) = 7" "length (drop 7 ?inp) = nap - 7" using l assms(2) by simp_all
  show ?thesis
  proof (cases "unat (GBIT32 m 0) < 7")
    case True
    have "parse ?inp f = None"
      using True accepts_shrinks by (fastforce simp: parse_def g l Let_def split: option.splits)
    then show ?thesis using True l by (auto simp: convM2S_def Let_def intro: exI [of _ "take nap m"])
  next
    case sz: False
    have e: "convM2S m nap f = (case reader (GBIT8 m 4) of None \<Rightarrow> (0, ?f, m) | Some r \<Rightarrow>
        (case r nap (m, 7, ?f) of (ok, m', p, f') \<Rightarrow>
           if \<not> ok \<or> p > nap then (0, f', m')
           else if unat (GBIT32 m 0) = p then (GBIT32 m 0, f', m') else (0, f', m')))"
      using l sz by (simp add: convM2S_def Let_def reader_def cong: option.case_cong)
    show ?thesis
    proof (cases "grammar (GBIT8 m 4)")
      case None
      then have "reader (GBIT8 m 4) = None" by (simp add: reader_None)
      then show ?thesis using None l
        by (auto simp: e parse_def g intro: exI [of _ "take nap m"])
    next
      case (Some gr)
      then obtain r where r: "reader (GBIT8 m 4) = Some r" using reader_None by fastforce
      note c = e [unfolded r option.case]
      have s: "sim 0 r gr" using reader_sim r Some by blast
      have ok: "arr_ok ?f" using assms(1) by (simp add: arr_ok_def)
      show ?thesis
      proof (cases "accepts gr ?f (drop 7 ?inp)")
        case None
        obtain pre' p f' where "length pre' = nap" "r nap (m, 7, ?f) = (False, pre' @ drop nap m, p, f')"
          using sim0D(1) [OF s ok None, of "take 7 m" "drop nap m"] m len l by auto
        then show ?thesis using None Some l by (simp add: c parse_def g)
      next
        case acc: (Some ft)
        obtain f' t where ft: "ft = (f', t)" by (cases ft)
        obtain q where q: "length q + length t = nap" "r nap (m, 7, ?f) = (True, q @ t @ drop nap m, length q, f')"
          using sim0D(2) [OF s ok, of "drop 7 ?inp" f' t "take 7 m" "drop nap m"] acc ft m len l by auto
        then have "length q \<le> nap" "length q = nap - length t" by simp_all
        then show ?thesis using q acc ft Some l sz by (auto simp: c parse_def g Let_def intro: exI [of _ "q @ t"])
      qed
    qed
  qed
qed


lemma take_wire:
  assumes "wf_fcall f"
  shows "take (length (wire f)) (wire f @ junk) = wire f"
  by simp

lemma parse_wire:
  assumes "wf_fcall f"
  shows "parse (wire f) h = Some (length (wire f),
    puts (the (grammar (f_type f))) f (h\<lparr>f_type := f_type f, f_tag := f_tag f\<rparr>))"
proof -
  from assms obtain gr where gr: "grammar (f_type f) = Some gr" "list_all (\<lambda>x. wf_field x f) gr"
    "7 + length (emits gr f) < 2 ^ 32"
    by (auto simp: wf_fcall_def split: option.splits)
  let ?n = "7 + length (emits gr f)"
  have u: "unat (of_nat ?n :: u32) = ?n" using gr(3) by (intro unat_of_nat_small) simp
  have w: "wire f = PBIT32 (of_nat ?n) @ PBIT8 (f_type f) @ PBIT16 (f_tag f) @ emits gr f"
    by (simp add: wire_def gr)
  have 1: "GBIT8 (wire f) 4 = f_type f" unfolding w by (simp add: GBIT8_def PBIT8_def PBIT32_def)
  have 2: "GBIT16 (wire f) 5 = f_tag f"
    using GBIT16_PBIT16 [of "f_tag f" "emits gr f"] unfolding w by (simp add: GBIT16_def PBIT8_def PBIT32_def nth_Cons')
  have 3: "GBIT32 (wire f) 0 = of_nat ?n" unfolding w by (simp del: of_nat_add)
  have 4: "drop 7 (wire f) = emits gr f" unfolding w by (simp add: PBIT8_def PBIT16_def PBIT32_def)
  have 5: "accepts gr h' (emits gr f) = Some (puts gr f h', [])" for h'
    using accepts_emits [OF gr(2), of h' "[]"] by simp
  show ?thesis using length_wire [OF gr(1)]
    unfolding parse_def 1 2 3 4 gr(1) option.case 5 by (simp add: Let_def u del: of_nat_add)
qed

text \<open>
  C2: the decoder refines \<open>parse\<close>: on the first \<open>nap\<close> bytes of a buffer it returns 0
  exactly when \<open>parse\<close> rejects them, and otherwise the size and the \<open>fcall\<close>
  \<open>parse\<close> gives; the bytes of the buffer from \<open>nap\<close> on are neither read nor written.
\<close>
theorem convM2S_refines_parse:
  assumes "arr_ok f" "nap \<le> length m"
  shows "\<exists>pre f' n. length pre = nap \<and> convM2S m nap f = (n, f', pre @ drop nap m) \<and>
    (case parse (take nap m) f of None \<Rightarrow> n = 0 | Some (k, g) \<Rightarrow> unat n = k \<and> k \<noteq> 0 \<and> f' = g)"
  by (rule convM2S_parse [OF assms])

text \<open>
  C1: packing a well-formed message and decoding the packed bytes (whatever follows them in the
  buffer) gives the message back: every field its type carries, with the other fields of the
  receiving \<open>fcall\<close> unchanged.
\<close>
theorem convM2S_convS2M:
  assumes "wf_fcall f" "arr_ok h" "convS2M f ap = (n, buf)" "n \<noteq> 0"
  shows "\<exists>buf'. convM2S buf (unat n) h =
      (n, puts (the (grammar (f_type f))) f (h\<lparr>f_type := f_type f, f_tag := f_tag f\<rparr>), buf') \<and>
      drop (unat n) buf' = drop (unat n) buf"
proof -
  have w: "unat n = length (wire f)" "buf = wire f @ drop (length (wire f)) ap"
    using assms(3,4) sizeS2M_wire [OF assms(1)] by (auto simp: convS2M_wire_eq [OF assms(1)] split: if_splits)
  obtain pre f' k where p: "length pre = length (wire f)"
    "convM2S buf (length (wire f)) h = (k, f', pre @ drop (length (wire f)) buf)"
    "unat k = length (wire f)" "f' = puts (the (grammar (f_type f))) f (h\<lparr>f_type := f_type f, f_tag := f_tag f\<rparr>)"
    using convM2S_parse [OF assms(2), of "length (wire f)" buf] parse_wire [OF assms(1), of h] w(2) by auto
  moreover have "k = n" using p(3) w(1) by (simp add: word_unat_eq_iff)
  ultimately show ?thesis using w(1) by auto
qed

lemma parse_bounds: "parse inp f = Some (n, g) \<Longrightarrow> n \<le> length inp \<and> n = unat (GBIT32 inp 0) \<and> 7 \<le> n"
proof -
  assume p: "parse inp f = Some (n, g)"
  then obtain gr f' t where
    "7 \<le> length inp" "accepts gr f' (drop 7 inp) = Some (g, t)" "n = length inp - length t" "unat (GBIT32 inp 0) = n"
    by (auto simp: parse_def Let_def split: if_splits option.splits)
  then show ?thesis using accepts_shrinks [of gr f' "drop 7 inp" g t] by auto
qed

text \<open>
  C5: a message the decoder accepts has the size its header announces, at least a header long and
  within the \<open>nap\<close> bytes it was given, and a type the protocol has.
\<close>
theorem convM2S_sound:
  assumes "arr_ok f" "nap \<le> length m" "convM2S m nap f = (n, f', buf)" "n \<noteq> 0"
  shows "7 \<le> unat n \<and> unat n \<le> nap \<and> n = GBIT32 m 0 \<and> grammar (GBIT8 m 4) \<noteq> None"
proof -
  obtain k g where p: "parse (take nap m) f = Some (k, g)" "unat n = k"
    using convM2S_parse [OF assms(1,2)] assms(3,4) by (auto split: option.splits)
  have b: "k \<le> nap" "k = unat (GBIT32 (take nap m) 0)" "7 \<le> k" using parse_bounds [OF p(1)] assms(2) by auto
  then have "GBIT32 (take nap m) 0 = GBIT32 m 0" "GBIT8 (take nap m) 4 = GBIT8 m 4"
    by (simp_all add: GBIT8_def GBIT32_def)
  moreover have "grammar (GBIT8 (take nap m) 4) \<noteq> None"
    using p(1) by (auto simp: parse_def split: if_splits option.splits)
  moreover have "n = GBIT32 m 0" using b(2) p(2) calculation(1) by (simp add: word_unat_eq_iff)
  ultimately show ?thesis using b p(2) by simp
qed

text \<open>
  \<open>gstring\<close> leaves the decoded string NUL-terminated in place, one byte before where it
  was in the message, and changes no byte outside the string's own field; so no copy is made.
\<close>
theorem gstring_in_place:
  assumes "gstring m p ep = Some (m', p', s)" "ep \<le> length m"
  shows "length m' = length m \<and> p' = p + 2 + length s \<and> p' \<le> ep \<and>
    take (length s + 1) (drop (p + 1) m') = s @ [0] \<and> s = take (length s) (drop (p + 2) m) \<and>
    take (p + 1) m' = take (p + 1) m \<and> drop p' m' = drop p' m"
proof -
  let ?n = "unat (GBIT16 m p)"
  have g: "p + 2 + ?n \<le> ep" "s = take ?n (drop (p + 2) m)" "p' = p + 2 + ?n"
    "m' = take (p + 1) m @ s @ [0] @ drop (p + 2 + ?n) m"
    using assms(1) by (auto simp: gstring_def Let_def split: if_splits)
  then have "length s = ?n" using assms(2) by simp
  then show ?thesis using g assms(2) by auto
qed

lemma fcall0_arr: "arr_ok fcall0"
  by (simp add: arr_ok_def fcall0_def)

lemma tversion0_packed:
  "convS2M tversion0 (replicate 16 0) = (15, wire tversion0 @ [0])"
  using convS2M_wire_eq [OF tversion0_wf, of "replicate 16 0"] by (simp add: tversion0_wire numeral_eq_Suc)

lemma tversion0_put:
  "puts (the (grammar (f_type tversion0))) tversion0 (fcall0\<lparr>f_type := f_type tversion0, f_tag := f_tag tversion0\<rparr>) = tversion0"
  by (simp add: tversion0_def fcall0_def grammar_def Let_def sval_def)

lemma convM2S_refines_parse_witness:
  "\<exists>pre f' n. length pre = 15 \<and> convM2S (wire tversion0 @ [0]) 15 fcall0 = (n, f', pre @ [0]) \<and>
    unat n = 15 \<and> f' = tversion0"
  using convM2S_refines_parse [OF fcall0_arr, of 15 "wire tversion0 @ [0]"] parse_wire [OF tversion0_wf, of fcall0]
  by (simp add: tversion0_put) (simp add: tversion0_wire numeral_eq_Suc)

lemma convM2S_convS2M_witness:
  "\<exists>buf. convM2S (wire tversion0 @ [0]) 15 fcall0 = (15, tversion0, buf) \<and> drop 15 buf = [0]"
  using convM2S_convS2M [OF tversion0_wf fcall0_arr tversion0_packed]
  by (simp add: tversion0_put tversion0_wire)

lemma tversion0_decoded: "\<exists>buf. convM2S (wire tversion0) 15 fcall0 = (15, tversion0, buf)"
proof -
  have "length (wire tversion0) = 15" by (simp add: tversion0_wire)
  then show ?thesis
    using convM2S_parse [OF fcall0_arr, of 15 "wire tversion0"] parse_wire [OF tversion0_wf, of fcall0]
    by (auto simp: tversion0_put word_unat_eq_iff)
qed

lemma convM2S_sound_witness: "7 \<le> unat (15 :: u32) \<and> unat (15 :: u32) \<le> 15 \<and>
   15 = GBIT32 (wire tversion0) 0 \<and> grammar (GBIT8 (wire tversion0) 4) \<noteq> None"
proof -
  obtain buf where "convM2S (wire tversion0) 15 fcall0 = (15, tversion0, buf)" using tversion0_decoded by blast
  moreover have "15 \<le> length (wire tversion0)" by (simp add: tversion0_wire)
  ultimately show ?thesis using convM2S_sound [OF fcall0_arr, of 15 "wire tversion0" 15 tversion0 buf] by simp
qed

lemma gstring_in_place_witness:
  "length [2, 97, 98, 0, 7 :: u8] = length [2, 0, 97, 98, 7 :: u8] \<and> 4 = 0 + 2 + length [97, 98 :: u8] \<and> 4 \<le> (5 :: nat) \<and>
    take (length [97, 98 :: u8] + 1) (drop (0 + 1) [2, 97, 98, 0, 7 :: u8]) = [97, 98] @ [0] \<and>
    [97, 98] = take (length [97, 98 :: u8]) (drop (0 + 2) [2, 0, 97, 98, 7 :: u8]) \<and>
    take (0 + 1) [2, 97, 98, 0, 7 :: u8] = take (0 + 1) [2, 0, 97, 98, 7] \<and>
    drop 4 [2, 97, 98, 0, 7 :: u8] = drop 4 [2, 0, 97, 98, 7]"
  by (rule gstring_in_place [of _ _ 5]) (simp_all add: gstring_def GBIT16_def Let_def)

end
