(* ===== verification/StyxCanon.thy ===== *)
theory StyxCanon
  imports StyxParse
begin

text \<open>
  What \<open>convM2S\<close> accepts is exactly what \<open>convS2M\<close> writes: an accepted message
  whose strings hold no NUL byte packs back to the same bytes.
\<close>

fun plain_field :: "field \<Rightarrow> fcall \<Rightarrow> bool" where
  "plain_field (Str g u) f \<longleftrightarrow> (case g f of None \<Rightarrow> True | Some s \<Rightarrow> nul_free s)"
| "plain_field Wnames f \<longleftrightarrow>
     list_all (\<lambda>s. case s of None \<Rightarrow> True | Some s \<Rightarrow> nul_free s) (take (unat (f_nwname f)) (f_wname f))"
| "plain_field x f \<longleftrightarrow> True"

lemma sval_plain [simp]: "nul_free s \<Longrightarrow> sval (Some s) = s"
  by (auto simp: nul_free_def sval_def takeWhile_eq_all_conv)

lemma svals_plain: "list_all nul_free ss \<Longrightarrow> map (sval \<circ> Some) ss = ss"
  by (induction ss) auto

fun lawful :: "field \<Rightarrow> bool" where
  "lawful (I8 g u) \<longleftrightarrow> (\<forall>v f. g (u v f) = v)"
| "lawful (I16 g u) \<longleftrightarrow> (\<forall>v f. g (u v f) = v)"
| "lawful (I32 g u) \<longleftrightarrow> (\<forall>v f. g (u v f) = v)"
| "lawful (I64 g u) \<longleftrightarrow> (\<forall>v f. g (u v f) = v)"
| "lawful (Str g u) \<longleftrightarrow> (\<forall>v f. g (u v f) = v)"
| "lawful (QidF g u) \<longleftrightarrow> (\<forall>v f. g (u v f) = v)"
| "lawful _ \<longleftrightarrow> True"

lemma accept_emit_conv:
  assumes "accept x h inp = Some (h', t)" "lawful x" "plain_field x h'" "arr_ok h"
  shows "wf_field x h' \<and> inp = emit x h' @ t"
proof (cases x)
  case (I8 g u)
  then show ?thesis using assms by (cases inp) (auto simp: PBIT8_def GBIT8_def split: if_splits)
next
  case (Str g u)
  then obtain s where s: "dec_str inp = Some (s, t)" "h' = u (Some s) h" "g h' = Some s" "nul_free s"
    using assms by (auto split: option.splits)
  then show ?thesis using str.enc_dec [OF s(1)] Str by simp
next
  case (QidF g u)
  then obtain q where s: "dec_qid inp = Some (q, t)" "h' = u q h" "g h' = q"
    using assms by (auto split: option.splits)
  then show ?thesis using qidc.enc_dec [OF s(1)] QidF by simp
next
  case Wnames
  let ?n = "unat (GBIT16 inp 0)"
  obtain ss where d: "2 \<le> length inp" "?n \<le> MAXWELEM" "dec_n dec_str ?n (drop 2 inp) = Some (ss, t)"
    "h' = h\<lparr>f_nwname := GBIT16 inp 0, f_wname := map Some ss @ drop ?n (f_wname h)\<rparr>"
    using assms(1) Wnames by (auto simp: Let_def split: if_splits option.splits)
  note e = str.enc_dec_n [OF d(3)]
  have p: "list_all nul_free ss" using assms(3) Wnames d(4) e by (simp add: list_all_iff)
  have s: "list_all (\<lambda>s. length s < 65536) ss" "length ss = ?n"
    "drop 2 inp = concat (map enc_str ss) @ t" using e by simp_all
  have "inp = take 2 inp @ drop 2 inp" by simp
  then have "inp = PBIT16 (GBIT16 inp 0) @ concat (map enc_str ss) @ t"
    using PBIT16_GBIT16 [OF d(1)] s(3) by simp
  moreover have "map (sval \<circ> Some) ss = ss" by (rule svals_plain [OF p])
  moreover have "list_all (\<lambda>s. length (sval (Some s)) < 65536) ss"
    using s(1) p by (auto simp: list_all_iff)
  ultimately show ?thesis using assms(4) Wnames d(2,4) s(2) by (simp add: arr_ok_def list_all_iff)
next
  case Wqids
  let ?n = "unat (GBIT16 inp 0)"
  obtain qs where d: "2 \<le> length inp" "?n \<le> MAXWELEM" "dec_n dec_qid ?n (drop 2 inp) = Some (qs, t)"
    "h' = h\<lparr>f_nwqid := GBIT16 inp 0, f_wqid := qs @ drop ?n (f_wqid h)\<rparr>"
    using assms(1) Wqids by (auto simp: Let_def split: if_splits option.splits)
  note e = qidc.enc_dec_n [OF d(3)]
  have "inp = take 2 inp @ drop 2 inp" by simp
  then have "inp = PBIT16 (GBIT16 inp 0) @ concat (map enc_qid qs) @ t"
    using PBIT16_GBIT16 [OF d(1)] e by simp
  then show ?thesis using assms(4) Wqids d(2,4) e by (simp add: arr_ok_def)
next
  case Data
  then have d: "4 \<le> length inp" "4 + unat (GBIT32 inp 0) \<le> length inp"
    "h' = h\<lparr>f_count := GBIT32 inp 0, f_data := take (unat (GBIT32 inp 0)) (drop 4 inp)\<rparr>"
    "t = drop (4 + unat (GBIT32 inp 0)) inp"
    using assms(1) by (auto simp: Let_def split: if_splits)
  have "inp = take 4 inp @ take (unat (GBIT32 inp 0)) (drop 4 inp) @ t"
    unfolding d(4) by (metis append.assoc append_take_drop_id take_add)
  then show ?thesis using Data d PBIT32_GBIT32 [OF d(1)] by simp
next
  case Stat
  then have d: "2 \<le> length inp" "2 + unat (GBIT16 inp 0) \<le> length inp"
    "h' = h\<lparr>f_nstat := GBIT16 inp 0, f_stat := take (unat (GBIT16 inp 0)) (drop 2 inp)\<rparr>"
    "t = drop (2 + unat (GBIT16 inp 0)) inp"
    using assms(1) by (auto simp: Let_def split: if_splits)
  have "inp = take 2 inp @ take (unat (GBIT16 inp 0)) (drop 2 inp) @ t"
    unfolding d(4) by (metis append.assoc append_take_drop_id take_add)
  then show ?thesis using Stat d PBIT16_GBIT16 [OF d(1)] by simp
qed (use assms in \<open>auto simp: PBIT16_GBIT16 PBIT32_GBIT32 PBIT64_GBIT64 Let_def split: if_splits\<close>)

fun indep :: "field \<Rightarrow> field list \<Rightarrow> bool" where
  "indep x [] \<longleftrightarrow> True"
| "indep x (y # ys) \<longleftrightarrow> (\<forall>h inp h' t. accept y h inp = Some (h', t) \<longrightarrow>
      emit x h' = emit x h \<and> wf_field x h' = wf_field x h \<and> plain_field x h' = plain_field x h) \<and> indep x ys"

lemma indepD:
  "indep x gr \<Longrightarrow> accepts gr h inp = Some (h', t) \<Longrightarrow>
   emit x h' = emit x h \<and> wf_field x h' = wf_field x h \<and> plain_field x h' = plain_field x h"
proof (induction gr arbitrary: h inp)
  case (Cons y gr)
  then obtain g u where g: "accept y h inp = Some (g, u)" "accepts gr g u = Some (h', t)"
    by (auto split: option.splits)
  show ?case using Cons.prems(1) Cons.IH [OF _ g(2)] g(1) by auto
qed simp

fun tidy :: "field list \<Rightarrow> bool" where
  "tidy [] \<longleftrightarrow> True"
| "tidy (x # xs) \<longleftrightarrow> lawful x \<and> indep x xs \<and>
     (\<forall>h inp h' t. arr_ok h \<longrightarrow> accept x h inp = Some (h', t) \<longrightarrow> arr_ok h' \<and> f_type h' = f_type h \<and> f_tag h' = f_tag h) \<and> tidy xs"

lemma accepts_emits_conv:
  "tidy gr \<Longrightarrow> accepts gr h inp = Some (h', t) \<Longrightarrow> list_all (\<lambda>x. plain_field x h') gr \<Longrightarrow> arr_ok h \<Longrightarrow>
   list_all (\<lambda>x. wf_field x h') gr \<and> inp = emits gr h' @ t \<and> f_type h' = f_type h \<and> f_tag h' = f_tag h \<and> arr_ok h'"
proof (induction gr arbitrary: h inp)
  case (Cons x gr)
  then obtain g u where g: "accept x h inp = Some (g, u)" "accepts gr g u = Some (h', t)"
    by (auto split: option.splits)
  have i: "emit x h' = emit x g" "wf_field x h' = wf_field x g" "plain_field x h' = plain_field x g"
    using indepD [OF _ g(2), of x] Cons.prems(1) by auto
  have o: "arr_ok g" "f_type g = f_type h" "f_tag g = f_tag h" using Cons.prems(1,4) g(1) by (auto simp: )
  have "wf_field x g \<and> inp = emit x g @ u"
    using accept_emit_conv [OF g(1)] Cons.prems i by simp
  then show ?case using Cons.IH [OF _ g(2)] Cons.prems o i by simp
qed simp

lemma accepts_frame:
  "tidy gr \<Longrightarrow> accepts gr h inp = Some (h', t) \<Longrightarrow> arr_ok h \<Longrightarrow>
   f_type h' = f_type h \<and> f_tag h' = f_tag h \<and> arr_ok h'"
proof (induction gr arbitrary: h inp)
  case (Cons x gr)
  then obtain g u where g: "accept x h inp = Some (g, u)" "accepts gr g u = Some (h', t)"
    by (auto split: option.splits)
  have "arr_ok g" "f_type g = f_type h" "f_tag g = f_tag h" using Cons.prems(1,3) g(1) by auto
  then show ?case using Cons.IH [OF _ g(2)] Cons.prems(1) by simp
qed simp

lemma dec_n_length: 
  "dec_n dec n inp = Some (xs, t) \<Longrightarrow> length xs = n"
  by (induction n arbitrary: inp xs t) (auto split: option.splits)

lemma grammar_tidy:
  assumes "grammar t = Some gr"
  shows "tidy gr"
proof -
  have gr: "gr = the (grammar t)" using assms by simp
  show ?thesis using grammar_types [OF assms] unfolding gr
    by (elim disjE; simp add: grammar_def Let_def arr_ok_def split: option.splits; auto dest: dec_n_length)
qed

lemma parse_canonical:
  assumes "parse inp h = Some (n, f')" "arr_ok h" "list_all (\<lambda>x. plain_field x f') (the (grammar (f_type f')))"
  shows "wf_fcall f' \<and> n \<le> length inp \<and> take n inp = wire f'"
proof -
  let ?h = "h\<lparr>f_type := GBIT8 inp 4, f_tag := GBIT16 inp 5\<rparr>"
  obtain gr t where g: "7 \<le> length inp" "grammar (GBIT8 inp 4) = Some gr"
    "accepts gr ?h (drop 7 inp) = Some (f', t)"
    "unat (GBIT32 inp 0) = length inp - length t" "n = length inp - length t"
    using assms(1) by (auto simp: parse_def Let_def split: if_splits option.splits)
  have ty: "f_type f' = GBIT8 inp 4"
    using accepts_frame [OF grammar_tidy [OF g(2)] g(3)] assms(2) by (simp add: arr_ok_def)
  have c: "list_all (\<lambda>x. wf_field x f') gr" "drop 7 inp = emits gr f' @ t" "f_tag f' = GBIT16 inp 5"
    using accepts_emits_conv [OF grammar_tidy [OF g(2)] g(3)] assms(2,3) by (auto simp: arr_ok_def ty g(2))
  have ll: "length inp - 7 = length (emits gr f') + length t" using arg_cong [OF c(2), of length] by simp
  then have n: "n = 7 + length (emits gr f')" using g(1,5) by linarith
  have "unat (GBIT32 inp 0) < 2 ^ 32" using unsigned_less [of "GBIT32 inp 0"] by simp
  then have wf: "wf_fcall f'" using c(1) n g(4,5) by (simp add: wf_fcall_def ty g(2))
  have sz: "of_nat n = GBIT32 inp 0" using g(4,5) by (simp flip: g(4))
  have p8: "PBIT8 (GBIT8 inp 4) = take 1 (drop 4 inp)"
    using g(1) by (simp add: PBIT8_def GBIT8_def take_Suc hd_drop_conv_nth)
  have g16: "GBIT16 inp 5 = GBIT16 (drop 5 inp) 0" using g(1) by (simp add: GBIT16_def)
  have w: "wire f' = take 4 inp @ take 1 (drop 4 inp) @ take 2 (drop 5 inp) @ emits gr f'"
    using PBIT32_GBIT32 [of inp] PBIT16_GBIT16 [of "drop 5 inp"] p8 g16 sz g(1,2) n ty c(3)
    by (simp add: wire_def del: of_nat_add)
  also have "\<dots> = take 7 inp @ emits gr f'" using take_add [of 4 1 inp] take_add [of 5 2 inp] by simp
  also have "\<dots> = take n inp"
    using c(2) g(1) n by (metis append_eq_conv_conj take_add)
  finally show ?thesis using wf g(5) by simp
qed

text \<open>
  C3: the encoding is canonical: a message \<open>convM2S\<close> accepts, whose strings hold no
  NUL, is packed by \<open>convS2M\<close> to the very bytes it was decoded from.
\<close>
theorem convM2S_canonical:
  assumes "arr_ok h" "nap \<le> length m" "convM2S m nap h = (n, f', buf)" "n \<noteq> 0"
    "list_all (\<lambda>x. plain_field x f') (the (grammar (f_type f')))" "unat n \<le> length ap"
  shows "convS2M f' ap = (n, take (unat n) m @ drop (unat n) ap)"
proof -
  obtain k where p: "parse (take nap m) h = Some (k, f')" "unat n = k"
    using convM2S_parse [OF assms(1,2)] assms(3,4) by (auto split: option.splits)
  have c: "wf_fcall f'" "k \<le> nap" "take k (take nap m) = wire f'"
    using parse_canonical [OF p(1) assms(1,5)] assms(2) by auto
  then have w: "wire f' = take k m" by (simp add: min_def)
  then have "length (wire f') = k" using c(2) assms(2) by simp
  note w = w this
  have "of_nat k = n" by (simp flip: p(2))
  then show ?thesis using convS2M_wire_eq [OF c(1), of ap] w p(2) assms(6) by simp
qed

lemma convM2S_canonical_witness:
  "convS2M tversion0 (replicate 16 1) = (15, take 15 (wire tversion0) @ drop 15 (replicate 16 1))"
proof -
  obtain buf where "convM2S (wire tversion0) 15 fcall0 = (15, tversion0, buf)" using tversion0_decoded by blast
  moreover have "15 \<le> length (wire tversion0)" by (simp add: tversion0_wire)
  moreover have "list_all (\<lambda>x. plain_field x tversion0) (the (grammar (f_type tversion0)))"
    by (simp add: tversion0_def fcall0_def grammar_def Let_def nul_free_def)
  ultimately show ?thesis
    using convM2S_canonical [OF fcall0_arr, of 15 "wire tversion0" 15 tversion0 buf "replicate 16 1"] by simp
qed

end
