(* ===== verification/Blocks.thy ===== *)
theory Blocks
  imports Prelude
begin

text \<open>
  The data blocks of \<open>emu/port/qio.c\<close>.  A \<open>Block\<close> is its buffer (\<open>base\<close> to
  \<open>lim\<close>, a list of bytes) with \<open>rp\<close> and \<open>wp\<close> as offsets from \<open>base\<close>; a
  chain linked by \<open>next\<close> is the list of its blocks.  An operation returns, beside its
  result, the trace of its outside effects in order: blocks freed, processes
  woken, output kicked.
\<close>

record block =
  b_buf :: "u8 list"
  b_rp :: nat
  b_wp :: nat
  b_free :: bool

datatype ev =
    FreeFn block
  | FreeMem block
  | WakeRR
  | WakeWR
  | Kick
  | Bypass block

definition BLEN :: "block \<Rightarrow> nat" where
  "BLEN b = b_wp b - b_rp b"

definition BALLOC :: "block \<Rightarrow> nat" where
  "BALLOC b = length (b_buf b)"

definition wf_block :: "block \<Rightarrow> bool" where
  "wf_block b \<longleftrightarrow> b_rp b \<le> b_wp b \<and> b_wp b \<le> length (b_buf b)"

definition data :: "block \<Rightarrow> u8 list" where
  "data b = take (BLEN b) (drop (b_rp b) (b_buf b))"

definition content :: "block list \<Rightarrow> u8 list" where
  "content bs = concat (map data bs)"

text \<open>
  \<open>memmove(b->wp, xs, n); b->wp += n\<close>.  A copy that would run over \<open>lim\<close> leaves
  \<open>wp\<close> beyond the buffer, so \<open>wf_block\<close> of the result says that it did not.
\<close>

definition bput :: "block \<Rightarrow> u8 list \<Rightarrow> block" where
  "bput b xs = b\<lparr>b_buf := take (length (b_buf b)) (take (b_wp b) (b_buf b) @ xs @ drop (b_wp b + length xs) (b_buf b)),
                b_wp := b_wp b + length xs\<rparr>"

definition checkb :: "block \<Rightarrow> bool" where
  "checkb b \<longleftrightarrow> b_rp b \<le> length (b_buf b) \<and> b_wp b \<le> length (b_buf b)"

definition freeb :: "block \<Rightarrow> ev list" where
  "freeb b = [if b_free b then FreeFn b else FreeMem b]"

fun freeblist :: "block list \<Rightarrow> ev list" where
  "freeblist [] = []"
| "freeblist (b # bs) = freeb b @ freeblist bs"

definition iallocb :: "nat \<Rightarrow> block" where
  "iallocb sz = \<lparr>b_buf = replicate sz 0, b_rp = 0, b_wp = 0, b_free = False\<rparr>"

definition allocb :: "nat \<Rightarrow> block" where
  "allocb sz = iallocb sz"

definition padblock :: "block \<Rightarrow> block list \<Rightarrow> int \<Rightarrow> (block list \<times> ev list) option" where
  "padblock bp rest sz =
     (if sz \<ge> 0 then
        if int (b_rp bp) \<ge> sz then Some (bp\<lparr>b_rp := b_rp bp - nat sz\<rparr> # rest, [])
        else if rest \<noteq> [] then None
        else
          let n = BLEN bp;
              nbp = allocb (nat sz + n);
              nbp = nbp\<lparr>b_rp := b_rp nbp + nat sz\<rparr>;
              nbp = nbp\<lparr>b_wp := b_rp nbp\<rparr>;
              nbp = bput nbp (data bp)
          in Some ([nbp\<lparr>b_rp := b_rp nbp - nat sz\<rparr>], freeb bp)
      else
        let sz = nat (- sz) in
        if rest \<noteq> [] then None
        else if length (b_buf bp) - b_wp bp \<ge> sz then Some ([bp], [])
        else
          let n = BLEN bp; nbp = bput (allocb (sz + n)) (data bp)
          in Some ([nbp], freeb bp))"

fun blocklen :: "block list \<Rightarrow> nat" where
  "blocklen [] = 0"
| "blocklen (bp # bs) = BLEN bp + blocklen bs"

fun blockalloclen :: "block list \<Rightarrow> nat" where
  "blockalloclen [] = 0"
| "blockalloclen (bp # bs) = BALLOC bp + blockalloclen bs"

definition concatblock :: "block list \<Rightarrow> block list \<times> ev list" where
  "concatblock bp =
     (if tl bp = [] then (bp, [])
      else ([foldl (\<lambda>nb f. bput nb (data f)) (allocb (blocklen bp)) bp], freeblist bp))"

fun pullup_loop :: "block \<Rightarrow> block list \<Rightarrow> nat \<Rightarrow> block list \<times> ev list" where
  "pullup_loop bp [] n = ([], freeblist [bp])"
| "pullup_loop bp (nbp # rest) n =
     (let i = BLEN nbp in
      if i > n then (bput bp (take n (data nbp)) # nbp\<lparr>b_rp := b_rp nbp + n\<rparr> # rest, [])
      else
        let bp = bput bp (data nbp) in
        if n - i = 0 then (bp # rest, freeb nbp)
        else case pullup_loop bp rest (n - i) of (r, ev) \<Rightarrow> (r, freeb nbp @ ev))"

definition pullupblock :: "block \<Rightarrow> block list \<Rightarrow> nat \<Rightarrow> block list \<times> ev list" where
  "pullupblock bp rest n =
     (if BLEN bp \<ge> n then (bp # rest, [])
      else if length (b_buf bp) - b_rp bp < n
      then let nbp = allocb n in pullup_loop nbp (bp # rest) (n - BLEN nbp)
      else pullup_loop bp rest (n - BLEN bp))"

fun trim_front :: "block list \<Rightarrow> nat \<Rightarrow> block list \<times> ev list" where
  "trim_front [] offset = ([], [])"
| "trim_front (bp # rest) offset =
     (if BLEN bp < offset
      then case trim_front rest (offset - BLEN bp) of (r, ev) \<Rightarrow> (r, freeb bp @ ev)
      else (bp\<lparr>b_rp := b_rp bp + offset\<rparr> # rest, []))"

fun trim_back :: "block list \<Rightarrow> nat \<Rightarrow> block list \<times> ev list" where
  "trim_back [] len = ([], [])"
| "trim_back (bp # rest) len =
     (if BLEN bp < len
      then case trim_back rest (len - BLEN bp) of (r, ev) \<Rightarrow> (bp # r, ev)
      else ([bp\<lparr>b_wp := b_wp bp - (BLEN bp - len)\<rparr>], freeblist rest))"

definition trimblock :: "block list \<Rightarrow> nat \<Rightarrow> nat \<Rightarrow> block list \<times> ev list" where
  "trimblock bp offset len =
     (if blocklen bp < offset + len then ([], freeblist bp)
      else case trim_front bp offset of (bp, ev) \<Rightarrow>
        (case trim_back bp len of (bp, ev') \<Rightarrow> (bp, ev @ ev')))"

fun copy_loop :: "block \<Rightarrow> block list \<Rightarrow> nat \<Rightarrow> block \<times> nat" where
  "copy_loop nbp [] count = (nbp, count)"
| "copy_loop nbp (bp # rest) count =
     (if count > 0 then
        let l = BLEN bp; l = (if l > count then count else l)
        in copy_loop (bput nbp (take l (data bp))) rest (count - l)
      else (nbp, count))"

definition copyblock :: "block list \<Rightarrow> nat \<Rightarrow> block" where
  "copyblock bp count =
     (case copy_loop (allocb count) bp count of
        (nbp, count) \<Rightarrow> if count > 0 then bput nbp (replicate count 0) else nbp)"

definition adjustblock :: "block \<Rightarrow> block list \<Rightarrow> int \<Rightarrow> block list \<times> ev list" where
  "adjustblock bp rest len =
     (if len < 0 then ([], freeb bp)
      else if b_rp bp + nat len > length (b_buf bp)
      then ([copyblock (bp # rest) (nat len)], freeblist (bp # rest))
      else
        let n = BLEN bp;
            bp = (if nat len > n
                  then bp\<lparr>b_buf := take (b_wp bp) (b_buf bp) @ replicate (nat len - n) 0 @
                        drop (b_wp bp + (nat len - n)) (b_buf bp)\<rparr>
                  else bp)
        in (bp\<lparr>b_wp := b_rp bp + nat len\<rparr> # rest, []))"

fun pullblock :: "block list \<Rightarrow> nat \<Rightarrow> nat \<times> block list \<times> ev list" where
  "pullblock [] count = (0, [], [])"
| "pullblock (bp # rest) count =
     (if count = 0 then (0, bp # rest, [])
      else
        let n = BLEN bp; n = (if count < n then count else n);
            bp = bp\<lparr>b_rp := b_rp bp + n\<rparr>
        in if BLEN bp = 0
           then case pullblock rest (count - n) of (k, bs, ev) \<Rightarrow> (n + k, bs, freeb bp @ ev)
           else (n, bp # rest, []))"

fun packblock :: "block list \<Rightarrow> block list \<times> ev list" where
  "packblock [] = ([], [])"
| "packblock (nbp # rest) =
     (case packblock rest of (bs, ev) \<Rightarrow>
        (let n = BLEN nbp in
         if n * 4 < BALLOC nbp then (bput (allocb n) (data nbp) # bs, freeb nbp @ ev)
         else (nbp # bs, ev)))"

fun bl2mem :: "block list \<Rightarrow> nat \<Rightarrow> u8 list \<times> block list \<times> ev list" where
  "bl2mem [] n = ([], [], [])"
| "bl2mem (b # next) n =
     (let i = BLEN b in
      if i > n then (take n (data b), b\<lparr>b_rp := b_rp b + n\<rparr> # next, [])
      else case bl2mem next (n - i) of (p, r, ev) \<Rightarrow>
             (data b @ p, r, freeb (b\<lparr>b_rp := b_rp b + i\<rparr>) @ ev))"

abbreviation (input) Maxatomic :: nat where "Maxatomic \<equiv> 32768"

function mem2bl :: "u8 list \<Rightarrow> block list" where
  "mem2bl p =
     (let n = (if length p > Maxatomic then Maxatomic else length p);
          b = bput (allocb n) (take n p)
      in if length p - n > 0 then b # mem2bl (drop n p) else [b])"
  by pat_completeness auto
termination by (relation "measure length") auto

declare mem2bl.simps [simp del]


subsection \<open>Data of a block\<close>

lemma length_data [simp]: "wf_block b \<Longrightarrow> length (data b) = BLEN b"
  by (auto simp: wf_block_def data_def BLEN_def)

lemma iallocb_simps [simp]:
  "b_rp (allocb n) = 0" "b_wp (allocb n) = 0" "length (b_buf (allocb n)) = n" "wf_block (allocb n)"
  "data (allocb n) = []" "BLEN (allocb n) = 0" "BALLOC (allocb n) = n"
  by (simp_all add: allocb_def iallocb_def wf_block_def data_def BLEN_def BALLOC_def)

lemma bput_simps [simp]:
  "b_rp (bput b xs) = b_rp b" "b_wp (bput b xs) = b_wp b + length xs"
  by (simp_all add: bput_def)

lemma length_bput: "b_wp b + length xs \<le> length (b_buf b) \<Longrightarrow> length (b_buf (bput b xs)) = length (b_buf b)"
  by (simp add: bput_def)

lemma bput_ok:
  assumes "wf_block b" "b_wp b + length xs \<le> length (b_buf b)"
  shows "wf_block (bput b xs)" "data (bput b xs) = data b @ xs" "BALLOC (bput b xs) = BALLOC b"
    "BLEN (bput b xs) = BLEN b + length xs"
proof -
  show "wf_block (bput b xs)" using assms by (simp add: wf_block_def bput_def)
  show "BALLOC (bput b xs) = BALLOC b" using assms(2) by (simp add: BALLOC_def length_bput)
  show e: "BLEN (bput b xs) = BLEN b + length xs" using assms(1) by (simp add: BLEN_def wf_block_def)
  have r: "b_rp b \<le> b_wp b" "b_wp b \<le> length (b_buf b)" using assms(1) by (simp_all add: wf_block_def)
  let ?d = "drop (b_rp b) (take (b_wp b) (b_buf b))"
  have buf: "b_buf (bput b xs) = take (b_wp b) (b_buf b) @ xs @ drop (b_wp b + length xs) (b_buf b)"
    using assms(2) r by (simp add: bput_def)
  have d: "data b = ?d" by (simp add: data_def BLEN_def drop_take)
  have "drop (b_rp b) (b_buf (bput b xs)) = ?d @ xs @ drop (b_wp b + length xs) (b_buf b)"
    using r by (simp add: buf)
  moreover have "length (?d @ xs) = BLEN b + length xs" using r by (simp add: BLEN_def)
  ultimately have "data (bput b xs) = take (length (?d @ xs)) ((?d @ xs) @ drop (b_wp b + length xs) (b_buf b))"
    unfolding data_def e by simp
  moreover have "take (length A) (A @ B) = A" for A B :: "u8 list" by simp
  ultimately show "data (bput b xs) = data b @ xs" unfolding d by (simp only:)
qed

lemma bput_alloc:
  "length xs \<le> n \<Longrightarrow> wf_block (bput (allocb n) xs) \<and> data (bput (allocb n) xs) = xs \<and>
     BALLOC (bput (allocb n) xs) = n \<and> BLEN (bput (allocb n) xs) = length xs"
  using bput_ok [of "allocb n" xs] by simp

lemma rp_advance:
  assumes "wf_block b" "n \<le> BLEN b"
  shows "wf_block (b\<lparr>b_rp := b_rp b + n\<rparr>)" "data (b\<lparr>b_rp := b_rp b + n\<rparr>) = drop n (data b)"
    "BLEN (b\<lparr>b_rp := b_rp b + n\<rparr>) = BLEN b - n" "BALLOC (b\<lparr>b_rp := b_rp b + n\<rparr>) = BALLOC b"
  using assms by (auto simp: wf_block_def BLEN_def data_def BALLOC_def drop_take add.commute)

lemma wp_retreat:
  assumes "wf_block b" "n \<le> BLEN b"
  shows "wf_block (b\<lparr>b_wp := b_rp b + n\<rparr>)" "data (b\<lparr>b_wp := b_rp b + n\<rparr>) = take n (data b)"
    "BLEN (b\<lparr>b_wp := b_rp b + n\<rparr>) = n" "BALLOC (b\<lparr>b_wp := b_rp b + n\<rparr>) = BALLOC b"
  using assms by (auto simp: wf_block_def BLEN_def data_def BALLOC_def min_def)

lemma content_simps [simp]: "content [] = []" "content (b # bs) = data b @ content bs"
  "content (as @ bs) = content as @ content bs"
  by (simp_all add: content_def)

lemma length_content: "list_all wf_block bs \<Longrightarrow> length (content bs) = blocklen bs"
  by (induction bs) auto

lemma blocklen_append [simp]: "blocklen (as @ bs) = blocklen as + blocklen bs"
  by (induction as) auto

lemma blockalloclen_append [simp]: "blockalloclen (as @ bs) = blockalloclen as + blockalloclen bs"
  by (induction as) auto

lemma wf_block_allocb_size: "BLEN b \<le> BALLOC b" if "wf_block b"
  using that by (auto simp: wf_block_def BLEN_def BALLOC_def)

subsection \<open>Block operations on the bytes\<close>

lemma concat_loop:
  "wf_block nb \<Longrightarrow> list_all wf_block bs \<Longrightarrow> b_wp nb + blocklen bs \<le> length (b_buf nb) \<Longrightarrow>
   wf_block (foldl (\<lambda>nb f. bput nb (data f)) nb bs) \<and>
   data (foldl (\<lambda>nb f. bput nb (data f)) nb bs) = data nb @ content bs \<and>
   BALLOC (foldl (\<lambda>nb f. bput nb (data f)) nb bs) = BALLOC nb"
proof (induction bs arbitrary: nb)
  case (Cons b bs)
  have l: "b_wp nb + length (data b) \<le> length (b_buf nb)" using Cons.prems by simp
  show ?case
    using Cons.IH [of "bput nb (data b)"] Cons.prems bput_ok [OF Cons.prems(1) l] length_bput [OF l] by simp
qed simp

lemma concatblock_ok:
  assumes "bs \<noteq> []" "list_all wf_block bs" "concatblock bs = (r, ev)"
  shows "\<exists>b. r = [b] \<and> wf_block b \<and> data b = content bs"
  using assms concat_loop [of "allocb (blocklen bs)" bs]
  by (cases bs) (auto simp: concatblock_def split: if_splits)

lemma pullup_loop_ok:
  assumes "wf_block bp" "list_all wf_block rest" "0 < n" "b_wp bp + n \<le> length (b_buf bp)"
    "pullup_loop bp rest n = (r, ev)"
  shows "(if n \<le> blocklen rest
     then \<exists>b bs. r = b # bs \<and> list_all wf_block r \<and> BLEN b = BLEN bp + n \<and> content r = data bp @ content rest
     else r = [])"
  using assms
proof (induction bp rest n arbitrary: r ev rule: pullup_loop.induct)
  case (1 bp n)
  then show ?case by simp
next
  case (2 bp nbp rest n)
  let ?i = "BLEN nbp"
  show ?case
  proof (cases "?i > n")
    case True
    note p = bput_ok [OF 2(2), of "take n (data nbp)"]
    have "length (take n (data nbp)) = n" using 2(3) True by simp
    then show ?thesis using 2 True p rp_advance [of nbp n] by auto
  next
    case False
    have w: "wf_block nbp" "list_all wf_block rest" using 2(3) by simp_all
    have l: "b_wp bp + length (data nbp) \<le> length (b_buf bp)" using 2(5) False w by simp
    note p = bput_ok [OF 2(2) l] and lb = length_bput [OF l]
    show ?thesis
    proof (cases "n - ?i = 0")
      case True
      then show ?thesis using 2(6) False p w by auto
    next
      case n0: False
      obtain r' ev' where r: "pullup_loop (bput bp (data nbp)) rest (n - ?i) = (r', ev')" by fastforce
      have e: "r = r'" using 2(6) False n0 r by simp
      have "b_wp (bput bp (data nbp)) + (n - ?i) \<le> length (b_buf (bput bp (data nbp)))"
        using lb w 2(5) False by simp
      then show ?thesis
        using 2(1) [OF refl _ refl _ p(1) w(2) _ _ r] False n0 e p(2,4) w by (auto split: if_splits)
    qed
  qed
qed

lemma pullupblock_ok:
  assumes "wf_block bp" "list_all wf_block rest" "pullupblock bp rest n = (r, ev)"
  shows "(if n \<le> blocklen (bp # rest)
     then \<exists>b bs. r = b # bs \<and> list_all wf_block r \<and> BLEN b = max n (BLEN bp) \<and> content r = content (bp # rest)
     else r = [])"
proof (cases "BLEN bp \<ge> n")
  case True
  then show ?thesis using assms by (auto simp: pullupblock_def)
next
  case short: False
  show ?thesis
  proof (cases "length (b_buf bp) - b_rp bp < n")
    case True
    then have "pullup_loop (allocb n) (bp # rest) n = (r, ev)" using assms(3) short by (simp add: pullupblock_def)
    then show ?thesis using pullup_loop_ok [of "allocb n" "bp # rest" n r ev] assms short by auto
  next
    case False
    then have p: "pullup_loop bp rest (n - BLEN bp) = (r, ev)" using assms(3) short by (simp add: pullupblock_def)
    have "b_wp bp + (n - BLEN bp) \<le> length (b_buf bp)"
      using False short assms(1) by (auto simp: wf_block_def BLEN_def)
    then show ?thesis using pullup_loop_ok [OF assms(1,2) _ _ p] short by (auto split: if_splits)
  qed
qed

lemma trim_front_ok:
  assumes "list_all wf_block bs" "trim_front bs off = (r, ev)" "off \<le> blocklen bs"
  shows "list_all wf_block r \<and> content r = drop off (content bs) \<and> blocklen r = blocklen bs - off"
  using assms
proof (induction bs off arbitrary: r ev rule: trim_front.induct)
  case (2 bp rest off)
  then show ?case
    using rp_advance [of bp off] by (auto split: if_splits prod.splits)
qed auto

lemma trim_back_ok:
  assumes "list_all wf_block bs" "trim_back bs len = (r, ev)" "len \<le> blocklen bs"
  shows "list_all wf_block r \<and> content r = take len (content bs)"
  using assms
proof (induction bs len arbitrary: r ev rule: trim_back.induct)
  case (2 bp rest len)
  show ?case
  proof (cases "BLEN bp < len")
    case True
    then show ?thesis using 2 by (auto split: prod.splits)
  next
    case False
    have "b_wp bp - (BLEN bp - len) = b_rp bp + len" using 2(2) False by (auto simp: wf_block_def BLEN_def)
    then show ?thesis using 2 False wp_retreat [of bp len] by auto
  qed
qed auto

lemma trimblock_ok:
  assumes "list_all wf_block bs" "trimblock bs off len = (r, ev)"
  shows "list_all wf_block r \<and>
    content r = (if off + len \<le> length (content bs) then take len (drop off (content bs)) else [])"
proof (cases "blocklen bs < off + len")
  case True
  then show ?thesis using assms by (auto simp: trimblock_def length_content)
next
  case False
  obtain r1 e1 r2 e2 where t: "trim_front bs off = (r1, e1)" "trim_back r1 len = (r2, e2)" by fastforce
  have 1: "list_all wf_block r1" "content r1 = drop off (content bs)" "blocklen r1 = blocklen bs - off"
    using trim_front_ok [OF assms(1) t(1)] False by auto
  then show ?thesis using trim_back_ok [OF 1(1) t(2)] assms t False by (auto simp: trimblock_def length_content)
qed

lemma copy_loop_ok:
  assumes "wf_block nb" "list_all wf_block bs" "b_wp nb + k \<le> length (b_buf nb)" "copy_loop nb bs k = (nb', k')"
  shows "wf_block nb' \<and> data nb' = data nb @ take k (content bs) \<and> k' = k - length (content bs) \<and>
    BALLOC nb' = BALLOC nb \<and> b_wp nb' + k' \<le> length (b_buf nb')"
  using assms
proof (induction nb bs k arbitrary: nb' k' rule: copy_loop.induct)
  case (2 nbp bp rest k)
  show ?case
  proof (cases "0 < k")
    case True
    define l where "l = (if BLEN bp > k then k else BLEN bp)"
    have l: "l \<le> k" "l \<le> BLEN bp" "length (take l (data bp)) = l" using 2(3) by (auto simp: l_def)
    have c: "copy_loop (bput nbp (take l (data bp))) rest (k - l) = (nb', k')"
      using 2(5) True by (simp add: Let_def l_def)
    have b: "b_wp nbp + length (take l (data bp)) \<le> length (b_buf nbp)" using 2(4) l by simp
    note p = bput_ok [OF 2(2) b] and lb = length_bput [OF b]
    have "b_wp (bput nbp (take l (data bp))) + (k - l) \<le> length (b_buf (bput nbp (take l (data bp))))"
      using lb 2(4) l by simp
    then have "wf_block nb' \<and> data nb' = data (bput nbp (take l (data bp))) @ take (k - l) (content rest) \<and>
       k' = k - l - length (content rest) \<and> BALLOC nb' = BALLOC (bput nbp (take l (data bp))) \<and> 
       b_wp nb' + k' \<le> length (b_buf nb')"
      using 2(1) [OF True refl l_def p(1) _ _ c] 2(3) by simp
    then show ?thesis using p l 2(3) by (auto simp: l_def split: if_splits)
  next
    case False
    then show ?thesis using 2 by simp
  qed
qed simp

lemma copyblock_ok:
  assumes "list_all wf_block bs"
  shows "wf_block (copyblock bs n) \<and> BALLOC (copyblock bs n) = n \<and>
    data (copyblock bs n) = take n (content bs) @ replicate (n - length (content bs)) 0"
proof -
  obtain nb k where c: "copy_loop (allocb n) bs n = (nb, k)" by fastforce
  note w = copy_loop_ok [OF _ assms _ c]
  show ?thesis using w bput_ok [of nb "replicate k 0"] by (auto simp: copyblock_def c)
qed

lemma adjustblock_ok:
  assumes "wf_block bp" "list_all wf_block rest" "0 \<le> len" "adjustblock bp rest len = (r, ev)"
  shows "\<exists>b bs. r = b # bs \<and> wf_block b \<and> BLEN b = nat len \<and>
    data b = (if b_rp bp + nat len > length (b_buf bp)
              then take (nat len) (content (bp # rest)) @ replicate (nat len - length (content (bp # rest))) 0
              else take (nat len) (data bp) @ replicate (nat len - BLEN bp) 0)"
proof (cases "b_rp bp + nat len > length (b_buf bp)")
  case True
  have wf: "list_all wf_block (bp # rest)" using assms by simp
  have "r = [copyblock (bp # rest) (nat len)]" using assms(3,4) True by (auto simp: adjustblock_def)
  moreover have "BLEN (copyblock (bp # rest) (nat len)) = nat len"
  proof -
    have l: "length (take n xs @ replicate (n - length xs) z) = n" for n z and xs :: "u8 list"
      by simp
    show ?thesis
      using copyblock_ok [OF wf, of "nat len"] length_data [of "copyblock (bp # rest) (nat len)"]
        l [of "nat len" "content (bp # rest)" 0] by metis
  qed
  ultimately show ?thesis using copyblock_ok [OF wf, of "nat len"] True by (auto simp del: length_data)
next
  case False
  then show ?thesis using assms
    by (auto simp: adjustblock_def Let_def wf_block_def BLEN_def data_def drop_take min_def)
qed

lemma pullblock_ok:
  assumes "list_all wf_block bs" "pullblock bs n = (k, r, ev)"
  shows "list_all wf_block r \<and> k = min n (length (content bs)) \<and> content r = drop n (content bs)"
  using assms
proof (induction bs n arbitrary: k r ev rule: pullblock.induct)
  case (2 bp rest n)
  show ?case
  proof (cases "n = 0")
    case True
    then show ?thesis using 2(2,3) by auto
  next
    case False
    define m where "m = (if n < BLEN bp then n else BLEN bp)"
    have m: "m \<le> BLEN bp" by (simp add: m_def)
    have w: "wf_block bp" "list_all wf_block rest" using 2(2) by simp_all
    note a = rp_advance [OF w(1) m]
    show ?thesis
    proof (cases "BLEN bp - m = 0")
      case True
      obtain k' r' ev' where p: "pullblock rest (n - m) = (k', r', ev')" by (metis prod_cases3)
      then have "k = m + k'" "r = r'" using 2(3) False True a(3) by (auto simp: Let_def m_def)
      then show ?thesis using 2(1) [OF False refl m_def refl _ w(2) p] True a(3) w
        by (auto simp: m_def split: if_splits)
    next
      case nz: False
      then have "k = m" "r = bp\<lparr>b_rp := b_rp bp + m\<rparr> # rest" using 2(3) False a(3) by (auto simp: Let_def m_def)
      then show ?thesis using nz a w by (auto simp: m_def split: if_splits)
    qed
  qed
qed auto

lemma packblock_ok:
  assumes "list_all wf_block bs" "packblock bs = (r, ev)"
  shows "list_all wf_block r \<and> map data r = map data bs \<and> list_all (\<lambda>b. BALLOC b \<le> 4 * BLEN b) r"
  using assms
proof (induction bs arbitrary: r ev)
  case (Cons b bs)
  then show ?case using bput_alloc [of "data b" "BLEN b"]
    by (auto simp: Let_def split: prod.splits if_splits)
qed auto

lemma bl2mem_ok:
  assumes "list_all wf_block bs" "bl2mem bs n = (p, r, ev)"
  shows "list_all wf_block r \<and> p = take n (content bs) \<and> content r = drop n (content bs)"
  using assms
proof (induction bs n arbitrary: p r ev rule: bl2mem.induct)
  case (2 b nb n)
  then show ?case using rp_advance [of b n] by (auto simp: Let_def split: if_splits prod.splits)
qed auto

lemma mem2bl_ok:
  "content (mem2bl p) = p \<and> mem2bl p \<noteq> [] \<and> list_all (\<lambda>b. wf_block b \<and> BLEN b \<le> Maxatomic \<and> BALLOC b = BLEN b) (mem2bl p)"
proof (induction p rule: mem2bl.induct)
  case (1 p)
  let ?n = "if length p > Maxatomic then Maxatomic else length p"
  have b: "wf_block (bput (allocb ?n) (take ?n p)) \<and> data (bput (allocb ?n) (take ?n p)) = take ?n p \<and>
     BALLOC (bput (allocb ?n) (take ?n p)) = ?n \<and> BLEN (bput (allocb ?n) (take ?n p)) = ?n"
    using bput_alloc [of "take ?n p" ?n] by simp
  show ?case using 1 [OF refl refl] b by (subst (1 2 3) mem2bl.simps) (auto simp: Let_def)
qed

lemma wf_checkb: "wf_block b \<Longrightarrow> checkb b"
  by (auto simp: wf_block_def checkb_def)

lemma rp_back:
  assumes "wf_block b" "n \<le> b_rp b"
  shows "wf_block (b\<lparr>b_rp := b_rp b - n\<rparr>)" "BLEN (b\<lparr>b_rp := b_rp b - n\<rparr>) = BLEN b + n"
    "drop n (data (b\<lparr>b_rp := b_rp b - n\<rparr>)) = data b"
proof -
  show "wf_block (b\<lparr>b_rp := b_rp b - n\<rparr>)" using assms by (auto simp: wf_block_def)
  show "BLEN (b\<lparr>b_rp := b_rp b - n\<rparr>) = BLEN b + n" using assms by (auto simp: wf_block_def BLEN_def)
  show "drop n (data (b\<lparr>b_rp := b_rp b - n\<rparr>)) = data b"
    using assms by (auto simp: wf_block_def BLEN_def data_def drop_take)
qed

lemma padblock_front:
  assumes "wf_block bp" "nat sz \<le> b_rp bp \<or> rest = []" "0 \<le> sz"
  shows "\<exists>b ev. padblock bp rest sz = Some (b # rest, ev) \<and> wf_block b \<and>
    BLEN b = BLEN bp + nat sz \<and> drop (nat sz) (data b) = data bp"
proof (cases "sz \<le> int (b_rp bp)")
  case True
  then show ?thesis using assms rp_back [of bp "nat sz"] by (auto simp: padblock_def)
next
  case False
  let ?k = "nat sz"
  let ?n0 = "(allocb (?k + BLEN bp))\<lparr>b_rp := ?k, b_wp := ?k\<rparr>"
  have w0: "wf_block ?n0" "data ?n0 = []" "b_wp ?n0 = ?k" "length (b_buf ?n0) = ?k + BLEN bp" "BLEN ?n0 = 0"
    by (simp_all add: wf_block_def data_def BLEN_def)
  note p = bput_ok [OF w0(1), of "data bp"]
  have r: "b_rp (bput ?n0 (data bp)) = ?k" by simp
  have e: "rest = []" using False assms(2,3) by linarith
  have "padblock bp rest sz = Some ([bput ?n0 (data bp)\<lparr>b_rp := b_rp (bput ?n0 (data bp)) - ?k\<rparr>], freeb bp)"
    using False assms(3) e by (simp add: padblock_def Let_def)
  then show ?thesis
    using p w0 assms(1) rp_back [of "bput ?n0 (data bp)" ?k] e by auto
qed

lemma padblock_back:
  assumes "wf_block bp" "sz < 0"
  shows "padblock bp [] sz = Some (r, ev) \<Longrightarrow>
    \<exists>b. r = [b] \<and> wf_block b \<and> data b = data bp \<and> nat (- sz) \<le> length (b_buf b) - b_wp b"
  using assms bput_ok [of "allocb (nat (- sz) + BLEN bp)" "data bp"] length_bput [of "allocb (nat (- sz) + BLEN bp)" "data bp"]
  by (auto simp: padblock_def Let_def split: if_splits)

subsection \<open>What the block operations promise\<close>

text \<open>
  \<open>pullupblock\<close> of at most as many bytes as the chain holds gives a chain with the same bytes
  whose first block has them contiguous (exactly \<open>n\<close> when the first block was shorter), all blocks within
  their buffers; asking for more than there is frees the chain and gives nil.
\<close>
theorem pullupblock_contiguous:
  assumes "wf_block bp" "list_all wf_block rest" "pullupblock bp rest n = (r, ev)"
  shows "if n \<le> length (content (bp # rest))
     then \<exists>b bs. r = b # bs \<and> list_all wf_block r \<and> BLEN b = max n (BLEN bp) \<and> content r = content (bp # rest)
     else r = []"
  using pullupblock_ok [OF assms] length_content [of "bp # rest"] assms(1,2) by simp

definition blk :: "u8 list \<Rightarrow> block" where
  "blk xs = bput (allocb (length xs)) xs"

lemma blk_simps [simp]: "wf_block (blk xs)" "data (blk xs) = xs" "BLEN (blk xs) = length xs" "BALLOC (blk xs) = length xs"
  using bput_alloc [of xs "length xs"] by (simp_all add: blk_def)

lemma pullupblock_contiguous_witness:
  "\<exists>b bs. fst (pullupblock (blk [1]) [blk [2, 3]] 2) = b # bs \<and> BLEN b = 2 \<and> content (b # bs) = [1, 2, 3]"
proof -
  obtain r ev where p: "pullupblock (blk [1]) [blk [2, 3]] 2 = (r, ev)" by fastforce
  show ?thesis using pullupblock_contiguous [OF _ _ p] p by auto
qed

text \<open>
  \<open>padblock\<close> makes the asked room, in front of the data for a size that is not negative and behind it
  otherwise, without changing a byte of the data, whether it has to move the block or not.
\<close>
theorem padblock_makes_room:
  assumes "wf_block bp" "padblock bp rest sz = Some (r, ev)"
  shows "\<exists>b. r = b # rest \<and> wf_block b \<and>
    (if 0 \<le> sz then BLEN b = BLEN bp + nat sz \<and> drop (nat sz) (data b) = data bp
     else data b = data bp \<and> nat (- sz) \<le> length (b_buf b) - b_wp b)"
proof (cases "0 \<le> sz")
  case True
  have r: "nat sz \<le> b_rp bp \<or> rest = []" using assms(2) True by (auto simp: padblock_def split: if_splits)
  show ?thesis using padblock_front [OF assms(1) r True] assms(2) True by fastforce
next
  case False
  then have "rest = []" using assms(2) by (auto simp: padblock_def Let_def split: if_splits)
  then show ?thesis using padblock_back [OF assms(1)] assms(2) False by fastforce
qed

lemma padblock_makes_room_witness:
  "\<exists>b. fst (the (padblock (blk [7]) [] 2)) = [b] \<and> drop 2 (data b) = [7]"
proof -
  obtain r ev where p: "padblock (blk [7]) [] 2 = Some (r, ev)"
    by (auto simp: padblock_def Let_def blk_def allocb_def iallocb_def bput_def)
  show ?thesis using padblock_makes_room [OF _ p] p by auto
qed

text \<open>
  \<open>trimblock\<close> leaves exactly the window of \<open>len\<close> bytes at \<open>offset\<close>, or frees everything
  and gives nil when the chain has no such window.
\<close>
theorem trimblock_window:
  assumes "list_all wf_block bs" "trimblock bs off len = (r, ev)"
  shows "list_all wf_block r \<and>
    content r = (if off + len \<le> length (content bs) then take len (drop off (content bs)) else [])"
  by (rule trimblock_ok [OF assms])

lemma trimblock_window_witness:
  "content (fst (trimblock [blk [1, 2], blk [3, 4]] 1 2)) = [2, 3]"
proof -
  obtain r ev where p: "trimblock [blk [1, 2], blk [3, 4]] 1 2 = (r, ev)" by fastforce
  show ?thesis using trimblock_window [OF _ p] p by simp
qed

text \<open>
  \<open>adjustblock\<close> to \<open>len\<close> gives a first block of exactly \<open>len\<close> bytes: a prefix of the
  data, with zeros where the data ends too early.
\<close>
theorem adjustblock_exact:
  assumes "wf_block bp" "list_all wf_block rest" "0 \<le> len" "adjustblock bp rest len = (r, ev)"
  shows "\<exists>b bs. r = b # bs \<and> wf_block b \<and> BLEN b = nat len \<and>
    data b = (if b_rp bp + nat len > length (b_buf bp)
              then take (nat len) (content (bp # rest)) @ replicate (nat len - length (content (bp # rest))) 0
              else take (nat len) (data bp) @ replicate (nat len - BLEN bp) 0)"
  by (rule adjustblock_ok [OF assms])

lemma adjustblock_exact_witness:
  "\<exists>b bs. fst (adjustblock (blk [1, 2]) [] 3) = b # bs \<and> BLEN b = 3"
proof -
  obtain r ev where p: "adjustblock (blk [1, 2]) [] 3 = (r, ev)" by fastforce
  show ?thesis using adjustblock_exact [OF _ _ _ p] p by auto
qed

end
