(* ===== verification/Kstr.thy ===== *)
theory Kstr
  imports Rune
begin

text \<open>
  \<open>kstrcpy\<close> of \<open>emu/port/chan.c\<close>: copy a string into an array of \<open>ns\<close> bytes,
  truncating it with three dots at a character boundary.  The result is the whole
  array after the copy.
\<close>

definition kstrcpy :: "u8 list \<Rightarrow> u8 list \<Rightarrow> u8 list" where
  "kstrcpy s t =
     (let ns = length s; nt = length t in
      if ns = 0 then s
      else if nt + 1 \<le> ns then t @ [0] @ drop (nt + 1) s
      else if ns < 4 then take ns t
      else
        let s = take (ns - 4) t @ drop (ns - 4) s;
            ns = ns - 4;
            s = s[ns := 0];
            ns = backup s ns
        in take ns s @ [46, 46, 46, 0] @ drop (ns + 4) s)"

lemma length_backup: "backup b i \<le> i"
  by (induction i) auto

lemma length_kstrcpy: "length (kstrcpy s t) = length s"
  using length_backup [of "(take (length s - 4) t @ drop (length s - 4) s)[length s - 4 := 0]" "length s - 4"]
  by (auto simp: kstrcpy_def Let_def)

lemma kstrcpy_fits: "nul_free t \<Longrightarrow> length t < length s \<Longrightarrow> cstr (kstrcpy s t) = t"
  by (auto simp: kstrcpy_def Let_def cstr_nul)

lemma backup_lt: "0 < i \<Longrightarrow> backup b i < i"
  using length_backup [of b "i - 1"] by (cases i) auto

lemma backup_cong:
  "(\<forall>j<i. a ! j = b ! j) \<Longrightarrow> backup a i = backup b i"
  by (induction i) auto

lemma cstr_dots: "nul_free p \<Longrightarrow> cstr (p @ [46, 46, 46, 0] @ r) = p @ [46, 46, 46]"
  by (auto simp: cstr_def nul_free_def takeWhile_append)

lemma nul_free_runetochar:
  assumes "r \<noteq> 0"
  shows "0 \<notin> set (runetochar r)"
proof (cases "unat r < 128")
  case True
  then have "unat (ucast r :: u8) = unat r" by (simp add: unat_ucast_down)
  then have "(ucast r :: u8) \<noteq> 0" using assms by (metis unat_eq_zero unsigned_0)
  then show ?thesis using True by (simp add: runetochar_ascii)
next
  case False
  have nz: "x \<noteq> 0" if "128 \<le> unat (x :: u8)" for x using that by auto
  have "unat (ucast r :: u32) < 2 ^ 16" using unat_u16_less [of r] by simp
  moreover have "(ucast (Tx OR (x AND Maskx)) :: u8) \<noteq> 0" for x by (rule nz) (simp add: unat_cont)
  ultimately show ?thesis using False unat_lead2 [of "ucast r"] unat_lead3 [of "ucast r"]
    by (auto simp: runetochar_def Let_def word_le_nat_alt intro!: nz [THEN not_sym])
qed

lemma nul_free_encode: "0 \<notin> set rs \<Longrightarrow> nul_free (encode rs)"
  using nul_free_runetochar by (auto simp: nul_free_def encode_def) metis

lemma kstrcpy_long:
  assumes "5 \<le> length s" "length s \<le> length (encode rs)" "0 \<notin> set rs"
  shows "cstr (kstrcpy s (encode rs)) = encode (take (fits rs (length s - 5)) rs) @ [46, 46, 46]"
proof -
  obtain k where k: "length s = k + 5" using assms(1) by (metis le_add_diff_inverse2)
  let ?t = "encode rs"
  let ?b = "(take (Suc k) ?t @ drop (Suc k) s)[Suc k := 0]"
  have l: "k < length ?t" using assms(2) k by simp
  note w = backup_whole [OF l]
  let ?e = "length (encode (take (fits rs k) rs))"
  have "backup ?b (Suc k) = backup (take (Suc k) ?t) (Suc k)"
    by (rule backup_cong) (use l in \<open>auto simp: nth_append\<close>)
  then have bk: "backup ?b (Suc k) = ?e" using w(3) by simp
  have "take ?e ?b = take ?e ?t" using w(2) l by (simp add: min_def)
  then have t: "take ?e ?b = encode (take (fits rs k) rs)" using w(4) by simp
  have "kstrcpy s ?t = take ?e ?b @ [46, 46, 46, 0] @ drop (?e + 4) ?b"
    using assms(2) k bk by (simp add: kstrcpy_def Let_def)
  moreover have "nul_free (encode (take (fits rs k) rs))"
    using assms(3) by (intro nul_free_encode) (auto dest: in_set_takeD)
  ultimately show ?thesis unfolding t using cstr_dots k by simp
qed

text \<open>
  \<open>kstrcpy\<close> keeps to its destination; a string that fits is copied whole, a longer one is cut
  to whole runes followed by three dots, always NUL-terminated.
\<close>
theorem kstrcpy_whole_runes:
  assumes "5 \<le> length s" "0 \<notin> set rs"
  shows "length (kstrcpy s (encode rs)) = length s \<and>
    cstr (kstrcpy s (encode rs)) =
      (if length (encode rs) < length s then encode rs
       else encode (take (fits rs (length s - 5)) rs) @ [46, 46, 46])"
  using kstrcpy_long [OF assms(1) _ assms(2)] kstrcpy_fits [OF nul_free_encode [OF assms(2)]]
  by (simp add: length_kstrcpy not_less)

lemma kstrcpy_whole_runes_witness:
  "cstr (kstrcpy [1, 1, 1, 1, 1, 1] (encode [0xE9, 0xE9, 0xE9])) = [46, 46, 46]"
  using kstrcpy_whole_runes [of "[1, 1, 1, 1, 1, 1]" "[0xE9, 0xE9, 0xE9]"] by (simp add: runetochar_def)

end
