(* ===== verification/Queue.thy ===== *)
theory Queue
  imports Blocks Kstr
begin

text \<open>
  The I/O queues of \<open>emu/port/qio.c\<close>.  The chain \<open>bfirst .. blast\<close> is the list
  \<open>q_b\<close>.  Every operation is one function from the queue to its result, the new queue and
  the effects in order; it stands for the code between taking and releasing \<open>q->l\<close> together
  with the wakeups after it.  An operation that would sleep returns \<open>Sleeps\<close> with the
  state it leaves behind.  Lengths are unbounded integers: the model holds while a queue
  holds less than 2 GB.
\<close>

record queue =
  q_b :: "block list"
  q_len :: int
  q_dlen :: int
  q_limit :: int
  q_inilim :: int
  q_state :: u32
  q_noblock :: bool
  q_eof :: int
  q_kick :: bool
  q_bypass :: bool
  q_err :: "u8 list"

abbreviation (input) ERRMAX :: nat where "ERRMAX \<equiv> 128"
abbreviation (input) Qstarve :: u32 where "Qstarve \<equiv> 1"
abbreviation (input) Qmsg :: u32 where "Qmsg \<equiv> 2"
abbreviation (input) Qclosed :: u32 where "Qclosed \<equiv> 4"
abbreviation (input) Qflow :: u32 where "Qflow \<equiv> 8"
abbreviation (input) Qcoalesce :: u32 where "Qcoalesce \<equiv> 16"
abbreviation (input) Qkick :: u32 where "Qkick \<equiv> 32"

datatype 'a qres = Ret 'a | Err "u8 list" | Sleeps

definition Ehungup :: "u8 list" where
  "Ehungup = [105, 47, 111, 32, 111, 110, 32, 104, 117, 110, 103, 117, 112, 32, 99, 104, 97, 110, 110, 101, 108]"

definition has :: "queue \<Rightarrow> u32 \<Rightarrow> bool" where
  "has q m \<longleftrightarrow> q_state q AND m \<noteq> 0"

definition set_st :: "queue \<Rightarrow> u32 \<Rightarrow> queue" where
  "set_st q m = q\<lparr>q_state := q_state q OR m\<rparr>"

definition clr_st :: "queue \<Rightarrow> u32 \<Rightarrow> queue" where
  "clr_st q m = q\<lparr>q_state := q_state q AND NOT m\<rparr>"

definition wake :: "bool \<Rightarrow> ev \<Rightarrow> ev list" where
  "wake dowakeup e = (if dowakeup then [e] else [])"

text \<open>\<open>if writer flow controlled, restart\<close>: clear \<open>Qflow\<close> below \<open>lim\<close>.\<close>

definition restart :: "queue \<Rightarrow> int \<Rightarrow> queue \<times> bool" where
  "restart q lim = (if has q Qflow \<and> q_len q < lim then (clr_st q Qflow, True) else (q, False))"

definition unstarve :: "queue \<Rightarrow> queue \<times> bool" where
  "unstarve q = (if has q Qstarve then (clr_st q Qstarve, True) else (q, False))"

definition qget :: "queue \<Rightarrow> block option \<times> queue \<times> ev list" where
  "qget q =
     (case q_b q of
        [] \<Rightarrow> (None, set_st q Qstarve, [])
      | b # bs \<Rightarrow>
          let q = q\<lparr>q_b := bs, q_len := q_len q - int (BALLOC b), q_dlen := q_dlen q - int (BLEN b)\<rparr>
          in case restart q (q_limit q div 2) of (q, dowakeup) \<Rightarrow> (Some b, q, wake dowakeup WakeWR))"

fun qdiscard_loop :: "block list \<Rightarrow> queue \<Rightarrow> nat \<Rightarrow> nat \<Rightarrow> nat \<times> queue \<times> ev list" where
  "qdiscard_loop [] q len sofar = (sofar, q\<lparr>q_b := []\<rparr>, [])"
| "qdiscard_loop (b # bs) q len sofar =
     (if sofar < len then
        let n = BLEN b in
        if n \<le> len - sofar then
          let q = q\<lparr>q_len := q_len q - int (BALLOC b), q_dlen := q_dlen q - int (BLEN b)\<rparr>
          in case qdiscard_loop bs q len (sofar + n) of (s, q, ev) \<Rightarrow> (s, q, freeb b @ ev)
        else
          let n = len - sofar
          in (sofar + n, q\<lparr>q_b := b\<lparr>b_rp := b_rp b + n\<rparr> # bs, q_dlen := q_dlen q - int n\<rparr>, [])
      else (sofar, q\<lparr>q_b := b # bs\<rparr>, []))"

definition qdiscard :: "queue \<Rightarrow> nat \<Rightarrow> nat \<times> queue \<times> ev list" where
  "qdiscard q len =
     (case qdiscard_loop (q_b q) q len 0 of (sofar, q, ev) \<Rightarrow>
        (case restart q (q_limit q) of (q, dowakeup) \<Rightarrow> (sofar, q, ev @ wake dowakeup WakeWR)))"

fun qconsume_skip :: "block list \<Rightarrow> queue \<Rightarrow> block list \<Rightarrow> queue \<times> block list" where
  "qconsume_skip [] q tofree = (q\<lparr>q_b := []\<rparr>, tofree)"
| "qconsume_skip (b # bs) q tofree =
     (if BLEN b > 0 then (q\<lparr>q_b := b # bs\<rparr>, tofree)
      else qconsume_skip bs (q\<lparr>q_len := q_len q - int (BALLOC b)\<rparr>) (b # tofree))"

definition qconsume :: "queue \<Rightarrow> nat \<Rightarrow> int \<times> u8 list \<times> queue \<times> ev list" where
  "qconsume q len =
     (case qconsume_skip (q_b q) q [] of (q, tofree) \<Rightarrow>
       (case q_b q of
          [] \<Rightarrow> (-1, [], set_st q Qstarve, [])
        | b # bs \<Rightarrow>
            let n = BLEN b;
                len = (if n < len then n else len);
                p = take len (data b);
                done = (has q Qmsg \<or> len = n);
                b = b\<lparr>b_rp := b_rp b + len\<rparr>;
                q = q\<lparr>q_b := (if done then bs else b # bs), q_dlen := q_dlen q - int len\<rparr>;
                q = (if done then q\<lparr>q_len := q_len q - int (BALLOC b), q_dlen := q_dlen q - int (BLEN b)\<rparr> else q);
                tofree = (if done then b # tofree else tofree)
            in case restart q (q_limit q div 2) of (q, dowakeup) \<Rightarrow>
                 (int len, p, q, wake dowakeup WakeWR @ freeblist tofree)))"

definition qpass :: "queue \<Rightarrow> block list \<Rightarrow> int \<times> queue \<times> ev list" where
  "qpass q b =
     (if q_len q \<ge> q_limit q then (-1, q, freeblist b)
      else if has q Qclosed then (int (blocklen b), q, freeblist b)
      else
        let len = blockalloclen b; dlen = blocklen b;
            q = q\<lparr>q_b := q_b q @ b, q_len := q_len q + int len, q_dlen := q_dlen q + int dlen\<rparr>;
            q = (if q_len q \<ge> q_limit q div 2 then set_st q Qflow else q)
        in case unstarve q of (q, dowakeup) \<Rightarrow> (int len, q, wake dowakeup WakeRR))"

definition qpassnolim :: "queue \<Rightarrow> block list \<Rightarrow> int \<times> queue \<times> ev list" where
  "qpassnolim q b =
     (if has q Qclosed then (int (BALLOC (hd b)), q, freeblist b)
      else
        let len = blockalloclen b; dlen = blocklen b;
            q = q\<lparr>q_b := q_b q @ b, q_len := q_len q + int len, q_dlen := q_dlen q + int dlen\<rparr>;
            q = (if q_len q \<ge> q_limit q div 2 then set_st q Qflow else q)
        in case unstarve q of (q, dowakeup) \<Rightarrow> (int len, q, wake dowakeup WakeRR))"

text \<open>\<open>avail n\<close>: whether the allocator has room for a block of \<open>n\<close> bytes.\<close>

definition qproduce :: "(nat \<Rightarrow> bool) \<Rightarrow> queue \<Rightarrow> u8 list \<Rightarrow> int \<times> queue \<times> ev list" where
  "qproduce avail q p =
     (if has q Qclosed then (-1, q, [])
      else if q_len q \<ge> q_limit q then (-1, set_st q Qflow, [])
      else if \<not> avail (length p) then (-1, q, [])
      else
        let b = bput (iallocb (length p)) p;
            q = q\<lparr>q_b := q_b q @ [b], q_len := q_len q + int (BALLOC b), q_dlen := q_dlen q + int (BLEN b)\<rparr>
        in case unstarve q of (q, dowakeup) \<Rightarrow>
             let q = (if q_len q \<ge> q_limit q then set_st q Qflow else q)
             in (int (length p), q, wake dowakeup WakeRR))"

fun qcopy_seek :: "block list \<Rightarrow> nat \<Rightarrow> nat \<Rightarrow> (u8 list \<times> block list) option" where
  "qcopy_seek [] sofar offset = None"
| "qcopy_seek (b # bs) sofar offset =
     (let n = BLEN b in
      if sofar + n > offset then Some (drop (offset - sofar) (data b), bs)
      else qcopy_seek bs (sofar + n) offset)"

fun qcopy_loop :: "block \<Rightarrow> u8 list \<Rightarrow> block list \<Rightarrow> nat \<Rightarrow> nat \<Rightarrow> block" where
  "qcopy_loop nb p [] sofar len =
     (if sofar < len then bput nb (take (len - sofar) p) else nb)"
| "qcopy_loop nb p (b # bs) sofar len =
     (if sofar < len then
        let n = (if length p > len - sofar then len - sofar else length p)
        in qcopy_loop (bput nb (take n p)) (data b) bs (sofar + n) len
      else nb)"

definition qcopy :: "queue \<Rightarrow> nat \<Rightarrow> nat \<Rightarrow> block" where
  "qcopy q len offset =
     (case qcopy_seek (q_b q) 0 offset of
        None \<Rightarrow> allocb len
      | Some (p, bs) \<Rightarrow> qcopy_loop (allocb len) p bs 0 len)"

definition qopen :: "int \<Rightarrow> u32 \<Rightarrow> bool \<Rightarrow> queue" where
  "qopen limit msg kick =
     \<lparr>q_b = [], q_len = 0, q_dlen = 0, q_limit = limit, q_inilim = limit, q_state = msg OR Qstarve,
      q_noblock = False, q_eof = 0, q_kick = kick, q_bypass = False, q_err = replicate ERRMAX 0\<rparr>"

definition qbypass :: "queue" where
  "qbypass =
     \<lparr>q_b = [], q_len = 0, q_dlen = 0, q_limit = 0, q_inilim = 0, q_state = 0,
      q_noblock = False, q_eof = 0, q_kick = False, q_bypass = True, q_err = replicate ERRMAX 0\<rparr>"

definition notempty :: "queue \<Rightarrow> bool" where
  "notempty q \<longleftrightarrow> has q Qclosed \<or> q_b q \<noteq> []"

text \<open>One turn of the loop of \<open>qwait\<close>; \<open>Sleeps\<close> is the \<open>Sleep\<close> on \<open>q->rr\<close>.\<close>

definition qwait :: "queue \<Rightarrow> int qres \<times> queue" where
  "qwait q =
     (if q_b q \<noteq> [] then (Ret 1, q)
      else if has q Qclosed then
        let q = q\<lparr>q_eof := q_eof q + 1\<rparr> in
        if q_eof q > 3 then (Ret (-1), q)
        else if q_err q ! 0 \<noteq> 0 \<and> cstr (q_err q) \<noteq> Ehungup then (Ret (-1), q)
        else (Ret 0, q)
      else (Sleeps, set_st q Qstarve))"

definition qaddlist :: "queue \<Rightarrow> block list \<Rightarrow> queue" where
  "qaddlist q b =
     q\<lparr>q_b := q_b q @ b, q_len := q_len q + int (blockalloclen b), q_dlen := q_dlen q + int (blocklen b)\<rparr>"

definition qremove :: "queue \<Rightarrow> block option \<times> queue" where
  "qremove q =
     (case q_b q of
        [] \<Rightarrow> (None, q)
      | b # bs \<Rightarrow>
          (Some b, q\<lparr>q_b := bs, q_dlen := q_dlen q - int (BLEN b), q_len := q_len q - int (BALLOC b)\<rparr>))"

definition qputback :: "queue \<Rightarrow> block \<Rightarrow> queue" where
  "qputback q b =
     q\<lparr>q_b := b # q_b q, q_len := q_len q + int (BALLOC b), q_dlen := q_dlen q + int (BLEN b)\<rparr>"

definition pullupqueue :: "queue \<Rightarrow> nat \<Rightarrow> block option \<times> queue \<times> ev list" where
  "pullupqueue q n =
     (let b = hd (q_b q) in
      if BLEN b \<ge> n then (Some b, q, [])
      else case pullupblock b (tl (q_b q)) n of (bs, ev) \<Rightarrow>
        ((if bs = [] then None else Some (hd bs)), q\<lparr>q_b := bs\<rparr>, ev))"

definition qwakeup_unlock :: "queue \<Rightarrow> queue \<times> ev list" where
  "qwakeup_unlock q =
     (case restart q (q_limit q div 2) of (q, dowakeup) \<Rightarrow>
        (q, (if dowakeup then (if q_kick q then [Kick] else []) @ [WakeWR] else [])))"

definition qbread :: "queue \<Rightarrow> nat \<Rightarrow> block option qres \<times> queue \<times> ev list" where
  "qbread q len =
     (case qwait q of
        (Sleeps, q) \<Rightarrow> (Sleeps, q, [])
      | (Err e, q) \<Rightarrow> (Err e, q, [])
      | (Ret r, q) \<Rightarrow>
          if r = 0 then (Ret None, q, [])
          else if r = -1 then (Err (cstr (q_err q)), q, [])
          else
            (case qremove q of
               (None, q) \<Rightarrow> (Ret None, q, [])
             | (Some nb, q) \<Rightarrow>
                 let n = BLEN nb in
                 if n > len then
                   let q = (if \<not> has q Qmsg
                            then qputback q (bput (allocb (n - len)) (take (n - len) (drop len (data nb))))
                            else q);
                       nb = nb\<lparr>b_wp := b_rp nb + len\<rparr>
                   in case qwakeup_unlock q of (q, ev) \<Rightarrow> (Ret (Some nb), q, ev)
                 else case qwakeup_unlock q of (q, ev) \<Rightarrow> (Ret (Some nb), q, ev)))"

text \<open>The \<open>again\<close> loop of \<open>qread\<close>: a coalescing queue drops its leading empty blocks.\<close>

function qread_again :: "queue \<Rightarrow> int qres \<times> queue \<times> ev list" where
  "qread_again q =
     (case qwait q of
        (Ret r, q') \<Rightarrow>
          if r = 1 \<and> has q' Qcoalesce \<and> q_b q \<noteq> [] \<and> BLEN (hd (q_b q')) = 0 then
            (case qread_again (snd (qremove q')) of (w, q'', ev) \<Rightarrow> (w, q'', freeb (hd (q_b q')) @ ev))
          else (Ret r, q', [])
      | (w, q') \<Rightarrow> (w, q', []))"
  by pat_completeness auto
termination
  by (relation "measure (\<lambda>q. length (q_b q))")
    (auto simp: qwait_def qremove_def split: list.splits if_splits)

declare qread_again.simps [simp del]

text \<open>Its gathering loop: the first block, then the blocks that fit whole in the read.\<close>

fun qread_gather :: "block list \<Rightarrow> queue \<Rightarrow> nat \<Rightarrow> nat \<Rightarrow> block list \<times> nat \<times> queue" where
  "qread_gather [] q n len = ([], n, q\<lparr>q_b := []\<rparr>)"
| "qread_gather (b # bs) q n len =
     (let q = q\<lparr>q_dlen := q_dlen q - int (BLEN b), q_len := q_len q - int (BALLOC b)\<rparr>;
          n = n + BLEN b
      in case bs of
           [] \<Rightarrow> ([b], n, q\<lparr>q_b := []\<rparr>)
         | c # _ \<Rightarrow>
             if n + BLEN c > len then ([b], n, q\<lparr>q_b := bs\<rparr>)
             else case qread_gather bs q n len of (first, n, q) \<Rightarrow> (b # first, n, q))"

definition qread :: "queue \<Rightarrow> nat \<Rightarrow> (int \<times> u8 list) qres \<times> queue \<times> ev list" where
  "qread q len =
     (case qread_again q of
        (Sleeps, q, ev) \<Rightarrow> (Sleeps, q, ev)
      | (Err e, q, ev) \<Rightarrow> (Err e, q, ev)
      | (Ret r, q, ev) \<Rightarrow>
          if r = 0 then (Ret (0, []), q, ev)
          else if r = -1 then (Err (cstr (q_err q)), q, ev)
          else
            (case (if has q Qcoalesce then qread_gather (q_b q) q 0 len
                   else (case qremove q of (None, q) \<Rightarrow> ([], 0, q) | (Some b, q) \<Rightarrow> ([b], BLEN b, q))) of
               (first, n, q) \<Rightarrow>
                 (case bl2mem first len of (p, rest, ev') \<Rightarrow>
                    (case rest of
                       [] \<Rightarrow> (case qwakeup_unlock q of (q, ev'') \<Rightarrow> (Ret (int n, p), q, ev @ ev' @ ev''))
                     | b # _ \<Rightarrow>
                         let n = int n - int (BLEN b) in
                         if has q Qmsg
                         then (case qwakeup_unlock q of (q, ev'') \<Rightarrow> (Ret (n, p), q, ev @ ev' @ freeb b @ ev''))
                         else (case qwakeup_unlock (qputback q b) of (q, ev'') \<Rightarrow>
                                 (Ret (n, p), q, ev @ ev' @ ev''))))))"

definition qnotfull :: "queue \<Rightarrow> bool" where
  "qnotfull q \<longleftrightarrow> q_len q < q_limit q \<or> has q Qclosed"

text \<open>One turn of the loop at the end of \<open>qbwrite\<close>; \<open>Sleeps\<close> is the \<open>Sleep\<close> on \<open>q->wr\<close>.\<close>

definition qbwrite_wait :: "queue \<Rightarrow> 'a \<Rightarrow> 'a qres \<times> queue" where
  "qbwrite_wait q n = (if q_noblock q \<or> qnotfull q then (Ret n, q) else (Sleeps, set_st q Qflow))"

text \<open>
  \<open>qbwrite\<close> up to its flow control loop: \<open>Some r\<close> when it returns (or raises) before
  the loop, \<open>None\<close> when the block is queued.
\<close>

definition qbwrite_put :: "queue \<Rightarrow> block \<Rightarrow> int qres option \<times> queue \<times> ev list" where
  "qbwrite_put q b =
     (let n = BLEN b in
      if q_bypass q then (Some (Ret (int n)), q, [Bypass b])
      else if has q Qclosed then (Some (Err (cstr (q_err q))), q, freeb b)
      else if q_len q \<ge> q_limit q \<and> q_noblock q then (Some (Ret (int n)), q, freeb b)
      else
        let q = q\<lparr>q_b := q_b q @ [b], q_len := q_len q + int (BALLOC b), q_dlen := q_dlen q + int n\<rparr>
        in case unstarve q of (q, dowakeup) \<Rightarrow>
             (None, q, (if q_kick q \<and> (dowakeup \<or> has q Qkick) then [Kick] else []) @ wake dowakeup WakeRR))"

definition qbwrite :: "queue \<Rightarrow> block \<Rightarrow> int qres \<times> queue \<times> ev list" where
  "qbwrite q b =
     (case qbwrite_put q b of
        (Some r, q, ev) \<Rightarrow> (r, q, ev)
      | (None, q, ev) \<Rightarrow> (case qbwrite_wait q (int (BLEN b)) of (r, q) \<Rightarrow> (r, q, ev)))"

text \<open>
  \<open>qwrite\<close> from \<open>sofar\<close> on.  \<open>Sleeps\<close> comes with the offset to go on from once the
  writer is woken.
\<close>

function qwrite_loop :: "queue \<Rightarrow> u8 list \<Rightarrow> nat \<Rightarrow> int qres \<times> nat \<times> queue \<times> ev list" where
  "qwrite_loop q p sofar =
     (let n = (if length p - sofar > Maxatomic then Maxatomic else length p - sofar);
          b = bput (allocb n) (take n (drop sofar p))
      in case qbwrite q b of
           (Err e, q, ev) \<Rightarrow> (Err e, sofar, q, ev)
         | (Sleeps, q, ev) \<Rightarrow> (Sleeps, sofar + n, q, ev)
         | (Ret _, q, ev) \<Rightarrow>
             if sofar + n < length p \<and> \<not> has q Qmsg
             then (case qwrite_loop q p (sofar + n) of (r, s, q, ev') \<Rightarrow> (r, s, q, ev @ ev'))
             else (Ret (int (length p)), sofar + n, q, ev))"
  by pat_completeness auto
termination by (relation "measure (\<lambda>(q, p, sofar). length p - sofar)") auto

declare qwrite_loop.simps [simp del]

definition qwrite :: "queue \<Rightarrow> u8 list \<Rightarrow> int qres \<times> nat \<times> queue \<times> ev list" where
  "qwrite q p = qwrite_loop q p 0"

function qiwrite_loop :: "(nat \<Rightarrow> bool) \<Rightarrow> queue \<Rightarrow> u8 list \<Rightarrow> nat \<Rightarrow> bool \<Rightarrow> nat \<times> queue \<times> ev list" where
  "qiwrite_loop avail q p sofar dowakeup =
     (let n = (if length p - sofar > Maxatomic then Maxatomic else length p - sofar) in
      if \<not> avail n then (sofar, q, [])
      else
        let b = bput (iallocb n) (take n (drop sofar p));
            q = q\<lparr>q_b := q_b q @ [b], q_len := q_len q + int (BALLOC b), q_dlen := q_dlen q + int n\<rparr>
        in case unstarve q of (q, w) \<Rightarrow>
             let dowakeup = (dowakeup \<or> w);
                 ev = (if dowakeup then (if q_kick q then [Kick] else []) @ [WakeRR] else [])
             in if sofar + n < length p \<and> \<not> has q Qmsg
                then (case qiwrite_loop avail q p (sofar + n) dowakeup of (s, q, ev') \<Rightarrow> (s, q, ev @ ev'))
                else (sofar + n, q, ev))"
  by pat_completeness auto
termination by (relation "measure (\<lambda>(avail, q, p, sofar, d). length p - sofar)") auto

declare qiwrite_loop.simps [simp del]

definition qiwrite :: "(nat \<Rightarrow> bool) \<Rightarrow> queue \<Rightarrow> u8 list \<Rightarrow> nat \<times> queue \<times> ev list" where
  "qiwrite avail q p = qiwrite_loop avail q p 0 False"

definition qclose :: "queue \<Rightarrow> queue \<times> ev list" where
  "qclose q =
     (let bfirst = q_b q;
          q = clr_st (set_st q Qclosed) (Qflow OR Qstarve);
          q = q\<lparr>q_err := Ehungup @ [0] @ drop (length Ehungup + 1) (q_err q), q_b := [], q_len := 0,
                q_dlen := 0, q_noblock := False\<rparr>
      in (q, freeblist bfirst @ [WakeRR, WakeWR]))"

definition qfree :: "queue \<Rightarrow> ev list" where
  "qfree q = snd (qclose q)"

definition qhangup :: "queue \<Rightarrow> u8 list option \<Rightarrow> queue \<times> ev list" where
  "qhangup q msg =
     (let q = set_st q Qclosed;
          q = (case msg of
                 None \<Rightarrow> q\<lparr>q_err := Ehungup @ [0] @ drop (length Ehungup + 1) (q_err q)\<rparr>
               | Some m \<Rightarrow>
                   if m = [] then q\<lparr>q_err := Ehungup @ [0] @ drop (length Ehungup + 1) (q_err q)\<rparr>
                   else q\<lparr>q_err := kstrcpy (q_err q) m\<rparr>)
      in (q, [WakeRR, WakeWR]))"

definition qisclosed :: "queue \<Rightarrow> u32" where
  "qisclosed q = q_state q AND Qclosed"

definition qreopen :: "queue \<Rightarrow> queue" where
  "qreopen q = (set_st (clr_st q Qclosed) Qstarve)\<lparr>q_eof := 0, q_limit := q_inilim q\<rparr>"

definition qlen :: "queue \<Rightarrow> int" where
  "qlen q = q_dlen q"

definition qwindow :: "queue \<Rightarrow> int" where
  "qwindow q = (let l = q_limit q - q_len q in if l < 0 then 0 else l)"

definition qcanread :: "queue \<Rightarrow> bool" where
  "qcanread q \<longleftrightarrow> q_b q \<noteq> []"

definition qsetlimit :: "queue \<Rightarrow> int \<Rightarrow> queue" where
  "qsetlimit q limit = q\<lparr>q_limit := limit\<rparr>"

definition qnoblock :: "queue \<Rightarrow> bool \<Rightarrow> queue" where
  "qnoblock q onoff = q\<lparr>q_noblock := onoff\<rparr>"

definition qflush :: "queue \<Rightarrow> queue \<times> ev list" where
  "qflush q = (q\<lparr>q_b := [], q_len := 0, q_dlen := 0\<rparr>, freeblist (q_b q) @ [WakeWR])"

definition qfull :: "queue \<Rightarrow> u32" where
  "qfull q = q_state q AND Qflow"

definition qstate :: "queue \<Rightarrow> u32" where
  "qstate q = q_state q"

definition qclosed :: "queue \<Rightarrow> u32" where
  "qclosed q = q_state q AND Qclosed"

end
