(* ===== verification/QueueInv.thy ===== *)
theory QueueInv
  imports Queue
begin

text \<open>
  The invariant of a queue, that every operation keeps it, and what each operation does
  to the bytes a queue holds.
\<close>

definition qwfd :: "int \<Rightarrow> queue \<Rightarrow> bool" where
  "qwfd dr q \<longleftrightarrow> list_all wf_block (q_b q) \<and> q_len q = int (blockalloclen (q_b q)) + dr \<and>
     q_dlen q = int (blocklen (q_b q)) \<and> length (q_err q) = ERRMAX"

abbreviation qwf :: "queue \<Rightarrow> bool" where
  "qwf \<equiv> qwfd 0"

definition qdata :: "queue \<Rightarrow> u8 list" where
  "qdata q = content (q_b q)"

subsection \<open>State bits\<close>

lemma has_set [simp]: "has (set_st q m) n \<longleftrightarrow> has q n \<or> m AND n \<noteq> 0"
  by (simp add: has_def set_st_def bit.conj_disj_distrib2 or_eq_0_iff)

lemma has_clr_other [simp]: "m AND n = 0 \<Longrightarrow> has (clr_st q m) n \<longleftrightarrow> has q n"
proof -
  assume "m AND n = 0"
  then have "NOT m AND n = n" by (auto simp: bit_eq_iff bit_simps)
  then show ?thesis by (simp add: has_def clr_st_def and.assoc)
qed

lemma has_clr_same [simp]: "NOT m AND n = 0 \<Longrightarrow> \<not> has (clr_st q m) n"
  by (simp add: has_def clr_st_def and.assoc)

lemma st_fields [simp]:
  "q_b (set_st q m) = q_b q" "q_len (set_st q m) = q_len q" "q_dlen (set_st q m) = q_dlen q"
  "q_limit (set_st q m) = q_limit q" "q_inilim (set_st q m) = q_inilim q" "q_noblock (set_st q m) = q_noblock q"
  "q_eof (set_st q m) = q_eof q" "q_kick (set_st q m) = q_kick q" "q_bypass (set_st q m) = q_bypass q"
  "q_err (set_st q m) = q_err q"
  "q_b (clr_st q m) = q_b q" "q_len (clr_st q m) = q_len q" "q_dlen (clr_st q m) = q_dlen q"
  "q_limit (clr_st q m) = q_limit q" "q_inilim (clr_st q m) = q_inilim q" "q_noblock (clr_st q m) = q_noblock q"
  "q_eof (clr_st q m) = q_eof q" "q_kick (clr_st q m) = q_kick q" "q_bypass (clr_st q m) = q_bypass q"
  "q_err (clr_st q m) = q_err q"
  by (simp_all add: set_st_def clr_st_def)

lemma has_upd [simp]:
  "has (q\<lparr>q_b := b\<rparr>) m = has q m" "has (q\<lparr>q_len := l\<rparr>) m = has q m" "has (q\<lparr>q_dlen := l\<rparr>) m = has q m"
  "has (q\<lparr>q_eof := l\<rparr>) m = has q m" "has (q\<lparr>q_limit := l\<rparr>) m = has q m" "has (q\<lparr>q_noblock := c\<rparr>) m = has q m"
  "has (q\<lparr>q_err := e\<rparr>) m = has q m"
  by (simp_all add: has_def)

lemma restart_fields [simp]:
  "q_b (fst (restart q l)) = q_b q" "q_len (fst (restart q l)) = q_len q" "q_dlen (fst (restart q l)) = q_dlen q"
  "q_limit (fst (restart q l)) = q_limit q" "q_inilim (fst (restart q l)) = q_inilim q"
  "q_noblock (fst (restart q l)) = q_noblock q" "q_eof (fst (restart q l)) = q_eof q"
  "q_kick (fst (restart q l)) = q_kick q" "q_bypass (fst (restart q l)) = q_bypass q"
  "q_err (fst (restart q l)) = q_err q" "Qflow AND m = 0 \<Longrightarrow> has (fst (restart q l)) m = has q m"
  by (simp_all add: restart_def)

lemma unstarve_fields [simp]:
  "q_b (fst (unstarve q)) = q_b q" "q_len (fst (unstarve q)) = q_len q" "q_dlen (fst (unstarve q)) = q_dlen q"
  "q_limit (fst (unstarve q)) = q_limit q" "q_inilim (fst (unstarve q)) = q_inilim q"
  "q_noblock (fst (unstarve q)) = q_noblock q" "q_eof (fst (unstarve q)) = q_eof q"
  "q_kick (fst (unstarve q)) = q_kick q" "q_bypass (fst (unstarve q)) = q_bypass q"
  "q_err (fst (unstarve q)) = q_err q" "Qstarve AND m = 0 \<Longrightarrow> has (fst (unstarve q)) m = has q m"
  by (simp_all add: unstarve_def)

lemma wakeup_fields [simp]:
  "q_b (fst (qwakeup_unlock q)) = q_b q" "q_len (fst (qwakeup_unlock q)) = q_len q"
  "q_dlen (fst (qwakeup_unlock q)) = q_dlen q" "q_limit (fst (qwakeup_unlock q)) = q_limit q"
  "q_err (fst (qwakeup_unlock q)) = q_err q"
  "Qflow AND m = 0 \<Longrightarrow> has (fst (qwakeup_unlock q)) m = has q m"
  by (simp_all add: qwakeup_unlock_def case_prod_beta)

lemma qwait_fields [simp]:
  "q_b (snd (qwait q)) = q_b q" "q_len (snd (qwait q)) = q_len q" "q_dlen (snd (qwait q)) = q_dlen q"
  "q_limit (snd (qwait q)) = q_limit q" "q_err (snd (qwait q)) = q_err q"
  "Qstarve AND m = 0 \<Longrightarrow> has (snd (qwait q)) m = has q m"
  by (simp_all add: qwait_def Let_def)

lemma bwait_fields [simp]:
  "q_b (snd (qbwrite_wait q n)) = q_b q" "q_len (snd (qbwrite_wait q n)) = q_len q"
  "q_dlen (snd (qbwrite_wait q n)) = q_dlen q" "q_err (snd (qbwrite_wait q n)) = q_err q"
  "q_limit (snd (qbwrite_wait q n)) = q_limit q" "q_noblock (snd (qbwrite_wait q n)) = q_noblock q"
  "q_bypass (snd (qbwrite_wait q n)) = q_bypass q"
  "Qflow AND m = 0 \<Longrightarrow> has (snd (qbwrite_wait q n)) m = has q m"
  by (simp_all add: qbwrite_wait_def)

lemma qwf_cong:
  "q_b q = q_b q' \<Longrightarrow> q_len q = q_len q' \<Longrightarrow> q_dlen q = q_dlen q' \<Longrightarrow> q_err q = q_err q' \<Longrightarrow> qwfd dr q = qwfd dr q'"
  by (simp add: qwfd_def)

lemma qwf_helpers [simp]:
  "qwfd dr (set_st q m) = qwfd dr q" "qwfd dr (clr_st q m) = qwfd dr q" "qwfd dr (fst (restart q l)) = qwfd dr q"
  "qwfd dr (fst (unstarve q)) = qwfd dr q" "qwfd dr (fst (qwakeup_unlock q)) = qwfd dr q" "qwfd dr (snd (qwait q)) = qwfd dr q"
  "qwfd dr (snd (qbwrite_wait q n)) = qwfd dr q"
  by (rule qwf_cong; simp)+

lemma qdata_helpers [simp]:
  "qdata (set_st q m) = qdata q" "qdata (clr_st q m) = qdata q" "qdata (fst (restart q l)) = qdata q"
  "qdata (fst (unstarve q)) = qdata q" "qdata (fst (qwakeup_unlock q)) = qdata q" "qdata (snd (qwait q)) = qdata q"
  "qdata (snd (qbwrite_wait q n)) = qdata q"
  by (simp_all add: qdata_def)

lemma length_qdata: "qwfd dr q \<Longrightarrow> int (length (qdata q)) = q_dlen q"
  by (simp add: qwfd_def qdata_def length_content)

lemma length_Ehungup [simp]: "length Ehungup = 21"
  by (simp add: Ehungup_def)

lemma BLEN_upd [simp]:
  "BALLOC (b\<lparr>b_rp := x\<rparr>) = BALLOC b" "BALLOC (b\<lparr>b_wp := x\<rparr>) = BALLOC b"
  by (simp_all add: BALLOC_def)

subsection \<open>Removing data\<close>

lemma qget_ok:
  assumes "qwfd dr q" "qget q = (r, q', ev)"
  shows "qwfd dr q' \<and> (case r of None \<Rightarrow> q_b q = [] \<and> q_b q' = [] | Some b \<Rightarrow> wf_block b \<and> q_b q = b # q_b q')"
  using assms by (auto simp: qget_def qwfd_def case_prod_beta Let_def split: list.splits)

lemma qremove_ok:
  assumes "qwfd dr q" "qremove q = (r, q')"
  shows "qwfd dr q' \<and> (case r of None \<Rightarrow> q_b q = [] \<and> q' = q | Some b \<Rightarrow> wf_block b \<and> q_b q = b # q_b q')"
  using assms by (auto simp: qremove_def qwfd_def split: list.splits)

lemma qdiscard_loop_ok:
  assumes "qwfd dr (q\<lparr>q_b := bs\<rparr>)" "qdiscard_loop bs q len sofar = (k, q', ev)" "sofar \<le> len"
  shows "qwfd dr q' \<and> k = min len (sofar + length (content bs)) \<and> qdata q' = drop (len - sofar) (content bs)"
  using assms
proof (induction bs q len sofar arbitrary: k q' ev rule: qdiscard_loop.induct)
  case (1 q len sofar)
  then show ?case by (auto simp: qdata_def)
next
  case (2 b bs q len sofar)
  show ?case
  proof (cases "sofar < len \<and> BLEN b \<le> len - sofar")
    case True
    obtain k1 q1 e1 where r: "qdiscard_loop bs (q\<lparr>q_len := q_len q - int (BALLOC b), q_dlen := q_dlen q - int (BLEN b)\<rparr>)
        len (sofar + BLEN b) = (k1, q1, e1)" by (metis prod_cases3)
    have "qwfd dr (q\<lparr>q_len := q_len q - int (BALLOC b), q_dlen := q_dlen q - int (BLEN b), q_b := bs\<rparr>)"
      using 2(2) by (simp add: qwfd_def)
    moreover have "sofar + BLEN b \<le> len" using True by linarith
    ultimately show ?thesis
      using 2(1) [OF _ refl _ refl _ r] True 2(2,3) r by (auto simp: qwfd_def Let_def)
  next
    case False
    then show ?thesis using 2(2,3,4) rp_advance [of b "len - sofar"]
      by (auto simp: qwfd_def Let_def qdata_def split: if_splits)
  qed
qed

lemma qdiscard_ok:
  assumes "qwfd dr q" "qdiscard q len = (k, q', ev)"
  shows "qwfd dr q' \<and> k = min len (length (qdata q)) \<and> qdata q' = drop len (qdata q)"
proof -
  obtain k1 q1 e1 where r: "qdiscard_loop (q_b q) q len 0 = (k1, q1, e1)" by (metis prod_cases3)
  have "qwfd dr (q\<lparr>q_b := q_b q\<rparr>)" using assms(1) by simp
  from qdiscard_loop_ok [OF this r] show ?thesis
    using assms(2) by (auto simp: qdiscard_def r case_prod_beta qdata_def)
qed

lemma qconsume_skip_ok:
  assumes "qwfd dr (q\<lparr>q_b := bs\<rparr>)" "qconsume_skip bs q fr = (q', fr')"
  shows "qwfd dr q' \<and> content (q_b q') = content bs \<and> (case q_b q' of [] \<Rightarrow> True | b # _ \<Rightarrow> 0 < BLEN b) \<and>
    (\<forall>m. has q' m = has q m) \<and> q_limit q' = q_limit q"
  using assms
proof (induction bs q fr arbitrary: q' fr' rule: qconsume_skip.induct)
  case (2 b bs q fr)
  show ?case
  proof (cases "BLEN b > 0")
    case True
    then show ?thesis using 2 by auto
  next
    case False
    have "qwfd dr (q\<lparr>q_len := q_len q - int (BALLOC b), q_b := bs\<rparr>)"
      using 2(2) False by (simp add: qwfd_def)
    moreover have "data b = []" using False by (simp add: data_def)
    ultimately show ?thesis using 2(1) [OF False] 2(3) False by auto
  qed
qed auto

lemma qconsume_ok:
  assumes "qwfd dr q" "qconsume q len = (n, p, q', ev)"
  shows "qwfd dr q' \<and> (n = -1 \<and> p = [] \<and> qdata q = [] \<and> q_b q' = [] \<or>
    n = int (length p) \<and> length p \<le> len \<and> (0 < len \<longrightarrow> p \<noteq> []) \<and> 
    (if has q Qmsg then \<exists>b bs m. m \<noteq> [] \<and> qdata q = m @ content bs \<and> q_b q' = bs \<and> p = take len m
     else p @ qdata q' = qdata q))"
proof -
  obtain q1 fr where s: "qconsume_skip (q_b q) q [] = (q1, fr)" by fastforce
  have "qwfd dr (q\<lparr>q_b := q_b q\<rparr>)" using assms(1) by simp
  note k = qconsume_skip_ok [OF this s]
  show ?thesis
  proof (cases "q_b q1")
    case Nil
    then show ?thesis using assms(2) k by (auto simp: qconsume_def s qdata_def)
  next
    case (Cons b bs)
    define m where "m = (if BLEN b < len then BLEN b else len)"
    have b: "0 < BLEN b" "wf_block b" "list_all wf_block bs" using k Cons by (auto simp: qwfd_def)
    have m: "m \<le> BLEN b" by (simp add: m_def)
    note a = rp_advance [OF b(2) m]
    have e: "n = int m" "p = take m (data b)" using assms(2) Cons
      by (simp_all add: qconsume_def s case_prod_beta Let_def m_def)
    have nz: "data b \<noteq> []" using b length_data [of b] by (metis list.size(3) less_irrefl)
    have c: "qdata q = data b @ content bs" using k Cons by (simp add: qdata_def)
    show ?thesis
    proof (cases "has q Qmsg \<or> m = BLEN b")
      case True
      then have q': "q_b q' = bs" "qwfd dr q'"
        using assms(2) Cons k a b by (auto simp: qconsume_def s case_prod_beta Let_def m_def qwfd_def)
      have "p = take len (data b)" "length p = m" "m \<le> len" using e(2) b m by (auto simp: m_def)
      moreover have "length (data b) = BLEN b" using b(2) by simp
      ultimately show ?thesis using q' e c nz True b(1) by (auto simp: qdata_def m_def split: if_splits)
    next
      case False
      have h: "has q1 Qmsg = has q Qmsg" using k by simp
      let ?b = "b\<lparr>b_rp := b_rp b + m\<rparr>"
      let ?q = "q1\<lparr>q_b := ?b # bs, q_dlen := q_dlen q1 - int m\<rparr>"
      have e': "q' = fst (restart ?q (q_limit q1 div 2))"
        using assms(2) Cons False h by (simp add: qconsume_def s case_prod_beta Let_def m_def split: if_splits) auto
      have "qwfd dr q1" using k by blast
      then have "qwfd dr ?q" using a b m Cons by (simp add: qwfd_def of_nat_diff)
      then have q': "q_b q' = ?b # bs" "qwfd dr q'" unfolding e' by simp_all
      have "qdata q' = drop m (data b) @ content bs" using q'(1) a(2) by (simp add: qdata_def)
      then have d: "p @ qdata q' = qdata q" using e(2) c by simp
      have "length p = m" "0 < len \<longrightarrow> p \<noteq> []" "m \<le> len"
        using e(2) b(1,2) m nz by (auto simp: m_def)
      then show ?thesis using e(1) q'(2) d False by simp
    qed
  qed
qed


lemma qputback_ok: "qwfd dr q \<Longrightarrow> wf_block b \<Longrightarrow> qwfd dr (qputback q b) \<and> qdata (qputback q b) = data b @ qdata q"
  by (simp add: qputback_def qwfd_def qdata_def)

lemma qputback_fields [simp]:
  "has (qputback q b) m = has q m" "q_limit (qputback q b) = q_limit q"
  by (simp_all add: qputback_def)

lemma qaddlist_ok:
  "qwfd dr q \<Longrightarrow> list_all wf_block bs \<Longrightarrow> qwfd dr (qaddlist q bs) \<and> qdata (qaddlist q bs) = qdata q @ content bs"
  by (simp add: qaddlist_def qwfd_def qdata_def)

lemma qremove_fields [simp]: "has (snd (qremove q)) m = has q m" "q_limit (snd (qremove q)) = q_limit q"
  by (simp_all add: qremove_def split: list.splits)

subsection \<open>Reading\<close>

lemma qwait_cases:
  assumes "qwait q = (r, q')"
  shows "(r = Ret 1 \<and> q_b q \<noteq> [] \<and> q' = q) \<or> (r = Sleeps \<and> q_b q = [] \<and> \<not> has q Qclosed \<and> q' = set_st q Qstarve) \<or>
    ((r = Ret 0 \<or> r = Ret (-1)) \<and> q_b q = [] \<and> has q Qclosed \<and> q' = q\<lparr>q_eof := q_eof q + 1\<rparr>)"
  using assms by (auto simp: qwait_def Let_def split: if_splits)

lemma qbread_ok:
  assumes "qwfd dr q" "qbread q len = (r, q', ev)"
  shows "qwfd dr q' \<and> (case r of
      Ret (Some b) \<Rightarrow> wf_block b \<and> BLEN b \<le> len \<and>
        (if has q Qmsg then \<exists>b0. q_b q = b0 # q_b q' \<and> data b = take len (data b0)
         else data b @ qdata q' = qdata q)
    | Ret None \<Rightarrow> q_b q = [] \<and> has q Qclosed
    | Err e \<Rightarrow> q_b q = [] \<and> has q Qclosed
    | Sleeps \<Rightarrow> q_b q = [] \<and> \<not> has q Qclosed \<and> has q' Qstarve)"
proof -
  obtain w q1 where w: "qwait q = (w, q1)" by fastforce
  show ?thesis
    using qwait_cases [OF w]
  proof (elim disjE conjE)
    assume r1: "w = Ret 1" "q_b q \<noteq> []" "q1 = q"
    obtain b0 bs where "q_b q = b0 # bs" using r1 by (cases "q_b q") auto
    then obtain q2 where rm: "qremove q = (Some b0, q2)" by (simp add: qremove_def)
    have q2: "qwfd dr q2" "wf_block b0" "q_b q = b0 # q_b q2" "\<And>m. has q2 m = has q m"
      using qremove_ok [OF assms(1) rm] qremove_fields [of q] rm by simp_all
    show ?thesis
    proof (cases "BLEN b0 > len")
      case False
      have q': "q' = fst (qwakeup_unlock q2)" "r = Ret (Some b0)"
        using assms(2) w r1 rm False by (auto simp: qbread_def case_prod_beta Let_def)
      have "qdata q = data b0 @ qdata q2" using q2(3) by (simp add: qdata_def)
      then show ?thesis using q' q2 False by simp
    next
      case True
      let ?x = "bput (allocb (BLEN b0 - len)) (take (BLEN b0 - len) (drop len (data b0)))"
      have x: "wf_block ?x" "data ?x = drop len (data b0)"
        using bput_alloc [of "take (BLEN b0 - len) (drop len (data b0))" "BLEN b0 - len"] q2(2) by simp_all
      have y: "wf_block (b0\<lparr>b_wp := b_rp b0 + len\<rparr>)" "data (b0\<lparr>b_wp := b_rp b0 + len\<rparr>) = take len (data b0)"
        "BLEN (b0\<lparr>b_wp := b_rp b0 + len\<rparr>) = len"
        using wp_retreat [OF q2(2), of len] True by auto
      show ?thesis
      proof (cases "has q Qmsg")
        case msg: True
        have "q' = fst (qwakeup_unlock q2)" "r = Ret (Some (b0\<lparr>b_wp := b_rp b0 + len\<rparr>))"
          using assms(2) w r1 rm q2 True msg by (auto simp: qbread_def case_prod_beta Let_def)
        then show ?thesis using q2 y msg by simp
      next
        case False
        have q': "q' = fst (qwakeup_unlock (qputback q2 ?x))" "r = Ret (Some (b0\<lparr>b_wp := b_rp b0 + len\<rparr>))"
          using assms(2) w r1 rm q2 True False by (auto simp: qbread_def case_prod_beta Let_def)
        have "qdata q = data b0 @ qdata q2" using q2(3) by (simp add: qdata_def)
        then show ?thesis using q' y x False qputback_ok [OF q2(1) x(1)] by simp
      qed
    qed
  qed (use assms w in \<open>auto simp: qbread_def qwfd_def\<close>)
qed

lemma qread_again_ok:
  assumes "qwfd dr q" "qread_again q = (w, q', ev)"
  shows "qwfd dr q' \<and> qdata q' = qdata q \<and> (\<forall>m. Qstarve AND m = 0 \<longrightarrow> has q' m = has q m) \<and> q_limit q' = q_limit q \<and>
    (w = Ret 1 \<and> q_b q' \<noteq> [] \<and> (has q' Qcoalesce \<longrightarrow> 0 < BLEN (hd (q_b q'))) \<and> (\<not> has q' Qcoalesce \<longrightarrow> q' = q) \<or>
     w = Sleeps \<and> q_b q' = [] \<and> \<not> has q' Qclosed \<and> has q' Qstarve \<or>
     (w = Ret 0 \<or> w = Ret (-1)) \<and> q_b q' = [] \<and> has q' Qclosed)"
  using assms
proof (induction q arbitrary: w q' ev rule: qread_again.induct)
  case (1 q)
  obtain r q1 where w: "qwait q = (r, q1)" by fastforce
  show ?case
    using qwait_cases [OF w]
  proof (elim disjE conjE)
    assume r1: "r = Ret 1" "q_b q \<noteq> []" "q1 = q"
    show ?thesis
    proof (cases "has q Qcoalesce \<and> BLEN (hd (q_b q)) = 0")
      case True
      obtain b bs where b: "q_b q = b # bs" using r1 by (cases "q_b q") auto
      obtain q2 where rm: "qremove q = (Some b, q2)" using b by (auto simp: qremove_def)
      obtain w2 q3 ev2 where rec: "qread_again q2 = (w2, q3, ev2)" by (metis prod_cases3)
      have q2: "qwfd dr q2" "q_b q = b # q_b q2" using qremove_ok [OF 1(2) rm] by auto
      have f: "has q2 m = has q m" "q_limit q2 = q_limit q" for m using qremove_fields [of q] rm by simp_all
      have "data b = []" using True b by (simp add: data_def)
      then have d: "qdata q2 = qdata q" using q2 by (simp add: qdata_def)
      have "w = w2 \<and> q' = q3" using 1(3) True w r1 rm rec b
        by (subst (asm) qread_again.simps) (auto simp: case_prod_beta)
      moreover note 1(1) [OF w [symmetric] r1(1), unfolded r1(3) rm snd_conv, OF _ q2(1) rec]
      ultimately show ?thesis using True b r1 f d by auto
    next
      case False
      then have "w = Ret 1 \<and> q' = q" using 1(3) w r1
        by (subst (asm) qread_again.simps) (auto simp: case_prod_beta split: if_splits)
      then show ?thesis using False r1 1(2) by auto
    qed
  qed (use 1(2,3) w in \<open>subst (asm) qread_again.simps; auto simp: qwfd_def qdata_def\<close>)+
qed


lemma qread_gather_step:
  assumes "bs = c # cs" "\<not> n + BLEN b + BLEN c > len"
  shows "qread_gather (b # bs) q n len =
    (case qread_gather bs (q\<lparr>q_dlen := q_dlen q - int (BLEN b), q_len := q_len q - int (BALLOC b)\<rparr>) (n + BLEN b) len of
       (first, n, q) \<Rightarrow> (b # first, n, q))"
  using assms(2) by (subst qread_gather.simps) (simp add: assms(1) Let_def del: qread_gather.simps)

lemma qread_gather_ok:
  assumes "qwfd dr (q\<lparr>q_b := bs\<rparr>)" "bs \<noteq> []" "qread_gather bs q n len = (first, n', q')"
  shows "qwfd dr q' \<and> list_all wf_block first \<and> first \<noteq> [] \<and> hd first = hd bs \<and> bs = first @ q_b q' \<and> n' = n + blocklen first \<and>
    (tl first = [] \<or> n' \<le> len) \<and> (case q_b q' of [] \<Rightarrow> True | c # _ \<Rightarrow> len < n' + BLEN c) \<and>
    (\<forall>m. has q' m = has q m) \<and> q_limit q' = q_limit q"
  using assms
proof (induction bs q n len arbitrary: first n' q' rule: qread_gather.induct)
  case (1 q n len)
  then show ?case by simp
next
  case (2 b bs q n len)
  let ?q = "q\<lparr>q_dlen := q_dlen q - int (BLEN b), q_len := q_len q - int (BALLOC b)\<rparr>"
  have w: "qwfd dr (?q\<lparr>q_b := bs\<rparr>)" "wf_block b" using 2(2) by (simp_all add: qwfd_def)
  show ?case
  proof (cases bs)
    case Nil
    then show ?thesis using 2(2,4) by (auto simp: qwfd_def Let_def)
  next
    case (Cons c cs)
    show ?thesis
    proof (cases "n + BLEN b + BLEN c > len")
      case True
      then show ?thesis using 2(4) w Cons by (auto simp: Let_def)
    next
      case False
      obtain f1 n1 q1 where r: "qread_gather bs ?q (n + BLEN b) len = (f1, n1, q1)" by (metis prod_cases3)
      have e: "first = b # f1" "n' = n1" "q' = q1"
        using 2(4) qread_gather_step [OF Cons False] r by simp_all
      have i: "qwfd dr q1 \<and> list_all wf_block f1 \<and> f1 \<noteq> [] \<and> hd f1 = hd bs \<and> bs = f1 @ q_b q1 \<and> n1 = n + BLEN b + blocklen f1 \<and>
        (tl f1 = [] \<or> n1 \<le> len) \<and> (case q_b q1 of [] \<Rightarrow> True | c # _ \<Rightarrow> len < n1 + BLEN c) \<and>
        (\<forall>m. has q1 m = has ?q m) \<and> q_limit q1 = q_limit ?q"
        by (rule 2(1) [OF refl refl Cons _ w(1) _ r]) (use False Cons in auto)
      have "f1 \<noteq> []" "hd f1 = c" using i unfolding Cons list.sel by blast+
      then obtain f2 where f1: "f1 = c # f2" by (cases f1) auto
      have "n1 \<le> len"
      proof (cases f2)
        case Nil
        have "n1 = n + BLEN b + blocklen f1" using i by blast
        then show ?thesis using f1 Nil False by simp
      next
        case (Cons d ds)
        have "tl f1 = [] \<or> n1 \<le> len" using i by blast
        then show ?thesis using f1 Cons by simp
      qed
      moreover have "list_all wf_block (b # f1)" using i w(2) unfolding list.pred_inject by blast
      moreover have "b # bs = (b # f1) @ q_b q1" using i by (simp only: append_Cons)
      moreover have "n1 = n + blocklen (b # f1)" using i by (simp only: blocklen.simps add.assoc)
      moreover have "\<forall>m. has q1 m = has q m" "q_limit q1 = q_limit q" "qwfd dr q1"
        "case q_b q1 of [] \<Rightarrow> True | c # _ \<Rightarrow> len < n1 + BLEN c" using i by simp_all
      ultimately show ?thesis unfolding e list.sel by blast
    qed
  qed
qed

definition qread_first :: "queue \<Rightarrow> nat \<Rightarrow> block list \<times> nat \<times> queue" where
  "qread_first q len = (if has q Qcoalesce then qread_gather (q_b q) q 0 len
     else (case qremove q of (None, q) \<Rightarrow> ([], 0, q) | (Some b, q) \<Rightarrow> ([b], BLEN b, q)))"

lemma qread_first_ok:
  assumes "qwfd dr q" "q_b q \<noteq> []" "qread_first q len = (first, n, q')"
  shows "qwfd dr q' \<and> list_all wf_block first \<and> first \<noteq> [] \<and> q_b q = first @ q_b q' \<and> n = blocklen first \<and>
    (tl first = [] \<or> n \<le> len) \<and> (\<forall>m. has q' m = has q m) \<and> q_limit q' = q_limit q \<and>
    (\<not> has q Qcoalesce \<longrightarrow> tl first = []) \<and>
    (has q Qcoalesce \<longrightarrow> (case q_b q' of [] \<Rightarrow> True | c # _ \<Rightarrow> len < n + BLEN c))"
proof (cases "has q Qcoalesce")
  case True
  have "qwfd dr (q\<lparr>q_b := q_b q\<rparr>)" using assms(1) by simp
  then show ?thesis using qread_gather_ok [OF _ assms(2), of dr q 0 len first n q'] assms(3) True
    by (auto simp: qread_first_def)
next
  case False
  obtain b bs where b: "q_b q = b # bs" using assms(2) by (cases "q_b q") auto
  then obtain q2 where rm: "qremove q = (Some b, q2)" by (simp add: qremove_def)
  then have f: "first = [b]" "n = BLEN b" "q' = q2" using assms(3) False by (simp_all add: qread_first_def)
  have "qwfd dr q2" "wf_block b" "q_b q = b # q_b q2" using qremove_ok [OF assms(1) rm] by simp_all
  moreover have "has q2 m = has q m" "q_limit q2 = q_limit q" for m using qremove_fields [of q] rm by simp_all
  ultimately show ?thesis using f False by simp
qed

lemma qread_cases:
  assumes "qread_again q = (Ret 1, q1, ev1)" "qread_first q1 len = (first, n, q2)" "bl2mem first len = (p, rest, ev2)"
    "qread q len = (r, q', ev)"
  shows "r = Ret (int n - (case rest of [] \<Rightarrow> 0 | b # _ \<Rightarrow> int (BLEN b)), p) \<and>
    q' = (case rest of [] \<Rightarrow> fst (qwakeup_unlock q2) | b # _ \<Rightarrow>
            if has q2 Qmsg then fst (qwakeup_unlock q2) else fst (qwakeup_unlock (qputback q2 b)))"
  using assms by (auto simp: qread_def qread_first_def [symmetric] case_prod_beta Let_def split: list.splits if_splits)

lemma bl2mem_rest:
  assumes "list_all wf_block bs" "bl2mem bs n = (p, rest, ev)"
  shows "(rest = [] \<longleftrightarrow> blocklen bs \<le> n) \<and> (tl bs = [] \<longrightarrow> tl rest = [])"
  using assms
proof (induction bs n arbitrary: p rest ev rule: bl2mem.induct)
  case (2 b nb n)
  then show ?case by (auto simp: Let_def split: if_splits prod.splits)
qed auto

lemma qread_got:
  assumes "qwfd dr q" "qread_again q = (Ret 1, q1, ev1)" "qread q len = (r, q', ev)"
  shows "\<exists>first q2 p. r = Ret (int (length p), p) \<and> p = take len (content first) \<and> first \<noteq> [] \<and>
    q_b q1 = first @ q_b q2 \<and> qwfd dr q' \<and> (tl first = [] \<or> length (content first) \<le> len) \<and>
    (\<not> has q Qcoalesce \<longrightarrow> tl first = []) \<and>
    qdata q' = (if has q Qmsg then qdata q2 else drop len (content first) @ qdata q2) \<and>
    (has q Qmsg \<longrightarrow> q_b q' = q_b q2)"
proof -
  note ag = qread_again_ok [OF assms(1,2)]
  have q1: "qwfd dr q1" "q_b q1 \<noteq> []" "has q1 Qmsg = has q Qmsg" "has q1 Qcoalesce = has q Qcoalesce" using ag by auto
  obtain first n q2 where f: "qread_first q1 len = (first, n, q2)" by (metis prod_cases3)
  obtain p rest ev2 where b: "bl2mem first len = (p, rest, ev2)" by (metis prod_cases3)
  note fo = qread_first_ok [OF q1(1,2) f]
  then have wf: "list_all wf_block first" by blast
  note bo = bl2mem_ok [OF wf b] bl2mem_rest [OF wf b]
  have len: "length (content first) = n" using fo by (simp add: length_content)
  note r = qread_cases [OF assms(2) f b assms(3)]
  have m: "has q2 Qmsg = has q Qmsg" using fo q1 by simp
  show ?thesis
  proof (cases rest)
    case Nil
    have n: "n \<le> len" using bo(2) fo Nil by auto
    then have p: "p = content first" "drop len (content first) = []" using bo(1) len by simp_all
    have "r = Ret (int (length p), p)" "q' = fst (qwakeup_unlock q2)" using r Nil p len by simp_all
    moreover have "q_b q1 = first @ q_b q2" "qwfd dr q2" "first \<noteq> []" "\<not> has q Qcoalesce \<longrightarrow> tl first = []"
      using fo q1 by blast+
    ultimately show ?thesis using p n len
      by (intro exI [of _ first] exI [of _ q2] exI [of _ p]) simp
  next
    case (Cons c cs)
    have n: "len < n" using bo(2) fo Cons by auto
    then have "tl first = []" using fo by auto
    then have rest: "rest = [c]" using bo(2) Cons by simp
    have c: "wf_block c" "data c = drop len (content first)" using bo(1) rest by simp_all
    then have "BLEN c = n - len" using len length_data [OF c(1)] by (simp del: length_data)
    moreover have p: "p = take len (content first)" "length p = len" using bo(1) len n by simp_all
    ultimately have rr: "r = Ret (int (length p), p)" using r rest n by (simp add: of_nat_diff)
    have pb: "qwfd dr (qputback q2 c)" "qdata (qputback q2 c) = drop len (content first) @ qdata q2"
      using qputback_ok [OF _ c(1)] fo c(2) by auto
    have "q_b q1 = first @ q_b q2" "qwfd dr q2" "first \<noteq> []" using fo by blast+
    moreover have "q' = (if has q Qmsg then fst (qwakeup_unlock q2) else fst (qwakeup_unlock (qputback q2 c)))"
      using r rest m by simp
    ultimately show ?thesis using rr p(1) pb \<open>tl first = []\<close>
      by (intro exI [of _ first] exI [of _ q2] exI [of _ p]) simp
  qed
qed

lemma qread_empty:
  assumes "qread_again q = (w, q1, ev1)" "w \<noteq> Ret 1" "qread q len = (r, q', ev)" "qwfd dr q"
  shows "q' = q1 \<and> (\<forall>n p. r = Ret (n, p) \<longrightarrow> n = 0 \<and> p = []) \<and> (r = Sleeps \<longleftrightarrow> w = Sleeps)"
  using assms qread_again_ok [OF assms(4,1)] by (auto simp: qread_def)

lemma qread_stream_ok:
  assumes "qwfd dr q" "\<not> has q Qmsg" "qread q len = (Ret (n, p), q', ev)"
  shows "qwfd dr q' \<and> n = int (length p) \<and> length p \<le> len \<and> p @ qdata q' = qdata q"
proof -
  obtain w q1 ev1 where a: "qread_again q = (w, q1, ev1)" by (metis prod_cases3)
  note ag = qread_again_ok [OF assms(1) a]
  show ?thesis
  proof (cases "w = Ret 1")
    case True
    from qread_got [OF assms(1) a [unfolded True] assms(3)] obtain first q2 where
      f: "n = int (length p)" "p = take len (content first)" "q_b q1 = first @ q_b q2" "qwfd dr q'"
      "qdata q' = drop len (content first) @ qdata q2" using assms(2) by (metis qres.inject(1) prod.inject)
    then show ?thesis using ag by (auto simp: qdata_def)
  next
    case False
    then show ?thesis using qread_empty [OF a False assms(3,1)] ag by (auto simp: qdata_def)
  qed
qed

lemma qread_again_plain:
  "\<not> has q Qcoalesce \<Longrightarrow> q_b q \<noteq> [] \<Longrightarrow> qread_again q = (Ret 1, q, [])"
  by (subst qread_again.simps) (auto simp: qwait_def)

lemma qread_message_ok:
  assumes "qwfd dr q" "has q Qmsg" "\<not> has q Qcoalesce" "q_b q = b # bs" "qread q len = (r, q', ev)"
  shows "r = Ret (int (length (take len (data b))), take len (data b)) \<and> q_b q' = bs \<and> qwfd dr q'"
proof -
  have "qread_again q = (Ret 1, q, [])" using assms by (intro qread_again_plain) auto
  from qread_got [OF assms(1) this assms(5)] obtain first and q2 :: queue and p where
    f: "r = Ret (int (length p), p)" "p = take len (content first)" "first \<noteq> []" "q_b q = first @ q_b q2"
    "qwfd dr q'" "tl first = []" "q_b q' = q_b q2"
    using assms(2,3) by blast
  then have "first = [b]" using assms(4) by (cases first) auto
  then show ?thesis using f assms(4) by simp
qed

lemma qread_coalesce_ok:
  assumes "qwfd dr q" "has q Qcoalesce" "0 < len" "qdata q \<noteq> []" "qread q len = (r, q', ev)"
  shows "\<exists>p. r = Ret (int (length p), p) \<and> p \<noteq> []"
proof -
  obtain w q1 ev1 where a: "qread_again q = (w, q1, ev1)" by (metis prod_cases3)
  note ag = qread_again_ok [OF assms(1) a]
  have w: "w = Ret 1" using ag assms(4) by (auto simp: qdata_def)
  from qread_got [OF assms(1) a [unfolded w] assms(5)] obtain first and q2 :: queue and p where
    f: "r = Ret (int (length p), p)" "p = take len (content first)" "first \<noteq> []" "q_b q1 = first @ q_b q2"
    by blast
  have "0 < BLEN (hd (q_b q1))" "wf_block (hd (q_b q1))" using ag w assms(2) f(3) by (auto simp: qwfd_def list_all_iff)
  then have "data (hd first) \<noteq> []" using f(3,4) by (auto simp flip: length_greater_0_conv)
  then have "content first \<noteq> []" using f(3) by (cases first) auto
  then show ?thesis using f assms(3) by auto
qed

end
