(* ===== verification/QueueWrite.thy ===== *)
theory QueueWrite
  imports QueueInv
begin

text \<open>
  Writing, closing and the rest of the queue operations; the invariant over every
  operation; \<open>qcopy\<close> and \<open>pullupqueue\<close>.
\<close>

lemma append_ok:
  "qwfd dr q \<Longrightarrow> list_all wf_block bs \<Longrightarrow>
   qwfd dr (q\<lparr>q_b := q_b q @ bs, q_len := q_len q + int (blockalloclen bs), q_dlen := q_dlen q + int (blocklen bs)\<rparr>)"
  by (simp add: qwfd_def)

lemma qpass_ok:
  assumes "qwfd dr q" "list_all wf_block bs" "qpass q bs = (n, q', ev)"
  shows "qwfd dr q' \<and> (\<forall>m. Qstarve AND m = 0 \<and> Qflow AND m = 0 \<longrightarrow> has q' m = has q m) \<and>
    q_b q' = (if q_len q \<ge> q_limit q \<or> has q Qclosed then q_b q else q_b q @ bs) \<and>
    n = (if q_len q \<ge> q_limit q then -1 else if has q Qclosed then int (blocklen bs) else int (blockalloclen bs))"
  using assms append_ok [OF assms(1,2)] by (auto simp: qpass_def case_prod_beta Let_def split: if_splits)

lemma qpassnolim_ok:
  assumes "qwfd dr q" "list_all wf_block bs" "qpassnolim q bs = (n, q', ev)"
  shows "qwfd dr q' \<and> q_b q' = (if has q Qclosed then q_b q else q_b q @ bs)"
  using assms append_ok [OF assms(1,2)] by (auto simp: qpassnolim_def case_prod_beta Let_def split: if_splits)

lemma iallocb_allocb: "iallocb n = allocb n"
  by (simp add: allocb_def)

lemma qproduce_ok:
  assumes "qwfd dr q" "qproduce avail q p = (n, q', ev)"
  shows "qwfd dr q' \<and> (\<forall>m. Qstarve AND m = 0 \<and> Qflow AND m = 0 \<longrightarrow> has q' m = has q m) \<and>
    (if has q Qclosed \<or> q_len q \<ge> q_limit q \<or> \<not> avail (length p)
     then n = -1 \<and> qdata q' = qdata q else n = int (length p) \<and> qdata q' = qdata q @ p)"
proof -
  let ?b = "bput (allocb (length p)) p"
  have b: "wf_block ?b" "data ?b = p" "BLEN ?b = length p" "BALLOC ?b = length p" using bput_alloc [of p "length p"] by auto
  show ?thesis using assms append_ok [OF assms(1), of "[?b]"] b
    by (auto simp: qproduce_def iallocb_allocb case_prod_beta Let_def qdata_def split: if_splits)
qed

lemma qbwrite_ok:
  assumes "qwfd dr q" "wf_block b" "qbwrite q b = (r, q', ev)"
  shows "qwfd dr q' \<and> (\<forall>m. Qstarve AND m = 0 \<and> Qflow AND m = 0 \<longrightarrow> has q' m = has q m) \<and>
    q_noblock q' = q_noblock q \<and> q_bypass q' = q_bypass q \<and> q_limit q' = q_limit q \<and>
    q_b q' = (if q_bypass q \<or> has q Qclosed \<or> q_len q \<ge> q_limit q \<and> q_noblock q then q_b q else q_b q @ [b]) \<and>
    ((\<exists>e. r = Err e) \<longleftrightarrow> has q Qclosed \<and> \<not> q_bypass q) \<and>
    (r = Sleeps \<longrightarrow> \<not> q_noblock q \<and> \<not> q_bypass q \<and> q_len q' \<ge> q_limit q' \<and> has q' Qflow) \<and>
    (\<forall>n. r = Ret n \<longrightarrow> n = int (BLEN b))"
  using assms append_ok [OF assms(1), of "[b]"]
  by (auto simp: qbwrite_def qbwrite_put_def qbwrite_wait_def qnotfull_def case_prod_beta Let_def split: if_splits)

text \<open>A write to an open queue that may block: every byte up to \<open>sofar\<close> is queued, in order.\<close>

lemma qwrite_loop_ok:
  assumes "qwfd dr q" "\<not> q_bypass q" "\<not> q_noblock q" "\<not> has q Qclosed" "sofar \<le> length p"
    "qwrite_loop q p sofar = (r, s, q', ev)"
  shows "qwfd dr q' \<and> sofar \<le> s \<and> s \<le> length p \<and> qdata q' = qdata q @ take (s - sofar) (drop sofar p) \<and>
    (r = Sleeps \<or> r = Ret (int (length p))) \<and> (r = Ret (int (length p)) \<and> \<not> has q Qmsg \<longrightarrow> s = length p) \<and>
    (has q Qmsg \<longrightarrow> s = min (length p) (sofar + Maxatomic))"
  using assms
proof (induction q p sofar arbitrary: r s q' ev rule: qwrite_loop.induct)
  case (1 q p sofar)
  define n where "n = (if length p - sofar > Maxatomic then Maxatomic else length p - sofar)"
  let ?b = "bput (allocb n) (take n (drop sofar p))"
  have n: "n \<le> length p - sofar" "n \<le> Maxatomic" by (simp_all add: n_def)
  have b: "wf_block ?b" "data ?b = take n (drop sofar p)" "BLEN ?b = n" "BALLOC ?b = n"
    using bput_alloc [of "take n (drop sofar p)" n] n by auto
  obtain r1 q1 ev1 where w: "qbwrite q ?b = (r1, q1, ev1)" by (metis prod_cases3)
  note bo = qbwrite_ok [OF 1(2) b(1) w]
  have q1: "qwfd dr q1" "q_b q1 = q_b q @ [?b]" "has q1 Qmsg = has q Qmsg" "has q1 Qclosed = has q Qclosed"
    "\<not> q_bypass q1" "\<not> q_noblock q1" "r1 = Sleeps \<or> (\<exists>k. r1 = Ret k)"
    using bo 1(3,4,5) by (simp_all, cases r1) simp_all
  have d: "qdata q1 = qdata q @ take n (drop sofar p)" using q1(2) b(2) by (simp add: qdata_def)
  have m: "has q Qmsg \<longrightarrow> sofar + n = min (length p) (sofar + Maxatomic)" using 1(6) by (auto simp: n_def)
  have e: "qwrite_loop q p sofar = (case r1 of Err e \<Rightarrow> (Err e, sofar, q1, ev1) | Sleeps \<Rightarrow> (Sleeps, sofar + n, q1, ev1)
     | Ret _ \<Rightarrow> if sofar + n < length p \<and> \<not> has q1 Qmsg
             then (case qwrite_loop q1 p (sofar + n) of (r, s, q, ev') \<Rightarrow> (r, s, q, ev1 @ ev'))
             else (Ret (int (length p)), sofar + n, q1, ev1))"
    by (subst qwrite_loop.simps) (simp add: Let_def n_def [symmetric] w split: qres.split)
  show ?case
  proof (cases "r1 = Sleeps")
    case True
    then show ?thesis using e 1(6,7) q1(1) d n m by auto
  next
    case False
    then obtain k where k: "r1 = Ret k" using q1(7) by blast
    show ?thesis
    proof (cases "sofar + n < length p \<and> \<not> has q1 Qmsg")
      case True
      obtain r2 s2 q2 ev2 where rec: "qwrite_loop q1 p (sofar + n) = (r2, s2, q2, ev2)" by (metis prod_cases4)
      have res: "r = r2" "s = s2" "q' = q2" using e k True rec 1(7) by auto
      have ih: "qwfd dr q2 \<and> sofar + n \<le> s2 \<and> s2 \<le> length p \<and>
          qdata q2 = qdata q1 @ take (s2 - (sofar + n)) (drop (sofar + n) p) \<and>
          (r2 = Sleeps \<or> r2 = Ret (int (length p))) \<and> (r2 = Ret (int (length p)) \<and> \<not> has q1 Qmsg \<longrightarrow> s2 = length p)"
        using 1(1) [OF n_def refl w [symmetric] k refl True q1(1,5,6) _ _ rec] True q1(4) 1(5) by simp
      have "take n (drop sofar p) @ take (s2 - (sofar + n)) (drop (sofar + n) p) = take (s2 - sofar) (drop sofar p)"
        using ih take_add [of n "s2 - (sofar + n)" "drop sofar p"] by (simp add: add.commute)
      then show ?thesis using ih d res True q1(3) by auto
    next
      case False
      then have "r = Ret (int (length p))" "s = sofar + n" "q' = q1" using e k 1(7) by auto
      then show ?thesis using False q1(1,3) d n m 1(6) by auto
    qed
  qed
qed

lemma qiwrite_loop_ok:
  assumes "qwfd dr q" "sofar \<le> length p" "qiwrite_loop avail q p sofar w = (s, q', ev)"
  shows "qwfd dr q' \<and> sofar \<le> s \<and> s \<le> length p \<and> qdata q' = qdata q @ take (s - sofar) (drop sofar p) \<and>
    (\<forall>m. Qstarve AND m = 0 \<longrightarrow> has q' m = has q m) \<and> ((\<forall>n. avail n) \<and> \<not> has q Qmsg \<longrightarrow> s = length p)"
  using assms
proof (induction avail q p sofar w arbitrary: s q' ev rule: qiwrite_loop.induct)
  case (1 avail q p sofar w)
  define n where "n = (if length p - sofar > Maxatomic then Maxatomic else length p - sofar)"
  let ?b = "bput (allocb n) (take n (drop sofar p))"
  have n: "n \<le> length p - sofar" by (simp add: n_def)
  have b: "wf_block ?b" "data ?b = take n (drop sofar p)" "BLEN ?b = n" "BALLOC ?b = n"
    using bput_alloc [of "take n (drop sofar p)" n] n by auto
  show ?case
  proof (cases "avail n")
    case False
    then have "s = sofar \<and> q' = q"
      using 1(4) by (subst (asm) qiwrite_loop.simps) (simp add: Let_def n_def [symmetric])
    then show ?thesis using 1(2,3) False by auto
  next
    case True
    let ?q = "q\<lparr>q_b := q_b q @ [?b], q_len := q_len q + int (BALLOC ?b), q_dlen := q_dlen q + int n\<rparr>"
    obtain q1 d where u: "unstarve ?q = (q1, d)" by fastforce
    have q1: "qwfd dr q1" "qdata q1 = qdata q @ take n (drop sofar p)"
    proof -
      have f: "q1 = fst (unstarve ?q)" using u by simp
      have "qwfd dr ?q" using append_ok [OF 1(2), of "[?b]"] b by simp
      then show "qwfd dr q1" unfolding f by (simp only: qwf_helpers)
      show "qdata q1 = qdata q @ take n (drop sofar p)"
        unfolding f by (simp only: qdata_helpers) (simp add: qdata_def b)
    qed
    have h: "Qstarve AND m = 0 \<Longrightarrow> has q1 m = has q m" for m
      using unstarve_fields(11) [of m ?q] u by simp
    define ev1 where "ev1 = (if w \<or> d then (if q_kick q1 then [Kick] else []) @ [WakeRR] else [])"
    have e: "qiwrite_loop avail q p sofar w =
       (if sofar + n < length p \<and> \<not> has q1 Qmsg
        then (case qiwrite_loop avail q1 p (sofar + n) (w \<or> d) of (s, q, ev') \<Rightarrow> (s, q, ev1 @ ev'))
        else (sofar + n, q1, ev1))"
      using True u by (subst qiwrite_loop.simps) (simp add: Let_def n_def [symmetric] iallocb_allocb ev1_def)
    show ?thesis
    proof (cases "sofar + n < length p \<and> \<not> has q1 Qmsg")
      case c: True
      obtain s2 q2 ev2 where rec: "qiwrite_loop avail q1 p (sofar + n) (w \<or> d) = (s2, q2, ev2)" by (metis prod_cases3)
      have res: "s = s2" "q' = q2" using e c rec 1(4) by auto
      have ih: "qwfd dr q2 \<and> sofar + n \<le> s2 \<and> s2 \<le> length p \<and>
        qdata q2 = qdata q1 @ take (s2 - (sofar + n)) (drop (sofar + n) p) \<and>
        (\<forall>m. Qstarve AND m = 0 \<longrightarrow> has q2 m = has q1 m) \<and> ((\<forall>n. avail n) \<and> \<not> has q1 Qmsg \<longrightarrow> s2 = length p)"
        by (rule 1(1) [OF n_def _ refl refl u [unfolded iallocb_allocb [symmetric], symmetric] refl refl c q1(1) _ rec])
          (use c True in \<open>simp_all add: iallocb_allocb\<close>)
      have "take n (drop sofar p) @ take (s2 - (sofar + n)) (drop (sofar + n) p) = take (s2 - sofar) (drop sofar p)"
        using ih take_add [of n "s2 - (sofar + n)" "drop sofar p"] by (simp add: add.commute)
      then show ?thesis using ih q1(2) res h by auto
    next
      case False
      then have "s = sofar + n" "q' = q1" using e 1(4) by auto
      then show ?thesis using False q1 n h 1(3) by auto
    qed
  qed
qed


lemma qclose_ok:
  assumes "qwfd dr q" "qclose q = (q', ev)"
  shows "qwf q' \<and> q_b q' = [] \<and> has q' Qclosed \<and> \<not> has q' Qstarve \<and> \<not> has q' Qflow \<and> cstr (q_err q') = Ehungup \<and>
    ev = freeblist (q_b q) @ [WakeRR, WakeWR]"
proof -
  have "nul_free Ehungup" by (simp add: nul_free_def Ehungup_def)
  then have "cstr (Ehungup @ 0 # r) = Ehungup" for r by (rule cstr_nul)
  then show ?thesis using assms by (auto simp: qclose_def Let_def qwfd_def)
qed

lemma qhangup_ok:
  assumes "qwfd dr q" "qhangup q msg = (q', ev)"
  shows "qwfd dr q' \<and> q_b q' = q_b q \<and> has q' Qclosed \<and> ev = [WakeRR, WakeWR]"
  using assms by (auto simp: qhangup_def Let_def qwfd_def length_kstrcpy split: option.splits if_splits)

lemma qwf_setters:
  "qwfd dr q \<Longrightarrow> qwfd dr (qreopen q)" "qwfd dr q \<Longrightarrow> qwfd dr (qsetlimit q l)" "qwfd dr q \<Longrightarrow> qwfd dr (qnoblock q f)"
  "qwfd dr q \<Longrightarrow> qwf (fst (qflush q))" "qwf (qopen l m k)" "qwf qbypass"
  by (simp_all add: qwfd_def qreopen_def qsetlimit_def qnoblock_def qflush_def qopen_def qbypass_def set_st_def clr_st_def)

subsection \<open>Every operation keeps the invariant\<close>

inductive qstep :: "queue \<Rightarrow> queue \<Rightarrow> bool" where
  "qget q = (r, q', ev) \<Longrightarrow> qstep q q'"
| "qdiscard q len = (n, q', ev) \<Longrightarrow> qstep q q'"
| "qconsume q len = (n, p, q', ev) \<Longrightarrow> qstep q q'"
| "list_all wf_block bs \<Longrightarrow> qpass q bs = (n, q', ev) \<Longrightarrow> qstep q q'"
| "list_all wf_block bs \<Longrightarrow> qpassnolim q bs = (n, q', ev) \<Longrightarrow> qstep q q'"
| "qproduce avail q p = (n, q', ev) \<Longrightarrow> qstep q q'"
| "list_all wf_block bs \<Longrightarrow> qaddlist q bs = q' \<Longrightarrow> qstep q q'"
| "qremove q = (r, q') \<Longrightarrow> qstep q q'"
| "wf_block b \<Longrightarrow> qputback q b = q' \<Longrightarrow> qstep q q'"
| "qbread q len = (rb, q', ev) \<Longrightarrow> qstep q q'"
| "qread q len = (rr, q', ev) \<Longrightarrow> qstep q q'"
| "wf_block b \<Longrightarrow> qbwrite q b = (rw, q', ev) \<Longrightarrow> qstep q q'"
| "qbwrite_wait q (n :: int) = (rw, q') \<Longrightarrow> qstep q q'"
| "qiwrite avail q p = (s, q', ev) \<Longrightarrow> qstep q q'"
| "qclose q = (q', ev) \<Longrightarrow> qstep q q'"
| "qhangup q msg = (q', ev) \<Longrightarrow> qstep q q'"
| "qreopen q = q' \<Longrightarrow> qstep q q'"
| "qsetlimit q l = q' \<Longrightarrow> qstep q q'"
| "qnoblock q f = q' \<Longrightarrow> qstep q q'"
| "qflush q = (q', ev) \<Longrightarrow> qstep q q'"

lemma qread_wf: "qwfd dr q \<Longrightarrow> qread q len = (r, q', ev) \<Longrightarrow> qwfd dr q'"
proof -
  assume q: "qwfd dr q" "qread q len = (r, q', ev)"
  obtain w q1 ev1 where a: "qread_again q = (w, q1, ev1)" by (metis prod_cases3)
  show ?thesis
  proof (cases "w = Ret 1")
    case True
    show ?thesis using qread_got [OF q(1) a [unfolded True] q(2)] by blast
  next
    case False
    show ?thesis using qread_empty [OF a False q(2,1)] qread_again_ok [OF q(1) a] by simp
  qed
qed

lemma qstep_wf: "qstep q q' \<Longrightarrow> qwfd dr q \<Longrightarrow> qwfd dr q' \<or> qwf q'"
proof (induction rule: qstep.induct)
  case 1
  then show ?case using qget_ok by blast
next
  case 2
  then show ?case using qdiscard_ok by blast
next
  case 3
  then show ?case using qconsume_ok by blast
next
  case 4
  then show ?case using qpass_ok by blast
next
  case 5
  then show ?case using qpassnolim_ok by blast
next
  case 6
  then show ?case using qproduce_ok by blast
next
  case 7
  then show ?case using qaddlist_ok by blast
next
  case 8
  then show ?case using qremove_ok by blast
next
  case 9
  then show ?case using qputback_ok by blast
next
  case 10
  then show ?case using qbread_ok by blast
next
  case 11
  then show ?case using qread_wf by blast
next
  case 12
  then show ?case using qbwrite_ok by blast
next
  case 13
  then show ?case using qwf_helpers(7) by (metis snd_conv)
next
  case 14
  then show ?case using qiwrite_loop_ok [of _ _ 0] unfolding qiwrite_def by blast
next
  case 15
  then show ?case using qclose_ok by blast
next
  case 16
  then show ?case using qhangup_ok by blast
next
  case 17
  then show ?case using qwf_setters by blast
next
  case 18
  then show ?case using qwf_setters by blast
next
  case 19
  then show ?case using qwf_setters by blast
next
  case 20
  then show ?case using qwf_setters(4) by (metis fst_conv)
qed

subsection \<open>Copying out and pulling up\<close>

lemma qcopy_seek_ok:
  assumes "list_all wf_block bs" "sofar \<le> offset"
  shows "(case qcopy_seek bs sofar offset of None \<Rightarrow> length (content bs) \<le> offset - sofar
     | Some (p, r) \<Rightarrow> list_all wf_block r \<and> p @ content r = drop (offset - sofar) (content bs))"
  using assms
proof (induction bs sofar offset rule: qcopy_seek.induct)
  case (2 b bs sofar offset)
  show ?case
  proof (cases "sofar + BLEN b > offset")
    case True
    then show ?thesis using 2(2,3) by auto
  next
    case False
    have "case qcopy_seek bs (sofar + BLEN b) offset of None \<Rightarrow> length (content bs) \<le> offset - (sofar + BLEN b)
     | Some (p, r) \<Rightarrow> list_all wf_block r \<and> p @ content r = drop (offset - (sofar + BLEN b)) (content bs)"
      using 2(1) [OF refl False] 2(2) False by simp
    then show ?thesis using False 2(2,3) by (auto split: option.splits)
  qed
qed simp

lemma qcopy_loop_ok:
  assumes "list_all wf_block bs" "wf_block nb" "BLEN nb = sofar" "b_wp nb + (len - sofar) \<le> length (b_buf nb)"
  shows "wf_block (qcopy_loop nb p bs sofar len) \<and>
    data (qcopy_loop nb p bs sofar len) = data nb @ take (len - sofar) (p @ content bs)"
  using assms
proof (induction nb p bs sofar len rule: qcopy_loop.induct)
  case (1 nb p sofar len)
  then show ?case using bput_ok [of nb "take (len - sofar) p"] by auto
next
  case (2 nb p b bs sofar len)
  show ?case
  proof (cases "sofar < len")
    case True
    define n where "n = (if length p > len - sofar then len - sofar else length p)"
    have n: "n \<le> len - sofar" "length (take n p) = n" by (auto simp: n_def)
    have l: "b_wp nb + length (take n p) \<le> length (b_buf nb)" using 2(5) n by simp
    note o = bput_ok [OF 2(3) l] length_bput [OF l]
    have "wf_block (qcopy_loop (bput nb (take n p)) (data b) bs (sofar + n) len) \<and>
      data (qcopy_loop (bput nb (take n p)) (data b) bs (sofar + n) len) =
      data (bput nb (take n p)) @ take (len - (sofar + n)) (data b @ content bs)"
      by (rule 2(1) [OF True n_def]) (use 2(2,4,5) o n in auto)
    moreover have "take n p @ take (len - (sofar + n)) (data b @ content bs) = take (len - sofar) (p @ data b @ content bs)"
      by (auto simp: n_def)
    ultimately show ?thesis using True o by (simp add: n_def [symmetric] Let_def)
  next
    case False
    then show ?thesis using 2 by simp
  qed
qed

lemma qcopy_ok:
  assumes "qwfd dr q"
  shows "wf_block (qcopy q len off) \<and> data (qcopy q len off) = take len (drop off (qdata q))"
proof -
  have wf: "list_all wf_block (q_b q)" using assms by (simp add: qwfd_def)
  note s = qcopy_seek_ok [OF wf, of 0 off]
  show ?thesis
  proof (cases "qcopy_seek (q_b q) 0 off")
    case None
    then show ?thesis using s by (simp add: qcopy_def qdata_def)
  next
    case (Some pr)
    obtain p r where pr: "pr = (p, r)" by (cases pr)
    have "list_all wf_block r" "p @ content r = drop off (content (q_b q))" using s Some pr by auto
    then show ?thesis using qcopy_loop_ok [of r "allocb len" 0 len p] Some pr by (simp add: qcopy_def qdata_def)
  qed
qed

lemma pullupqueue_ok:
  assumes "qwfd dr q" "q_b q \<noteq> []" "n \<le> length (qdata q)" "pullupqueue q n = (r, q', ev)"
  shows "\<exists>b. r = Some b \<and> q_b q' = b # tl (q_b q') \<and> wf_block b \<and> n \<le> BLEN b \<and> qdata q' = qdata q \<and>
    list_all wf_block (q_b q') \<and> q_dlen q' = int (blocklen (q_b q'))"
proof -
  obtain b bs where b: "q_b q = b # bs" using assms(2) by (cases "q_b q") auto
  have w: "wf_block b" "list_all wf_block bs" "q_dlen q = int (blocklen (b # bs))" using assms(1) b by (auto simp: qwfd_def)
  show ?thesis
  proof (cases "BLEN b \<ge> n")
    case True
    then show ?thesis using assms b w by (auto simp: pullupqueue_def qdata_def)
  next
    case False
    obtain r' ev' where p: "pullupblock b bs n = (r', ev')" by fastforce
    have "n \<le> blocklen (b # bs)" using assms(3) b w by (simp add: qdata_def length_content)
    with pullupblock_ok [OF w(1,2) p] obtain c cs where
      c: "r' = c # cs" "list_all wf_block r'" "BLEN c = max n (BLEN b)" "content r' = content (b # bs)" by auto
    have "length (content r') = length (content (b # bs))" using c(4) by simp
    then have "blocklen r' = blocklen (b # bs)" using c(2) w by (simp add: length_content del: blocklen.simps content_simps)
    then show ?thesis using assms b w c p False by (auto simp: pullupqueue_def qdata_def)
  qed
qed

subsection \<open>What the queue operations promise\<close>

text \<open>
  A queue in use.  The flag tells whether \<open>len\<close> is still exact: \<open>pullupqueue\<close> puts a packed block in the place of
  the blocks it empties and does not count it, until \<open>qflush\<close> or \<open>qclose\<close> set the counts anew.  It is asked for no
  more bytes than the queue holds, as its callers in \<open>devmnt.c\<close> see to.
\<close>

inductive qreach :: "bool \<Rightarrow> queue \<Rightarrow> bool" where
  opened: "qreach True (qopen limit msg kick)"
| bypassed: "qreach True qbypass"
| used: "qreach exact q \<Longrightarrow> qstep q q' \<Longrightarrow> qreach exact q'"
| pulled: "qreach exact q \<Longrightarrow> q_b q \<noteq> [] \<Longrightarrow> n \<le> length (qdata q) \<Longrightarrow> pullupqueue q n = (r, q', ev) \<Longrightarrow> qreach False q'"
| flushed: "qreach exact q \<Longrightarrow> qflush q = (q', ev) \<Longrightarrow> qreach True q'"
| closed: "qreach exact q \<Longrightarrow> qclose q = (q', ev) \<Longrightarrow> qreach True q'"

lemma pullupqueue_wf:
  assumes "qwfd dr q" "q_b q \<noteq> []" "n \<le> length (qdata q)" "pullupqueue q n = (r, q', ev)"
  shows "\<exists>dr'. qwfd dr' q'"
proof -
  have "q_err q' = q_err q" using assms(4) by (auto simp: pullupqueue_def Let_def case_prod_beta split: if_splits)
  then have "qwfd (q_len q' - int (blockalloclen (q_b q'))) q'" using pullupqueue_ok [OF assms] assms(1) by (auto simp: qwfd_def)
  then show ?thesis by blast
qed

lemma qreach_wf: "qreach exact q \<Longrightarrow> \<exists>dr. qwfd dr q \<and> (exact \<longrightarrow> dr = 0)"
proof (induction rule: qreach.induct)
  case (used exact q q')
  then show ?case using qstep_wf by blast
next
  case (pulled exact q n r q' ev)
  then show ?case using pullupqueue_wf by blast
next
  case (flushed exact q q' ev)
  then show ?case using qwf_setters(4) by (metis fst_conv)
next
  case (closed exact q q' ev)
  then show ?case using qclose_ok by blast
qed (use qwf_setters in blast)+

text \<open>
  C19: however a queue is used, \<open>dlen\<close> is the number of its data bytes, every block keeps its read and write pointers in
  order inside its buffer and the error buffer its size; and \<open>len\<close> is the buffer space of the blocks it holds
  as long as \<open>pullupqueue\<close> has not been used on it since it was opened, flushed or closed.
\<close>
theorem queue_invariant:
  assumes "qreach exact q"
  shows "q_dlen q = int (length (qdata q)) \<and> list_all checkb (q_b q) \<and> list_all wf_block (q_b q) \<and>
    length (q_err q) = ERRMAX \<and> (exact \<longrightarrow> q_len q = int (blockalloclen (q_b q)))"
  using qreach_wf [OF assms] wf_checkb by (auto simp: qwfd_def qdata_def length_content list_all_iff)

lemma queue_invariant_witness:
  "\<exists>q q' b. qreach True q \<and> data b = [1, 2, 3, 4] \<and> q_b q = [b] \<and> q_len q = int (BALLOC b) \<and> q_dlen q = 4 \<and>
     qreach False q' \<and> qdata q' = [3, 4, 5, 6] \<and> q_dlen q' = 4"
proof -
  let ?q0 = "qopen 16 0 False"
  let ?b = "bput (allocb 4) [1, 2, 3, 4]" and ?c = "bput (allocb 2) [5, 6]"
  have b: "wf_block ?b" "data ?b = [1, 2, 3, 4]" "wf_block ?c" "data ?c = [5, 6]"
    using bput_alloc [of "[1, 2, 3, 4]" 4] bput_alloc [of "[5, 6]" 2] by simp_all
  have "qstep ?q0 (qaddlist ?q0 [?b])" by (rule qstep.intros(7)) (use b in simp_all)
  then have r1: "qreach True (qaddlist ?q0 [?b])" (is "qreach True ?q1") by (rule used [OF opened])
  have "qstep ?q1 (qaddlist ?q1 [?c])" by (rule qstep.intros(7)) (use b in simp_all)
  then have r2: "qreach True (qaddlist ?q1 [?c])" (is "qreach True ?q2") by (rule used [OF r1])
  obtain k q3 ev where d: "qdiscard ?q2 2 = (k, q3, ev)" by (metis prod_cases3)
  then have "qstep ?q2 q3" by (rule qstep.intros(2))
  then have r3: "qreach True q3" by (rule used [OF r2])
  have w: "qwf ?q2" using qreach_wf [OF r2] by auto
  have "qdata ?q2 = [1, 2, 3, 4, 5, 6]" using b by (simp add: qdata_def qaddlist_def qopen_def)
  then have q3: "qdata q3 = [3, 4, 5, 6]" using qdiscard_ok [OF w d] by simp
  then have ne: "q_b q3 \<noteq> []" by (auto simp: qdata_def)
  obtain r q4 ev' where p: "pullupqueue q3 4 = (r, q4, ev')" by (metis prod_cases3)
  have r4: "qreach False q4" by (rule pulled [OF r3 ne _ p]) (simp add: q3)
  have w3: "qwf q3" using qreach_wf [OF r3] by auto
  have "qdata q4 = [3, 4, 5, 6]" using pullupqueue_ok [OF w3 ne _ p] q3 by auto
  then show ?thesis using queue_invariant [OF r1] queue_invariant [OF r4] r1 r4 b
    by (intro exI [of _ ?q1] exI [of _ q4] exI [of _ ?b]) (simp add: qdata_def qaddlist_def qopen_def)
qed

definition oneq :: "u32 \<Rightarrow> block list \<Rightarrow> queue" where
  "oneq st bs = (qaddlist (qopen 64 0 False) bs)\<lparr>q_state := st\<rparr>"

lemma oneq_simps [simp]:
  "q_b (oneq st bs) = bs" "q_limit (oneq st bs) = 64" "q_noblock (oneq st bs) = False" "q_bypass (oneq st bs) = False"
  "has (oneq st bs) m \<longleftrightarrow> st AND m \<noteq> 0" "qdata (oneq st bs) = content bs" "q_eof (oneq st bs) = 0"
  "q_err (oneq st bs) = replicate 128 0" "q_len (oneq st bs) = int (blockalloclen bs)" "q_state (oneq st bs) = st"
  by (simp_all add: oneq_def qaddlist_def qopen_def has_def qdata_def)

lemma oneq_wf: "list_all wf_block bs \<Longrightarrow> qwf (oneq st bs)"
  by (simp add: oneq_def qaddlist_def qopen_def qwfd_def)

text \<open>
  a read of a byte queue returns the next bytes of the queue, at most \<open>len\<close> of them, and
  leaves exactly the rest queued, in order, whether the queue coalesces blocks or not and
  whether the read ends inside a block or not.
\<close>
theorem qread_stream:
  assumes "qwf q" "\<not> has q Qmsg" "qread q len = (Ret (n, p), q', ev)"
  shows "qwf q' \<and> n = int (length p) \<and> length p \<le> len \<and> p @ qdata q' = qdata q"
  by (rule qread_stream_ok [OF assms])

lemma qread_again_oneq: "qread_again (oneq 0 (b # bs)) = (Ret 1, oneq 0 (b # bs), [])"
  by (rule qread_again_plain) simp_all

lemma qread_stream_witness: "\<exists>p q' ev. qread (oneq 0 [blk [1, 2, 3]]) 2 = (Ret (int (length p), p), q', ev) \<and>
    length p \<le> 2 \<and> p @ qdata q' = [1, 2, 3]"
proof -
  have w: "qwf (oneq 0 [blk [1, 2, 3]])" by (simp add: oneq_wf)
  obtain r q' ev where p: "qread (oneq 0 [blk [1, 2, 3]]) 2 = (r, q', ev)" by (metis prod_cases3)
  then obtain pp where r: "r = Ret (int (length pp), pp)"
    using qread_got [OF w qread_again_oneq p] by blast
  then show ?thesis using qread_stream [OF w _ p [unfolded r]] p by auto
qed

text \<open>
  on a message queue a read takes exactly one message: its first \<open>len\<close> bytes, the rest of
  the message dropped and the following messages untouched.
\<close>
theorem qread_message:
  assumes "qwf q" "has q Qmsg" "\<not> has q Qcoalesce" "q_b q = b # bs" "qread q len = (r, q', ev)"
  shows "r = Ret (int (length (take len (data b))), take len (data b)) \<and> q_b q' = bs \<and> qwf q'"
  by (rule qread_message_ok [OF assms])

lemma qread_message_witness:
  "fst (qread (oneq 2 [blk [1, 2, 3], blk [4]]) 2) = Ret (2, [1, 2]) \<and>
   q_b (fst (snd (qread (oneq 2 [blk [1, 2, 3], blk [4]]) 2))) = [blk [4]]"
proof -
  obtain r q' ev where p: "qread (oneq 2 [blk [1, 2, 3], blk [4]]) 2 = (r, q', ev)" by (metis prod_cases3)
  have "qwf (oneq 2 [blk [1, 2, 3], blk [4]])" by (simp add: oneq_wf)
  from qread_message [OF this _ _ _ p] p show ?thesis by simp
qed

text \<open>
  C24: a write to a queue that is not closed, not bypassed and not non-blocking queues its bytes in order, in
  blocks of at most \<open>Maxatomic\<close>; it either sleeps for flow control with the bytes up to \<open>sofar\<close> queued or
  returns the full length.  On a byte queue everything is queued when it returns, but on a message queue only
  the first \<open>Maxatomic\<close> bytes are, although the full length is returned.
\<close>
theorem qwrite_queues:
  assumes "qwf q" "\<not> q_bypass q" "\<not> q_noblock q" "\<not> has q Qclosed" "qwrite q p = (r, sofar, q', ev)"
  shows "qwf q' \<and> sofar \<le> length p \<and> qdata q' = qdata q @ take sofar p \<and>
    (r = Sleeps \<or> r = Ret (int (length p))) \<and>
    (r = Ret (int (length p)) \<and> \<not> has q Qmsg \<longrightarrow> sofar = length p) \<and>
    (has q Qmsg \<longrightarrow> sofar = min (length p) Maxatomic)"
  using qwrite_loop_ok [OF assms(1-4) _ assms(5) [unfolded qwrite_def]] by simp

lemma qwrite_queues_witness:
  "\<exists>r q' ev. qwrite (oneq 2 []) (replicate 40000 7) = (r, 32768, q', ev) \<and> qdata q' = replicate 32768 7"
proof -
  obtain r s q' ev where p: "qwrite (oneq 2 []) (replicate 40000 7) = (r, s, q', ev)" by (metis prod_cases4)
  have "qwf (oneq 2 [])" by (simp add: oneq_wf)
  from qwrite_queues [OF this _ _ _ p] p show ?thesis by (auto simp: min_def)
qed

text \<open>
  reading a closed, drained queue reports end of file three times, then raises the queue's error
  string; after a hangup with a message other than the standard one it raises at once.
\<close>
theorem qread_eof:
  assumes "q_b q = []" "has q Qclosed"
  shows "qread q len =
    ((if q_eof q < 3 \<and> (q_err q ! 0 = 0 \<or> cstr (q_err q) = Ehungup) then Ret (0, []) else Err (cstr (q_err q))),
     q\<lparr>q_eof := q_eof q + 1\<rparr>, [])"
proof -
  have "qread_again q = (fst (qwait q), snd (qwait q), [])"
    using assms by (subst qread_again.simps) (auto simp: qwait_def Let_def)
  then show ?thesis using assms by (auto simp: qread_def qwait_def Let_def)
qed

lemma qread_eof_witness:
  "fst (qread (oneq 4 []) 10) = Ret (0, []) \<and> fst (qread ((oneq 4 [])\<lparr>q_eof := 3\<rparr>) 10) = Err []"
proof -
  have h: "has ((oneq 4 [])\<lparr>q_eof := 3\<rparr>) Qclosed" by simp
  show ?thesis using qread_eof [of "oneq 4 []" 10] qread_eof [OF _ h, of 10]
    by (simp add: cstr_def)
qed

text \<open>
  \<open>qcopy\<close> copies the window of at most \<open>len\<close> bytes at \<open>offset\<close> of the queue into one
  block and takes nothing off the queue.
\<close>
theorem qcopy_window:
  assumes "qwf q"
  shows "wf_block (qcopy q len off) \<and> data (qcopy q len off) = take len (drop off (qdata q))"
  by (rule qcopy_ok [OF assms])

lemma qcopy_window_witness: "data (qcopy (oneq 0 [blk [1, 2], blk [3, 4]]) 2 1) = [2, 3]"
proof -
  have "qwf (oneq 0 [blk [1, 2], blk [3, 4]])" by (simp add: oneq_wf)
  from qcopy_window [OF this, of 2 1] show ?thesis by simp
qed

text \<open>
  \<open>pullupqueue\<close> makes the first \<open>n\<close> bytes of a queue that holds them contiguous and keeps
  all the bytes.  It does not adjust \<open>len\<close>, which \<open>pullupqueue_len_drift\<close> shows off by the block it allocates.
\<close>
theorem pullupqueue_contiguous:
  assumes "qwf q" "q_b q \<noteq> []" "n \<le> length (qdata q)" "pullupqueue q n = (r, q', ev)"
  shows "\<exists>b. r = Some b \<and> q_b q' = b # tl (q_b q') \<and> wf_block b \<and> n \<le> BLEN b \<and> qdata q' = qdata q \<and>
    q_dlen q' = int (blocklen (q_b q')) \<and> q_len q' = q_len q"
  using pullupqueue_ok [OF assms] assms(4) by (auto simp: pullupqueue_def Let_def case_prod_beta split: if_splits)

lemma pullupqueue_contiguous_witness:
  "\<exists>b q' ev. pullupqueue (oneq 0 [blk [1], blk [2, 3]]) 2 = (Some b, q', ev) \<and> 2 \<le> BLEN b \<and> qdata q' = [1, 2, 3]"
proof -
  obtain r q' ev where p: "pullupqueue (oneq 0 [blk [1], blk [2, 3]]) 2 = (r, q', ev)" by (metis prod_cases3)
  have "qwf (oneq 0 [blk [1], blk [2, 3]])" by (simp add: oneq_wf)
  from pullupqueue_contiguous [OF this _ _ p] p show ?thesis by auto
qed

lemma pullupqueue_len_drift:
  "q_len (fst (snd (pullupqueue (oneq 0 [blk [1], blk [2, 3]]) 2))) = 3 \<and>
   blockalloclen (q_b (fst (snd (pullupqueue (oneq 0 [blk [1], blk [2, 3]]) 2)))) = 4"
  by (simp add: pullupqueue_def pullupblock_def blk_def bput_def allocb_def iallocb_def BLEN_def BALLOC_def data_def Let_def
      oneq_def qaddlist_def qopen_def)

lemma qconsume_leaks:
  "qconsume (oneq 0 [blk []]) 5 = (-1, [], (oneq 0 [])\<lparr>q_state := Qstarve\<rparr>, [])"
  by (simp add: qconsume_def oneq_def qaddlist_def qopen_def set_st_def blk_def bput_def allocb_def iallocb_def
      BLEN_def BALLOC_def)

definition hollow :: block where
  "hollow = \<lparr>b_buf = replicate 64 0, b_rp = 0, b_wp = 0, b_free = False\<rparr>"

lemma qread_drops_hollow:
  "\<exists>q'. qread (oneq 24 [hollow]) 5 = (Sleeps, q', [FreeMem hollow]) \<and>
     has q' Qflow \<and> q_len q' = 0"
proof -
  let ?q = "oneq 24 [hollow]"
  let ?q1 = "snd (qremove ?q)"
  have w: "qwait ?q = (Ret 1, ?q)" and c: "has ?q Qcoalesce" and h: "hd (q_b ?q) = hollow" and n: "q_b ?q \<noteq> []"
    by (simp_all add: qwait_def oneq_def qaddlist_def qopen_def has_def)
  have w1: "qwait ?q1 = (Sleeps, set_st ?q1 Qstarve)"
    by (simp add: qwait_def oneq_def qaddlist_def qopen_def has_def qremove_def)
  have a1: "qread_again ?q1 = (Sleeps, set_st ?q1 Qstarve, [])"
    by (subst qread_again.simps, subst w1) simp
  have "qread_again ?q = (Sleeps, set_st ?q1 Qstarve, [FreeMem hollow])"
    by (subst qread_again.simps, subst w) (use c h n a1 in \<open>simp add: hollow_def BLEN_def freeb_def\<close>)
  then show ?thesis
    by (simp add: qread_def set_st_def has_def oneq_def qaddlist_def qopen_def qremove_def hollow_def BALLOC_def)
qed

end
