(* ===== verification/Fifo.thy ===== *)
theory Fifo
  imports QueueWrite
begin

text \<open>
  The contract of a byte stream, as a locale: what is put in comes out, in order, whatever the
  sizes of the puts and gets; and the queues of \<open>qio.c\<close> meet it.  A contract for message
  streams keeps the boundaries.
\<close>

datatype 'a fifo_op = Put "'a list" | Get nat

fun fifo_run :: "('q \<Rightarrow> 'a list \<Rightarrow> bool \<times> 'q) \<Rightarrow> ('q \<Rightarrow> nat \<Rightarrow> 'a list \<times> 'q) \<Rightarrow> 'q \<Rightarrow> 'a fifo_op list \<Rightarrow>
    'a list \<times> 'a list \<times> 'q" where
  "fifo_run put get q [] = ([], [], q)"
| "fifo_run put get q (Put xs # ops) =
     (case put q xs of (ok, q) \<Rightarrow>
        case fifo_run put get q ops of (a, d, q) \<Rightarrow> ((if ok then xs @ a else a), d, q))"
| "fifo_run put get q (Get n # ops) =
     (case get q n of (ys, q) \<Rightarrow> case fifo_run put get q ops of (a, d, q) \<Rightarrow> (a, ys @ d, q))"

locale byte_fifo =
  fixes inv :: "'q \<Rightarrow> bool"
    and abs :: "'q \<Rightarrow> 'a list"
    and put :: "'q \<Rightarrow> 'a list \<Rightarrow> bool \<times> 'q"
    and get :: "'q \<Rightarrow> nat \<Rightarrow> 'a list \<times> 'q"
  assumes put_ok: "inv q \<Longrightarrow> put q xs = (ok, q') \<Longrightarrow> inv q' \<and> abs q' = (if ok then abs q @ xs else abs q)"
    and get_ok: "inv q \<Longrightarrow> get q n = (ys, q') \<Longrightarrow> inv q' \<and> ys @ abs q' = abs q \<and> length ys \<le> n"
    and get_progress: "inv q \<Longrightarrow> get q n = (ys, q') \<Longrightarrow> 0 < n \<Longrightarrow> abs q \<noteq> [] \<Longrightarrow> ys \<noteq> []"
begin

lemma run_ok: "inv q \<Longrightarrow> fifo_run put get q ops = (a, d, q') \<Longrightarrow> inv q' \<and> d @ abs q' = abs q @ a"
proof (induction ops arbitrary: q a d q')
  case Nil
  then show ?case by simp
next
  case (Cons op ops)
  show ?case
  proof (cases op)
    case (Put xs)
    obtain ok q1 where p: "put q xs = (ok, q1)" by fastforce
    obtain a1 d1 q2 where r: "fifo_run put get q1 ops = (a1, d1, q2)" by (metis prod_cases3)
    show ?thesis using put_ok [OF Cons.prems(1) p] Cons.IH [OF _ r] Cons.prems(2) p r Put by auto
  next
    case (Get n)
    obtain ys q1 where g: "get q n = (ys, q1)" by fastforce
    obtain a1 d1 q2 where r: "fifo_run put get q1 ops = (a1, d1, q2)" by (metis prod_cases3)
    have "ys @ abs q1 = abs q" using get_ok [OF Cons.prems(1) g] by simp
    then have "ys @ abs q1 @ a1 = abs q @ a1" by (metis append_assoc)
    then show ?thesis using get_ok [OF Cons.prems(1) g] Cons.IH [OF _ r] Cons.prems(2) g r Get by auto
  qed
qed

lemma drains:
  assumes "inv q" "0 < n" "length (abs q) \<le> k"
  shows "\<exists>q'. fifo_run put get q (replicate k (Get n)) = ([], abs q, q') \<and> inv q' \<and> abs q' = []"
  using assms
proof (induction k arbitrary: q)
  case 0
  then show ?case by simp
next
  case (Suc k)
  obtain ys q1 where g: "get q n = (ys, q1)" by fastforce
  note o = get_ok [OF Suc.prems(1) g]
  have "length (abs q1) \<le> k"
  proof (cases "abs q = []")
    case True
    then show ?thesis using o by simp
  next
    case False
    then have "0 < length ys" using get_progress [OF Suc.prems(1) g Suc.prems(2)] by simp
    moreover have "length (abs q) = length ys + length (abs q1)" using o by (metis length_append)
    ultimately show ?thesis using Suc.prems(3) by linarith
  qed
  then show ?case using Suc.IH [of q1] o g Suc.prems(2) by auto
qed

end

text \<open>
  Message streams: a get takes the next message, cut to the size asked for.
\<close>

locale message_fifo =
  fixes inv :: "'q \<Rightarrow> bool"
    and msgs :: "'q \<Rightarrow> 'a list list"
    and put :: "'q \<Rightarrow> 'a list \<Rightarrow> bool \<times> 'q"
    and get :: "'q \<Rightarrow> nat \<Rightarrow> 'a list \<times> 'q"
  assumes put_msg: "inv q \<Longrightarrow> put q xs = (ok, q') \<Longrightarrow> inv q' \<and> msgs q' = (if ok then msgs q @ [xs] else msgs q)"
    and get_msg: "inv q \<Longrightarrow> msgs q = m # ms \<Longrightarrow> get q n = (ys, q') \<Longrightarrow> inv q' \<and> ys = take n m \<and> msgs q' = ms"
begin

lemma get_all:
  "inv q \<Longrightarrow> length ns = length (msgs q) \<Longrightarrow>
   \<exists>q'. fifo_run put get q (map Get ns) = ([], concat (map2 take ns (msgs q)), q') \<and> msgs q' = []"
proof (induction ns arbitrary: q)
  case Nil
  then show ?case by simp
next
  case (Cons n ns)
  then obtain m ms where m: "msgs q = m # ms" by (cases "msgs q") auto
  obtain ys q1 where g: "get q n = (ys, q1)" by fastforce
  note o = get_msg [OF Cons.prems(1) m g]
  then show ?case using Cons.IH [of q1] Cons.prems(2) m g by auto
qed

end

subsection \<open>The queues as streams\<close>

definition produce_put :: "(nat \<Rightarrow> bool) \<Rightarrow> queue \<Rightarrow> u8 list \<Rightarrow> bool \<times> queue" where
  "produce_put avail q p = (case qproduce avail q p of (n, q, ev) \<Rightarrow> (n \<noteq> -1, q))"

definition consume_get :: "queue \<Rightarrow> nat \<Rightarrow> u8 list \<times> queue" where
  "consume_get q n = (case qconsume q n of (k, p, q, ev) \<Rightarrow> (p, q))"

definition iwrite_put :: "queue \<Rightarrow> u8 list \<Rightarrow> bool \<times> queue" where
  "iwrite_put q p = (case qiwrite (\<lambda>_. True) q p of (n, q, ev) \<Rightarrow> (True, q))"

definition read_get :: "queue \<Rightarrow> nat \<Rightarrow> u8 list \<times> queue" where
  "read_get q n = (case qread q n of (Ret (k, p), q, ev) \<Rightarrow> (p, q) | (_, q, ev) \<Rightarrow> ([], q))"

definition pass_put :: "queue \<Rightarrow> u8 list \<Rightarrow> bool \<times> queue" where
  "pass_put q p = (case qpass q [bput (allocb (length p)) p] of (n, q', ev) \<Rightarrow> (\<not> q_len q \<ge> q_limit q \<and> \<not> has q Qclosed, q'))"

lemma qconsume_has:
  assumes "qwf q" "qconsume q n = (k, p, q', ev)"
  shows "has q' Qmsg = has q Qmsg"
proof -
  obtain q1 fr where s: "qconsume_skip (q_b q) q [] = (q1, fr)" by fastforce
  have "qwf (q\<lparr>q_b := q_b q\<rparr>)" using assms(1) by simp
  then have "has q1 Qmsg = has q Qmsg" using qconsume_skip_ok [OF _ s] by simp
  moreover have "has q' Qmsg = has q1 Qmsg"
  proof -
    have "q' = fst (snd (snd (qconsume q n)))" using assms(2) by simp
    then show ?thesis by (cases "q_b q1") (simp_all add: qconsume_def s case_prod_beta Let_def)
  qed
  ultimately show ?thesis by simp
qed

lemma qread_has:
  assumes "qwf q" "qread q len = (r, q', ev)" "Qstarve AND m = 0" "Qflow AND m = 0"
  shows "has q' m = has q m"
proof -
  obtain w q1 ev1 where a: "qread_again q = (w, q1, ev1)" by (metis prod_cases3)
  note ag = qread_again_ok [OF assms(1) a]
  show ?thesis
  proof (cases "w = Ret 1")
    case True
    obtain first n q2 where f: "qread_first q1 len = (first, n, q2)" by (metis prod_cases3)
    obtain p rest ev2 where b: "bl2mem first len = (p, rest, ev2)" by (metis prod_cases3)
    have q1: "qwf q1" "q_b q1 \<noteq> []" using ag True by auto
    have "has q2 m = has q m" using qread_first_ok [OF q1 f] ag assms(3) by simp
    then show ?thesis using qread_cases [OF a [unfolded True] f b assms(2)] assms(4)
      by (auto split: list.splits)
  next
    case False
    then show ?thesis using qread_empty [OF a False assms(2,1)] ag assms(3) by simp
  qed
qed

interpretation lc: byte_fifo "\<lambda>q. qwf q \<and> \<not> has q Qmsg" qdata "produce_put avail" consume_get for avail
proof unfold_locales
  fix q xs ok q'
  assume q: "qwf q \<and> \<not> has q Qmsg" "produce_put avail q xs = (ok, q')"
  then obtain n ev where p: "qproduce avail q xs = (n, q', ev)" "ok \<longleftrightarrow> n \<noteq> -1"
    by (auto simp: produce_put_def split: prod.splits)
  show "(qwf q' \<and> \<not> has q' Qmsg) \<and> qdata q' = (if ok then qdata q @ xs else qdata q)"
    using qproduce_ok [of 0, OF _ p(1)] q(1) p(2) by (auto split: if_splits)
next
  fix q n ys q'
  assume q: "qwf q \<and> \<not> has q Qmsg" "consume_get q n = (ys, q')"
  then obtain k ev where p: "qconsume q n = (k, ys, q', ev)" by (auto simp: consume_get_def split: prod.splits)
  have "content (q_b q') = [] \<Longrightarrow> qdata q' = []" by (simp add: qdata_def)
  then show "(qwf q' \<and> \<not> has q' Qmsg) \<and> ys @ qdata q' = qdata q \<and> length ys \<le> n"
    using qconsume_ok [of 0, OF _ p] qconsume_has [OF _ p] q(1) by (auto simp: qdata_def)
next
  fix q n ys q'
  assume q: "qwf q \<and> \<not> has q Qmsg" "consume_get q n = (ys, q')" "0 < n" "qdata q \<noteq> []"
  then obtain k ev where p: "qconsume q n = (k, ys, q', ev)" by (auto simp: consume_get_def split: prod.splits)
  then show "ys \<noteq> []" using qconsume_ok [of 0, OF _ p] q by auto
qed

interpretation lr: byte_fifo "\<lambda>q. qwf q \<and> \<not> has q Qmsg \<and> has q Qcoalesce" qdata iwrite_put read_get
proof unfold_locales
  fix q xs ok q'
  assume q: "qwf q \<and> \<not> has q Qmsg \<and> has q Qcoalesce" "iwrite_put q xs = (ok, q')"
  then obtain n ev where p: "qiwrite_loop (\<lambda>_. True) q xs 0 False = (n, q', ev)" "ok"
    by (auto simp: iwrite_put_def qiwrite_def split: prod.splits)
  show "(qwf q' \<and> \<not> has q' Qmsg \<and> has q' Qcoalesce) \<and> qdata q' = (if ok then qdata q @ xs else qdata q)"
    using qiwrite_loop_ok [of 0, OF _ _ p(1)] q(1) p(2) by auto
next
  fix q n ys q'
  assume q: "qwf q \<and> \<not> has q Qmsg \<and> has q Qcoalesce" "read_get q n = (ys, q')"
  obtain r ev where p: "qread q n = (r, q', ev)"
    using q(2) by (auto simp: read_get_def split: prod.splits qres.splits)
  have h: "has q' Qmsg = has q Qmsg" "has q' Qcoalesce = has q Qcoalesce"
    using qread_has [OF _ p] q(1) by simp_all
  obtain w q1 ev1 where a: "qread_again q = (w, q1, ev1)" by (metis prod_cases3)
  have wf: "qwf q" using q(1) by simp
  show "(qwf q' \<and> \<not> has q' Qmsg \<and> has q' Qcoalesce) \<and> ys @ qdata q' = qdata q \<and> length ys \<le> n"
  proof (cases "\<exists>k p. r = Ret (k, p)")
    case True
    then obtain k p' where r: "r = Ret (k, p')" by blast
    then have "ys = p'" using q(2) p by (simp add: read_get_def)
    then show ?thesis using qread_stream_ok [OF wf _ p [unfolded r]] q(1) h by auto
  next
    case False
    then have ys: "ys = []" using q(2) p by (cases r) (auto simp: read_get_def)
    have "w \<noteq> Ret 1" using qread_got [OF wf _ p] a False by blast
    then have "q' = q1" "q_b q1 = []" "qdata q1 = qdata q"
      using qread_empty [OF a _ p wf] qread_again_ok [OF wf a] by auto
    then show ?thesis using ys h q(1) qread_wf [OF wf p] by (simp add: qdata_def)
  qed
next
  fix q n ys q'
  assume q: "qwf q \<and> \<not> has q Qmsg \<and> has q Qcoalesce" "read_get q n = (ys, q')" "0 < n" "qdata q \<noteq> []"
  obtain r ev where p: "qread q n = (r, q', ev)"
    using q(2) by (auto simp: read_get_def split: prod.splits qres.splits)
  then show "ys \<noteq> []" using qread_coalesce_ok [of 0, OF _ _ q(3,4) p] q(1,2) by (auto simp: read_get_def)
qed

interpretation lm: message_fifo "\<lambda>q. qwf q \<and> has q Qmsg \<and> \<not> has q Qcoalesce" "\<lambda>q. map data (q_b q)" pass_put read_get
proof unfold_locales
  fix q xs ok q'
  assume q: "qwf q \<and> has q Qmsg \<and> \<not> has q Qcoalesce" "pass_put q xs = (ok, q')"
  then obtain n ev where p: "qpass q [bput (allocb (length xs)) xs] = (n, q', ev)" "ok \<longleftrightarrow> \<not> q_len q \<ge> q_limit q \<and> \<not> has q Qclosed"
    by (auto simp: pass_put_def split: prod.splits)
  have "wf_block (bput (allocb (length xs)) xs)" "data (bput (allocb (length xs)) xs) = xs"
    using bput_alloc [of xs "length xs"] by auto
  then show "(qwf q' \<and> has q' Qmsg \<and> \<not> has q' Qcoalesce) \<and> map data (q_b q') = (if ok then map data (q_b q) @ [xs] else map data (q_b q))"
    using qpass_ok [OF _ _ p(1)] q(1) p(2) by auto
next
  fix q m ms n ys q'
  assume q: "qwf q \<and> has q Qmsg \<and> \<not> has q Qcoalesce" "map data (q_b q) = m # ms" "read_get q n = (ys, q')"
  obtain r ev where p: "qread q n = (r, q', ev)"
    using q(3) by (auto simp: read_get_def split: prod.splits qres.splits)
  obtain b bs where b: "q_b q = b # bs" "data b = m" "map data bs = ms" using q(2) by (cases "q_b q") auto
  note o = qread_message_ok [OF _ _ _ b(1) p]
  have "ys = take n m" using o q b p by (auto simp: read_get_def)
  then show "(qwf q' \<and> has q' Qmsg \<and> \<not> has q' Qcoalesce) \<and> ys = take n m \<and> map data (q_b q') = ms"
    using o q(1) b qread_has [OF _ p] by auto
qed

text \<open>
  C22: any sequence of \<open>qproduce\<close> and \<open>qconsume\<close> on a byte queue delivers the accepted bytes in order:
  what was delivered followed by what is still queued is what was queued at first followed by what
  \<open>qproduce\<close> accepted; a refused call adds nothing.
\<close>
theorem produce_consume_stream:
  assumes "qwf q" "\<not> has q Qmsg" "fifo_run (produce_put avail) consume_get q ops = (accepted, delivered, q')"
  shows "delivered @ qdata q' = qdata q @ accepted"
  using lc.run_ok [OF _ assms(3)] assms(1,2) by simp

lemma produce_consume_stream_witness:
  "\<exists>a d q'. fifo_run (produce_put (\<lambda>_. True)) consume_get (oneq 0 [blk [1, 2]]) [Get 1, Put [3], Get 5] = (a, d, q') \<and>
     d @ qdata q' = [1, 2] @ a"
proof -
  obtain a d q' where r: "fifo_run (produce_put (\<lambda>_. True)) consume_get (oneq 0 [blk [1, 2]]) [Get 1, Put [3], Get 5] = (a, d, q')"
    by (metis prod_cases3)
  have "qwf (oneq 0 [blk [1, 2]])" by (simp add: oneq_wf)
  from produce_consume_stream [OF this _ r] r show ?thesis by simp
qed

text \<open>
  C23: repeated reads of at least one byte drain a coalescing byte queue: as many reads as there are bytes
  always suffice, and they deliver exactly the bytes queued.
\<close>
theorem reads_drain:
  assumes "qwf q" "\<not> has q Qmsg" "has q Qcoalesce" "0 < n"
  shows "\<exists>q'. fifo_run iwrite_put read_get q (replicate (length (qdata q)) (Get n)) = ([], qdata q, q') \<and> qdata q' = []"
  using lr.drains [OF _ assms(4), of q "length (qdata q)"] assms(1-3) by auto

lemma reads_drain_witness:
  "\<exists>q'. fifo_run iwrite_put read_get (oneq 16 [blk [1, 2]]) [Get 1, Get 1] = ([], [1, 2], q') \<and> qdata q' = []"
proof -
  have "qwf (oneq 16 [blk [1, 2]])" by (simp add: oneq_wf)
  moreover have "\<not> has (oneq 16 [blk [1, 2]]) Qmsg" "has (oneq 16 [blk [1, 2]]) Qcoalesce" by simp_all
  moreover have "replicate (length (qdata (oneq 16 [blk [1, 2]]))) (Get 1) = [Get 1, Get (1 :: nat)]"
    by (simp add: numeral_2_eq_2)
  ultimately show ?thesis using reads_drain [of "oneq 16 [blk [1, 2]]" 1] by simp
qed

text \<open>
  a message queue keeps message boundaries: reads of sizes \<open>ns\<close> take the queued messages one by
  one, each cut to the size of its read.
\<close>
theorem reads_keep_messages:
  assumes "qwf q" "has q Qmsg" "\<not> has q Qcoalesce" "length ns = length (q_b q)"
  shows "\<exists>q'. fifo_run pass_put read_get q (map Get ns) = ([], concat (map2 take ns (map data (q_b q))), q') \<and> q_b q' = []"
  using lm.get_all [of q ns] assms by simp

lemma reads_keep_messages_witness:
  "\<exists>q'. fifo_run pass_put read_get (oneq 2 [blk [1, 2], blk [3]]) [Get 1, Get 9] = ([], [1, 3], q') \<and> q_b q' = []"
proof -
  have "qwf (oneq 2 [blk [1, 2], blk [3]])" by (simp add: oneq_wf)
  from reads_keep_messages [OF this, of "[1, 9]"] show ?thesis by simp
qed

end
