(* ===== verification/QueueSync.thy ===== *)
theory QueueSync
  imports QueueWrite
begin

text \<open>
  Sleeping and waking on a queue.  A process that finds the queue empty (or full) sets
  \<open>Qstarve\<close> (\<open>Qflow\<close>) under the queue's lock, releases it and only then calls
  \<open>Sleep\<close>; another process clears the bit under the lock and calls \<open>Wakeup\<close> after
  releasing it.  The steps here are those critical sections, in any interleaving.
\<close>

definition notclosed :: "queue \<Rightarrow> bool" where
  "notclosed q \<longleftrightarrow> \<not> has q Qclosed"

text \<open>A block without data has no buffer either.\<close>

definition solid :: "queue \<Rightarrow> bool" where
  "solid q \<longleftrightarrow> list_all (\<lambda>b. BLEN b = 0 \<longrightarrow> BALLOC b = 0) (q_b q)"

definition reader_ok :: "queue \<Rightarrow> bool" where
  "reader_ok q \<longleftrightarrow> \<not> notempty q \<and> has q Qstarve"

definition flow_ok :: "queue \<Rightarrow> bool" where
  "flow_ok q \<longleftrightarrow> has q Qflow \<or> q_len q < q_limit q"

definition writer_ok :: "queue \<Rightarrow> bool" where
  "writer_ok q \<longleftrightarrow> has q Qflow \<and> q_limit q div 2 \<le> q_len q \<and> \<not> has q Qclosed"

text \<open>What a step must do for a sleeper: keep it justified, or wake it.\<close>

definition good_step :: "queue \<Rightarrow> queue \<Rightarrow> ev list \<Rightarrow> bool" where
  "good_step q q' ev \<longleftrightarrow>
     (reader_ok q \<longrightarrow> reader_ok q' \<or> WakeRR \<in> set ev) \<and>
     (flow_ok q \<longrightarrow> flow_ok q') \<and>
     (writer_ok q \<longrightarrow> writer_ok q' \<or> WakeWR \<in> set ev) \<and>
     q_limit q' = q_limit q \<and> q_inilim q' = q_inilim q \<and> solid q'"

definition qinv :: "queue \<Rightarrow> bool" where
  "qinv q \<longleftrightarrow> qwf q \<and> solid q \<and> 2 \<le> q_limit q \<and> q_inilim q = q_limit q"

lemma restart_good:
  assumes "2 \<le> q_limit q" "restart q (q_limit q div 2) = (q', w)"
  shows "(has q Qflow \<longrightarrow> has q' Qflow \<and> q_limit q div 2 \<le> q_len q' \<or> w) \<and> (has q Qflow \<or> q_len q < q_limit q \<longrightarrow> flow_ok q') \<and> q_inilim q' = q_inilim q"
proof -
  have "q_limit q div 2 \<le> q_limit q" "1 \<le> q_limit q div 2" using assms(1) by linarith+
  then show ?thesis using assms(2) by (auto simp: restart_def flow_ok_def split: if_splits)
qed

lemma wake_simps [simp]: "WakeRR \<in> set (wake w WakeRR) \<longleftrightarrow> w" "WakeWR \<in> set (wake w WakeWR) \<longleftrightarrow> w"
  by (simp_all add: wake_def)

lemma qlen_alloc: "qwf q \<Longrightarrow> q_len q = int (blockalloclen (q_b q))"
  by (simp add: qwfd_def)

lemma reader_ok_nonempty [simp]: "q_b q = b # bs \<Longrightarrow> \<not> reader_ok q"
  by (simp add: reader_ok_def notempty_def)

lemma solid_upd [simp]: "solid (set_st q m) = solid q" "solid (clr_st q m) = solid q"
  "solid (fst (restart q l)) = solid q" "solid (fst (unstarve q)) = solid q" "solid (fst (qwakeup_unlock q)) = solid q"
  by (simp_all add: solid_def)

text \<open>
  A step that takes blocks off: \<open>q1\<close> is the queue before the restart of the writer.
\<close>

lemma removal_good:
  assumes "qinv q" "q_b q \<noteq> []" "qwf q1" "solid q1" "blockalloclen (q_b q1) \<le> blockalloclen (q_b q)"
    "\<And>m. Qstarve AND m = 0 \<Longrightarrow> has q1 m = has q m" "q_limit q1 = q_limit q" "q_inilim q1 = q_inilim q"
    "restart q1 (q_limit q1 div 2) = (q', w)" "w \<longrightarrow> WakeWR \<in> set ev"
  shows "good_step q q' ev"
proof -
  have "\<not> reader_ok q" using assms(2) by (simp add: reader_ok_def notempty_def)
  moreover have l: "2 \<le> q_limit q1" using assms(1,7) by (simp add: qinv_def)
  note r = restart_good [OF l assms(9)]
  moreover have "has q1 Qflow = has q Qflow" "has q1 Qclosed = has q Qclosed" using assms(6) by simp_all
  moreover have "q_len q1 \<le> q_len q" using assms(1,3,5) by (simp add: qinv_def qlen_alloc)
  moreover have "q_limit q' = q_limit q1" "q_b q' = q_b q1" "has q' Qclosed = has q1 Qclosed"
    using assms(9) restart_fields [where q = q1 and l = "q_limit q1 div 2"] by simp_all
  ultimately show ?thesis using assms(4,7,8,10)
    by (auto simp: good_step_def flow_ok_def writer_ok_def solid_def)
qed

lemma qget_good:
  assumes "qinv q" "qget q = (r, q', ev)"
  shows "good_step q q' ev"
proof (cases "q_b q")
  case Nil
  then show ?thesis using assms
    by (auto simp: qget_def good_step_def reader_ok_def notempty_def flow_ok_def writer_ok_def qinv_def solid_def)
next
  case (Cons b bs)
  let ?q1 = "q\<lparr>q_b := bs, q_len := q_len q - int (BALLOC b), q_dlen := q_dlen q - int (BLEN b)\<rparr>"
  obtain q2 w where r: "restart ?q1 (q_limit ?q1 div 2) = (q2, w)" by fastforce
  have e: "q' = q2" "ev = wake w WakeWR" using assms(2) Cons r by (auto simp: qget_def Let_def)
  show ?thesis unfolding e
    by (rule removal_good [OF assms(1) _ _ _ _ _ _ _ r])
      (use assms(1) Cons in \<open>auto simp: qinv_def qwfd_def solid_def\<close>)
qed

lemma qdiscard_loop_frame:
  assumes "qwf (q\<lparr>q_b := bs\<rparr>)" "solid (q\<lparr>q_b := bs\<rparr>)" "qdiscard_loop bs q len sofar = (k, q', ev)"
  shows "solid q' \<and> blockalloclen (q_b q') \<le> blockalloclen bs \<and> (\<forall>m. has q' m = has q m) \<and>
    q_limit q' = q_limit q \<and> q_inilim q' = q_inilim q"
  using assms
proof (induction bs q len sofar arbitrary: k q' ev rule: qdiscard_loop.induct)
  case (1 q len sofar)
  then show ?case by (auto simp: solid_def)
next
  case (2 b bs q len sofar)
  show ?case
  proof (cases "sofar < len \<and> BLEN b \<le> len - sofar")
    case True
    let ?q = "q\<lparr>q_len := q_len q - int (BALLOC b), q_dlen := q_dlen q - int (BLEN b)\<rparr>"
    obtain k1 q1 e1 where r: "qdiscard_loop bs ?q len (sofar + BLEN b) = (k1, q1, e1)" by (metis prod_cases3)
    have "qwf (?q\<lparr>q_b := bs\<rparr>)" "solid (?q\<lparr>q_b := bs\<rparr>)" using 2(2,3) by (simp_all add: qwfd_def solid_def)
    from 2(1) [OF _ refl _ refl this r] show ?thesis
      using True 2(4) r by (auto simp: Let_def)
  next
    case False
    then show ?thesis using 2(2,3,4) rp_advance [of b "len - sofar"]
      by (auto simp: qwfd_def Let_def solid_def split: if_splits)
  qed
qed

lemma qdiscard_good:
  assumes "qinv q" "qdiscard q len = (k, q', ev)"
  shows "good_step q q' ev"
proof -
  obtain k1 q1 e1 where r: "qdiscard_loop (q_b q) q len 0 = (k1, q1, e1)" by (metis prod_cases3)
  have w: "qwf (q\<lparr>q_b := q_b q\<rparr>)" "solid (q\<lparr>q_b := q_b q\<rparr>)" using assms(1) by (simp_all add: qinv_def)
  note f = qdiscard_loop_frame [OF w r] and o = qdiscard_loop_ok [OF w(1) r]
  obtain q2 d where s: "restart q1 (q_limit q1) = (q2, d)" by fastforce
  have e: "q' = q2" "ev = e1 @ wake d WakeWR" using assms(2) by (auto simp: qdiscard_def r s)
  have l: "q_len q1 \<le> q_len q" using o f assms(1) by (simp add: qinv_def qlen_alloc)
  have empty: "q_b q = [] \<Longrightarrow> q_b q1 = []" using r by auto
  show ?thesis using s f l assms(1) empty
    by (auto simp: e restart_def good_step_def flow_ok_def writer_ok_def reader_ok_def notempty_def qinv_def split: if_splits)
qed

lemma qconsume_skip_frame:
  assumes "qconsume_skip bs q fr = (q', fr')" "solid (q\<lparr>q_b := bs\<rparr>)"
  shows "solid q' \<and> q_len q' = q_len q \<and> q_inilim q' = q_inilim q \<and> blockalloclen (q_b q') = blockalloclen bs \<and> (bs = [] \<longrightarrow> q_b q' = [])"
  using assms
proof (induction bs q fr arbitrary: q' fr' rule: qconsume_skip.induct)
  case (2 b bs q fr)
  show ?case
  proof (cases "BLEN b > 0")
    case True
    then show ?thesis using 2 by auto
  next
    case False
    have "BALLOC b = 0" "solid (q\<lparr>q_len := q_len q - int (BALLOC b), q_b := bs\<rparr>)" using 2(3) False by (auto simp: solid_def)
    then show ?thesis using 2(1) [OF False] 2(2) False by auto
  qed
qed (auto simp: solid_def)

lemma qconsume_good:
  assumes "qinv q" "qconsume q len = (n, p, q', ev)"
  shows "good_step q q' ev"
proof -
  obtain q1 fr where s: "qconsume_skip (q_b q) q [] = (q1, fr)" by fastforce
  have w: "qwf (q\<lparr>q_b := q_b q\<rparr>)" "solid (q\<lparr>q_b := q_b q\<rparr>)" using assms(1) by (simp_all add: qinv_def)
  note k = qconsume_skip_ok [OF w(1) s] qconsume_skip_frame [OF s w(2)]
  show ?thesis
  proof (cases "q_b q1")
    case Nil
    then have e: "q' = set_st q1 Qstarve" "ev = []" using assms(2) by (auto simp: qconsume_def s)
    have "q_len q1 = 0" using k Nil by (simp add: qlen_alloc)
    moreover have "\<not> has q Qclosed \<longrightarrow> \<not> notempty q'" using Nil k by (simp add: e notempty_def)
    ultimately show ?thesis using k Nil assms(1)
      by (auto simp: e good_step_def reader_ok_def notempty_def flow_ok_def writer_ok_def qinv_def)
  next
    case (Cons b bs)
    define m where "m = (if BLEN b < len then BLEN b else len)"
    define d where "d \<longleftrightarrow> has q1 Qmsg \<or> m = BLEN b"
    have b: "0 < BLEN b" "wf_block b" "list_all wf_block bs" using k Cons by (auto simp: qwfd_def)
    have m: "m \<le> BLEN b" by (simp add: m_def)
    note a = rp_advance [OF b(2) m]
    define q2 where "q2 = (let b = b\<lparr>b_rp := b_rp b + m\<rparr>; q = q1\<lparr>q_b := (if d then bs else b # bs), q_dlen := q_dlen q1 - int m\<rparr>
       in if d then q\<lparr>q_len := q_len q - int (BALLOC b), q_dlen := q_dlen q - int (BLEN b)\<rparr> else q)"
    obtain q3 w' where r: "restart q2 (q_limit q2 div 2) = (q3, w')" by fastforce
    have "qconsume q len = (case restart q2 (q_limit q2 div 2) of (q, w) \<Rightarrow>
        (int m, take m (data b), q, wake w WakeWR @ freeblist (if d then b\<lparr>b_rp := b_rp b + m\<rparr> # fr else fr)))"
      unfolding q2_def by (simp add: qconsume_def s Cons Let_def m_def [symmetric] d_def [symmetric])
    then have e: "q' = q3" "w' \<longrightarrow> WakeWR \<in> set ev" using assms(2) r by auto
    have q1: "qwf q1" "solid q1" using k by auto
    have "qwf q2" using q1(1) a b m Cons by (auto simp: q2_def Let_def qwfd_def)
    moreover have "solid q2" using q1(2) a b m Cons by (auto simp: q2_def Let_def solid_def d_def)
    moreover have "blockalloclen (q_b q2) \<le> blockalloclen (q_b q1)" using Cons by (auto simp: q2_def Let_def)
    moreover have "has q2 m' = has q m'" "q_limit q2 = q_limit q" "q_inilim q2 = q_inilim q" for m'
      using k by (simp_all add: q2_def Let_def)
    moreover have "q_b q \<noteq> []" using k Cons by auto
    ultimately show ?thesis unfolding e(1)
      using removal_good [OF assms(1) _ _ _ _ _ _ _ r e(2)] k by simp
  qed
qed

lemma append_good:
  assumes "qinv q" "qwf q1" "solid q1" "q_len q \<le> q_len q1" "flow_ok q \<longrightarrow> flow_ok q1" 
    "has q Qflow \<longrightarrow> has q1 Qflow" "has q1 Qclosed = has q Qclosed" "has q1 Qstarve = has q Qstarve" "q_limit q1 = q_limit q" "q_inilim q1 = q_inilim q"
    "unstarve q1 = (q', w)" "w \<longrightarrow> WakeRR \<in> set ev"
  shows "good_step q q' ev"
  using assms
  by (auto simp: unstarve_def good_step_def reader_ok_def writer_ok_def flow_ok_def split: if_splits)

end
