(* ===== verification/QueueSyncOps.thy ===== *)
theory QueueSyncOps
  imports QueueSync
begin

text \<open>
  Every queue operation is a good step in the sense of \<open>QueueSync\<close>: producers, closers
  and the two reads.
\<close>

lemma good_refl: "solid q \<Longrightarrow> good_step q q ev"
  by (simp add: good_step_def)

lemma append_fields:
  "solid q \<Longrightarrow> list_all (\<lambda>b. BLEN b = 0 \<longrightarrow> BALLOC b = 0) bs \<Longrightarrow> solid (q\<lparr>q_b := q_b q @ bs, q_len := l, q_dlen := d\<rparr>)"
  by (simp add: solid_def)

lemma qpass_good:
  assumes "qinv q" "list_all wf_block bs" "list_all (\<lambda>b. BLEN b = 0 \<longrightarrow> BALLOC b = 0) bs" "qpass q bs = (n, q', ev)"
  shows "good_step q q' ev"
proof (cases "q_len q \<ge> q_limit q \<or> has q Qclosed")
  case True
  then show ?thesis using assms by (auto simp: qpass_def qinv_def good_refl split: if_splits)
next
  case False
  let ?q = "q\<lparr>q_b := q_b q @ bs, q_len := q_len q + int (blockalloclen bs), q_dlen := q_dlen q + int (blocklen bs)\<rparr>"
  let ?q1 = "if q_len ?q \<ge> q_limit ?q div 2 then set_st ?q Qflow else ?q"
  obtain q2 w where u: "unstarve ?q1 = (q2, w)" by fastforce
  have e: "q' = q2" "ev = wake w WakeRR" using assms(4) False u by (auto simp: qpass_def Let_def)
  have "qwf ?q" "solid ?q" using append_ok [OF _ assms(2), of 0 q] append_fields [OF _ assms(3)] assms(1) by (auto simp: qinv_def)
  moreover have "q_limit q div 2 \<le> q_limit q" using assms(1) unfolding qinv_def by linarith
  ultimately show ?thesis unfolding e
    by (intro append_good [OF assms(1) _ _ _ _ _ _ _ _ _ u]) (auto simp: flow_ok_def)
qed

lemma qpassnolim_good:
  assumes "qinv q" "list_all wf_block bs" "list_all (\<lambda>b. BLEN b = 0 \<longrightarrow> BALLOC b = 0) bs" "qpassnolim q bs = (n, q', ev)"
  shows "good_step q q' ev"
proof (cases "has q Qclosed")
  case True
  then show ?thesis using assms by (auto simp: qpassnolim_def qinv_def good_refl)
next
  case False
  let ?q = "q\<lparr>q_b := q_b q @ bs, q_len := q_len q + int (blockalloclen bs), q_dlen := q_dlen q + int (blocklen bs)\<rparr>"
  let ?q1 = "if q_len ?q \<ge> q_limit ?q div 2 then set_st ?q Qflow else ?q"
  obtain q2 w where u: "unstarve ?q1 = (q2, w)" by fastforce
  have e: "q' = q2" "ev = wake w WakeRR" using assms(4) False u by (auto simp: qpassnolim_def Let_def)
  have "qwf ?q" "solid ?q" using append_ok [OF _ assms(2), of 0 q] append_fields [OF _ assms(3)] assms(1) by (auto simp: qinv_def)
  moreover have "q_limit q div 2 \<le> q_limit q" using assms(1) unfolding qinv_def by linarith
  ultimately show ?thesis unfolding e
    by (intro append_good [OF assms(1) _ _ _ _ _ _ _ _ _ u]) (auto simp: flow_ok_def)
qed

lemma qproduce_good:
  assumes "qinv q" "qproduce avail q p = (n, q', ev)"
  shows "good_step q q' ev"
proof (cases "has q Qclosed \<or> q_len q \<ge> q_limit q \<or> \<not> avail (length p)")
  case True
  then show ?thesis using assms
    by (auto simp: qproduce_def qinv_def good_step_def reader_ok_def flow_ok_def writer_ok_def notempty_def split: if_splits)
next
  case False
  define b where "b = bput (allocb (length p)) p"
  let ?q = "q\<lparr>q_b := q_b q @ [b], q_len := q_len q + int (BALLOC b), q_dlen := q_dlen q + int (BLEN b)\<rparr>"
  obtain q2 w where u: "unstarve ?q = (q2, w)" by fastforce
  have b: "wf_block b" "BLEN b = length p" "BALLOC b = length p" using bput_alloc [of p "length p"] by (auto simp: b_def)
  have e: "q' = (if q_len q2 \<ge> q_limit q2 then set_st q2 Qflow else q2)" "ev = wake w WakeRR"
    using assms(2) False u by (auto simp: qproduce_def iallocb_allocb Let_def b_def)
  have "solid ?q" using assms(1) b by (simp add: qinv_def solid_def)
  moreover have f: "q_b q2 = q_b ?q" "q_len q2 = q_len ?q" "q_limit q2 = q_limit q" "q_inilim q2 = q_inilim q"
    "has q2 Qflow = has q Qflow" "has q2 Qclosed = has q Qclosed" "w = has q Qstarve"
    using u by (auto simp: unstarve_def split: if_splits)
  ultimately show ?thesis using assms(1) False
    by (auto simp: e good_step_def reader_ok_def flow_ok_def writer_ok_def solid_def)
qed

lemma qbwrite_put_good:
  assumes "qinv q" "wf_block b" "BLEN b = 0 \<longrightarrow> BALLOC b = 0" "qbwrite_put q b = (r, q', ev)"
  shows "(reader_ok q \<longrightarrow> reader_ok q' \<or> WakeRR \<in> set ev) \<and> qinv q' \<and> (\<not> notempty q \<and> \<not> has q Qstarve \<longrightarrow> \<not> has q' Qstarve)"
proof -
  let ?q = "q\<lparr>q_b := q_b q @ [b], q_len := q_len q + int (BALLOC b), q_dlen := q_dlen q + int (BLEN b)\<rparr>"
  have "qwf ?q" "solid ?q" using append_ok [of 0 q "[b]"] append_fields [of q "[b]"] assms(1-3) by (auto simp: qinv_def)
  then show ?thesis using assms(1,4)
    by (auto simp: qbwrite_put_def case_prod_beta Let_def qinv_def reader_ok_def unstarve_def split: if_splits)
qed

lemma qclose_good:
  assumes "qinv q" "qclose q = (q', ev)"
  shows "good_step q q' ev"
  using assms by (auto simp: qclose_def Let_def good_step_def qinv_def solid_def flow_ok_def reader_ok_def)

lemma qhangup_good:
  assumes "qinv q" "qhangup q msg = (q', ev)"
  shows "good_step q q' ev"
  using assms by (auto simp: qhangup_def Let_def good_step_def qinv_def solid_def flow_ok_def split: option.splits if_splits)

lemma qreopen_good:
  assumes "qinv q"
  shows "good_step q (qreopen q) ev"
  using assms by (auto simp: qreopen_def good_step_def qinv_def solid_def flow_ok_def reader_ok_def writer_ok_def notempty_def)

lemma qnoblock_good: "qinv q \<Longrightarrow> good_step q (qnoblock q f) ev"
  by (auto simp: qnoblock_def good_step_def qinv_def solid_def flow_ok_def reader_ok_def writer_ok_def notempty_def has_def)

lemma qflush_good:
  assumes "qinv q" "qflush q = (q', ev)"
  shows "good_step q q' ev"
  using assms by (auto simp: qflush_def good_step_def qinv_def solid_def flow_ok_def reader_ok_def notempty_def)

subsection \<open>Reads\<close>

lemma bl2mem_frame:
  assumes "list_all wf_block bs" "bl2mem bs n = (p, r, ev)"
  shows "blockalloclen r \<le> blockalloclen bs \<and> (case r of [] \<Rightarrow> True | b # _ \<Rightarrow> 0 < BLEN b)"
  using assms
proof (induction bs n arbitrary: p r ev rule: bl2mem.induct)
  case (2 b nb n)
  show ?case
  proof (cases "BLEN b > n")
    case True
    then show ?thesis using 2(2,3) rp_advance [of b n] by auto
  next
    case False
    obtain p1 r1 e1 where r: "bl2mem nb (n - BLEN b) = (p1, r1, e1)" by (metis prod_cases3)
    have "r = r1" using 2(3) False r by (simp add: Let_def)
    then show ?thesis using 2(1) [OF refl False _ r] 2(2) by auto
  qed
qed auto

lemma qread_again_frame:
  assumes "qinv q" "qread_again q = (w, q', ev)"
  shows "solid q' \<and> q_len q' = q_len q \<and> q_inilim q' = q_inilim q \<and> (q_b q = [] \<longrightarrow> q_b q' = [] \<and> ev = [])"
  using assms
proof (induction q arbitrary: w q' ev rule: qread_again.induct)
  case (1 q)
  obtain r q1 where w: "qwait q = (r, q1)" by fastforce
  show ?case
    using qwait_cases [OF w]
  proof (elim disjE conjE)
    assume r1: "r = Ret 1" "q_b q \<noteq> []" "q1 = q"
    show ?thesis
    proof (cases "has q Qcoalesce \<and> BLEN (hd (q_b q)) = 0")
      case True
      obtain b bs where b: "q_b q = b # bs" using r1 by (cases "q_b q") auto
      let ?q2 = "q\<lparr>q_b := bs, q_dlen := q_dlen q - int (BLEN b), q_len := q_len q - int (BALLOC b)\<rparr>"
      have rm: "qremove q = (Some b, ?q2)" using b by (auto simp: qremove_def)
      obtain w2 q3 ev2 where rec: "qread_again ?q2 = (w2, q3, ev2)" by (metis prod_cases3)
      have b0: "BALLOC b = 0" using 1(2) b True by (simp add: qinv_def solid_def)
      have "qwf ?q2" using qremove_ok [OF _ rm] 1(2) by (simp add: qinv_def)
      then have q2: "qinv ?q2" using 1(2) b by (simp add: qinv_def solid_def)
      have "q' = q3" using 1(3) True w r1 rm rec b
        by (subst (asm) qread_again.simps) (auto simp: case_prod_beta)
      moreover note 1(1) [OF w [symmetric] r1(1), unfolded r1(3) rm snd_conv, OF _ q2 rec]
      ultimately show ?thesis using True b r1 b0 by auto
    next
      case False
      then have "w = Ret 1 \<and> q' = q" using 1(3) w r1
        by (subst (asm) qread_again.simps) (auto simp: case_prod_beta split: if_splits)
      then show ?thesis using False r1 1(2) by (auto simp: qinv_def)
    qed
  qed (use 1(2,3) w in \<open>subst (asm) qread_again.simps; auto simp: qinv_def solid_def\<close>)+
qed

lemma qread_first_frame:
  assumes "qinv q" "q_b q \<noteq> []" "qread_first q len = (first, n, q')"
  shows "q_inilim q' = q_inilim q"
proof -
    have "qread_gather bs q n len = (first, n', q') \<Longrightarrow> q_inilim q' = q_inilim q" for bs q n first n' q'
  proof (induction bs q n len arbitrary: first n' q' rule: qread_gather.induct)
    case (2 b bs q n len)
    show ?case
    proof (cases "bs = [] \<or> n + BLEN b + BLEN (hd bs) > len")
      case True
      then show ?thesis using 2(2) by (cases bs) (auto simp: Let_def)
    next
      case False
      then obtain c cs where bs: "bs = c # cs" by (cases bs) auto
      let ?q = "q\<lparr>q_dlen := q_dlen q - int (BLEN b), q_len := q_len q - int (BALLOC b)\<rparr>"
      obtain f1 n1 q1 where r: "qread_gather bs ?q (n + BLEN b) len = (f1, n1, q1)" by (metis prod_cases3)
      have "q' = q1" using 2(2) qread_gather_step [OF bs, where n = n and b = b and len = len and q = q] False bs r by simp
      then show ?thesis using 2(1) [OF refl refl bs _ r] False bs by simp
    qed
  qed auto
  then show ?thesis using assms(3) by (auto simp: qread_first_def qremove_def split: if_splits list.splits)
qed

lemma qread_good:
  assumes "qinv q" "qread q len = (r, q', ev)"
  shows "good_step q q' ev"
proof -
  have wf: "qwf q" using assms(1) by (simp add: qinv_def)
  obtain w q1 ev1 where a: "qread_again q = (w, q1, ev1)" by (metis prod_cases3)
  note ag = qread_again_ok [OF wf a] and af = qread_again_frame [OF assms(1) a]
  show ?thesis
  proof (cases "w = Ret 1")
    case False
    have q': "q' = q1" using qread_empty [OF a False assms(2) wf] by simp
    have "q_b q1 = []" "qwf q1" using ag False by auto
    then have "q_len q1 = 0" by (simp add: qlen_alloc)
    moreover have "has q1 Qflow = has q Qflow" "has q1 Qclosed = has q Qclosed" using ag by simp_all
    ultimately show ?thesis using ag af False assms(1)
      by (auto simp: q' good_step_def reader_ok_def notempty_def flow_ok_def writer_ok_def qinv_def)
  next
    case True
    have q1: "qwf q1" "q_b q1 \<noteq> []" using ag True by auto
    obtain first n q2 where f: "qread_first q1 len = (first, n, q2)" by (metis prod_cases3)
    obtain p rest ev2 where b: "bl2mem first len = (p, rest, ev2)" by (metis prod_cases3)
    note fo = qread_first_ok [OF q1 f]
    then have wff: "list_all wf_block first" by blast
    have i1: "qinv q1" using assms(1) q1 af ag by (simp add: qinv_def)
    note ff = qread_first_frame [OF i1 q1(2) f]
    note bo = bl2mem_ok [OF wff b] bl2mem_rest [OF wff b] bl2mem_frame [OF wff b]
    define q3 where "q3 = (case rest of [] \<Rightarrow> q2 | c # _ \<Rightarrow> if has q2 Qmsg then q2 else qputback q2 c)"
    obtain q4 w4 where r4: "restart q3 (q_limit q3 div 2) = (q4, w4)" by fastforce
    have q': "q' = q4" "w4 \<longrightarrow> WakeWR \<in> set ev"
      using assms(2) a f b True r4
      by (auto simp: qread_def qread_first_def [symmetric] q3_def qwakeup_unlock_def Let_def split: list.splits if_splits prod.splits)
    have "blockalloclen (q_b q1) = blockalloclen first + blockalloclen (q_b q2)" using fo by simp
    moreover have "q_len q1 = q_len q" using af by simp
    then have "blockalloclen (q_b q1) = blockalloclen (q_b q)" using q1 wf by (simp add: qlen_alloc)
    ultimately have "blockalloclen (q_b q3) \<le> blockalloclen (q_b q)" using bo
      by (auto simp: q3_def qputback_def split: list.splits)
    moreover have "solid q2" using i1 fo by (auto simp: qinv_def solid_def)
    then have "solid q3" using bo by (auto simp: q3_def qputback_def solid_def split: list.splits)
    moreover have "qwf q2" using fo by blast
    then have "qwf q3" using bo qputback_ok by (auto simp: q3_def split: list.splits)
    moreover have "Qstarve AND m = 0 \<Longrightarrow> has q3 m = has q m" for m
      using fo ag by (auto simp: q3_def split: list.splits)
    moreover have "q_limit q3 = q_limit q" "q_inilim q3 = q_inilim q"
      using fo ff ag af by (auto simp: q3_def qputback_def split: list.splits)
    moreover have "q_b q \<noteq> []" using af q1(2) by auto
    ultimately show ?thesis unfolding q'(1)
      by (intro removal_good [OF assms(1) _ _ _ _ _ _ _ r4 q'(2)])
  qed
qed

lemma qbread_good:
  assumes "qinv q" "qbread q len = (r, q', ev)"
  shows "good_step q q' ev"
proof -
  have wf: "qwf q" using assms(1) by (simp add: qinv_def)
  obtain w q1 where w: "qwait q = (w, q1)" by fastforce
  show ?thesis
    using qwait_cases [OF w]
  proof (elim disjE conjE)
    assume r1: "w = Ret 1" "q_b q \<noteq> []" "q1 = q"
    obtain b bs where b: "q_b q = b # bs" using r1 by (cases "q_b q") auto
    let ?q2 = "q\<lparr>q_b := bs, q_dlen := q_dlen q - int (BLEN b), q_len := q_len q - int (BALLOC b)\<rparr>"
    have rm: "qremove q = (Some b, ?q2)" using b by (auto simp: qremove_def)
    have q2: "qwf ?q2" "wf_block b" using qremove_ok [OF wf rm] by auto
    let ?x = "bput (allocb (BLEN b - len)) (take (BLEN b - len) (drop len (data b)))"
    have x: "wf_block ?x" "BLEN ?x = BLEN b - len" "BALLOC ?x = BLEN b - len"
      using bput_alloc [of "take (BLEN b - len) (drop len (data b))" "BLEN b - len"] q2(2) by simp_all
    define q3 where "q3 = (if BLEN b > len \<and> \<not> has q Qmsg then qputback ?q2 ?x else ?q2)"
    obtain q4 w4 where r4: "restart q3 (q_limit q3 div 2) = (q4, w4)" by fastforce
    have q': "q' = q4" "w4 \<longrightarrow> WakeWR \<in> set ev"
      using assms(2) w r1 rm r4
      by (auto simp: qbread_def q3_def qwakeup_unlock_def Let_def split: if_splits)
    have "BLEN b \<le> BALLOC b" using wf_block_allocb_size q2(2) by blast
    then have "blockalloclen (q_b q3) \<le> blockalloclen (q_b q)" using b x by (auto simp: q3_def qputback_def)
    moreover have "solid q3" using assms(1) b x by (auto simp: q3_def qputback_def solid_def qinv_def)
    moreover have "qwf q3" using q2 x qputback_ok by (auto simp: q3_def)
    moreover have "has q3 m = has q m" for m by (simp add: q3_def)
    moreover have "q_limit q3 = q_limit q" "q_inilim q3 = q_inilim q" by (simp_all add: q3_def qputback_def)
    ultimately show ?thesis unfolding q'(1)
      by (intro removal_good [OF assms(1) r1(2) _ _ _ _ _ _ r4 q'(2)]) auto
  next
    assume r0: "w = Sleeps" "q_b q = []" "\<not> has q Qclosed" "q1 = set_st q Qstarve"
    then have q': "q' = set_st q Qstarve" using assms(2) w by (simp add: qbread_def)
    show ?thesis using r0 assms(1)
      by (auto simp: q' good_step_def reader_ok_def notempty_def flow_ok_def writer_ok_def qinv_def)
  next
    assume r0: "w = Ret 0" "q_b q = []" "has q Qclosed" "q1 = q\<lparr>q_eof := q_eof q + 1\<rparr>"
    then have q': "q' = q1" using assms(2) w by (simp add: qbread_def)
    show ?thesis using r0 assms(1)
      by (auto simp: q' good_step_def reader_ok_def notempty_def flow_ok_def writer_ok_def qinv_def solid_def)
  next
    assume r0: "w = Ret (-1)" "q_b q = []" "has q Qclosed" "q1 = q\<lparr>q_eof := q_eof q + 1\<rparr>"
    then have q': "q' = q1" using assms(2) w by (simp add: qbread_def)
    show ?thesis using r0 assms(1)
      by (auto simp: q' good_step_def reader_ok_def notempty_def flow_ok_def writer_ok_def qinv_def solid_def)
  qed
qed

end
