(* ===== verification/QueueSched.thy ===== *)
theory QueueSched
  imports QueueSyncOps
begin

text \<open>
  One reader and one writer sleeping on a queue (\<open>rlock\<close> and \<open>wlock\<close> let in one of
  each), any number of other processes working on it, and the rendezvous points
  \<open>rr\<close> and \<open>wr\<close> with the \<open>Sleep\<close> and \<open>Wakeup\<close> of
  \<open>emu/port/proc.c\<close>.
\<close>

text \<open>
  \<open>Sleep\<close> up to \<open>osblock\<close>, for a process that is \<open>killed\<close> or not, a condition that
  holds or not and a rendezvous that is taken or not: \<open>None\<close> is the panic on a double sleep, else
  whether the process blocks and the new \<open>r->p != nil\<close>.
\<close>

definition Sleep :: "bool \<Rightarrow> bool \<Rightarrow> bool \<Rightarrow> (bool \<times> bool) option" where
  "Sleep killed cond rp =
     (if killed \<or> cond then Some (False, rp)
      else if rp then None
      else Some (True, True))"

definition Wakeup :: "bool \<Rightarrow> bool \<times> bool" where
  "Wakeup rp = (rp, False)"

datatype rpc = RIdle | RCommitted | RAsleep
datatype wpc = WIdle | WLoop | WFull | WCommitted | WAsleep

record sys =
  s_q :: queue
  s_r :: rpc
  s_w :: wpc
  s_rrp :: bool
  s_wrp :: bool
  s_rr :: nat
  s_wr :: nat

definition after :: "sys \<Rightarrow> queue \<Rightarrow> ev list \<Rightarrow> sys" where
  "after s q ev = s\<lparr>s_q := q, s_rr := s_rr s + length (filter (\<lambda>e. e = WakeRR) ev),
     s_wr := s_wr s + length (filter (\<lambda>e. e = WakeWR) ev)\<rparr>"

definition solids :: "block list \<Rightarrow> bool" where
  "solids bs \<longleftrightarrow> bs \<noteq> [] \<and> list_all (\<lambda>b. wf_block b \<and> (BLEN b = 0 \<longrightarrow> BALLOC b = 0)) bs"

inductive produce_op :: "queue \<Rightarrow> queue \<Rightarrow> ev list \<Rightarrow> bool" where
  "solids bs \<Longrightarrow> qpass q bs = (n, q', ev) \<Longrightarrow> produce_op q q' ev"
| "solids bs \<Longrightarrow> qpassnolim q bs = (n, q', ev) \<Longrightarrow> produce_op q q' ev"
| "qproduce avail q p = (n, q', ev) \<Longrightarrow> produce_op q q' ev"
| "qclose q = (q', ev) \<Longrightarrow> produce_op q q' ev"
| "qhangup q msg = (q', ev) \<Longrightarrow> produce_op q q' ev"
| "qreopen q = q' \<Longrightarrow> produce_op q q' []"
| "qnoblock q f = q' \<Longrightarrow> produce_op q q' []"

inductive consume_op :: "queue \<Rightarrow> queue \<Rightarrow> ev list \<Rightarrow> bool" where
  "qget q = (r, q', ev) \<Longrightarrow> consume_op q q' ev"
| "qdiscard q len = (k, q', ev) \<Longrightarrow> consume_op q q' ev"
| "qconsume q len = (n, p, q', ev) \<Longrightarrow> consume_op q q' ev"
| "qread q len = (rr, q', ev) \<Longrightarrow> consume_op q q' ev"
| "qbread q len = (rb, q', ev) \<Longrightarrow> consume_op q q' ev"
| "qflush q = (q', ev) \<Longrightarrow> consume_op q q' ev"

text \<open>
  The steps.  With \<open>mixed\<close> a process may also take data off the queue while a reader waits for
  it, and \<open>qiwrite\<close> may be used beside a blocking writer.
\<close>

inductive sstep :: "bool \<Rightarrow> sys \<Rightarrow> sys \<Rightarrow> bool" for mixed :: bool where
  produce: "produce_op (s_q s) q' ev \<Longrightarrow> sstep mixed s (after s q' ev)"
| consume: "consume_op (s_q s) q' ev \<Longrightarrow> s_r s = RIdle \<or> mixed \<Longrightarrow> sstep mixed s (after s q' ev)"
| iwrite: "mixed \<Longrightarrow> qiwrite avail (s_q s) p = (n, q', ev) \<Longrightarrow> sstep mixed s (after s q' ev)"
| r_wait: "s_r s = RIdle \<Longrightarrow> qwait (s_q s) = (Sleeps, q') \<Longrightarrow> sstep mixed s (s\<lparr>s_q := q', s_r := RCommitted\<rparr>)"
| r_sleep: "s_r s = RCommitted \<Longrightarrow> Sleep False (notempty (s_q s)) (s_rrp s) = Some (blocks, rp) \<Longrightarrow>
    sstep mixed s (s\<lparr>s_r := (if blocks then RAsleep else RIdle), s_rrp := rp\<rparr>)"
| r_wakeup: "0 < s_rr s \<Longrightarrow> Wakeup (s_rrp s) = (woken, rp) \<Longrightarrow>
    sstep mixed s (s\<lparr>s_rr := s_rr s - 1, s_rrp := rp, s_r := (if woken then RIdle else s_r s)\<rparr>)"
| w_put: "s_w s = WIdle \<Longrightarrow> wf_block b \<Longrightarrow> (BLEN b = 0 \<longrightarrow> BALLOC b = 0) \<Longrightarrow> qbwrite_put (s_q s) b = (r, q', ev) \<Longrightarrow>
    sstep mixed s ((after s q' ev)\<lparr>s_w := (if r = None then WLoop else WIdle)\<rparr>)"
| w_check: "s_w s = WLoop \<Longrightarrow>
    sstep mixed s (s\<lparr>s_w := (if q_noblock (s_q s) \<or> qnotfull (s_q s) then WIdle else WFull)\<rparr>)"
| w_flow: "s_w s = WFull \<Longrightarrow> sstep mixed s (s\<lparr>s_q := set_st (s_q s) Qflow, s_w := WCommitted\<rparr>)"
| w_sleep: "s_w s = WCommitted \<Longrightarrow> Sleep False (qnotfull (s_q s)) (s_wrp s) = Some (blocks, rp) \<Longrightarrow>
    sstep mixed s (s\<lparr>s_w := (if blocks then WAsleep else WLoop), s_wrp := rp\<rparr>)"
| w_wakeup: "0 < s_wr s \<Longrightarrow> Wakeup (s_wrp s) = (woken, rp) \<Longrightarrow>
    sstep mixed s (s\<lparr>s_wr := s_wr s - 1, s_wrp := rp, s_w := (if woken then WLoop else s_w s)\<rparr>)"

inductive sreach :: "bool \<Rightarrow> queue \<Rightarrow> sys \<Rightarrow> bool" for mixed :: bool and q0 :: queue where
  init: "sreach mixed q0 \<lparr>s_q = q0, s_r = RIdle, s_w = WIdle, s_rrp = False, s_wrp = False, s_rr = 0, s_wr = 0\<rparr>"
| step: "sreach mixed q0 s \<Longrightarrow> sstep mixed s s' \<Longrightarrow> sreach mixed q0 s'"

definition wait_ok :: "queue \<Rightarrow> bool" where
  "wait_ok q \<longleftrightarrow> notempty q \<or> has q Qstarve"

definition sinv :: "sys \<Rightarrow> bool" where
  "sinv s \<longleftrightarrow> qinv (s_q s) \<and>
     (s_rrp s \<longleftrightarrow> s_r s = RAsleep) \<and> (s_wrp s \<longleftrightarrow> s_w s = WAsleep) \<and>
     (s_r s = RCommitted \<longrightarrow> wait_ok (s_q s)) \<and>
     (s_r s = RAsleep \<longrightarrow> 0 < s_rr s \<or> reader_ok (s_q s)) \<and>
     (s_w s = WCommitted \<longrightarrow> flow_ok (s_q s)) \<and>
     (s_w s = WAsleep \<longrightarrow> 0 < s_wr s \<or> writer_ok (s_q s))"

lemma produce_good:
  assumes "produce_op q q' ev" "qinv q"
  shows "good_step q q' ev \<and> qwf q' \<and> (wait_ok q \<longrightarrow> wait_ok q')"
  using assms
proof (induction rule: produce_op.induct)
  case (1 bs q n q' ev)
  then have b: "list_all wf_block bs" "list_all (\<lambda>b. BLEN b = 0 \<longrightarrow> BALLOC b = 0) bs" "bs \<noteq> []" "qwf q"
    by (auto simp: solids_def list_all_iff qinv_def)
  have "has q' Qclosed = has q Qclosed" "q_b q' = (if q_len q \<ge> q_limit q \<or> has q Qclosed then q_b q else q_b q @ bs)"
    using qpass_ok [OF b(4,1) 1(2)] by auto
  moreover have "q_len q \<ge> q_limit q \<or> has q Qclosed \<Longrightarrow> q' = q" using 1(2) by (auto simp: qpass_def split: if_splits)
  ultimately show ?case using qpass_good [OF 1(3) b(1,2) 1(2)] qpass_ok [OF b(4,1) 1(2)] b(3)
    by (auto simp: wait_ok_def notempty_def split: if_splits)
next
  case (2 bs q n q' ev)
  then have b: "list_all wf_block bs" "list_all (\<lambda>b. BLEN b = 0 \<longrightarrow> BALLOC b = 0) bs" "bs \<noteq> []" "qwf q"
    by (auto simp: solids_def list_all_iff qinv_def)
  have "has q Qclosed \<Longrightarrow> q' = q" using 2(2) by (auto simp: qpassnolim_def)
  then show ?case using qpassnolim_good [OF 2(3) b(1,2) 2(2)] qpassnolim_ok [OF b(4,1) 2(2)] b(3)
    by (auto simp: wait_ok_def notempty_def split: if_splits)
next
  case (3 avail q p n q' ev)
  have "wait_ok q \<longrightarrow> wait_ok q'" using 3(1)
    by (auto simp: qproduce_def wait_ok_def notempty_def Let_def case_prod_beta split: if_splits)
  then show ?case using qproduce_good [OF 3(2,1)] qproduce_ok [of 0, OF _ 3(1)] 3(2) by (simp add: qinv_def)
next
  case (4 q q' ev)
  then show ?case using qclose_good [OF 4(2,1)] qclose_ok [of 0, OF _ 4(1)] by (simp add: qinv_def wait_ok_def notempty_def)
next
  case (5 q msg q' ev)
  then show ?case using qhangup_good [OF 5(2,1)] qhangup_ok [of 0, OF _ 5(1)] by (simp add: qinv_def wait_ok_def notempty_def)
next
  case (6 q q')
  then show ?case using qreopen_good [of q] qwf_setters(1) [of 0 q]
    by (auto simp: qinv_def wait_ok_def notempty_def qreopen_def)
next
  case (7 q f q')
  then show ?case using qnoblock_good [of q f] qwf_setters(3) [of 0 q f]
    by (auto simp: qinv_def wait_ok_def notempty_def qnoblock_def)
qed

lemma consume_good:
  assumes "consume_op q q' ev" "qinv q"
  shows "good_step q q' ev \<and> qwf q'"
  using assms
proof (induction rule: consume_op.induct)
  case 1
  then show ?case using qget_good qget_ok unfolding qinv_def by blast
next
  case 2
  then show ?case using qdiscard_good qdiscard_ok unfolding qinv_def by blast
next
  case 3
  then show ?case using qconsume_good qconsume_ok unfolding qinv_def by blast
next
  case 4
  then show ?case using qread_good qread_wf unfolding qinv_def by blast
next
  case 5
  then show ?case using qbread_good qbread_ok unfolding qinv_def by blast
next
  case (6 q q' ev)
  have "qwf q'" using 6 qwf_setters(4) [of 0 q] by (simp add: qinv_def)
  then show ?case using qflush_good [OF 6(2,1)] by simp
qed

lemma good_inv: "good_step q q' ev \<Longrightarrow> qwf q' \<Longrightarrow> qinv q \<Longrightarrow> qinv q'"
  by (simp add: good_step_def qinv_def)

lemma wakes_pos:
  "e \<in> set ev \<Longrightarrow> 0 < length (filter (\<lambda>x. x = e) ev)"
  by (induction ev) auto

lemma after_sinv:
  assumes "sinv s" "good_step (s_q s) q' ev" "qwf q'" "s_r s = RCommitted \<longrightarrow> wait_ok q'"
  shows "sinv (after s q' ev)"
  using assms good_inv [OF assms(2,3)] wakes_pos [of WakeRR ev] wakes_pos [of WakeWR ev]
  by (auto simp: sinv_def after_def good_step_def)


lemma qbwrite_put_wait:
  "qbwrite_put q b = (r, q', ev) \<Longrightarrow> wait_ok q \<Longrightarrow> wait_ok q'"
  by (auto simp: qbwrite_put_def wait_ok_def notempty_def Let_def case_prod_beta split: if_splits)

lemma qwait_sleeps:
  "qwait q = (Sleeps, q') \<longleftrightarrow> q_b q = [] \<and> \<not> has q Qclosed \<and> q' = set_st q Qstarve"
  by (auto simp: qwait_def Let_def)

lemma sstep_inv: "sstep False s s' \<Longrightarrow> sinv s \<Longrightarrow> sinv s'"
proof (induction rule: sstep.induct)
  case (produce s q' ev)
  then have "good_step (s_q s) q' ev \<and> qwf q' \<and> (wait_ok (s_q s) \<longrightarrow> wait_ok q')"
    using produce_good by (simp add: sinv_def)
  then show ?case using produce(2) by (intro after_sinv) (auto simp: sinv_def)
next
  case (consume s q' ev)
  then have "good_step (s_q s) q' ev \<and> qwf q'" using consume_good by (simp add: sinv_def)
  then show ?case using consume(2,3) by (intro after_sinv) auto
next
  case (iwrite s avail p n q' ev)
  then show ?case by simp
next
  case (r_wait s q')
  then have q': "q' = set_st (s_q s) Qstarve" by (simp add: qwait_sleeps)
  show ?case using r_wait
    by (auto simp: sinv_def q' qinv_def wait_ok_def flow_ok_def writer_ok_def)
next
  case (r_sleep s blocks rp)
  then show ?case by (auto simp: sinv_def Sleep_def wait_ok_def reader_ok_def split: if_splits)
next
  case (r_wakeup s woken rp)
  then show ?case by (auto simp: sinv_def Wakeup_def)
next
  case (w_put s b r q' ev)
  have q: "qinv (s_q s)" using w_put(5) by (simp add: sinv_def)
  note p = qbwrite_put_good [OF q w_put(2,3,4)] qbwrite_put_wait [OF w_put(4)]
  show ?case using w_put(1,5) p wakes_pos [of WakeRR ev]
    by (auto simp: sinv_def after_def)
next
  case (w_check s)
  then show ?case by (auto simp: sinv_def)
next
  case (w_flow s)
  then show ?case by (auto simp: sinv_def qinv_def wait_ok_def reader_ok_def notempty_def flow_ok_def)
next
  case (w_sleep s blocks rp)
  have "0 < q_limit (s_q s)" using w_sleep(3) by (simp add: sinv_def qinv_def)
  then show ?case using w_sleep
    by (auto simp: sinv_def Sleep_def flow_ok_def writer_ok_def qnotfull_def split: if_splits)
next
  case (w_wakeup s woken rp)
  then show ?case by (auto simp: sinv_def Wakeup_def)
qed

lemma sreach_inv: "sreach False q0 s \<Longrightarrow> qinv q0 \<Longrightarrow> sinv s"
proof (induction rule: sreach.induct)
  case init
  then show ?case by (simp add: sinv_def)
next
  case (step s s')
  then show ?case using sstep_inv by blast
qed

text \<open>
  C20: no lost wakeup for the reader: a reader asleep on a queue with no \<open>Wakeup\<close> on its way
  sleeps on an empty, open queue whose \<open>Qstarve\<close> bit makes the next producer wake it, for any
  interleaving of producers, closers and the writer with the reader's own steps.
\<close>
theorem reader_no_lost_wakeup:
  assumes "qinv q0" "sreach False q0 s" "s_r s = RAsleep" "s_rr s = 0"
  shows "q_b (s_q s) = [] \<and> \<not> has (s_q s) Qclosed \<and> has (s_q s) Qstarve"
  using sreach_inv [OF assms(2,1)] assms(3,4) by (simp add: sinv_def reader_ok_def notempty_def)


lemma qopen_qinv: "2 \<le> l \<Longrightarrow> qinv (qopen l m k)"
  using qwf_setters(5) by (simp add: qinv_def) (simp add: solid_def qopen_def)

abbreviation (input) sys0 :: "queue \<Rightarrow> sys" where
  "sys0 q \<equiv> \<lparr>s_q = q, s_r = RIdle, s_w = WIdle, s_rrp = False, s_wrp = False, s_rr = 0, s_wr = 0\<rparr>"

lemma reader_no_lost_wakeup_witness:
  "\<exists>s. sreach False (qopen 64 0 False) s \<and> s_r s = RAsleep \<and>
     q_b (s_q s) = [] \<and> \<not> has (s_q s) Qclosed \<and> has (s_q s) Qstarve"
proof -
  let ?q = "qopen 64 0 False" and ?q' = "set_st (qopen 64 0 False) Qstarve"
  let ?s1 = "(sys0 ?q)\<lparr>s_q := ?q', s_r := RCommitted\<rparr>"
  have e: "q_b ?q = []" "\<not> has ?q Qclosed" by (simp_all add: qopen_def has_def)
  have t1: "sstep False (sys0 ?q) ?s1" by (rule r_wait) (simp_all add: qwait_sleeps e)
  have t2: "sstep False ?s1 (?s1\<lparr>s_r := (if True then RAsleep else RIdle), s_rrp := True\<rparr>)"
    by (rule r_sleep) (simp_all add: Sleep_def notempty_def e)
  have r: "sreach False ?q (?s1\<lparr>s_r := (if True then RAsleep else RIdle), s_rrp := True\<rparr>)"
    by (rule sreach.step [OF sreach.step [OF sreach.init t1] t2])
  have i: "qinv ?q" by (rule qopen_qinv) simp
  show ?thesis using reader_no_lost_wakeup [OF i r] r by (intro exI [of _ "?s1\<lparr>s_r := (if True then RAsleep else RIdle), s_rrp := True\<rparr>"]) simp
qed


text \<open>
  C25: \<open>qflush\<close> beside a waiting reader can lose its wakeup: some interleaving leaves the reader asleep
  for ever with data in the queue, since \<open>qflush\<close> empties the queue without setting
  \<open>Qstarve\<close> again.
\<close>
theorem qflush_loses_wakeup:
  "\<exists>s. sreach True (qopen 64 0 False) s \<and> s_r s = RAsleep \<and> s_rr s = 0 \<and> q_b (s_q s) \<noteq> [] \<and> \<not> has (s_q s) Qstarve"
proof -
  let ?q = "qopen 64 0 False"
  let ?q1 = "set_st ?q Qstarve"
  let ?s1 = "(sys0 ?q)\<lparr>s_q := ?q1, s_r := RCommitted\<rparr>"
  obtain n2 q2 ev2 where p2: "qproduce (\<lambda>_. True) ?q1 [1] = (n2, q2, ev2)" by (metis prod_cases3)
  have b: "BLEN (bput (allocb 1) [x]) = 1" "BALLOC (bput (allocb 1) [x]) = 1" for x
    using bput_alloc [of "[x]" 1] by simp_all
  have q2: "ev2 = [WakeRR]" "\<not> has q2 Qstarve" "q_len q2 = 1" "q_limit q2 = 64" "\<not> has q2 Qclosed"
    using p2 b by (auto simp: qproduce_def qopen_def has_def set_st_def unstarve_def clr_st_def wake_def Let_def iallocb_allocb split: if_splits)
  let ?s2 = "after ?s1 q2 ev2"
  let ?s3 = "?s2\<lparr>s_rr := s_rr ?s2 - 1, s_rrp := False, s_r := (if False then RIdle else s_r ?s2)\<rparr>"
  obtain q4 ev4 where p4: "qflush q2 = (q4, ev4)" by fastforce
  have q4: "q_b q4 = []" "\<not> has q4 Qstarve" "\<not> has q4 Qclosed" "q_len q4 = 0" "q_limit q4 = 64" "WakeRR \<notin> set ev4"
  proof -
    have "WakeRR \<notin> set (freeblist bs)" for bs by (induction bs) (auto simp: freeb_def)
    then show "WakeRR \<notin> set ev4" using p4 by (auto simp: qflush_def)
  qed (use p4 q2 in \<open>auto simp: qflush_def\<close>)
  let ?s4 = "after ?s3 q4 ev4"
  let ?s5 = "?s4\<lparr>s_r := (if True then RAsleep else RIdle), s_rrp := True\<rparr>"
  obtain n6 q6 ev6 where p6: "qproduce (\<lambda>_. True) q4 [2] = (n6, q6, ev6)" by (metis prod_cases3)
  have q6: "q_b q6 \<noteq> []" "\<not> has q6 Qstarve" "ev6 = []"
    using p6 q4 b by (auto simp: qproduce_def unstarve_def wake_def Let_def iallocb_allocb split: if_splits)
  let ?s6 = "after ?s5 q6 ev6"
  have f: "filter (\<lambda>e. e = WakeRR) ev4 = []" using q4(6) by (induction ev4) auto
  have e: "q_b ?q = []" "\<not> has ?q Qclosed" by (simp_all add: qopen_def has_def)
  have t1: "sstep True (sys0 ?q) ?s1" by (rule r_wait) (simp_all add: qwait_sleeps e)
  have t2: "sstep True ?s1 ?s2" using p2 by (intro sstep.produce) (auto intro: produce_op.intros)
  have t3: "sstep True ?s2 ?s3" by (rule r_wakeup) (simp_all add: after_def q2 Wakeup_def)
  have t4: "sstep True ?s3 ?s4" using p4 by (intro sstep.consume) (auto simp: after_def intro: consume_op.intros)
  have t5: "sstep True ?s4 ?s5"
    by (rule r_sleep) (simp_all add: after_def Sleep_def notempty_def q4)
  have t6: "sstep True ?s5 ?s6" using p6 by (intro sstep.produce) (auto simp: after_def intro: produce_op.intros)
  have r: "sreach True ?q ?s6"
    by (rule sreach.step [OF sreach.step [OF sreach.step [OF sreach.step [OF sreach.step [OF sreach.step [OF sreach.init t1] t2] t3] t4] t5] t6])
  have "s_r ?s6 = RAsleep" "s_rr ?s6 = 0" "s_q ?s6 = q6" using q6 q2 f by (simp_all add: after_def)
  then show ?thesis using r q6 by metis
qed

end
