(* ===== verification/Clean.thy ===== *)
theory Clean
  imports Prelude
begin

text \<open>
  \<open>lib9/cleanname.c\<close>: the in-place rewriting of a path name.  The buffer is a byte list, a
  position is an index into it.  The main loop is a partial function: that it returns is part of the
  theorem.
\<close>

abbreviation (input) SLASH :: u8 where "SLASH \<equiv> 47"
abbreviation (input) DOT :: u8 where "DOT \<equiv> 46"

definition SEP :: "u8 \<Rightarrow> bool" where
  "SEP x \<longleftrightarrow> x = SLASH \<or> x = 0"

text \<open>\<open>while(--q > dotdot && *q != '/');\<close>\<close>

fun backtrack :: "u8 list \<Rightarrow> nat \<Rightarrow> nat \<Rightarrow> nat" where
  "backtrack m 0 dotdot = 0"
| "backtrack m (Suc q) dotdot = (if q > dotdot \<and> at m q \<noteq> SLASH then backtrack m q dotdot else q)"

text \<open>\<open>while((*q = *p) != '/' && *q != 0) p++, q++;\<close>\<close>

function copy_elem :: "u8 list \<Rightarrow> nat \<Rightarrow> nat \<Rightarrow> u8 list \<times> nat \<times> nat" where
  "copy_elem m p q =
     (let m = m[q := at m p] in
      if at m q \<noteq> SLASH \<and> at m q \<noteq> 0 then copy_elem m (p + 1) (q + 1) else (m, p, q))"
  by pat_completeness auto
termination by (relation "measure (\<lambda>(m, p, q). length m - q)") (auto simp: at_def split: if_splits)

declare copy_elem.simps [simp del]

partial_function (option) clean_loop :: "u8 list \<Rightarrow> bool \<Rightarrow> nat \<Rightarrow> nat \<Rightarrow> nat \<Rightarrow> (u8 list \<times> nat) option" where
  "clean_loop m rooted p q dotdot =
     (if at m p = 0 then Some (m, q)
      else if at m p = SLASH then clean_loop m rooted (p + 1) q dotdot
      else if at m p = DOT \<and> SEP (at m (p + 1)) then clean_loop m rooted (p + 1) q dotdot
      else if at m p = DOT \<and> at m (p + 1) = DOT \<and> SEP (at m (p + 2)) then
        if q > dotdot then clean_loop m rooted (p + 2) (backtrack m q dotdot) dotdot
        else if \<not> rooted then
          case (if q \<noteq> 0 then (m[q := SLASH], q + 1) else (m, q)) of
            (m, q) \<Rightarrow> clean_loop (m[q := DOT, q + 1 := DOT]) rooted (p + 2) (q + 2) (q + 2)
        else clean_loop m rooted (p + 2) q dotdot
      else
        case (if q \<noteq> (if rooted then 1 else 0) then (m[q := SLASH], q + 1) else (m, q)) of
          (m, q) \<Rightarrow> (case copy_elem m p q of (m, p, q) \<Rightarrow> clean_loop m rooted p q dotdot))"

definition cleanname :: "u8 list \<Rightarrow> u8 list option" where
  "cleanname m =
     (let rooted = (at m 0 = SLASH); p = (if rooted then 1 else 0) in
      case clean_loop m rooted p p p of
        None \<Rightarrow> None
      | Some (m, q) \<Rightarrow>
          Some (case (if q = 0 then (m[q := DOT], q + 1) else (m, q)) of (m, q) \<Rightarrow> m[q := 0]))"

subsection \<open>The lexical meaning of a path name\<close>

function elems :: "u8 list \<Rightarrow> u8 list list" where
  "elems [] = []"
| "elems (c # s) =
     (if c = SLASH then elems s
      else takeWhile (\<lambda>b. b \<noteq> SLASH) (c # s) # elems (dropWhile (\<lambda>b. b \<noteq> SLASH) (c # s)))"
  by pat_completeness auto
termination
  by (relation "measure length") (auto simp: le_imp_less_Suc length_dropWhile_le)

declare elems.simps(2) [simp del]

fun clean_step :: "bool \<Rightarrow> nat \<times> u8 list list \<Rightarrow> u8 list \<Rightarrow> nat \<times> u8 list list" where
  "clean_step rooted (u, st) e =
     (if e = [DOT] then (u, st)
      else if e = [DOT, DOT] then
        if st \<noteq> [] then (u, butlast st) else if rooted then (u, st) else (u + 1, st)
      else (u, st @ [e]))"

fun join :: "u8 list list \<Rightarrow> u8 list" where
  "join [] = []"
| "join [x] = x"
| "join (x # y # ys) = x @ SLASH # join (y # ys)"

definition path :: "nat \<times> u8 list list \<Rightarrow> u8 list" where
  "path us = join (replicate (fst us) [DOT, DOT] @ snd us)"

definition rooted :: "u8 list \<Rightarrow> bool" where
  "rooted s \<longleftrightarrow> s \<noteq> [] \<and> hd s = SLASH"

definition clean :: "u8 list \<Rightarrow> u8 list" where
  "clean s =
     (let r = (if rooted s then [SLASH] else []) @ path (foldl (clean_step (rooted s)) (0, []) (elems s))
      in if r = [] then [DOT] else r)"

lemma join_snoc: "join (xs @ [x]) = (if xs = [] then x else join xs @ SLASH # x)"
  by (induction xs rule: join.induct) auto

lemma join_eq_Nil: "[] \<notin> set xs \<Longrightarrow> join xs = [] \<longleftrightarrow> xs = []"
  by (induction xs rule: join.induct) auto

lemma drop_ConsD:
  assumes "drop p m = c # w"
  shows "p < length m" "m ! p = c" "drop (Suc p) m = w"
proof -
  show l: "p < length m" using assms by (metis drop_all list.distinct(1) not_le)
  show "m ! p = c" "drop (Suc p) m = w" using assms l by (simp_all add: Cons_nth_drop_Suc [symmetric])
qed

lemma copy_elem_ok:
  assumes "drop p m = e @ c # w" "SEP c" "\<forall>b\<in>set e. \<not> SEP b" "q \<le> p"
  shows "\<exists>m'. copy_elem m p q = (m', p + length e, q + length e) \<and> take (q + length e) m' = take q m @ e \<and>
    drop (p + length e) m' = drop (p + length e) m \<and> length m' = length m"
  using assms
proof (induction e arbitrary: m p q)
  case Nil
  note l = drop_ConsD [OF Nil.prems(1) [unfolded append_Nil]]
  have "drop p (m[q := c]) = drop p m" using Nil.prems(1,4) l
    by (cases "p = q") (auto simp: drop_update_swap Cons_nth_drop_Suc [symmetric])
  then show ?case using l Nil.prems(2,4)
    by (subst copy_elem.simps) (auto simp: Let_def at_def SEP_def)
next
  case (Cons b e)
  note l = drop_ConsD [OF Cons.prems(1) [unfolded append_Cons]]
  have b: "b \<noteq> SLASH" "b \<noteq> 0" using Cons.prems(3) by (auto simp: SEP_def)
  have d: "drop (p + 1) (m[q := b]) = e @ c # w" using l(3) Cons.prems(4) by simp
  obtain m' where m': "copy_elem (m[q := b]) (p + 1) (q + 1) = (m', p + 1 + length e, q + 1 + length e)"
    "take (q + 1 + length e) m' = take (q + 1) (m[q := b]) @ e"
    "drop (p + 1 + length e) m' = drop (p + 1 + length e) (m[q := b])" "length m' = length m"
    using Cons.IH [OF d Cons.prems(2), of "q + 1"] Cons.prems(3,4) by auto
  have "take (q + 1) (m[q := b]) = take q m @ [b]" using l(1) Cons.prems(4)
    by (simp add: take_Suc_conv_app_nth)
  then show ?case using m' b l(1,2) Cons.prems(4)
    by (subst copy_elem.simps) (simp add: Let_def at_def)
qed

lemma backtrack_ok:
  assumes "take q m = a @ e" "\<forall>b\<in>set e. b \<noteq> SLASH" "length a = d \<or> d < length a \<and> last a = SLASH" "e \<noteq> []"
    "q = length a + length e"
  shows "backtrack m q d = (if length a = d then d else length a - 1)"
  using assms
proof (induction e arbitrary: q rule: rev_induct)
  case (snoc b e)
  let ?q = "length a + length e"
  have q: "q = Suc ?q" using snoc.prems(5) by simp
  have lm: "?q < length m" using arg_cong [OF snoc.prems(1), of length] q by simp
  have t: "take (Suc ?q) m = take ?q m @ [m ! ?q]" using lm by (rule take_Suc_conv_app_nth)
  then have m: "m ! ?q = b" "take ?q m = a @ e" using snoc.prems(1) unfolding q by simp_all
  show ?case
  proof (cases "e = []")
    case False
    then have "backtrack m ?q d = (if length a = d then d else length a - 1)"
      using snoc.IH [OF m(2) _ snoc.prems(3)] snoc.prems(2) by simp
    then show ?thesis using snoc.prems(2,3) m(1) lm False unfolding q by (auto simp: at_def)
  next
    case True
    show ?thesis
    proof (cases "length a = d")
      case False
      then have a: "d < length a" "last a = SLASH" "a \<noteq> []" using snoc.prems(3) by auto
      have "m ! (length a - 1) = take (length a) m ! (length a - 1)" using a(3) by simp
      also have "\<dots> = SLASH" using m(2) True a(2,3) by (simp add: last_conv_nth)
      finally have "at m (length a - 1) = SLASH" using lm True by (simp add: at_def)
      moreover obtain k where "length a = Suc k" using a(3) by (cases a) auto
      ultimately show ?thesis using a(1) snoc.prems(2) m(1) lm True unfolding q by (simp add: at_def)
    qed (simp add: q True)
  qed
qed simp

subsection \<open>The loop invariant\<close>

abbreviation base :: "bool \<Rightarrow> u8 list" where
  "base rt \<equiv> (if rt then [SLASH] else [])"

definition good_elems :: "u8 list list \<Rightarrow> bool" where
  "good_elems st \<longleftrightarrow> (\<forall>e\<in>set st. e \<noteq> [] \<and> (\<forall>b\<in>set e. \<not> SEP b))"

text \<open>
  Before \<open>p\<close> reads the rest \<open>r\<close> of the name, the first \<open>q\<close> bytes are the cleaned path so far and
  \<open>q\<close> has not overtaken \<open>p\<close>.
\<close>

definition cinv :: "bool \<Rightarrow> u8 list \<Rightarrow> nat \<Rightarrow> nat \<Rightarrow> nat \<Rightarrow> nat \<Rightarrow> u8 list list \<Rightarrow> u8 list \<Rightarrow> u8 list \<Rightarrow> bool" where
  "cinv rt m p q d u st r w \<longleftrightarrow>
     drop p m = r @ 0 # w \<and> take q m = base rt @ path (u, st) \<and> q = length (base rt @ path (u, st)) \<and>
     d = length (base rt @ path (u, [])) \<and> good_elems st \<and> (rt \<longrightarrow> u = 0) \<and>
     q \<le> p \<and> (q = length (base rt) \<or> q < p \<or> SEP (at m p))"

lemma join_append: "xs \<noteq> [] \<Longrightarrow> ys \<noteq> [] \<Longrightarrow> join (xs @ ys) = join xs @ SLASH # join ys"
proof (induction xs rule: join.induct)
  case (2 x)
  then show ?case by (cases ys) auto
qed auto

lemma path_snoc: "path (u, st @ [e]) = (if u = 0 \<and> st = [] then e else path (u, st) @ SLASH # e)"
  using join_snoc [of "replicate u [DOT, DOT] @ st" e] by (auto simp: path_def)

lemma path_Suc: "path (Suc u, []) = (if u = 0 then [DOT, DOT] else path (u, []) @ [SLASH, DOT, DOT])"
  using join_snoc [of "replicate u [DOT, DOT]" "[DOT, DOT]"]
  unfolding path_def fst_conv snd_conv append_Nil2 replicate_Suc replicate_append_same [symmetric]
  by (cases u) simp_all

lemma path_Nil: "good_elems st \<Longrightarrow> path (u, st) = [] \<longleftrightarrow> u = 0 \<and> st = []"
  by (auto simp: path_def join_eq_Nil good_elems_def)

lemma path_le: "length (path (u, [])) \<le> length (path (u, st))"
proof (cases "u = 0 \<or> st = []")
  case False
  then show ?thesis using join_append [of "replicate u [DOT, DOT]" st] by (simp add: path_def)
qed (auto simp: path_def)

lemma good_elems_snoc: "good_elems (st @ [e]) \<longleftrightarrow> good_elems st \<and> e \<noteq> [] \<and> (\<forall>b\<in>set e. \<not> SEP b)"
  by (auto simp: good_elems_def)

lemma at_rest: "drop p m = x \<Longrightarrow> at m (p + i) = at x i"
  by (metis at_drop)

lemma element_tests:
  assumes "drop p m = e @ c # w" "SEP c" "e \<noteq> []" "\<forall>b\<in>set e. \<not> SEP b"
  shows "at m p = hd e" "\<not> SEP (at m p)"
    "at m p = DOT \<and> SEP (at m (p + 1)) \<longleftrightarrow> e = [DOT]"
    "at m p = DOT \<and> at m (p + 1) = DOT \<and> SEP (at m (p + 2)) \<longleftrightarrow> e = [DOT, DOT]"
proof -
  note a = at_rest [OF assms(1)]
  have n: "\<not> SEP DOT" by (simp add: SEP_def)
  obtain x xs where e: "e = x # xs" using assms(3) by (cases e) auto
  show "at m p = hd e" "\<not> SEP (at m p)" using a [of 0] e assms(4) by simp_all
  show "at m p = DOT \<and> SEP (at m (p + 1)) \<longleftrightarrow> e = [DOT]"
    using a [of 0] a [of 1] e assms(2,4) by (cases xs) auto
  show "at m p = DOT \<and> at m (p + 1) = DOT \<and> SEP (at m (p + 2)) \<longleftrightarrow> e = [DOT, DOT]"
    using a [of 0] a [of 1] a [of 2] e assms(2,4) n by (cases xs; cases "tl xs") auto
qed

lemma cinv_skip:
  assumes "cinv rt m p q d u st (e @ r) w" "e \<noteq> []"
  shows "cinv rt m (p + length e) q d u st r w"
proof -
  have "drop p m = e @ r @ 0 # w" using assms(1) by (simp add: cinv_def)
  from arg_cong [OF this, of "drop (length e)"] have "drop (p + length e) m = r @ 0 # w" by (simp add: add.commute)
  moreover have "q < p + length e" using assms by (cases e) (auto simp: cinv_def)
  moreover from this have "q \<le> p + length e" by simp
  ultimately show ?thesis using assms(1) unfolding cinv_def by blast
qed

lemma path_0 [simp]: "path (0, []) = []"
  by (simp add: path_def)

lemma cinv_up:
  assumes "cinv rt m p q d u (st @ [x]) r w"
  shows "q > d" "cinv rt m p (backtrack m q d) d u st r w"
proof -
  define a where "a = base rt @ (if u = 0 \<and> st = [] then [] else path (u, st) @ [SLASH])"
  have ax: "base rt @ path (u, st @ [x]) = a @ x" by (simp add: a_def path_snoc)
  from assms have t: "take q m = a @ x" and q: "q = length a + length x"
    unfolding cinv_def ax by (metis, metis length_append)
  from assms have x: "x \<noteq> []" "\<forall>b\<in>set x. b \<noteq> SLASH" and st: "good_elems st"
    by (auto simp: cinv_def good_elems_snoc SEP_def)
  have d: "d = length (base rt @ path (u, []))" using assms by (simp add: cinv_def)
  have a: "length a = d \<or> d < length a \<and> last a = SLASH" using path_le [of u st] by (auto simp: d a_def)
  show "q > d" using a x(1) q by (cases x) auto
  let ?q = "length (base rt @ path (u, st))"
  have b: "backtrack m q d = ?q"
    unfolding backtrack_ok [OF t x(2) a x(1) q] using path_le [of u st] by (auto simp: d a_def)
  have la: "take ?q a = base rt @ path (u, st)" "?q \<le> length a" by (auto simp: a_def)
  then have "take ?q (take q m) = base rt @ path (u, st)" unfolding t by simp
  then have "take ?q m = base rt @ path (u, st)" using la(2) q by (simp add: min_def del: length_append)
  moreover have "?q < q" using la(2) q x(1) by (cases x) simp_all
  ultimately show "cinv rt m p (backtrack m q d) d u st r w" using assms st unfolding b cinv_def
    by (auto simp del: length_append)
qed

lemma take_update2:
  "q + 1 < length m \<Longrightarrow> take (q + 2) (m[q := x, q + 1 := y]) = take q m @ [x, y]"
  by (simp add: take_Suc_conv_app_nth numeral_2_eq_2)

lemma cinv_push:
  assumes "cinv False m p q d u [] ([DOT, DOT] @ r) w" "(if q \<noteq> 0 then (m[q := SLASH], q + 1) else (m, q)) = (m1, q1)"
    "r = [] \<or> hd r = SLASH"
  shows "cinv False (m1[q1 := DOT, q1 + 1 := DOT]) (p + 2) (q1 + 2) (q1 + 2) (u + 1) [] r w"
    "length (m1[q1 := DOT, q1 + 1 := DOT]) = length m"
proof -
  from assms(1) have c: "drop p m = DOT # DOT # r @ 0 # w" "take q m = path (u, [])" "q = length (path (u, []))"
    "q \<le> p" "q = 0 \<or> q < p \<or> SEP (at m p)" by (auto simp: cinv_def)
  have p: "p < length m" "p + 1 < length m" "at m p = DOT" "drop (p + 2) m = r @ 0 # w"
    using drop_ConsD [OF c(1)] drop_ConsD [of "Suc p" m DOT "r @ 0 # w"] by (simp_all add: at_def)
  have u: "q = 0 \<longleftrightarrow> u = 0" using path_Nil [of "[]" u] c(3) by (simp add: good_elems_def)
  have q: "q = 0 \<or> q < p" using c(5) p(3) by (auto simp: SEP_def)
  show "length (m1[q1 := DOT, q1 + 1 := DOT]) = length m" using assms(2) by (auto split: if_splits)
  have m1: "take q1 m1 = path (u, []) @ (if u = 0 then [] else [SLASH])" "q1 \<le> p" "length m1 = length m"
    "drop (p + 2) m1 = drop (p + 2) m"
    using assms(2) c(2,4) q u p(1) by (auto simp: take_Suc_conv_app_nth split: if_splits)
  have t: "take (q1 + 2) (m1[q1 := DOT, q1 + 1 := DOT]) = path (u + 1, [])"
    using m1 p(2) by (subst take_update2) (auto simp: path_Suc [of u, simplified] path_Suc)
  moreover have "q1 + 2 = length (path (u + 1, []))"
    using arg_cong [OF t, of length] m1(2,3) p(2) by simp
  moreover have "drop (p + 2) (m1[q1 := DOT, q1 + 1 := DOT]) = r @ 0 # w" using m1(2,4) p(4) by simp
  moreover from this have "SEP (at (m1[q1 := DOT, q1 + 1 := DOT]) (p + 2))"
    using at_rest [of "p + 2" _ "r @ 0 # w" 0] assms(3) by (cases r) (auto simp: SEP_def)
  ultimately show "cinv False (m1[q1 := DOT, q1 + 1 := DOT]) (p + 2) (q1 + 2) (q1 + 2) (u + 1) [] r w"
    using m1(2) by (auto simp: cinv_def good_elems_def)
qed

lemma cinv_elem:
  assumes "cinv rt m p q d u st (e @ r) w" "(if q \<noteq> (if rt then 1 else 0) then (m[q := SLASH], q + 1) else (m, q)) = (m1, q1)"
    "r = [] \<or> hd r = SLASH" "e \<noteq> []" "\<forall>b\<in>set e. \<not> SEP b"
  shows "\<exists>m2 q2. copy_elem m1 p q1 = (m2, p + length e, q2) \<and> cinv rt m2 (p + length e) q2 d u (st @ [e]) r w \<and>
    length m2 = length m"
proof -
  let ?b = "base rt"
  from assms(1) have c: "drop p m = e @ r @ 0 # w" "take q m = ?b @ path (u, st)" "q = length (?b @ path (u, st))"
    "d = length (?b @ path (u, []))" "good_elems st" "rt \<longrightarrow> u = 0"
    "q \<le> p" "q = length ?b \<or> q < p \<or> SEP (at m p)" unfolding cinv_def append_assoc by blast+
  obtain x t where t: "r @ 0 # w = x # t" "SEP x" using assms(3) by (cases r) (auto simp: SEP_def)
  have "\<not> SEP (at m p)" using element_tests(2) [OF c(1) [unfolded t(1)] t(2) assms(4,5)] .
  then have q: "q = length ?b \<or> q < p" using c(8) by simp
  have e: "q = length ?b \<longleftrightarrow> u = 0 \<and> st = []" using path_Nil [OF c(5), of u] c(3) by simp
  have p: "p < length m" using c(1) assms(4) by (cases "p < length m") auto
  have m1: "take q1 m1 = ?b @ path (u, st) @ (if u = 0 \<and> st = [] then [] else [SLASH])" "q1 \<le> p" "length m1 = length m"
    "drop p m1 = drop p m"
    using assms(2) c(2,7) q e p by (auto simp: take_Suc_conv_app_nth split: if_splits)
  obtain m2 where m2: "copy_elem m1 p q1 = (m2, p + length e, q1 + length e)" "take (q1 + length e) m2 = take q1 m1 @ e"
    "drop (p + length e) m2 = drop (p + length e) m1" "length m2 = length m1"
    using copy_elem_ok [OF _ t(2) assms(5) m1(2)] m1(4) c(1) t(1) by metis
  have "drop (p + length e) m1 = drop (length e) (drop p m1)" by (simp add: add.commute)
  then have d2: "drop (p + length e) m2 = r @ 0 # w" unfolding m2(3) m1(4) c(1) by simp
  have t2: "take (q1 + length e) m2 = ?b @ path (u, st @ [e])" unfolding m2(2) m1(1) by (simp add: path_snoc)
  have "p + length e \<le> length m" using arg_cong [OF c(1), of length] p by simp
  then have q2: "q1 + length e = length (?b @ path (u, st @ [e]))"
    using arg_cong [OF t2, of length] m1(2,3) m2(4) by (simp add: min_def split: if_splits)
  have "SEP (at m2 (p + length e))" using at_rest [OF d2, of 0] t by simp
  then have "cinv rt m2 (p + length e) (q1 + length e) d u (st @ [e]) r w"
    unfolding cinv_def using d2 t2 q2 c(4-6) m1(2) assms(4,5) by (simp add: good_elems_snoc)
  then show ?thesis using m2(1,4) m1(3) by metis
qed

lemma elems_split:
  assumes "r \<noteq> []" "hd r \<noteq> SLASH" "nul_free r"
  obtains e r2 where "r = e @ r2" "e \<noteq> []" "\<forall>b\<in>set e. \<not> SEP b" "r2 = [] \<or> hd r2 = SLASH" "elems r = e # elems r2"
proof
  let ?e = "takeWhile (\<lambda>b. b \<noteq> SLASH) r" let ?r = "dropWhile (\<lambda>b. b \<noteq> SLASH) r"
  show "r = ?e @ ?r" by simp
  show "?e \<noteq> []" "elems r = ?e # elems ?r" using assms(1,2) by (cases r; simp add: elems.simps)+
  show "\<forall>b\<in>set ?e. \<not> SEP b" using assms(3) by (auto simp: SEP_def nul_free_def dest: set_takeWhileD)
  show "?r = [] \<or> hd ?r = SLASH" using hd_dropWhile [of "\<lambda>b. b \<noteq> SLASH" r] by auto
qed

definition returns :: "bool \<Rightarrow> nat \<Rightarrow> nat \<Rightarrow> u8 list \<Rightarrow> nat \<times> u8 list list \<Rightarrow> (u8 list \<times> nat) option \<Rightarrow> bool" where
  "returns rt len k w us res \<longleftrightarrow>
     (\<exists>m' q'. res = Some (m', q') \<and> take q' m' = base rt @ path us \<and> q' = length (base rt @ path us) \<and>
        q' \<le> k \<and> drop k m' = 0 # w \<and> length m' = len)"

lemma clean_loop_ok:
  assumes "cinv rt m p q d u st r w" "nul_free r"
  shows "returns rt (length m) (p + length r) w (foldl (clean_step rt) (u, st) (elems r)) (clean_loop m rt p q d)"
  using assms
proof (induction "length r" arbitrary: r m p q d u st rule: less_induct)
  case less
  note c = less.prems(1)
  have dr: "drop p m = r @ 0 # w" using c by (simp add: cinv_def)
  note at0 = at_rest [OF dr, of 0, simplified]
  consider "r = []" | s where "r = SLASH # s" | "r \<noteq> []" "hd r \<noteq> SLASH" by (cases r) auto
  then show ?case
  proof cases
    case 1
    then have "clean_loop m rt p q d = Some (m, q)" using at0 by (subst clean_loop.simps) simp
    then show ?thesis using c 1 unfolding cinv_def returns_def by auto
  next
    case (2 s)
    have n: "cinv rt m (p + 1) q d u st s w" "nul_free s" "at m p = SLASH"
      using cinv_skip [of rt m p q d u st "[SLASH]" s w] c less.prems(2) at0 by (simp_all add: 2 nul_free_def)
    have "clean_loop m rt p q d = clean_loop m rt (p + 1) q d" using n(3) by (subst clean_loop.simps) simp
    then show ?thesis using less.hyps [OF _ n(1,2)] by (simp add: 2 elems.simps)
  next
    case 3
    then obtain e r2 where e: "r = e @ r2" "e \<noteq> []" "\<forall>b\<in>set e. \<not> SEP b" "r2 = [] \<or> hd r2 = SLASH" "elems r = e # elems r2"
      using less.prems(2) by (rule elems_split)
    obtain x t where t: "r2 @ 0 # w = x # t" "SEP x" using e(4) by (cases r2) (auto simp: SEP_def)
    have de: "drop p m = e @ x # t" using dr e(1) t(1) by simp
    note tests = element_tests [OF de t(2) e(2,3)]
    have z: "at m p \<noteq> 0" "at m p \<noteq> SLASH" using tests(2) by (auto simp: SEP_def)
    have r2: "length r2 < length r" "nul_free r2" "p + length r = p + length e + length r2"
      using e(1,2) less.prems(2) by (auto simp: nul_free_def)
    have skip: "cinv rt m (p + length e) q d u st r2 w" using cinv_skip c e(1,2) by blast
    consider "e = [DOT]" | "e = [DOT, DOT]" "st \<noteq> []" | "e = [DOT, DOT]" "st = []" "rt" | "e = [DOT, DOT]" "st = []" "\<not> rt"
      | "e \<noteq> [DOT]" "e \<noteq> [DOT, DOT]" by blast
    then show ?thesis
    proof cases
      case 1
      have "clean_loop m rt p q d = clean_loop m rt (p + 1) q d"
        using z tests(3) 1 by (subst clean_loop.simps) simp
      then show ?thesis using less.hyps [OF r2(1) skip r2(2)] 1 e(5) r2(3) by simp
    next
      case 2
      obtain ys y where st: "st = ys @ [y]" using 2(2) by (metis rev_exhaust)
      note up = cinv_up [OF skip [unfolded st]]
      have "clean_loop m rt p q d = clean_loop m rt (p + 2) (backtrack m q d) d"
        using z tests(3,4) 2(1) up(1) by (subst clean_loop.simps) auto
      then show ?thesis using less.hyps [OF r2(1) up(2) r2(2)] 2 st e(5) r2(3) by (simp add: numeral_2_eq_2)
    next
      case 3
      have "\<not> q > d" using c 3 by (simp add: cinv_def)
      then have "clean_loop m rt p q d = clean_loop m rt (p + 2) q d"
        using z tests(3,4) 3 by (subst clean_loop.simps) auto
      then show ?thesis using less.hyps [OF r2(1) skip r2(2)] 3 e(5) r2(3) by (simp add: numeral_2_eq_2)
    next
      case 4
      obtain m1 q1 where m1: "(if q \<noteq> 0 then (m[q := SLASH], q + 1) else (m, q)) = (m1, q1)" by fastforce
      have "\<not> q > d" using c 4 by (simp add: cinv_def)
      then have "clean_loop m rt p q d = clean_loop (m1[q1 := DOT, q1 + 1 := DOT]) rt (p + 2) (q1 + 2) (q1 + 2)"
        using z tests(3,4) 4(1,3) m1 by (subst clean_loop.simps) (auto simp: SEP_def split: if_splits)
      moreover have "cinv False m p q d u [] ([DOT, DOT] @ r2) w" using c e(1) 4 by simp
      note push = cinv_push [OF this m1 e(4)]
      have "cinv rt (m1[q1 := DOT, q1 + 1 := DOT]) (p + 2) (q1 + 2) (q1 + 2) (u + 1) [] r2 w"
        using push(1) 4 by simp
      note IH = less.hyps [OF r2(1) this r2(2)]
      ultimately show ?thesis
        using IH push(2) 4 e(5) r2(3) by (simp add: numeral_2_eq_2)
    next
      case 5
      obtain m1 q1 where m1: "(if q \<noteq> (if rt then 1 else 0) then (m[q := SLASH], q + 1) else (m, q)) = (m1, q1)"
        by fastforce
      obtain m2 q2 where m2: "copy_elem m1 p q1 = (m2, p + length e, q2)" "length m2 = length m"
        "cinv rt m2 (p + length e) q2 d u (st @ [e]) r2 w"
        using cinv_elem [OF c [unfolded e(1)] m1 e(4,2,3)] by blast
      have "clean_loop m rt p q d = clean_loop m2 rt (p + length e) q2 d"
        using z tests(3,4) 5 by (subst clean_loop.simps) (simp only: m1 m2(1) if_True if_False prod.case simp_thms)
      then show ?thesis using less.hyps [OF r2(1) m2(3) r2(2)] m2(2) 5 e(5) r2(3) by (simp add: add.assoc)
    qed
  qed
qed

lemma nul_free_join: "list_all nul_free xs \<Longrightarrow> nul_free (join xs)"
  by (induction xs rule: join.induct) (auto simp: nul_free_def)

lemma nul_free_elems: "nul_free s \<Longrightarrow> list_all nul_free (elems s)"
proof (induction s rule: elems.induct)
  case (2 c s)
  have "nul_free (takeWhile (\<lambda>b. b \<noteq> SLASH) (c # s))" "nul_free (dropWhile (\<lambda>b. b \<noteq> SLASH) (c # s))"
    using 2(3) by (auto simp: nul_free_def dest: set_takeWhileD set_dropWhileD)
  then show ?case using 2 by (cases "c = SLASH") (simp_all add: elems.simps nul_free_def)
qed simp

lemma nul_free_steps:
  "list_all nul_free es \<Longrightarrow> list_all nul_free (snd us) \<Longrightarrow> list_all nul_free (snd (foldl (clean_step rt) us es))"
proof (induction es arbitrary: us)
  case (Cons e es)
  have "list_all nul_free (snd (clean_step rt us e))"
    using Cons.prems by (cases us) (auto simp: list_all_iff dest: in_set_butlastD)
  then show ?case using Cons by simp
qed simp

lemma nul_free_path: "list_all nul_free (snd us) \<Longrightarrow> nul_free (path us)"
  unfolding path_def by (rule nul_free_join) (auto simp: list_all_iff nul_free_def)

lemma cleanname_result:
  assumes "nul_free s" "s \<noteq> [] \<or> w \<noteq> []"
  shows "\<exists>m. cleanname (s @ 0 # w) = Some m \<and> cstr m = clean s \<and> length (cstr m) < length m \<and>
    length m = length (s @ 0 # w) \<and> (if s = [] then m = DOT # 0 # tl w else drop (length s + 1) m = w)"
proof -
  let ?m = "s @ 0 # w" let ?rt = "rooted s"
  let ?p = "if ?rt then 1 else 0 :: nat"
  have rt: "at ?m 0 = SLASH \<longleftrightarrow> ?rt" by (cases s) (auto simp: rooted_def)
  have c: "cinv ?rt ?m ?p ?p ?p 0 [] (drop ?p s) w"
    using rt by (cases s) (auto simp: cinv_def good_elems_def rooted_def)
  have n: "nul_free (drop ?p s)" using assms(1) by (auto simp: nul_free_def dest: in_set_dropD)
  have e: "elems (drop ?p s) = elems s" by (cases s) (auto simp: rooted_def elems.simps)
  have ls: "?p + length (drop ?p s) = length s" by (cases s) (auto simp: rooted_def)
  let ?r = "base ?rt @ path (foldl (clean_step ?rt) (0, []) (elems s))"
  from clean_loop_ok [OF c n, unfolded e ls returns_def] obtain m q where l: "clean_loop ?m ?rt ?p ?p ?p = Some (m, q)"
    "take q m = ?r" "q = length ?r"
    "q \<le> length s" "drop (length s) m = 0 # w" "length m = length ?m"
    by blast
  have lq: "q < length m" using l(4,6) by simp
  have rq: "length ?r < length m" using l(3) lq by simp
  have r0: "nul_free ?r"
    using nul_free_path [OF nul_free_steps [OF nul_free_elems [OF assms(1)], of "(0, [])" ?rt]] by (simp add: nul_free_def)
  show ?thesis
  proof (cases "q = 0")
    case True
    then have "clean s = [DOT]" using l(3) by (simp add: clean_def)
    moreover have "1 < length m" using assms(2) l(6) by (cases s) auto
    then obtain a b t where m: "m = a # b # t" by (cases m; cases "tl m") auto
    then have "cstr (m[0 := DOT, 1 := 0]) = [DOT]" "length [DOT] < length m" by (simp_all add: cstr_def)
    moreover have "s = [] \<Longrightarrow> m[0 := DOT, 1 := 0] = DOT # 0 # tl w"
      "s \<noteq> [] \<Longrightarrow> drop (length s + 1) (m[0 := DOT, 1 := 0]) = w"
      using drop_ConsD(3) [OF l(5)] l(5) m by (cases s; auto)+
    ultimately show ?thesis using l(1,6) True rt by (simp add: cleanname_def Let_def)
  next
    case False
    then have "clean s = ?r" using l(3) by (auto simp: clean_def Let_def)
    moreover have "m[q := 0] = ?r @ 0 # drop (Suc q) m" using l(2) lq by (simp add: upd_conv_take_nth_drop)
    then have "cstr (m[q := 0]) = ?r" using r0 by (simp add: cstr_def nul_free_def takeWhile_append)
    moreover have "s \<noteq> []" using False l(4) by auto
    moreover have "drop (length s + 1) (m[q := 0]) = w" using l(4) drop_ConsD(3) [OF l(5)] by simp
    ultimately show ?thesis using l(1,6) rq False rt by (simp add: cleanname_def Let_def)
  qed
qed

text \<open>
  C26: \<open>cleanname\<close> always returns, and rewrites the name in place to its lexically cleaned form:
  no empty and no dot elements, every \<open>..\<close> cancelled against the element before it, kept only in front of a
  relative path and dropped at the root.  It touches no byte behind the terminator of a name that is not
  empty; the empty name becomes a dot and a terminator, which overwrites exactly the one byte behind it.
\<close>
theorem cleanname_clean:
  assumes "nul_free s" "s \<noteq> [] \<or> w \<noteq> []"
  shows "\<exists>m. cleanname (s @ 0 # w) = Some m \<and> cstr m = clean s \<and> length m = length (s @ 0 # w) \<and>
    (if s = [] then m = DOT # 0 # tl w else drop (length s + 1) m = w)"
  using cleanname_result [OF assms] by blast

lemma cleanname_clean_witness:
  "(\<exists>m. cleanname [47, 97, 47, 46, 46, 47, 47, 98, 0, 7] = Some m \<and> cstr m = [47, 98] \<and> drop 9 m = [7]) \<and>
   cleanname [0, 7, 8] = Some [46, 0, 8]"
proof -
  have nine: "drop 9 m = drop (length [47, 97, 47, 46, 46, 47, 47, 98 :: u8] + 1) m" for m :: "u8 list"
    by (simp add: numeral_eq_Suc)
  have "nul_free [47, 97, 47, 46, 46, 47, 47, 98 :: u8]" by (simp add: nul_free_def)
  from cleanname_clean [OF this, of "[7]"] show ?thesis unfolding nine
    using cleanname_clean [of "[]" "[7, 8]"] by (auto simp: nul_free_def clean_def rooted_def elems.simps path_def)
qed

text \<open>The name of no bytes needs a second byte for its result: in a buffer of one the terminator is lost.\<close>

lemma cleanname_empty: "cleanname [0] = Some [DOT]"
  by (simp add: cleanname_def clean_loop.simps Let_def)

subsection \<open>Cleaned names\<close>

definition real :: "u8 list \<Rightarrow> bool" where
  "real e \<longleftrightarrow> e \<noteq> [] \<and> SLASH \<notin> set e \<and> e \<noteq> [DOT] \<and> e \<noteq> [DOT, DOT]"

lemma elems_append:
  assumes "e \<noteq> []" "SLASH \<notin> set e" "r = [] \<or> hd r = SLASH"
  shows "elems (e @ r) = e # elems r"
proof -
  obtain c s where e: "e = c # s" using assms(1) by (cases e) auto
  have t: "takeWhile (\<lambda>b. b \<noteq> SLASH) r = []" "dropWhile (\<lambda>b. b \<noteq> SLASH) r = r" using assms(3) by (cases r; simp)+
  have "takeWhile (\<lambda>b. b \<noteq> SLASH) (e @ r) = e" "dropWhile (\<lambda>b. b \<noteq> SLASH) (e @ r) = r"
    using assms(2) t by (subst takeWhile_append2 dropWhile_append2; auto)+
  then show ?thesis using assms(2) e by (auto simp: elems.simps(2))
qed

lemma elems_join: "\<forall>e\<in>set xs. e \<noteq> [] \<and> SLASH \<notin> set e \<Longrightarrow> elems (join xs) = xs"
proof (induction xs rule: join.induct)
  case (2 x)
  then show ?case using elems_append [of x "[]"] by simp
next
  case (3 x y ys)
  then show ?case using elems_append [of x "SLASH # join (y # ys)"] by (simp add: elems.simps)
qed simp

lemma hd_join: "\<forall>e\<in>set xs. e \<noteq> [] \<and> SLASH \<notin> set e \<Longrightarrow> xs \<noteq> [] \<Longrightarrow> hd (join xs) \<noteq> SLASH"
  by (cases xs rule: join.cases) (auto simp: neq_Nil_conv)

lemma elems_base: "elems (base rt @ s) = elems s"
  by (simp add: elems.simps)

lemma real_elems: "e \<in> set (elems s) \<Longrightarrow> e \<noteq> [] \<and> SLASH \<notin> set e"
proof (induction s rule: elems.induct)
  case (2 c s)
  then show ?case by (auto simp: elems.simps dest: set_takeWhileD split: if_splits)
qed simp

lemma steps_real:
  "\<forall>e\<in>set es. e \<noteq> [] \<and> SLASH \<notin> set e \<Longrightarrow> list_all real (snd us) \<and> (rt \<longrightarrow> fst us = 0) \<Longrightarrow>
   list_all real (snd (foldl (clean_step rt) us es)) \<and> (rt \<longrightarrow> fst (foldl (clean_step rt) us es) = 0)"
proof (induction es arbitrary: us)
  case (Cons e es)
  have "list_all real (snd (clean_step rt us e)) \<and> (rt \<longrightarrow> fst (clean_step rt us e) = 0)"
    using Cons.prems by (cases us) (auto simp: real_def list_all_iff dest: in_set_butlastD)
  then show ?case using Cons by (cases rt) simp_all
qed simp

lemma steps_ups: "foldl (clean_step False) (u, []) (replicate n [DOT, DOT]) = (u + n, [])"
  by (induction n arbitrary: u) auto

lemma steps_reals: "list_all real es \<Longrightarrow> foldl (clean_step rt) (u, st) es = (u, st @ es)"
  by (induction es arbitrary: st) (auto simp: real_def)

lemma clean_normal:
  "clean (clean s) = clean s \<and>
   (rooted s \<longrightarrow> rooted (clean s) \<and> list_all real (elems (clean s)))"
proof -
  obtain u st where us: "foldl (clean_step (rooted s)) (0, []) (elems s) = (u, st)" by fastforce
  have r: "list_all real st" "rooted s \<longrightarrow> u = 0"
    using steps_real [of "elems s" "(0, [])" "rooted s"] real_elems us by auto
  let ?xs = "replicate u [DOT, DOT] @ st"
  have c: "clean s = (let r = base (rooted s) @ join ?xs in if r = [] then [DOT] else r)"
    by (simp add: clean_def us path_def)
  have g: "\<forall>e\<in>set ?xs. e \<noteq> [] \<and> SLASH \<notin> set e" 
  proof
    fix e assume "e \<in> set ?xs"
    then have "e = [DOT, DOT] \<or> real e" using r(1) by (auto simp: list_all_iff)
    then show "e \<noteq> [] \<and> SLASH \<notin> set e" by (auto simp: real_def)
  qed
  then have e: "elems (join ?xs) = ?xs" by (rule elems_join)
  have f: "foldl (clean_step rt) (0, []) ?xs = (u, st)" if "rt \<longrightarrow> u = 0" for rt
  proof -
    have "foldl (clean_step rt) (0, []) (replicate u [DOT, DOT]) = (u, [])"
      using that steps_ups [of 0 u] by (cases rt) simp_all
    then show ?thesis unfolding foldl_append using steps_reals [OF r(1), of rt u "[]"] by simp
  qed
  show ?thesis
  proof (cases "rooted s")
    case True
    then have cs: "clean s = SLASH # join ?xs" using c by simp
    then have "rooted (clean s)" "elems (clean s) = ?xs" using e by (simp_all add: rooted_def elems.simps)
    then show ?thesis using f [of True] r True cs by (simp add: clean_def [of "SLASH # join st"] path_def)
  next
    case False
    show ?thesis
    proof (cases "?xs = []")
      case True
      then have "clean s = [DOT]" using c False by simp
      moreover have "clean [DOT] = [DOT]" by (simp add: clean_def rooted_def elems.simps path_def)
      ultimately show ?thesis using False by simp
    next
      case nonempty: False
      then have "join ?xs \<noteq> []" using g join_eq_Nil [of ?xs] by auto
      moreover have "hd (join ?xs) \<noteq> SLASH"  using g nonempty by (rule hd_join)
      ultimately have "clean s = join ?xs" "\<not> rooted (join ?xs)" using c False by (auto simp: rooted_def)
      then show ?thesis using f [of False] e False \<open>join ?xs \<noteq> []\<close> by (simp add: clean_def [of "join ?xs"] path_def)
    qed
  qed
qed

lemma cstr_split: "length (cstr m) < length m \<Longrightarrow> \<exists>w. m = cstr m @ 0 # w"
proof -
  assume "length (cstr m) < length m"
  then have "dropWhile (\<lambda>b. b \<noteq> 0) m \<noteq> []" by (metis append_Nil2 cstr_def less_irrefl takeWhile_dropWhile_id)
  then show ?thesis using takeWhile_dropWhile_id [of "\<lambda>b. b \<noteq> 0" m] hd_dropWhile [of "\<lambda>b. b \<noteq> 0" m]
    by (cases "dropWhile (\<lambda>b. b \<noteq> 0) m") (auto simp: cstr_def intro: sym)
qed

lemma nul_free_cstr: "nul_free (cstr m)"
  by (auto simp: nul_free_def cstr_def dest: set_takeWhileD)

text \<open>
  C27: \<open>cleanname\<close> is idempotent: run again on the name it left, it leaves it as it is.  What it
  makes of a rooted name is rooted and has no empty, no dot and no \<open>..\<close> element, so walking it can not
  leave the root.
\<close>
theorem cleanname_idempotent:
  assumes "nul_free s" "s \<noteq> [] \<or> w \<noteq> []"
  shows "\<exists>m m'. cleanname (s @ 0 # w) = Some m \<and> cleanname m = Some m' \<and> cstr m' = cstr m \<and>
    (rooted s \<longrightarrow> rooted (cstr m) \<and> list_all real (elems (cstr m)))"
proof -
  obtain m where m: "cleanname (s @ 0 # w) = Some m" "cstr m = clean s" "length (cstr m) < length m"
    using cleanname_result [OF assms] by blast
  from m(3) obtain v where v: "m = cstr m @ 0 # v" using cstr_split by blast
  have "cstr m \<noteq> []" unfolding m(2) by (simp add: clean_def Let_def)
  then obtain m' where "cleanname m = Some m'" "cstr m' = clean (cstr m)"
    using cleanname_result [of "cstr m" v] nul_free_cstr v by metis
  then show ?thesis using m(1,2) clean_normal [of s] by simp
qed

lemma cleanname_idempotent_witness:
  "\<exists>m m'. cleanname [47, 46, 46, 47, 97, 0] = Some m \<and> cleanname m = Some m' \<and> cstr m' = cstr m \<and>
     list_all real (elems (cstr m))"
  using cleanname_idempotent [of "[47, 46, 46, 47, 97]" "[]"] by (auto simp: nul_free_def rooted_def)

end
