(* ===== verification/Stat.thy ===== *)
theory Stat
  imports Grammar
begin

text \<open>
  Directory entries: \<open>lib9/convM2D.c\<close>, \<open>lib9/convD2M.c\<close> and the
  \<open>dirpackage\<close> of \<open>emu/port/sysfile.c\<close>.  A \<open>Dir\<close> is polymorphic in what its
  four names are: a C string or nil (\<open>cstring\<close>) for \<open>convD2M\<close>, and for \<open>convM2D\<close>
  a pointer, \<open>Some k\<close> into the memory \<open>strs\<close> or \<open>None\<close> for \<open>nullstring\<close>.
  \<open>ulong\<close> is 64 bits wide, as on the LP64 hosts.
\<close>

record 's dir =
  d_type :: u16
  d_dev :: u32
  d_qid :: qid
  d_mode :: u64
  d_atime :: u64
  d_mtime :: u64
  d_length :: u64
  d_name :: 's
  d_uid :: 's
  d_gid :: 's
  d_muid :: 's

type_synonym sptr = "nat option"

fun statcheck_loop :: "u8 list \<Rightarrow> nat \<Rightarrow> nat \<Rightarrow> nat \<Rightarrow> int" where
  "statcheck_loop m buf remain 0 = (if remain \<noteq> 0 then -1 else 0)"
| "statcheck_loop m buf remain (Suc i) =
     (if remain < BIT16SZ then -1
      else
        let n = unat (GBIT16 m buf); buf = buf + BIT16SZ; remain = remain - BIT16SZ
        in if n > remain then -1 else statcheck_loop m (buf + n) (remain - n) i)"

definition statcheck :: "u8 list \<Rightarrow> nat \<Rightarrow> nat \<Rightarrow> int" where
  "statcheck m buf nbuf =
     (if nbuf < STATFIXLEN \<or> nbuf \<noteq> BIT16SZ + unat (GBIT16 m buf) then -1
      else statcheck_loop m (buf + (STATFIXLEN - 4 * BIT16SZ)) (nbuf - (STATFIXLEN - 4 * BIT16SZ)) 4)"

definition statcheckbuf :: "u8 list \<Rightarrow> nat \<Rightarrow> nat \<Rightarrow> int" where
  "statcheckbuf m buf navail =
     (if navail < BIT16SZ then -1
      else
        let nbuf = BIT16SZ + unat (GBIT16 m buf)
        in if nbuf > navail \<or> statcheck m buf nbuf < 0 then -1 else int nbuf)"

definition gbit32dontcare :: "u8 list \<Rightarrow> nat \<Rightarrow> u64" where
  "gbit32dontcare m p = (let v = ucast (GBIT32 m p) in if v = 0xFFFFFFFF then NOT 0 else v)"

text \<open>
  The loop over the names: whether it ran to its end, \<open>p\<close>, the string memory
  (\<open>None\<close> for a nil \<open>strs\<close>) and the pointers \<open>sv\<close>.  \<open>k\<close> is how far \<open>strs\<close> has moved.
\<close>

fun convM2D_loop ::
  "u8 list \<Rightarrow> nat \<Rightarrow> nat \<Rightarrow> u8 list option \<Rightarrow> nat \<Rightarrow> nat list \<Rightarrow> nat \<Rightarrow> bool \<times> nat \<times> u8 list option \<times> nat list"
where
  "convM2D_loop m p ebuf strs k sv 0 = (True, p, strs, sv)"
| "convM2D_loop m p ebuf strs k sv (Suc i) =
     (if p + BIT16SZ > ebuf then (False, p, strs, sv)
      else
        let ns = unat (GBIT16 m p); p = p + BIT16SZ
        in if p + ns > ebuf then (False, p, strs, sv)
           else
             case strs of
               None \<Rightarrow> convM2D_loop m (p + ns) ebuf None k sv i
             | Some s \<Rightarrow>
                 convM2D_loop m (p + ns) ebuf
                   (Some (take k s @ take ns (drop p m) @ [0] @ drop (k + ns + 1) s)) (k + ns + 1) (sv @ [k]) i)"

definition convM2D ::
  "u8 list \<Rightarrow> nat \<Rightarrow> nat \<Rightarrow> sptr dir \<Rightarrow> u8 list option \<Rightarrow> nat \<Rightarrow> nat \<times> sptr dir \<times> u8 list option"
where
  "convM2D m buf nbuf d strs k =
     (if nbuf < STATFIXLEN then (0, d, strs)
      else
        let p = buf + BIT16SZ; ebuf = buf + nbuf;
            d = d\<lparr>d_type := GBIT16 m p\<rparr>; p = p + BIT16SZ;
            d = d\<lparr>d_dev := GBIT32 m p\<rparr>; p = p + BIT32SZ;
            ty = GBIT8 m p; p = p + BIT8SZ;
            vers = GBIT32 m p; p = p + BIT32SZ;
            d = d\<lparr>d_qid := \<lparr>q_path = GBIT64 m p, q_vers = vers, q_type = ty\<rparr>\<rparr>; p = p + BIT64SZ;
            d = d\<lparr>d_mode := gbit32dontcare m p\<rparr>; p = p + BIT32SZ;
            d = d\<lparr>d_atime := gbit32dontcare m p\<rparr>; p = p + BIT32SZ;
            d = d\<lparr>d_mtime := gbit32dontcare m p\<rparr>; p = p + BIT32SZ;
            d = d\<lparr>d_length := GBIT64 m p\<rparr>; p = p + BIT64SZ
        in case convM2D_loop m p ebuf strs k [] 4 of
             (ok, p, strs, sv) \<Rightarrow>
               if \<not> ok then (0, d, strs)
               else case strs of
                 None \<Rightarrow> (p - buf, d\<lparr>d_name := None, d_uid := None, d_gid := None, d_muid := None\<rparr>, strs)
               | Some _ \<Rightarrow>
                   (p - buf, d\<lparr>d_name := Some (sv ! 0), d_uid := Some (sv ! 1), d_gid := Some (sv ! 2),
                      d_muid := Some (sv ! 3)\<rparr>, strs))"

definition slen :: "cstring \<Rightarrow> nat" where
  "slen s = (case s of None \<Rightarrow> 0 | Some s \<Rightarrow> strlen s)"

definition sizeD2M :: "cstring dir \<Rightarrow> nat" where
  "sizeD2M d = STATFIXLEN + (slen (d_name d) + slen (d_uid d) + slen (d_gid d) + slen (d_muid d))"

text \<open>The loop over the names, from the bytes \<open>out\<close> written so far.\<close>

fun convD2M_loop :: "cstring list \<Rightarrow> u8 list \<Rightarrow> nat \<Rightarrow> bool \<times> u8 list" where
  "convD2M_loop [] out nbuf = (True, out)"
| "convD2M_loop (s # sv) out nbuf =
     (let ns = slen s in
      if length out + ns + BIT16SZ > nbuf then (False, out)
      else convD2M_loop sv (out @ PBIT16 (of_nat ns) @ (case s of None \<Rightarrow> [] | Some t \<Rightarrow> take ns t)) nbuf)"

definition convD2M :: "cstring dir \<Rightarrow> u8 list \<Rightarrow> nat \<times> u8 list" where
  "convD2M d buf =
     (let nbuf = length buf; upd = (\<lambda>out. out @ drop (length out) buf) in
      if nbuf < BIT16SZ then (0, buf)
      else
        let sv = [d_name d, d_uid d, d_gid d, d_muid d];
            ns = sum_list (map slen sv);
            ss = STATFIXLEN + ns;
            out = PBIT16 (of_nat (ss - BIT16SZ))
        in if ss > nbuf then (BIT16SZ, upd out)
           else
             let out = out @ PBIT16 (d_type d) @ PBIT32 (d_dev d) @ PBIT8 (q_type (d_qid d)) @
                   PBIT32 (q_vers (d_qid d)) @ PBIT64 (q_path (d_qid d)) @ PBIT32 (ucast (d_mode d)) @
                   PBIT32 (ucast (d_atime d)) @ PBIT32 (ucast (d_mtime d)) @ PBIT64 (d_length d)
             in case convD2M_loop sv out nbuf of
                  (ok, out) \<Rightarrow>
                    if \<not> ok then (0, upd out)
                    else if ss \<noteq> length out then (0, upd out)
                    else (length out, upd out))"

subsection \<open>dirpackage\<close>

datatype direrr = Ebadformat | Ebadentry | Enomem

lemma nat_2_uint: "nat (2 + uint x) = 2 + unat x"
  by (simp add: nat_add_distrib)

lemma statcheckbuf_cases:
  obtains "statcheckbuf m i n = -1"
  | "statcheckbuf m i n = int (BIT16SZ + unat (GBIT16 m i))" "BIT16SZ + unat (GBIT16 m i) \<le> n"
    "statcheck m i (BIT16SZ + unat (GBIT16 m i)) = 0"
proof -
  have l: "statcheck_loop a b c d \<in> {-1, 0}" for a b c d
    by (induction a b c d rule: statcheck_loop.induct) (auto simp: Let_def)
  have "statcheck m i k \<in> {-1, 0}" for k using l by (auto simp: statcheck_def)
  then have "statcheck m i k = 0 \<or> statcheck m i k < 0" for k
    by (metis insert_iff singletonD neg_less_0_iff_less zero_less_one)
  then show thesis using that unfolding statcheckbuf_def Let_def by (smt (verit) not_le)
qed

function dirpackage_count :: "u8 list \<Rightarrow> nat \<Rightarrow> nat \<Rightarrow> nat \<Rightarrow> nat \<Rightarrow> nat \<times> nat \<times> nat" where
  "dirpackage_count m ts i ss n =
     (if i < ts then
        let r = statcheckbuf m i (ts - i)
        in if r < 0 then (i, ss, n) else dirpackage_count m ts (i + nat r) (ss + nat r) (n + 1)
      else (i, ss, n))"
  by pat_completeness auto
termination
proof (relation "measure (\<lambda>(m, ts, i, ss, n). ts - i)")
  fix m ts i ss n r
  assume a: "i < ts" "r = statcheckbuf m i (ts - i)" "\<not> r < 0"
  then have "nat r = 2 + unat (GBIT16 m i)"
    by (cases rule: statcheckbuf_cases [of m i "ts - i"]) (simp_all add: nat_2_uint)
  with a(1) show "((m, ts, i + nat r, ss + nat r, n + 1), m, ts, i, ss, n) \<in> measure (\<lambda>(m, ts, i, ss, n). ts - i)"
    by simp
qed simp

declare dirpackage_count.simps [simp del]

function dirpackage_conv ::
  "u8 list \<Rightarrow> nat \<Rightarrow> nat \<Rightarrow> nat \<Rightarrow> nat \<Rightarrow> nat \<Rightarrow> sptr dir list \<Rightarrow> u8 list \<Rightarrow> (nat \<times> sptr dir list \<times> u8 list) option"
where
  "dirpackage_conv m ts i s nn n ds mem =
     (if i < ts then
        let k = BIT16SZ + unat (GBIT16 m i)
        in if nn \<ge> n then None
           else case convM2D m i k (ds ! nn) (Some mem) s of
             (r, d, mem') \<Rightarrow>
               if r \<noteq> k then None
               else dirpackage_conv m ts (i + k) (s + k) (nn + 1) n (ds[nn := d]) (the mem')
      else Some (nn, ds, mem))"
  by pat_completeness auto
termination by (relation "measure (\<lambda>(m, ts, i, _). ts - i)") auto

declare dirpackage_conv.simps [simp del]

text \<open>
  \<open>alloc n ss\<close> is the \<open>malloc\<close> of \<open>n\<close> \<open>Dir\<close>s and \<open>ss\<close> bytes of strings: no memory,
  or a block whose contents may be anything.
\<close>

definition dirpackage ::
  "(nat \<Rightarrow> nat \<Rightarrow> (sptr dir list \<times> u8 list) option) \<Rightarrow> u8 list \<Rightarrow> int \<Rightarrow>
   direrr + int \<times> (sptr dir list \<times> u8 list) option"
where
  "dirpackage alloc buf ts =
     (if ts \<le> 0 then Inr (ts, None)
      else case dirpackage_count buf (nat ts) 0 0 0 of
        (i, ss, n) \<Rightarrow>
          if i \<noteq> nat ts then Inl Ebadformat
          else case alloc n ss of
            None \<Rightarrow> Inl Enomem
          | Some (ds, mem) \<Rightarrow>
              (case dirpackage_conv buf (nat ts) 0 0 0 n ds mem of
                 None \<Rightarrow> Inl Ebadentry
               | Some (nn, ds, mem) \<Rightarrow> Inr (int nn, Some (ds, mem))))"

subsection \<open>The wire format of an entry\<close>

definition dir_names :: "cstring dir \<Rightarrow> u8 list list" where
  "dir_names d = map sval [d_name d, d_uid d, d_gid d, d_muid d]"

definition fixed :: "'s dir \<Rightarrow> u8 list" where
  "fixed d = PBIT16 (d_type d) @ PBIT32 (d_dev d) @ PBIT8 (q_type (d_qid d)) @ PBIT32 (q_vers (d_qid d)) @
     PBIT64 (q_path (d_qid d)) @ PBIT32 (ucast (d_mode d)) @ PBIT32 (ucast (d_atime d)) @
     PBIT32 (ucast (d_mtime d)) @ PBIT64 (d_length d)"

definition wire_dir :: "cstring dir \<Rightarrow> u8 list" where
  "wire_dir d = PBIT16 (of_nat (sizeD2M d - BIT16SZ)) @ fixed d @ concat (map enc_str (dir_names d))"

lemma slen_sval: "slen s = length (sval s)"
  by (simp add: slen_def sval_def strlen_def split: option.split)

lemma take_slen: "(case s of None \<Rightarrow> [] | Some t \<Rightarrow> take (slen s) t) = sval s"
  by (simp add: slen_def sval_def strlen_def takeWhile_eq_take [symmetric] split: option.split)

lemma length_fixed [simp]: "length (fixed d) = 39"
  by (simp add: fixed_def)

lemma length_enc_str [simp]: "length (enc_str s) = 2 + length s"
  by (simp add: enc_str_def)

lemma length_wire_dir: "length (wire_dir d) = sizeD2M d"
  by (simp add: wire_dir_def dir_names_def sizeD2M_def slen_sval)

lemma convD2M_loop_ok:
  assumes "length out + sum_list (map (\<lambda>s. 2 + slen s) sv) \<le> nbuf"
  shows "convD2M_loop sv out nbuf = (True, out @ concat (map (enc_str \<circ> sval) sv))"
  using assms
proof (induction sv arbitrary: out)
  case (Cons s sv)
  have e: "PBIT16 (of_nat (slen s)) @ (case s of None \<Rightarrow> [] | Some t \<Rightarrow> take (slen s) t) = enc_str (sval s)"
    by (simp only: take_slen) (simp add: enc_str_def slen_sval)
  have l: "length out + slen s + 2 \<le> nbuf" using Cons.prems by simp
  have "convD2M_loop sv (out @ enc_str (sval s)) nbuf = (True, (out @ enc_str (sval s)) @ concat (map (enc_str \<circ> sval) sv))"
    using Cons.prems by (intro Cons.IH) (simp add: slen_sval)
  then show ?case using l by (simp add: Let_def e comp_def)
qed simp

lemma convD2M_eq:
  "convD2M d buf =
     (if length buf < BIT16SZ then (0, buf)
      else if length buf < sizeD2M d
      then (BIT16SZ, PBIT16 (of_nat (sizeD2M d - BIT16SZ)) @ drop BIT16SZ buf)
      else (sizeD2M d, wire_dir d @ drop (sizeD2M d) buf))"
proof -
  let ?sv = "[d_name d, d_uid d, d_gid d, d_muid d]"
  have s: "STATFIXLEN + sum_list (map slen ?sv) = sizeD2M d" by (simp add: sizeD2M_def)
  let ?out = "PBIT16 (of_nat (sizeD2M d - BIT16SZ)) @ fixed d"
  have l: "length (?out @ concat (map (enc_str \<circ> sval) ?sv)) = sizeD2M d"
    using length_wire_dir [of d] by (simp add: wire_dir_def dir_names_def)
  have "convD2M_loop ?sv ?out (length buf) = (True, ?out @ concat (map (enc_str \<circ> sval) ?sv))"
    if "sizeD2M d \<le> length buf"
    using that by (intro convD2M_loop_ok) (simp add: sizeD2M_def)
  then have c: "convD2M_loop ?sv ?out (length buf) = (True, wire_dir d)" if "sizeD2M d \<le> length buf"
    using that by (simp add: wire_dir_def dir_names_def)
  show ?thesis
    unfolding convD2M_def s fixed_def [symmetric] append_assoc Let_def
    using c l by (cases "length buf < sizeD2M d") (simp_all add: length_wire_dir del: convD2M_loop.simps)
qed

text \<open>
  C40: \<open>convD2M\<close> never writes past its buffer: it packs the whole entry, \<open>sizeD2M\<close> bytes, when that
  fits, and otherwise only the count that tells how much is needed, when that fits.
\<close>
theorem convD2M_wire:
  "convD2M d buf =
     (if length buf < BIT16SZ then (0, buf)
      else if length buf < sizeD2M d
      then (BIT16SZ, PBIT16 (of_nat (sizeD2M d - BIT16SZ)) @ drop BIT16SZ buf)
      else (sizeD2M d, wire_dir d @ drop (sizeD2M d) buf))"
  by (rule convD2M_eq)

subsection \<open>Reading an entry\<close>

definition window :: "u8 list \<Rightarrow> nat \<Rightarrow> nat \<Rightarrow> u8 list" where
  "window m p n = take n (drop p m)"

lemma length_window [simp]: "p + n \<le> length m \<Longrightarrow> length (window m p n) = n"
  by (simp add: window_def)

lemma window_GBIT:
  "p + n \<le> length m \<Longrightarrow> 2 \<le> n \<Longrightarrow> GBIT16 (window m p n) 0 = GBIT16 m p"
  "p + n \<le> length m \<Longrightarrow> 4 \<le> n \<Longrightarrow> GBIT32 (window m p n) 0 = GBIT32 m p"
  by (simp_all add: window_def GBIT16_def GBIT32_def)

lemma window_dec_str:
  assumes "p + n \<le> length m"
  shows "dec_str (window m p n) =
    (if n < 2 \<or> n < 2 + unat (GBIT16 m p) then None
     else Some (window m (p + 2) (unat (GBIT16 m p)),
                window m (p + 2 + unat (GBIT16 m p)) (n - 2 - unat (GBIT16 m p))))"
  using assms window_GBIT(1) [OF assms]
  by (auto simp: dec_str_def Let_def window_def drop_take add.commute min_def)

lemma statcheck_loop_dec:
  assumes "p + n \<le> length m"
  shows "statcheck_loop m p n i = 0 \<longleftrightarrow> (\<exists>xs. dec_n dec_str i (window m p n) = Some (xs, []))"
  using assms
proof (induction i arbitrary: p n)
  case 0
  then show ?case by (simp flip: length_0_conv)
next
  case (Suc i)
  let ?k = "unat (GBIT16 m p)"
  show ?case
  proof (cases "n < 2 \<or> n < 2 + ?k")
    case True
    then show ?thesis using window_dec_str [OF Suc.prems] by (auto simp: Let_def)
  next
    case False
    then have e: "p + 2 + ?k + (n - 2 - ?k) \<le> length m" using Suc.prems False by linarith
    show ?thesis using window_dec_str [OF Suc.prems] Suc.IH [OF e] False
      by (auto simp: Let_def split: option.splits)
  qed
qed

fun offsets :: "nat \<Rightarrow> u8 list list \<Rightarrow> nat list" where
  "offsets k [] = []"
| "offsets k (x # xs) = k # offsets (k + length x + 1) xs"

definition strmem :: "u8 list list \<Rightarrow> u8 list" where
  "strmem xs = concat (map (\<lambda>x. x @ [0]) xs)"

lemma strmem_simps [simp]: "strmem [] = []" "strmem (x # xs) = x @ 0 # strmem xs"
  by (simp_all add: strmem_def)

lemma convM2D_loop_None:
  assumes "p + n \<le> length m" "dec_n dec_str i (window m p n) = None"
  shows "\<not> fst (convM2D_loop m p (p + n) strs k sv i)"
  using assms
proof (induction i arbitrary: p n strs k sv)
  case (Suc i)
  let ?j = "unat (GBIT16 m p)"
  show ?case
  proof (cases "n < 2 \<or> n < 2 + ?j")
    case False
    then have e: "p + 2 + ?j + (n - 2 - ?j) \<le> length m" using Suc.prems(1) False by linarith
    have p: "p + 2 + ?j + (n - 2 - ?j) = p + n" using False by linarith
    show ?thesis using window_dec_str [OF Suc.prems(1)] Suc.IH [OF e] False Suc.prems(2)
      unfolding p by (auto simp: Let_def split: option.splits)
  qed (auto simp: Let_def)
qed simp

lemma convM2D_loop_Some:
  assumes "p + n \<le> length m" "dec_n dec_str i (window m p n) = Some (xs, t)"
    "\<forall>s. strs = Some s \<longrightarrow> k + length (strmem xs) \<le> length s"
  shows "length t \<le> n \<and> convM2D_loop m p (p + n) strs k sv i =
    (True, p + n - length t, map_option (\<lambda>s. take k s @ strmem xs @ drop (k + length (strmem xs)) s) strs,
     (if strs = None then sv else sv @ offsets k xs))"
  using assms
proof (induction i arbitrary: p n strs k sv xs)
  case 0
  then show ?case by (cases strs) auto
next
  case (Suc i)
  let ?j = "unat (GBIT16 m p)"
  define x where "x = window m (p + 2) ?j"
  from Suc.prems(2) window_dec_str [OF Suc.prems(1)] obtain ys where
    j: "\<not> (n < 2 \<or> n < 2 + ?j)" and xs: "xs = x # ys"
    and d: "dec_n dec_str i (window m (p + 2 + ?j) (n - 2 - ?j)) = Some (ys, t)"
    by (auto simp: x_def split: option.splits if_splits)
  have e: "p + 2 + ?j + (n - 2 - ?j) \<le> length m" using Suc.prems(1) j by linarith
  have p: "p + 2 + ?j + (n - 2 - ?j) = p + n" using j by linarith
  have lx: "length x = ?j" using Suc.prems(1) j by (simp add: x_def)
  note IH = Suc.IH [OF e d, unfolded p]
  show ?case
  proof (cases strs)
    case None
    have "length t \<le> n - 2 - ?j" using IH [of None] by simp
    then have "length t \<le> n" by linarith
    then show ?thesis using IH [of None] j xs None by (simp add: Let_def)
  next
    case (Some s)
    let ?s = "take k s @ x @ [0] @ drop (k + ?j + 1) s"
    have s: "k + ?j + 1 + length (strmem ys) \<le> length s" using Suc.prems(3) Some lx by (simp add: xs)
    then have "length ?s = length s" by (simp add: lx)
    then have IH': "length t \<le> n - 2 - ?j \<and> convM2D_loop m (p + 2 + ?j) (p + n) (Some ?s) (k + ?j + 1) (sv @ [k]) i =
      (True, p + n - length t,
       Some (take (k + ?j + 1) ?s @ strmem ys @ drop (k + ?j + 1 + length (strmem ys)) ?s),
       (sv @ [k]) @ offsets (k + ?j + 1) ys)"
      using IH [of "Some ?s" "k + ?j + 1" "sv @ [k]"] s by simp
    have t: "take (k + ?j + 1) ?s = take k s @ x @ [0]" using s by (simp add: lx)
    have d: "drop (k + ?j + 1 + length (strmem ys)) ?s = drop (k + ?j + 1 + length (strmem ys)) s"
      using s by (simp add: lx ac_simps)
    have step: "convM2D_loop m p (p + n) strs k sv (Suc i) =
        convM2D_loop m (p + 2 + ?j) (p + n) (Some ?s) (k + ?j + 1) (sv @ [k]) i"
      using j by (simp add: Some Let_def x_def window_def)
    have "length t \<le> n" using IH' by linarith
    then show ?thesis
      unfolding step using IH' [unfolded t d] j by (simp add: Some xs lx ac_simps)
  qed
qed

lemma length_strmem: "length (strmem xs) \<le> length (concat (map enc_str xs))"
  by (induction xs) auto

text \<open>What \<open>convM2D\<close> reads of the fixed part of the entry at \<open>buf\<close>.\<close>

definition rd_fixed :: "u8 list \<Rightarrow> nat \<Rightarrow> (nat \<Rightarrow> sptr) \<Rightarrow> sptr dir" where
  "rd_fixed m buf sv =
     \<lparr>d_type = GBIT16 m (buf + 2), d_dev = GBIT32 m (buf + 4),
      d_qid = \<lparr>q_path = GBIT64 m (buf + 13), q_vers = GBIT32 m (buf + 9), q_type = GBIT8 m (buf + 8)\<rparr>,
      d_mode = gbit32dontcare m (buf + 21), d_atime = gbit32dontcare m (buf + 25),
      d_mtime = gbit32dontcare m (buf + 29), d_length = GBIT64 m (buf + 33),
      d_name = sv 0, d_uid = sv 1, d_gid = sv 2, d_muid = sv 3\<rparr>"

abbreviation strings_at :: "u8 list \<Rightarrow> nat \<Rightarrow> nat \<Rightarrow> (u8 list list \<times> u8 list) option" where
  "strings_at m buf nbuf \<equiv> dec_n dec_str 4 (window m (buf + 41) (nbuf - 41))"

lemma convM2D_unfold:
  assumes "STATFIXLEN \<le> nbuf" "convM2D_loop m (buf + 41) (buf + nbuf) strs k [] 4 = (ok, p, strs', sv)"
  shows "ok \<Longrightarrow> convM2D m buf nbuf d strs k =
      (p - buf, rd_fixed m buf (\<lambda>i. if strs' = None then None else Some (sv ! i)), strs')"
    "\<not> ok \<Longrightarrow> fst (convM2D m buf nbuf d strs k) = 0"
  using assms
  by (auto simp: convM2D_def rd_fixed_def Let_def add.assoc not_less simp del: One_nat_def add_2_eq_Suc add_2_eq_Suc'
      split: option.split)

lemma convM2D_fails:
  assumes "buf + nbuf \<le> length m" "STATFIXLEN \<le> nbuf" "strings_at m buf nbuf = None"
  shows "fst (convM2D m buf nbuf d strs k) = 0"
proof -
  have w: "buf + 41 + (nbuf - 41) \<le> length m" "buf + 41 + (nbuf - 41) = buf + nbuf" using assms(1,2) by simp_all
  obtain ok p ss sv where l: "convM2D_loop m (buf + 41) (buf + nbuf) strs k [] 4 = (ok, p, ss, sv)"
    by (metis prod_cases4)
  then have "\<not> ok" using convM2D_loop_None [OF w(1) assms(3), of strs k "[]"] unfolding w(2) by simp
  then show ?thesis using convM2D_unfold(2) [OF assms(2) l] by simp
qed

lemma strmem_fits:
  assumes "strings_at m buf nbuf = Some (xs, t)"
  shows "length (strmem xs) \<le> nbuf - 41"
proof -
  have "length (concat (map enc_str xs)) \<le> nbuf - 41"
    using arg_cong [OF conjunct2 [OF conjunct2 [OF str.enc_dec_n [OF assms]]], of length]
    by (simp add: window_def)
  then show ?thesis using length_strmem [of xs] by linarith
qed

lemma convM2D_ok:
  assumes "buf + nbuf \<le> length m" "STATFIXLEN \<le> nbuf" "strings_at m buf nbuf = Some (xs, t)"
    "\<forall>s. strs = Some s \<longrightarrow> k + nbuf \<le> length s"
  shows "length t \<le> nbuf - 41" "convM2D m buf nbuf d strs k =
    (nbuf - length t, rd_fixed m buf (\<lambda>i. if strs = None then None else Some (offsets k xs ! i)),
     map_option (\<lambda>s. take k s @ strmem xs @ drop (k + length (strmem xs)) s) strs)"
proof -
  have w: "buf + 41 + (nbuf - 41) \<le> length m" "buf + 41 + (nbuf - 41) = buf + nbuf" using assms(1,2) by simp_all
  have "\<forall>s. strs = Some s \<longrightarrow> k + length (strmem xs) \<le> length s"
    using assms(4) strmem_fits [OF assms(3)] by (metis add_left_mono diff_le_self le_trans)
  note l = convM2D_loop_Some [OF w(1) assms(3) this, of "[]", unfolded w(2)]
  show "length t \<le> nbuf - 41" using l by simp
  show "convM2D m buf nbuf d strs k =
    (nbuf - length t, rd_fixed m buf (\<lambda>i. if strs = None then None else Some (offsets k xs ! i)),
     map_option (\<lambda>s. take k s @ strmem xs @ drop (k + length (strmem xs)) s) strs)"
    using convM2D_unfold(1) [OF assms(2) conjunct2 [OF l]] l by (cases strs) simp_all
qed

lemma statcheck_iff:
  assumes "buf + nbuf \<le> length m" "STATFIXLEN \<le> nbuf"
  shows "statcheck m buf nbuf = 0 \<longleftrightarrow>
    nbuf = BIT16SZ + unat (GBIT16 m buf) \<and> (\<exists>xs. strings_at m buf nbuf = Some (xs, []))"
proof -
  have w: "buf + 41 + (nbuf - 41) \<le> length m" using assms by simp
  show ?thesis unfolding statcheck_loop_dec [OF w, of 4, symmetric] using assms(2) by (auto simp add: statcheck_def)
qed

text \<open>
  C31: \<open>statcheck\<close> accepts a buffer exactly when the count at its head is its length less the count's own two
  bytes and \<open>convM2D\<close>, which does not look at the count, consumes it whole: after it, the conversion cannot fail.
\<close>
theorem statcheck_convM2D:
  assumes "buf + nbuf \<le> length m" "\<forall>s. strs = Some s \<longrightarrow> k + nbuf \<le> length s"
  shows "statcheck m buf nbuf = 0 \<longleftrightarrow>
    nbuf = BIT16SZ + unat (GBIT16 m buf) \<and> fst (convM2D m buf nbuf d strs k) = nbuf"
proof (cases "STATFIXLEN \<le> nbuf")
  case True
  note s = statcheck_iff [OF assms(1) True]
  show ?thesis
  proof (cases "strings_at m buf nbuf")
    case None
    then show ?thesis using s convM2D_fails [OF assms(1) True None, of d strs k] True by simp
  next
    case (Some r)
    obtain xs t where r: "r = (xs, t)" by fastforce
    note c = convM2D_ok [OF assms(1) True Some [unfolded r] assms(2)]
    have "nbuf - length t = nbuf \<longleftrightarrow> length t = 0" using c(1) True by linarith
    then have "nbuf - length t = nbuf \<longleftrightarrow> t = []" by simp
    then show ?thesis using s c(2) [of d] Some r by auto
  qed
next
  case False
  then show ?thesis by (auto simp: statcheck_def convM2D_def)
qed

subsection \<open>Round trips\<close>

definition dontcare_ok :: "u64 \<Rightarrow> bool" where
  "dontcare_ok v \<longleftrightarrow> v = NOT 0 \<or> v < 0xFFFFFFFF"

definition wf_dir :: "cstring dir \<Rightarrow> bool" where
  "wf_dir d \<longleftrightarrow> sizeD2M d < 65538 \<and> dontcare_ok (d_mode d) \<and> dontcare_ok (d_atime d) \<and> dontcare_ok (d_mtime d)"

text \<open>The entry a converted \<open>Dir\<close> stands for, once its pointers are followed into \<open>s\<close>.\<close>

definition deref :: "u8 list \<Rightarrow> sptr \<Rightarrow> cstring" where
  "deref s p = Some (case p of None \<Rightarrow> [] | Some k \<Rightarrow> cstr (drop k s))"

definition map_names :: "('a \<Rightarrow> 'b) \<Rightarrow> 'a dir \<Rightarrow> 'b dir" where
  "map_names f d =
     \<lparr>d_type = d_type d, d_dev = d_dev d, d_qid = d_qid d, d_mode = d_mode d, d_atime = d_atime d,
      d_mtime = d_mtime d, d_length = d_length d, d_name = f (d_name d), d_uid = f (d_uid d),
      d_gid = f (d_gid d), d_muid = f (d_muid d)\<rparr>"

text \<open>Nil and the empty string are the same on the wire.\<close>

abbreviation plain :: "cstring dir \<Rightarrow> cstring dir" where
  "plain \<equiv> map_names (\<lambda>s. Some (sval s))"

lemma dontcare_roundtrip:
  assumes "dontcare_ok v" "GBIT32 m p = ucast v"
  shows "gbit32dontcare m p = v"
proof (cases "v = NOT 0")
  case True
  have "ucast (ucast (NOT 0 :: u64) :: u32) = (mask 32 :: u64)" by (rule bit_word_eqI) (auto simp: bit_simps)
  then have "ucast (ucast (NOT 0 :: u64) :: u32) = (0xFFFFFFFF :: u64)" by (simp add: mask_eq_exp_minus_1)
  then show ?thesis using assms(2) True by (simp add: gbit32dontcare_def)
next
  case False
  then have v: "unat v < 0xFFFFFFFF" using assms(1) by (simp add: dontcare_ok_def word_less_nat_alt)
  then have "unat (ucast (ucast v :: u32) :: u64) = unat v" by (simp add: unat_ucast_down)
  then have "ucast (ucast v :: u32) = v" by (simp add: word_unat_eq_iff)
  moreover have "v \<noteq> 0xFFFFFFFF" using v by auto
  ultimately show ?thesis using assms(2) by (simp add: gbit32dontcare_def Let_def)
qed

lemma GBIT_at:
  "drop p m = PBIT8 a @ t \<Longrightarrow> GBIT8 m p = a"
  "drop p m = PBIT16 b @ t \<Longrightarrow> GBIT16 m p = b"
  "drop p m = PBIT32 c @ t \<Longrightarrow> GBIT32 m p = c"
  "drop p m = PBIT64 e @ t \<Longrightarrow> GBIT64 m p = e"
proof -
  have s: "m = take p m @ x @ t \<and> length (take p m) = p" if "drop p m = x @ t" "x \<noteq> []" for x
    using that append_take_drop_id [of p m] by (cases "p \<le> length m") auto
  have n: "PBIT8 a \<noteq> []" "PBIT16 b \<noteq> []" "PBIT32 c \<noteq> []" "PBIT64 e \<noteq> []"
    using length_PBIT by (metis list.size(3) zero_neq_numeral zero_neq_one)+
  show "GBIT8 m p = a" if "drop p m = PBIT8 a @ t"
    using s [OF that n(1)] GBIT_append(1) [of "take p m" p "PBIT8 a" t] GBIT8_PBIT8 [of a "[]"] by simp
  show "GBIT16 m p = b" if "drop p m = PBIT16 b @ t"
    using s [OF that n(2)] GBIT_append(2) [of "take p m" p "PBIT16 b" t] GBIT16_PBIT16 [of b "[]"] by simp
  show "GBIT32 m p = c" if "drop p m = PBIT32 c @ t"
    using s [OF that n(3)] GBIT_append(3) [of "take p m" p "PBIT32 c" t] GBIT32_PBIT32 [of c "[]"] by simp
  show "GBIT64 m p = e" if "drop p m = PBIT64 e @ t"
    using s [OF that n(4)] GBIT_append(4) [of "take p m" p "PBIT64 e" t] GBIT64_PBIT64 [of e "[]"] by simp
qed

definition ptr_dir :: "nat \<Rightarrow> cstring dir \<Rightarrow> sptr dir" where
  "ptr_dir k d = (map_names (\<lambda>_. None) d)\<lparr>
     d_name := Some (offsets k (dir_names d) ! 0), d_uid := Some (offsets k (dir_names d) ! 1),
     d_gid := Some (offsets k (dir_names d) ! 2), d_muid := Some (offsets k (dir_names d) ! 3)\<rparr>"

lemma drop_wire:
  assumes "drop buf m = wire_dir d @ t" "2 \<le> n"
  shows "drop (buf + n) m = drop (n - 2) (fixed d) @ drop (n - 41) (concat (map enc_str (dir_names d)) @ t)"
proof -
  have "drop (buf + n) m = drop n (wire_dir d @ t)" unfolding assms(1) [symmetric] by (simp add: add.commute)
  then show ?thesis using assms(2) by (simp add: wire_dir_def)
qed

lemma rd_fixed_wire:
  assumes "drop buf m = wire_dir d @ t" "wf_dir d"
  shows "rd_fixed m buf (\<lambda>i. Some (offsets k (dir_names d) ! i)) = ptr_dir k d"
proof -
  note w = drop_wire [OF assms(1)]
  have "GBIT16 m (buf + 2) = d_type d" using w [of 2] by (intro GBIT_at) (simp add: fixed_def)
  moreover have "GBIT32 m (buf + 4) = d_dev d" using w [of 4] by (intro GBIT_at) (simp add: fixed_def)
  moreover have "GBIT8 m (buf + 8) = q_type (d_qid d)" using w [of 8] by (intro GBIT_at) (simp add: fixed_def)
  moreover have "GBIT32 m (buf + 9) = q_vers (d_qid d)" using w [of 9] by (intro GBIT_at) (simp add: fixed_def)
  moreover have "GBIT64 m (buf + 13) = q_path (d_qid d)" using w [of 13] by (intro GBIT_at) (simp add: fixed_def)
  moreover have "GBIT32 m (buf + 21) = ucast (d_mode d)" using w [of 21] by (intro GBIT_at) (simp add: fixed_def)
  moreover have "GBIT32 m (buf + 25) = ucast (d_atime d)" using w [of 25] by (intro GBIT_at) (simp add: fixed_def)
  moreover have "GBIT32 m (buf + 29) = ucast (d_mtime d)" using w [of 29] by (intro GBIT_at) (simp add: fixed_def)
  moreover have "GBIT64 m (buf + 33) = d_length d" using w [of 33] by (intro GBIT_at) (simp add: fixed_def)
  ultimately show ?thesis using assms(2)
    by (simp add: rd_fixed_def ptr_dir_def map_names_def wf_dir_def dontcare_roundtrip)
qed

lemma window_of: "drop p m = x @ t \<Longrightarrow> length x = n \<Longrightarrow> window m p n = x"
  by (simp add: window_def)

lemma strings_at_wire:
  assumes "drop buf m = wire_dir d @ t" "wf_dir d"
  shows "strings_at m buf (sizeD2M d) = Some (dir_names d, [])"
proof -
  have l: "length (concat (map enc_str (dir_names d))) = sizeD2M d - 41"
    using length_wire_dir [of d] by (simp add: wire_dir_def)
  have "window m (buf + 41) (sizeD2M d - 41) = concat (map enc_str (dir_names d))"
    by (rule window_of) (use drop_wire [OF assms(1), of 41] l in simp_all)
  moreover have "list_all (\<lambda>s. length s < 65536) (dir_names d)"
    using assms(2) by (auto simp: wf_dir_def dir_names_def sizeD2M_def slen_sval)
  moreover have "length (dir_names d) = 4" by (simp add: dir_names_def)
  ultimately show ?thesis using str.dec_n_enc [of "dir_names d" "[]"] by simp
qed

lemma wire_length:
  assumes "drop buf m = wire_dir d @ t"
  shows "buf + sizeD2M d \<le> length m" "STATFIXLEN \<le> sizeD2M d"
proof -
  show "STATFIXLEN \<le> sizeD2M d" by (simp add: sizeD2M_def)
  then show "buf + sizeD2M d \<le> length m"
    using arg_cong [OF assms, of length] by (simp add: length_wire_dir)
qed

lemma convM2D_wire:
  assumes "drop buf m = wire_dir d @ t" "wf_dir d" "k + sizeD2M d \<le> length s"
  shows "convM2D m buf (sizeD2M d) d0 (Some s) k =
    (sizeD2M d, ptr_dir k d, Some (take k s @ strmem (dir_names d) @ drop (k + length (strmem (dir_names d))) s))"
  using convM2D_ok(2) [OF wire_length [OF assms(1)] strings_at_wire [OF assms(1,2)], of "Some s" k d0] assms(3)
  by (simp add: rd_fixed_wire [OF assms(1,2)])

lemma GBIT16_wire:
  assumes "drop buf m = wire_dir d @ t" "wf_dir d"
  shows "BIT16SZ + unat (GBIT16 m buf) = sizeD2M d"
proof -
  have "GBIT16 m buf = of_nat (sizeD2M d - 2)"
    using assms(1) by (intro GBIT_at(2)) (simp add: wire_dir_def)
  moreover have "2 \<le> sizeD2M d" "sizeD2M d - 2 < 2 ^ LENGTH(16)"
    using assms(2) wire_length(2) [OF assms(1)] unfolding wf_dir_def by simp_all linarith
  ultimately show ?thesis by (simp add: unat_of_nat_small del: of_nat_diff)
qed

lemma statcheckbuf_wire:
  assumes "drop buf m = wire_dir d @ t" "wf_dir d" "sizeD2M d \<le> navail"
  shows "statcheckbuf m buf navail = int (sizeD2M d)"
proof -
  have "statcheck m buf (sizeD2M d) = 0"
    using statcheck_iff [OF wire_length [OF assms(1)]] GBIT16_wire [OF assms(1,2)] strings_at_wire [OF assms(1,2)]
    by simp
  then show ?thesis
    using assms(3) wire_length(2) [OF assms(1)] unfolding statcheckbuf_def Let_def GBIT16_wire [OF assms(1,2)] by simp
qed

lemma strmem_names_le: "length (strmem (dir_names d)) \<le> sizeD2M d"
  using length_strmem [of "dir_names d"] length_wire_dir [of d] by (simp add: wire_dir_def)

lemma deref_mid:
  assumes "mem = a @ x @ 0 # b" "nul_free x" "length a = k"
  shows "deref mem (Some k) = Some x"
proof -
  have "takeWhile (\<lambda>b. b \<noteq> 0) (x @ 0 # b) = x" using assms(2) by (subst takeWhile_append2) (auto simp: nul_free_def)
  then show ?thesis using assms(1,3) by (simp add: deref_def cstr_def)
qed

lemma nul_free_sval [simp]: "nul_free (sval s)"
  by (auto simp: nul_free_def sval_def dest: set_takeWhileD split: option.split)

lemma deref_ptr_dir:
  assumes "mem = a @ strmem (dir_names d) @ b" "length a = k"
  shows "map_names (deref mem) (ptr_dir k d) = plain d"
proof -
  let ?n = "sval (d_name d)" let ?u = "sval (d_uid d)" let ?g = "sval (d_gid d)" let ?m = "sval (d_muid d)"
  have m: "mem = a @ ?n @ 0 # ?u @ 0 # ?g @ 0 # ?m @ 0 # b" using assms(1) by (simp add: dir_names_def)
  have "deref mem (Some k) = Some ?n" by (rule deref_mid) (use m assms(2) in simp_all)
  moreover have "deref mem (Some (k + length ?n + 1)) = Some ?u"
    by (rule deref_mid [where a = "a @ ?n @ [0]"]) (use m assms(2) in simp_all)
  moreover have "deref mem (Some (k + length ?n + 1 + length ?u + 1)) = Some ?g"
    by (rule deref_mid [where a = "a @ ?n @ 0 # ?u @ [0]"]) (use m assms(2) in simp_all)
  moreover have "deref mem (Some (k + length ?n + 1 + length ?u + 1 + length ?g + 1)) = Some ?m"
    by (rule deref_mid [where a = "a @ ?n @ 0 # ?u @ 0 # ?g @ [0]"]) (use m assms(2) in simp_all)
  ultimately show ?thesis by (simp add: ptr_dir_def map_names_def dir_names_def)
qed

text \<open>
  C30: an entry packed by \<open>convD2M\<close> and unpacked by \<open>convM2D\<close> is the entry again, whatever follows it
  in the buffer: names cut at their NUL, and the don't-care values \<open>~0\<close> of mode and times preserved.
\<close>
theorem convM2D_convD2M:
  assumes "wf_dir d" "sizeD2M d \<le> length buf" "sizeD2M d \<le> length strs" "convD2M d buf = (n, m)"
  shows "\<exists>d' strs'. convM2D m 0 n d0 (Some strs) 0 = (n, d', Some strs') \<and>
    map_names (deref strs') d' = plain d \<and> length strs' = length strs"
proof -
  have m: "n = sizeD2M d" "m = wire_dir d @ drop n buf"
    using convD2M_eq [of d buf] assms(2,4) wire_length(2) [of 0 "wire_dir d" d "[]"] by (auto split: if_splits)
  let ?s = "strmem (dir_names d) @ drop (length (strmem (dir_names d))) strs"
  have "convM2D m 0 n d0 (Some strs) 0 = (n, ptr_dir 0 d, Some ?s)"
    using convM2D_wire [of 0 m d "drop n buf" 0 strs d0] m assms(1,3) by simp
  moreover have "map_names (deref ?s) (ptr_dir 0 d) = plain d" by (rule deref_ptr_dir [of _ "[]"]) simp_all
  moreover have "length ?s = length strs" using strmem_names_le [of d] assms(3) by simp
  ultimately show ?thesis by blast
qed

subsection \<open>Reading a directory\<close>

lemma count_wires:
  assumes "drop i m = concat (map wire_dir ds) @ t" "list_all wf_dir ds" "ts = i + sum_list (map sizeD2M ds)"
  shows "dirpackage_count m ts i ss n = (ts, ss + sum_list (map sizeD2M ds), n + length ds)"
  using assms
proof (induction ds arbitrary: i ss n)
  case Nil
  then show ?case by (simp add: dirpackage_count.simps)
next
  case (Cons d ds)
  have w: "drop i m = wire_dir d @ concat (map wire_dir ds) @ t" using Cons.prems(1) by simp
  have d: "wf_dir d" "sizeD2M d \<le> ts - i" using Cons.prems by simp_all
  have n: "drop (i + sizeD2M d) m = concat (map wire_dir ds) @ t"
    using arg_cong [OF w, of "drop (sizeD2M d)"] by (simp add: length_wire_dir add.commute)
  have "i < ts" using d(2) wire_length(2) [OF w] by simp
  then have "dirpackage_count m ts i ss n = dirpackage_count m ts (i + sizeD2M d) (ss + sizeD2M d) (n + 1)"
    unfolding dirpackage_count.simps [of m ts i] statcheckbuf_wire [OF w d] by simp
  then show ?case using Cons.IH [OF n] Cons.prems(2,3) by simp
qed

lemma conv_wires:
  assumes "drop i m = concat (map wire_dir ds) @ t" "list_all wf_dir ds" "ts = i + sum_list (map sizeD2M ds)"
    "nn + length ds \<le> n" "nn + length ds \<le> length ps" "s + sum_list (map sizeD2M ds) \<le> length mem"
  shows "\<exists>ps' mem'. dirpackage_conv m ts i s nn n ps mem = Some (nn + length ds, ps', mem') \<and>
    length ps' = length ps \<and> length mem' = length mem \<and> take s mem' = take s mem \<and> take nn ps' = take nn ps \<and>
    map (map_names (deref mem')) (take (length ds) (drop nn ps')) = map plain ds"
  using assms
proof (induction ds arbitrary: i s nn ps mem)
  case Nil
  then show ?case by (simp add: dirpackage_conv.simps)
next
  case (Cons d ds)
  let ?k = "sizeD2M d" let ?t = "strmem (dir_names d)"
  have w: "drop i m = wire_dir d @ concat (map wire_dir ds) @ t" using Cons.prems(1) by simp
  have d: "wf_dir d" "s + ?k \<le> length mem" using Cons.prems(2,6) by simp_all
  have n: "drop (i + ?k) m = concat (map wire_dir ds) @ t"
    using arg_cong [OF w, of "drop ?k"] by (simp add: length_wire_dir add.commute)
  have i: "i < ts" using Cons.prems(3) wire_length(2) [OF w] by simp
  let ?mem = "take s mem @ ?t @ drop (s + length ?t) mem"
  let ?ps = "ps[nn := ptr_dir s d]"
  have lt: "length ?t \<le> ?k" by (rule strmem_names_le)
  then have lm: "length ?mem = length mem" using d(2) by simp
  have step: "dirpackage_conv m ts i s nn n ps mem = dirpackage_conv m ts (i + ?k) (s + ?k) (nn + 1) n ?ps ?mem"
    using Cons.prems(4) i unfolding dirpackage_conv.simps [of m ts i] GBIT16_wire [OF w d(1)]
    by (simp add: convM2D_wire [OF w d] Let_def)
  obtain ps' mem' where IH:
    "dirpackage_conv m ts (i + ?k) (s + ?k) (nn + 1) n ?ps ?mem = Some (nn + 1 + length ds, ps', mem')"
    "length ps' = length ?ps" "length mem' = length ?mem" "take (s + ?k) mem' = take (s + ?k) ?mem"
    "take (nn + 1) ps' = take (nn + 1) ?ps"
    "map (map_names (deref mem')) (take (length ds) (drop (nn + 1) ps')) = map plain ds"
  proof -
    have "list_all wf_dir ds" "ts = i + ?k + sum_list (map sizeD2M ds)" "nn + 1 + length ds \<le> n"
      "nn + 1 + length ds \<le> length ?ps" using Cons.prems by simp_all
    moreover have "s + ?k + sum_list (map sizeD2M ds) \<le> length ?mem" unfolding lm using Cons.prems(6) by simp
    ultimately show thesis using that Cons.IH [OF n] by blast
  qed
  have "take (s + ?k) ?mem = take s mem @ ?t @ take (?k - length ?t) (drop (s + length ?t) mem)"
    using d(2) lt by simp
  then have mem': "mem' = take s mem @ ?t @ take (?k - length ?t) (drop (s + length ?t) mem) @ drop (s + ?k) mem'"
    using IH(4) append_take_drop_id [of "s + ?k" mem'] by (metis append.assoc)
  have p: "ps' ! nn = ptr_dir s d"
    using arg_cong [OF IH(5), of "\<lambda>l. l ! nn"] Cons.prems(5) by simp
  have "map_names (deref mem') (ps' ! nn) = plain d"
    unfolding p by (rule deref_ptr_dir [OF mem']) (use d(2) in simp)
  moreover have "take (Suc (length ds)) (drop nn ps') = ps' ! nn # take (length ds) (drop (nn + 1) ps')"
    using IH(2) Cons.prems(5) by (simp add: Cons_nth_drop_Suc [symmetric])
  moreover have "take s mem' = take s mem" using arg_cong [OF IH(4), of "take s"] d(2) by (simp add: min_def)
  moreover have "take nn ps' = take nn ps" using arg_cong [OF IH(5), of "take nn"] by (simp add: min_def)
  ultimately show ?case using IH step lm by simp
qed

text \<open>
  C32: a directory read, the packed entries one after another, is unpacked by \<open>dirpackage\<close> into
  exactly these entries: no conversion overwrites the names of an earlier one.
\<close>
theorem dirpackage_entries:
  assumes "ds \<noteq> []" "list_all wf_dir ds" "buf = concat (map wire_dir ds)"
    "alloc (length ds) (length buf) = Some (ps, mem)" "length ps = length ds" "length mem = length buf"
  shows "\<exists>ps' mem'. dirpackage alloc buf (int (length buf)) = Inr (int (length ds), Some (ps', mem')) \<and>
    map (map_names (deref mem')) ps' = map plain ds \<and> length mem' = length buf"
proof -
  let ?n = "length buf"
  have n: "?n = sum_list (map sizeD2M ds)"
    unfolding assms(3) by (simp add: length_concat comp_def length_wire_dir)
  have b: "drop 0 buf = concat (map wire_dir ds) @ []" "?n = 0 + sum_list (map sizeD2M ds)" using assms(3) n by simp_all
  have pos: "\<exists>d\<in>set ds. 0 < sizeD2M d" using assms(1) by (cases ds) (auto simp: sizeD2M_def)
  obtain ps' mem' where c: "dirpackage_conv buf ?n 0 0 0 (length ds) ps mem = Some (length ds, ps', mem')"
    "length ps' = length ps" "length mem' = length mem" "map (map_names (deref mem')) (take (length ds) ps') = map plain ds"
    using conv_wires [OF b(1) assms(2) b(2), of 0 "length ds" ps 0 mem] assms(5,6) n by auto
  show ?thesis
    using count_wires [OF b(1) assms(2) b(2), of 0 0] c pos assms(4-6) n by (simp add: dirpackage_def)
qed

text \<open>
  The names of an unpacked entry lie inside the string memory: each pointer has a terminator behind it there.
\<close>

definition dir_ptrs :: "sptr dir \<Rightarrow> sptr list" where
  "dir_ptrs d = [d_name d, d_uid d, d_gid d, d_muid d]"

definition inside :: "u8 list \<Rightarrow> sptr dir \<Rightarrow> bool" where
  "inside mem d \<longleftrightarrow> (\<forall>p\<in>set (dir_ptrs d). \<exists>k < length mem. p = Some k \<and> 0 \<in> set (drop k mem))"

lemma inside_take: "inside (take n mem) d \<Longrightarrow> inside mem d"
  unfolding inside_def drop_take by (fastforce dest: in_set_takeD)

lemma offsets_terminated:
  "i < length xs \<Longrightarrow> length a = k \<Longrightarrow> 0 \<in> set (drop (offsets k xs ! i) (a @ strmem xs))"
proof (induction xs arbitrary: a k i)
  case (Cons x xs)
  then show ?case using Cons.IH [of "i - 1" "a @ x @ [0]" "k + length x + 1"] by (cases i) simp_all
qed simp

lemma inside_rd_fixed:
  assumes "length xs = 4" "k \<le> length s"
  shows "inside (take k s @ strmem xs) (rd_fixed m buf (\<lambda>i. Some (offsets k xs ! i)))"
proof -
  have t: "0 \<in> set (drop (offsets k xs ! i) (take k s @ strmem xs))" if "i < 4" for i
    using offsets_terminated [of i xs "take k s" k] assms that by simp
  moreover have "offsets k xs ! i < length (take k s @ strmem xs)" if "i < 4" for i
    using t [OF that] by (metis drop_all empty_iff list.set(1) not_le)
  ultimately show ?thesis by (simp add: inside_def dir_ptrs_def rd_fixed_def)
qed

lemma conv_total:
  assumes "dirpackage_count m ts i ss nn = (ts, ss', n)" "ts \<le> length m" "length ps = n"
    "s + (ss' - ss) \<le> length mem"
  shows "ss \<le> ss' \<and> nn \<le> n \<and> (\<exists>ps' mem'. dirpackage_conv m ts i s nn n ps mem = Some (n, ps', mem') \<and>
    length ps' = length ps \<and> length mem' = length mem \<and> take s mem' = take s mem \<and> take nn ps' = take nn ps \<and>
    (\<forall>j. nn \<le> j \<and> j < n \<longrightarrow> inside mem' (ps' ! j)))"
  using assms
proof (induction m ts i ss nn arbitrary: s ps mem rule: dirpackage_count.induct)
  case (1 m ts i ss nn)
  let ?r = "statcheckbuf m i (ts - i)" let ?k = "BIT16SZ + unat (GBIT16 m i)"
  show ?case
  proof (cases "i < ts")
    case False
    then show ?thesis using 1(2) by (auto simp: dirpackage_count.simps [of m ts] dirpackage_conv.simps [of m ts])
  next
    case True
    have r: "\<not> ?r < 0" using 1(2) True by (auto simp: dirpackage_count.simps [of m ts] Let_def split: if_splits)
    then have k: "?r = int ?k" "?k \<le> ts - i" "statcheck m i ?k = 0"
      by (cases rule: statcheckbuf_cases [of m i "ts - i"]; simp)+
    then have kn: "nat ?r = ?k" by linarith
    have rec: "dirpackage_count m ts (i + ?k) (ss + ?k) (nn + 1) = (ts, ss', n)"
      using 1(2) True r unfolding dirpackage_count.simps [of m ts i] Let_def kn by simp
    note IH = 1(1) [OF True refl r, unfolded kn, OF rec 1(3)]
    have c: "ss + ?k \<le> ss'" "nn + 1 \<le> n" using IH [of ps "s + ?k" "replicate (s + ?k + ss') 0"] 1(4) by simp_all
    have b: "i + ?k \<le> length m" "STATFIXLEN \<le> ?k" using k 1(3) True by (auto simp: statcheck_def split: if_splits)
    obtain xs where x: "strings_at m i ?k = Some (xs, [])" using statcheck_iff [OF b] k(3) by blast
    have s: "s + ?k \<le> length mem" using 1(5) c by linarith
    let ?d = "rd_fixed m i (\<lambda>j. Some (offsets s xs ! j))"
    let ?mem = "take s mem @ strmem xs @ drop (s + length (strmem xs)) mem"
    have xf: "length (strmem xs) \<le> ?k" using strmem_fits [OF x] by linarith
    have cv: "convM2D m i ?k (ps ! nn) (Some mem) s = (?k, ?d, Some ?mem)" and lm: "length ?mem = length mem"
      using convM2D_ok(2) [OF b x, of "Some mem" s "ps ! nn"] s xf by simp_all
    have "inside (take s mem @ strmem xs) ?d" by (rule inside_rd_fixed) (use str.enc_dec_n [OF x] s in simp_all)
    moreover have "take s mem @ strmem xs = take (s + length (strmem xs)) (take (s + ?k) ?mem)" using s xf by (simp add: min_def)
    ultimately have d: "inside (take (s + ?k) ?mem) ?d" by (metis inside_take)
    have "length (ps[nn := ?d]) = n" "s + ?k + (ss' - (ss + ?k)) \<le> length ?mem" using 1(4,5) lm c by simp_all
    from IH [OF this] obtain ps' mem' where
      IH: "dirpackage_conv m ts (i + ?k) (s + ?k) (nn + 1) n (ps[nn := ?d]) ?mem = Some (n, ps', mem')"
        "length ps' = length ps" "length mem' = length mem" "take (s + ?k) mem' = take (s + ?k) ?mem"
        "take (nn + 1) ps' = take (nn + 1) (ps[nn := ?d])" "\<forall>j. nn + 1 \<le> j \<and> j < n \<longrightarrow> inside mem' (ps' ! j)"
      unfolding lm by auto
    have "ps' ! nn = ?d" using arg_cong [OF IH(5), of "\<lambda>l. l ! nn"] c(2) 1(4) by simp
    then have "inside mem' (ps' ! nn)" using d inside_take [of "s + ?k" mem'] IH(4) by simp
    then have "\<forall>j. nn \<le> j \<and> j < n \<longrightarrow> inside mem' (ps' ! j)" using IH(6) by (metis le_neq_implies_less Suc_eq_plus1 Suc_leI)
    moreover have "take s mem' = take s mem" using arg_cong [OF IH(4), of "take s"] s by (simp add: min_def)
    moreover have "take nn ps' = take nn ps" using arg_cong [OF IH(5), of "take nn"] by (simp add: min_def)
    ultimately show ?thesis
      using True c cv IH(1-3) unfolding dirpackage_conv.simps [of m ts i] by (auto simp: Let_def)
  qed
qed

text \<open>The buffer from \<open>i\<close> to \<open>ts\<close> is a sequence of entries of these sizes, each of which \<open>statcheck\<close> accepts.\<close>

fun entries :: "u8 list \<Rightarrow> nat \<Rightarrow> nat \<Rightarrow> nat list \<Rightarrow> bool" where
  "entries m ts i [] \<longleftrightarrow> i = ts"
| "entries m ts i (k # ks) \<longleftrightarrow> i + k \<le> ts \<and> statcheck m i k = 0 \<and> entries m ts (i + k) ks"

lemma statcheckbuf_entry:
  assumes "statcheck m i k = 0" "k \<le> n"
  shows "statcheckbuf m i n = int k" "STATFIXLEN \<le> k"
  using assms by (auto simp: statcheckbuf_def statcheck_def Let_def split: if_splits)

lemma count_entries:
  "entries m ts i ks \<Longrightarrow> dirpackage_count m ts i ss n = (ts, ss + (ts - i), n + length ks)"
proof (induction ks arbitrary: i ss n)
  case Nil
  then show ?case by (simp add: dirpackage_count.simps)
next
  case (Cons k ks)
  then have k: "k \<le> ts - i" "statcheck m i k = 0" "i + k \<le> ts" by auto
  note c = statcheckbuf_entry [OF k(2,1)]
  have "dirpackage_count m ts i ss n = dirpackage_count m ts (i + k) (ss + k) (n + 1)"
    using c k(3) by (subst dirpackage_count.simps) simp
  then show ?case using Cons k(3) by simp
qed

lemma entries_count:
  "dirpackage_count m ts i ss n = (ts, x) \<Longrightarrow> i \<le> ts \<Longrightarrow> \<exists>ks. entries m ts i ks"
proof (induction m ts i ss n arbitrary: x rule: dirpackage_count.induct)
  case (1 m ts i ss n)
  let ?r = "statcheckbuf m i (ts - i)"
  show ?case
  proof (cases "i < ts")
    case False
    then show ?thesis using 1(3) by (intro exI [of _ "[]"]) simp
  next
    case True
    have r: "\<not> ?r < 0" using 1(2) True by (auto simp: dirpackage_count.simps [of m ts] Let_def split: if_splits)
    then have k: "statcheck m i (nat ?r) = 0" "nat ?r \<le> ts - i"
      by (cases rule: statcheckbuf_cases [of m i "ts - i"]; simp add: nat_2_uint)+
    have "dirpackage_count m ts (i + nat ?r) (ss + nat ?r) (n + 1) = (ts, x)"
      using 1(2) True r unfolding dirpackage_count.simps [of m ts i] Let_def by simp
    then obtain ks where "entries m ts (i + nat ?r) ks" using 1(1) [OF True refl r] k(2) True by fastforce
    then have "entries m ts i (nat ?r # ks)" using k True by simp
    then show ?thesis by blast
  qed
qed

text \<open>
  C33: whatever the buffer holds, \<open>dirpackage\<close> stays inside the one block it allocates for it.  When the buffer is not
  a sequence of entries \<open>statcheck\<close> accepts the error is the bad format, before anything is allocated; else \<open>n\<close>
  \<open>Dir\<close>s are asked for with as many bytes as were read, and the only error is want of memory, never a bad entry.
  A result is the number of entries; the string memory has kept its size, so no name was written behind it, and
  each name of each entry has its terminator inside it.
\<close>
theorem dirpackage_contained:
  assumes "nat ts \<le> length buf"
    "\<And>n ss ps mem. alloc n ss = Some (ps, mem) \<Longrightarrow> length ps = n \<and> length mem = ss"
  shows "case dirpackage alloc buf ts of
      Inl e \<Rightarrow> 0 < ts \<and> ((e = Ebadformat \<and> (\<nexists>ks. entries buf (nat ts) 0 ks)) \<or>
        (e = Enomem \<and> (\<exists>ks. entries buf (nat ts) 0 ks \<and> alloc (length ks) (nat ts) = None)))
    | Inr (r, None) \<Rightarrow> ts \<le> 0 \<and> r = ts
    | Inr (r, Some (ps, mem)) \<Rightarrow> 0 < ts \<and> (\<exists>ks. entries buf (nat ts) 0 ks \<and> r = int (length ks) \<and>
        alloc (length ks) (nat ts) \<noteq> None \<and> length ps = length ks \<and> length mem = nat ts \<and> list_all (inside mem) ps)"
proof (cases "0 < ts")
  case True
  show ?thesis
  proof (cases "\<exists>ks. entries buf (nat ts) 0 ks")
    case False
    obtain i x where c: "dirpackage_count buf (nat ts) 0 0 0 = (i, x)" by (metis surj_pair)
    then have "i \<noteq> nat ts" using entries_count [of buf "nat ts" 0 0 0 x] False by auto
    then show ?thesis using c False True by (cases x) (simp add: dirpackage_def)
  next
    case es: True
    then obtain ks where ks: "entries buf (nat ts) 0 ks" by blast
    have c: "dirpackage_count buf (nat ts) 0 0 0 = (nat ts, nat ts, length ks)" using count_entries [OF ks, of 0 0] by simp
    show ?thesis
    proof (cases "alloc (length ks) (nat ts)")
      case None
      then show ?thesis using c ks True by (auto simp: dirpackage_def)
    next
      case (Some a)
      obtain ps mem where a: "a = (ps, mem)" by fastforce
      then have l: "length ps = length ks" "length mem = nat ts" using assms(2) Some by blast+
      then have m: "0 + (nat ts - 0) \<le> length mem" by simp
      obtain ps' mem' where t: "dirpackage_conv buf (nat ts) 0 0 0 (length ks) ps mem = Some (length ks, ps', mem')"
        "length ps' = length ps" "length mem' = length mem" "\<forall>j. 0 \<le> j \<and> j < length ks \<longrightarrow> inside mem' (ps' ! j)"
        using conv_total [OF c assms(1) l(1) m] by (elim conjE exE)
      then have "dirpackage alloc buf ts = Inr (int (length ks), Some (ps', mem'))" "list_all (inside mem') ps'"
        using Some a c True t l by (simp_all add: dirpackage_def list_all_length)
      then show ?thesis using Some ks True t l by auto
    qed
  qed
qed (simp add: dirpackage_def)

subsection \<open>Concrete entries\<close>

definition dir0 :: "cstring dir" where
  "dir0 = \<lparr>d_type = 77, d_dev = 1, d_qid = \<lparr>q_path = 5, q_vers = 0, q_type = 128\<rparr>, d_mode = NOT 0, d_atime = 3, d_mtime = 4,
     d_length = 0, d_name = Some [97, 98], d_uid = Some [99], d_gid = None, d_muid = Some []\<rparr>"

lemma dir0_size [simp]: "sizeD2M dir0 = 52"
  by (simp add: sizeD2M_def dir0_def slen_def strlen_def)

lemma dir0_wf [simp]: "wf_dir dir0"
  using dir0_size by (simp add: wf_dir_def dontcare_ok_def) (simp add: dir0_def)

lemma convM2D_convD2M_witness:
  "\<exists>m d' strs'. convD2M dir0 (replicate 60 0) = (52, m) \<and>
     convM2D m 0 52 (ptr_dir 0 dir0) (Some (replicate 52 1)) 0 = (52, d', Some strs') \<and>
     map_names (deref strs') d' = plain dir0"
proof -
  obtain n m where c: "convD2M dir0 (replicate 60 0) = (n, m)" by fastforce
  then have "n = 52" by (simp add: convD2M_eq)
  then show ?thesis using convM2D_convD2M [OF dir0_wf _ _ c, of "replicate 52 1" "ptr_dir 0 dir0"] c by auto
qed

lemma statcheck_convM2D_witness:
  "statcheck (wire_dir dir0) 0 52 = 0 \<longleftrightarrow>
     52 = BIT16SZ + unat (GBIT16 (wire_dir dir0) 0) \<and> fst (convM2D (wire_dir dir0) 0 52 (ptr_dir 0 dir0) None 0) = 52"
  by (rule statcheck_convM2D) (simp_all add: length_wire_dir)

lemma dirpackage_entries_witness:
  "\<exists>ps mem. dirpackage (\<lambda>n ss. Some (replicate n (ptr_dir 0 dir0), replicate ss 1)) (wire_dir dir0 @ wire_dir dir0) 104
       = Inr (2, Some (ps, mem)) \<and> map (map_names (deref mem)) ps = [plain dir0, plain dir0]"
  using dirpackage_entries [of "[dir0, dir0]" "wire_dir dir0 @ wire_dir dir0"
      "\<lambda>n ss. Some (replicate n (ptr_dir 0 dir0), replicate ss 1)" "[ptr_dir 0 dir0, ptr_dir 0 dir0]" "replicate 104 1"]
  by (auto simp: length_wire_dir numeral_2_eq_2)

lemma dirpackage_contained_witness:
  "\<exists>ps mem. dirpackage (\<lambda>n ss. Some (replicate n (ptr_dir 0 dir0), replicate ss 1)) (wire_dir dir0 @ wire_dir dir0) 104
       = Inr (2, Some (ps, mem)) \<and> length mem = 104 \<and> list_all (inside mem) ps"
proof -
  let ?b = "wire_dir dir0 @ wire_dir dir0" and ?a = "\<lambda>n ss. Some (replicate n (ptr_dir 0 dir0), replicate ss (1 :: u8))"
  have c: "dirpackage_count ?b 104 0 0 0 = (104, 104, 2)"
    using count_wires [of 0 ?b "[dir0, dir0]" "[]" 104 0 0] by simp
  then obtain ks where ks: "entries ?b 104 0 ks" using entries_count by blast
  have n: "length ks' = 2" if "entries ?b 104 0 ks'" for ks' using count_entries [OF that, of 0 0] c by simp
  from dirpackage_contained [of 104 ?b ?a] ks show ?thesis
    by (auto simp: length_wire_dir dest: n split: sum.splits option.splits prod.splits)
qed

text \<open>
  An entry of more than 65537 bytes is packed with a count reduced to 16 bits, and its size returned: no
  \<open>statcheck\<close> accepts it.
\<close>

lemma convD2M_long:
  assumes "65538 \<le> sizeD2M d" "sizeD2M d \<le> length buf"
  shows "\<exists>m. convD2M d buf = (sizeD2M d, m) \<and> statcheck m 0 (sizeD2M d) = -1"
proof -
  let ?m = "wire_dir d @ drop (sizeD2M d) buf"
  have "BIT16SZ + unat (GBIT16 ?m 0) < 65538" using unat_u16_less [of "GBIT16 ?m 0"] by linarith
  then have "sizeD2M d \<noteq> BIT16SZ + unat (GBIT16 ?m 0)" using assms(1) by linarith
  then have "statcheck ?m 0 (sizeD2M d) = -1" by (simp add: statcheck_def)
  then show ?thesis using assms(2) assms(1) by (simp add: convD2M_eq)
qed

end
