(* ===== verification/Names.thy ===== *)
theory Names
  imports Clean Rune Stat
begin

text \<open>
  The name handling of \<open>emu/port/chan.c\<close> (\<open>isdotdot\<close>, \<open>validname\<close>,
  \<open>skipslash\<close>, \<open>parsename\<close>, \<open>cleancname\<close>) and the \<open>validstat\<close> of
  \<open>emu/port/sysfile.c\<close>.  Arrays from \<open>smalloc\<close> start out zero, as \<open>emu/port/alloc.c\<close>
  makes them.
\<close>

datatype nameerr = Etoolong | Ebadchar | Ebadstat

definition isdotdot :: "u8 list \<Rightarrow> bool" where
  "isdotdot p \<longleftrightarrow> at p 0 = DOT \<and> at p 1 = DOT \<and> at p 2 = 0"

definition emptystr :: "cstring \<Rightarrow> bool" where
  "emptystr s = (case s of None \<Rightarrow> True | Some s \<Rightarrow> at s 0 = 0)"

text \<open>The table \<open>isfrog\<close>, as \<open>chandevinit\<close> completes it.\<close>

definition isfrog :: "u8 \<Rightarrow> bool" where
  "isfrog c \<longleftrightarrow> c < 32 \<or> c = SLASH \<or> c = 0x7f"

function skipslash :: "u8 list \<Rightarrow> nat \<Rightarrow> nat" where
  "skipslash m i =
     (if at m i = SLASH \<or> (at m i = DOT \<and> (at m (i + 1) = 0 \<or> at m (i + 1) = SLASH))
      then skipslash m (i + 1) else i)"
  by pat_completeness auto
termination by (relation "measure (\<lambda>(m, i). length m - i)") (auto simp: at_def split: if_splits)

declare skipslash.simps [simp del]

record elemlist =
  e_name :: "u8 list"
  e_nelems :: nat
  e_elems :: "nat list"
  e_off :: "nat list"
  e_mustbedir :: bool

definition growparse :: "elemlist \<Rightarrow> elemlist" where
  "growparse e =
     (if e_nelems e mod 8 = 0 then
        e\<lparr>e_elems := take (e_nelems e) (e_elems e) @ replicate 8 0,
          e_off := take (e_nelems e) (e_off e) @ replicate 9 0\<rparr>
      else e)"

lemma skipslash_le: "i \<le> skipslash m i"
proof (induction m i rule: skipslash.induct)
  case (1 m i)
  then show ?case by (subst skipslash.simps) auto
qed

lemma growparse_name [simp]: "e_name (growparse e) = e_name e" "e_nelems (growparse e) = e_nelems e"
  by (simp_all add: growparse_def)

function parse_loop :: "elemlist \<Rightarrow> nat \<Rightarrow> elemlist" where
  "parse_loop e name =
     (let name = skipslash (e_name e) name in
      if at (e_name e) name = 0 then e\<lparr>e_mustbedir := True\<rparr>
      else
        let e = growparse e;
            e = e\<lparr>e_elems := (e_elems e)[e_nelems e := name], e_nelems := e_nelems e + 1\<rparr>
        in case utfrune (cstr (drop name (e_name e))) 47 of
             None \<Rightarrow>
               e\<lparr>e_off := (e_off e)[e_nelems e := name + strlen (drop name (e_name e))], e_mustbedir := False\<rparr>
           | Some slash \<Rightarrow>
               let e = e\<lparr>e_off := (e_off e)[e_nelems e := name + slash]\<rparr>;
                   e = e\<lparr>e_name := (e_name e)[name + slash := 0]\<rparr>
               in parse_loop e (name + slash + 1))"
  by pat_completeness auto
termination
proof (relation "measure (\<lambda>(e, name). length (e_name e) - name)")
  fix e name name' e1 e2 slash e3 e4
  assume "name' = skipslash (e_name e) name" "at (e_name e) name' \<noteq> 0" "e1 = growparse e"
    "e2 = e1\<lparr>e_elems := (e_elems e1)[e_nelems e1 := name'], e_nelems := e_nelems e1 + 1\<rparr>"
    "e3 = e2\<lparr>e_off := (e_off e2)[e_nelems e2 := name' + slash]\<rparr>"
    "e4 = e3\<lparr>e_name := (e_name e3)[name' + slash := 0]\<rparr>"
  then show "((e4, name' + slash + 1), e, name) \<in> measure (\<lambda>(e, name). length (e_name e) - name)"
    using at_nonempty [of "e_name e" name'] skipslash_le [of name "e_name e"] by simp
qed simp

declare parse_loop.simps [simp del]

definition parsename :: "u8 list \<Rightarrow> elemlist" where
  "parsename name =
     (let copy = name @ [0] in
      parse_loop \<lparr>e_name = copy, e_nelems = 0, e_elems = [], e_off = [skipslash copy 0], e_mustbedir = False\<rparr> 0)"

function validname_loop :: "u8 list \<Rightarrow> bool \<Rightarrow> nameerr + unit" where
  "validname_loop name slashok =
     (if at name 0 = 0 then Inr ()
      else
        let c = at name 0 in
        if c \<ge> 0x80 then validname_loop (drop (snd (chartorune name)) name) slashok
        else if isfrog c \<and> (\<not> slashok \<or> c \<noteq> SLASH) then Inl Ebadchar
        else validname_loop (drop 1 name) slashok)"
  by pat_completeness auto
termination
  by (relation "measure (\<lambda>(name, slashok). length name)")
    (use chartorune_pos at_nonempty [of _ 0] in \<open>auto simp: not_less\<close>)

declare validname_loop.simps [simp del]

text \<open>The name is the string up to its terminator; \<open>memchr\<close> looks for that in the first 65536 bytes.\<close>

definition validname :: "u8 list \<Rightarrow> bool \<Rightarrow> nameerr + unit" where
  "validname aname slashok =
     (if length aname \<ge> 65536 then Inl Etoolong else validname_loop aname slashok)"

definition validstat :: "u8 list \<Rightarrow> int \<Rightarrow> nameerr + unit" where
  "validstat s n =
     (if n < 0 \<or> statcheckbuf s 0 (nat n) \<noteq> n then Inl Ebadstat
      else
        let k = STATFIXLEN - 4 * BIT16SZ; m = unat (GBIT16 s k); k = k + BIT16SZ in
        if m + 1 > 64 then Inr ()
        else
          let buf = cstr (take m (drop k s) @ [0]) in
          if buf \<noteq> [SLASH] then validname buf False else Inr ())"

text \<open>
  The string array of a \<open>Cname\<close>; the result is the array and the new \<open>len\<close>, which
  \<open>cleancname\<close> leaves alone for a device name without a slash.
\<close>

definition cleancname :: "u8 list \<Rightarrow> nat \<Rightarrow> (u8 list \<times> nat) option" where
  "cleancname s len =
     (if at s 0 = 35 then
        case strchr (cstr s) SLASH of
          None \<Rightarrow> Some (s, len)
        | Some p \<Rightarrow>
            (case cleanname (drop p s) of
               None \<Rightarrow> None
             | Some t \<Rightarrow>
                 let s = take p s @ t;
                     s = (if cstr t = [SLASH] \<and> at s 1 \<noteq> SLASH then s[p := 0] else s)
                 in Some (s, strlen s))
      else
        case cleanname s of None \<Rightarrow> None | Some s \<Rightarrow> Some (s, strlen s))"

definition memrchr :: "u8 list \<Rightarrow> u8 \<Rightarrow> nat \<Rightarrow> nat option" where
  "memrchr a c n = find (\<lambda>e. at a e = c) (rev [1..<n])"

subsection \<open>Valid names\<close>

lemma cont_ge:
  assumes "(ucast (b :: u8) XOR Tx) AND Testx = 0"
  shows "0x80 \<le> b"
  using bit_imp_le [OF cont_bits(1) [OF assms]] by (simp add: word_le_nat_alt)

lemma chartorune_cont1:
  "1 < snd (chartorune s) \<Longrightarrow> (ucast (at s 1) XOR Tx) AND Testx = 0"
  by (auto simp: chartorune_def Let_def split: if_splits)

lemma rune_bytes_high:
  assumes "0x80 \<le> at s 0" "b \<in> set (take (snd (chartorune s)) s)"
  shows "0x80 \<le> b"
proof -
  obtain i where i: "i < snd (chartorune s)" "i < length s" "b = at s i"
    using assms(2) by (auto simp: in_set_conv_nth at_def)
  consider "i = 0" | "i = 1" "1 < snd (chartorune s)" | "i = 2" "snd (chartorune s) = 3"
    using i(1) chartorune_width [of s] by fastforce
  then show ?thesis
    using assms(1) i(3) cont_ge [OF chartorune_cont1 [of s]] cont_ge [OF chartorune_cont(2) [of s]] by cases auto
qed

lemma high_not_frog: "0x80 \<le> b \<Longrightarrow> \<not> isfrog b"
  by (auto simp: isfrog_def word_less_nat_alt word_le_nat_alt)

lemma nul_free_at: "nul_free s \<Longrightarrow> at s 0 = 0 \<longleftrightarrow> s = []"
  by (cases s) (auto simp: nul_free_def)

lemma validname_loop_ok:
  assumes "nul_free s"
  shows "validname_loop s slashok =
    (if \<forall>b\<in>set s. isfrog b \<longrightarrow> slashok \<and> b = SLASH then Inr () else Inl Ebadchar)"
  using assms
proof (induction s slashok rule: validname_loop.induct)
  case (1 s slashok)
  let ?n = "snd (chartorune s)"
  consider "s = []" | "s \<noteq> []" "0x80 \<le> at s 0" | c t where "s = c # t" "\<not> 0x80 \<le> c"
    by (cases s) auto
  then show ?case
  proof cases
    case 1
    then show ?thesis by (simp add: validname_loop.simps)
  next
    case 2
    have d: "set s = set (take ?n s) \<union> set (drop ?n s)" by (metis append_take_drop_id set_append)
    have nf: "nul_free (drop ?n s)" using 1(3) by (auto simp: nul_free_def dest: in_set_dropD)
    have z: "at s 0 \<noteq> 0" using nul_free_at [OF 1(3)] 2 by simp
    have "validname_loop s slashok = validname_loop (drop ?n s) slashok"
      using z 2 by (subst validname_loop.simps) (simp add: Let_def)
    moreover have "validname_loop (drop ?n s) slashok =
        (if \<forall>b\<in>set (drop ?n s). isfrog b \<longrightarrow> slashok \<and> b = SLASH then Inr () else Inl Ebadchar)"
      using 1(1) [OF z refl 2(2) nf] .
    moreover have "\<forall>b\<in>set (take ?n s). \<not> isfrog b" using rune_bytes_high [OF 2(2)] high_not_frog by blast
    ultimately show ?thesis unfolding d by auto
  next
    case (3 c t)
    have z: "at s 0 \<noteq> 0" "nul_free t" using 1(3) 3 by (auto simp: nul_free_def)
    show ?thesis
    proof (cases "isfrog c \<and> (\<not> slashok \<or> c \<noteq> SLASH)")
      case True
      then show ?thesis using z 3 by (subst validname_loop.simps) (auto simp: Let_def)
    next
      case False
      have "validname_loop s slashok = validname_loop t slashok"
        using z 3 False by (subst validname_loop.simps) (auto simp: Let_def)
      then show ?thesis using 1(2) [OF z(1) refl] 3 False z by auto
    qed
  qed
qed

text \<open>
  \<open>validname\<close> accepts exactly the names short enough for a 9P string that hold no control character and, where
  slashes are not allowed, no slash: no malformed UTF sequence hides a forbidden byte from it.
\<close>
theorem validname_accepts:
  assumes "nul_free name"
  shows "validname name slashok =
    (if length name \<ge> 65536 then Inl Etoolong
     else if \<exists>b\<in>set name. isfrog b \<and> \<not> (slashok \<and> b = SLASH) then Inl Ebadchar
     else Inr ())"
  using validname_loop_ok [OF assms, of slashok] by (auto simp: validname_def)

lemma validname_accepts_witness:
  "validname [0xE2, 0x2F] False = Inl Ebadchar \<and> validname [0xE2, 0x2F] True = Inr ()"
  using validname_accepts [of "[0xE2, 0x2F]"] by (simp add: nul_free_def isfrog_def)

subsection \<open>The elements of a name\<close>

definition pelems :: "u8 list \<Rightarrow> u8 list list" where
  "pelems s = filter (\<lambda>e. e \<noteq> [DOT]) (elems s)"

text \<open>Names that end in a slash or a dot element, or are empty, name a directory.\<close>

definition dirlike :: "u8 list \<Rightarrow> bool" where
  "dirlike s \<longleftrightarrow> s = [] \<or> last s = SLASH \<or> elems s \<noteq> [] \<and> last (elems s) = [DOT]"

lemma elems_slash [simp]: "elems (SLASH # s) = elems s"
  by (simp add: elems.simps)

lemma elems_dot: "elems [DOT] = [[DOT]]" "elems (DOT # SLASH # s) = [DOT] # elems s"
  by (simp_all add: elems.simps)

lemma last_elems_Nil: "elems s = [] \<Longrightarrow> s \<noteq> [] \<Longrightarrow> last s = SLASH"
  by (induction s rule: elems.induct) (auto simp: elems.simps split: if_splits)

lemma dirlike_slash: "dirlike (SLASH # s) = dirlike s"
  by (auto simp: dirlike_def)

lemma dirlike_dot: "dirlike (DOT # SLASH # s) = dirlike s"
  using last_elems_Nil [of s] by (auto simp: dirlike_def elems_dot)

lemma skipslash_ok:
  assumes "drop i m = r @ [0]" "nul_free r"
  shows "\<exists>r1. drop (skipslash m i) m = r1 @ [0] \<and> nul_free r1 \<and> pelems r1 = pelems r \<and> dirlike r1 = dirlike r \<and>
    length r1 \<le> length r \<and> (r1 \<noteq> [] \<longrightarrow> hd r1 \<noteq> SLASH \<and> hd (elems r1) \<noteq> [DOT])"
  using assms
proof (induction r arbitrary: i)
  case Nil
  then show ?case using at_rest [OF Nil(1), of 0] by (subst skipslash.simps) auto
next
  case (Cons c r)
  have a: "at m i = c" "at m (i + 1) = at (r @ [0]) 0" "drop (i + 1) m = r @ [0]" "nul_free r" "c \<noteq> 0"
    using at_rest [OF Cons(2), of 0] at_rest [OF Cons(2), of 1] drop_ConsD(3) [of i m c "r @ [0]"] Cons(2,3)
    by (auto simp: nul_free_def)
  show ?case
  proof (cases "c = SLASH \<or> c = DOT \<and> (r = [] \<or> hd r = SLASH)")
    case True
    then have "skipslash m i = skipslash m (i + 1)" using a by (subst skipslash.simps) (cases r; auto)
    moreover have "pelems (c # r) = pelems r" "dirlike (c # r) = dirlike r"
      using True by (cases r; auto simp: pelems_def elems_dot dirlike_slash dirlike_dot; simp add: dirlike_def elems_dot)+
    ultimately show ?thesis using Cons.IH [OF a(3,4)] by fastforce
  next
    case False
    have "\<not> (at m i = SLASH \<or> at m i = DOT \<and> (at m (i + 1) = 0 \<or> at m (i + 1) = SLASH))"
      using False a by (cases r) (auto simp: nul_free_def)
    then have "skipslash m i = i" by (subst skipslash.simps) (simp only: if_False)
    moreover have "hd (elems (c # r)) \<noteq> [DOT]" using False by (cases r) (auto simp: elems.simps(2))
    ultimately show ?thesis using False Cons(2,3) by auto
  qed
qed

definition elem_at :: "u8 list \<Rightarrow> nat \<Rightarrow> nat \<Rightarrow> u8 list \<Rightarrow> bool" where
  "elem_at m n p x \<longleftrightarrow> p + length x < n \<and> nul_free x \<and> take (length x + 1) (drop p m) = x @ [0]"

lemma elem_at_mono:
  assumes "elem_at m n p x" "n \<le> n'" "n \<le> i"
  shows "elem_at m n' p x" "elem_at (m[i := b]) n' p x"
  using assms by (auto simp: elem_at_def drop_update_swap take_update_swap list_update_beyond)

lemma elem_at_cstr:
  assumes "elem_at m n p x"
  shows "cstr (drop p m) = x"
proof -
  have "drop p m = x @ 0 # drop (length x + 1) (drop p m)"
    using assms append_take_drop_id [of "length x + 1" "drop p m"] by (simp add: elem_at_def)
  then show ?thesis using assms cstr_nul [of x] by (metis elem_at_def)
qed

definition caps :: "elemlist \<Rightarrow> bool" where
  "caps e \<longleftrightarrow> length (e_elems e) = 8 * ((e_nelems e + 7) div 8) \<and> length (e_off e) = length (e_elems e) + 1"

lemma caps_grow:
  assumes "caps e"
  shows "e_nelems e < length (e_elems (growparse e))" "e_nelems e + 1 < length (e_off (growparse e))"
    "take (e_nelems e) (e_elems (growparse e)) = take (e_nelems e) (e_elems e)"
    "caps ((growparse e)\<lparr>e_elems := (e_elems (growparse e))[i := x], e_nelems := e_nelems e + 1\<rparr>)"
proof -
  define k where "k = e_nelems e"
  have d: "k = 8 * (k div 8) + k mod 8" "k mod 8 < 8" by simp_all
  have c: "(k + 7) div 8 = (if k mod 8 = 0 then k div 8 else k div 8 + 1)" "(k + 8) div 8 = k div 8 + 1"
    by presburger+
  have l: "length (e_elems e) = 8 * ((k + 7) div 8)" "length (e_off e) = length (e_elems e) + 1"
    using assms by (simp_all add: caps_def k_def)
  have g: "length (e_elems (growparse e)) = 8 * (k div 8 + 1)" "length (e_off (growparse e)) = 8 * (k div 8 + 1) + 1"
  proof -
    have "length (e_elems e) = k \<and> k = 8 * (k div 8)" if "k mod 8 = 0" using that l(1) c(1) d(1) by simp
    then show "length (e_elems (growparse e)) = 8 * (k div 8 + 1)" "length (e_off (growparse e)) = 8 * (k div 8 + 1) + 1"
      using l c(1) by (auto simp: growparse_def k_def [symmetric] min_def)
  qed
  have k: "k < 8 * (k div 8 + 1)" by presburger
  show "e_nelems e < length (e_elems (growparse e))" "e_nelems e + 1 < length (e_off (growparse e))"
    using k unfolding k_def [symmetric] g by simp_all
  show "take (e_nelems e) (e_elems (growparse e)) = take (e_nelems e) (e_elems e)"
  proof (cases "k mod 8 = 0")
    case True
    then have "length (e_elems e) = k" using l(1) c(1) d(1) by simp
    then show ?thesis by (simp add: growparse_def k_def [symmetric])
  qed (simp add: growparse_def k_def [symmetric])
  show "caps ((growparse e)\<lparr>e_elems := (e_elems (growparse e))[i := x], e_nelems := e_nelems e + 1\<rparr>)"
    using g c(2) by (simp add: caps_def k_def [symmetric] add.commute)
qed

lemma dirlike_elem:
  assumes "x \<noteq> []" "SLASH \<notin> set x" "x \<noteq> [DOT]"
  shows "\<not> dirlike x" "dirlike (x @ SLASH # r) = dirlike r"
proof -
  have "last x \<noteq> SLASH" using assms(1,2) last_in_set by fastforce
  then show "\<not> dirlike x" using assms elems_append [of x "[]"] by (simp add: dirlike_def)
  show "dirlike (x @ SLASH # r) = dirlike r"
    using assms elems_append [of x "SLASH # r"] last_elems_Nil [of r] by (auto simp: dirlike_def)
qed

lemma strchr_slash: "SLASH \<notin> set x \<Longrightarrow> strchr (x @ r) SLASH = map_option ((+) (length x)) (strchr r SLASH)"
  by (induction x) (cases "strchr r SLASH"; simp)+

lemma parse_loop_ok:
  assumes "drop n (e_name e) = r @ [0]" "nul_free r" "caps e"
    "list_all2 (elem_at (e_name e) n) (take (e_nelems e) (e_elems e)) xs"
  shows "list_all2 (elem_at (e_name (parse_loop e n)) (length (e_name e)))
      (take (e_nelems (parse_loop e n)) (e_elems (parse_loop e n))) (xs @ pelems r) \<and>
    e_nelems (parse_loop e n) \<le> length (e_elems (parse_loop e n)) \<and>
    e_mustbedir (parse_loop e n) = dirlike r \<and> length (e_name (parse_loop e n)) = length (e_name e)"
  using assms
proof (induction "length r" arbitrary: r e n xs rule: less_induct)
  case less
  let ?m = "e_name e" let ?n = "skipslash ?m n" let ?k = "e_nelems e" let ?g = "growparse e"
  obtain r1 where r1: "drop ?n ?m = r1 @ [0]" "nul_free r1" "pelems r1 = pelems r" "dirlike r1 = dirlike r"
    "length r1 \<le> length r" "r1 \<noteq> [] \<longrightarrow> hd r1 \<noteq> SLASH \<and> hd (elems r1) \<noteq> [DOT]"
    using skipslash_ok [OF less.prems(1,2)] by blast
  have n: "n \<le> ?n" by (rule skipslash_le)
  have ln: "?n + length r1 + 1 = length ?m" using arg_cong [OF r1(1), of length] by (cases "?n \<le> length ?m") auto
  have xs: "list_all2 (elem_at ?m ?n) (take ?k (e_elems e)) xs"
    using less.prems(4) elem_at_mono(1) [OF _ n n] by (rule list_all2_mono)
  have a0: "at ?m ?n = at (r1 @ [0]) 0" using at_rest [OF r1(1), of 0] by simp
  show ?case
  proof (cases "r1 = []")
    case True
    have p: "parse_loop e n = e\<lparr>e_mustbedir := True\<rparr>" using a0 True by (subst parse_loop.simps) (simp add: Let_def)
    have "?k \<le> length (e_elems e)" using less.prems(3) unfolding caps_def by presburger
    moreover have "list_all2 (elem_at ?m (length ?m)) (take ?k (e_elems e)) xs"
      using xs by (rule list_all2_mono) (erule elem_at_mono(1) [OF _ _ order.refl], use ln in linarith)
    ultimately show ?thesis using r1(3,4) True by (simp add: p pelems_def dirlike_def)
  next
    case False
    then obtain x r2 where x: "r1 = x @ r2" "x \<noteq> []" "\<forall>b\<in>set x. \<not> SEP b" "r2 = [] \<or> hd r2 = SLASH" "elems r1 = x # elems r2"
      using r1(2,6) by (metis elems_split)
    have sx: "SLASH \<notin> set x" "nul_free x" "x \<noteq> [DOT]" using x r1(6) False by (auto simp: SEP_def nul_free_def)
    have z: "at ?m ?n \<noteq> 0" using a0 x(1-3) by (cases x) (auto simp: SEP_def)
    let ?e2 = "?g\<lparr>e_elems := (e_elems ?g)[?k := ?n], e_nelems := ?k + 1\<rparr>"
    note g = caps_grow [OF less.prems(3)]
    have cs: "cstr (drop ?n ?m) = r1" using r1(1,2) cstr_nul [of r1 "[]"] by simp
    have t2: "take (?k + 1) (e_elems ?e2) = take ?k (e_elems e) @ [?n]"
      using g(1,3) by (simp add: take_Suc_conv_app_nth)
    show ?thesis
    proof (cases "r2 = []")
      case True
      have u: "utfrune r1 47 = None" using strchr_slash [OF sx(1), of "[]"] x(1) True by (simp add: utfrune_def)
      let ?e3 = "?e2\<lparr>e_off := (e_off ?g)[?k + 1 := ?n + strlen (drop ?n ?m)], e_mustbedir := False\<rparr>"
      have p: "parse_loop e n = ?e3"
        using z u cs by (subst parse_loop.simps) (simp add: Let_def)
      have "list_all2 (elem_at ?m (length ?m)) (take ?k (e_elems e)) xs"
        using xs by (rule list_all2_mono) (erule elem_at_mono(1) [OF _ _ order.refl], use ln in linarith)
      moreover have "elem_at ?m (length ?m) ?n x" using r1(1) sx(2) ln x(1) True by (simp add: elem_at_def)
      ultimately have "list_all2 (elem_at ?m (length ?m)) (take ?k (e_elems e) @ [?n]) (xs @ [x])"
        by (simp add: list_all2_appendI)
      moreover have "pelems r = [x]" using r1(3) x(5) True sx(3) by (simp add: pelems_def)
      moreover have "\<not> dirlike r" using r1(4) x(1) True dirlike_elem(1) x(2) sx by simp
      ultimately show ?thesis using t2 g(1) by (simp add: p)
    next
      case False
      then obtain r3 where r3: "r2 = SLASH # r3" using x(4) by (cases r2) auto
      have u: "utfrune r1 47 = Some (length x)" using strchr_slash [OF sx(1), of r2] x(1) r3 by (simp add: utfrune_def)
      let ?s = "?n + length x"
      let ?e3 = "?e2\<lparr>e_off := (e_off ?g)[?k + 1 := ?s], e_name := ?m[?s := 0]\<rparr>"
      have p: "parse_loop e n = parse_loop ?e3 (?s + 1)"
        using z u cs by (subst parse_loop.simps) (simp add: Let_def)
      have d: "drop (?s + 1) (?m[?s := 0]) = r3 @ [0]"
      proof -
        have "drop (?s + 1) ?m = drop (length x + 1) (drop ?n ?m)" by (simp add: add.commute)
        then show ?thesis using r1(1) x(1) r3 by simp
      qed
      have len: "length r3 < length r" "nul_free r3" using r1(2,5) x(1,2) r3 by (auto simp: nul_free_def)
      have c3: "caps ?e3" using g(4) [of ?k ?n] by (simp add: caps_def)
      have o: "list_all2 (elem_at (?m[?s := 0]) (?s + 1)) (take ?k (e_elems e)) xs"
        using xs by (rule list_all2_mono) (erule elem_at_mono(2), simp_all)
      have "take (length x + 1) (drop ?n (?m[?s := 0])) = x @ [0]"
        using r1(1) x(1) r3 ln by (simp add: drop_update_swap list_update_append)
      then have "elem_at (?m[?s := 0]) (?s + 1) ?n x" using sx(2) by (simp add: elem_at_def)
      then have l3: "list_all2 (elem_at (e_name ?e3) (?s + 1)) (take (e_nelems ?e3) (e_elems ?e3)) (xs @ [x])"
        using o t2 by (simp add: list_all2_appendI)
      have "pelems r = x # pelems r3" using r1(3) x(5) r3 sx(3) by (simp add: pelems_def)
      moreover have "dirlike r = dirlike r3" using r1(4) x(1,2) r3 sx dirlike_elem(2) by simp
      ultimately show ?thesis using less.hyps [OF len(1) _ len(2) c3 l3] d by (simp add: p)
    qed
  qed
qed

text \<open>
  C28: \<open>parsename\<close> always returns; its elements are, in order, the non-empty parts of the name between slashes
  that are not a dot, each a terminated string in the copy, and a name must be a directory exactly when it
  is empty or ends in a slash or a dot.
\<close>
theorem parsename_elements:
  assumes "nul_free name"
  shows "map (\<lambda>p. cstr (drop p (e_name (parsename name)))) (take (e_nelems (parsename name)) (e_elems (parsename name))) =
      pelems name \<and>
    e_nelems (parsename name) = length (pelems name) \<and> e_mustbedir (parsename name) = dirlike name \<and>
    length (e_name (parsename name)) = length name + 1"
proof -
  let ?e = "\<lparr>e_name = name @ [0], e_nelems = 0, e_elems = [], e_off = [skipslash (name @ [0]) 0], e_mustbedir = False\<rparr>"
  have "caps ?e" by (simp add: caps_def)
  note p = parse_loop_ok [of 0 ?e name "[]", OF _ assms this, simplified]
  have e: "parsename name = parse_loop ?e 0" by (simp add: parsename_def Let_def)
  have "map (\<lambda>p. cstr (drop p m)) ps = xs" if "list_all2 (elem_at m n) ps xs" for m n ps xs
    using that elem_at_cstr by (induction rule: list_all2_induct) auto
  then show ?thesis unfolding e using p list_all2_lengthD [OF conjunct1 [OF p]] by auto
qed

lemma parsename_elements_witness:
  "map (\<lambda>p. cstr (drop p (e_name (parsename [47, 97, 47, 46, 47, 98, 47]))))
     (take (e_nelems (parsename [47, 97, 47, 46, 47, 98, 47])) (e_elems (parsename [47, 97, 47, 46, 47, 98, 47]))) = [[97], [98]]"
proof -
  have p: "pelems [47, 97, 47, 46, 47, 98, 47] = [[97], [98]]" by (simp add: pelems_def elems.simps)
  show ?thesis
    by (rule conjunct1 [OF parsename_elements [of "[47, 97, 47, 46, 47, 98, 47]", unfolded p]]) (simp add: nul_free_def)
qed

text \<open>
  \<open>growparse\<close> copies one offset too few: the first offset, the length of the leading slashes, is lost
  before the first element is stored, and so is every eighth one after it.
\<close>

lemma growparse_loses_offset:
  "skipslash [47, 97, 0] 0 = 1 \<and> e_off (parsename [47, 97]) ! 0 = 0"
proof -
  have s: "skipslash [47, 97, 0] 0 = 1" by (simp add: skipslash.simps)
  moreover have "utfrune [97] 47 = None" by (simp add: utfrune_def)
  ultimately show ?thesis
    by (simp add: parsename_def parse_loop.simps Let_def growparse_def cstr_def)
qed

lemma growparse_drops:
  assumes "e_nelems e mod 8 = 0" "e_nelems e < length (e_off e)"
  shows "e_off (growparse e) ! e_nelems e = 0"
  using assms by (simp add: growparse_def nth_append)

lemma cstr_snoc: "cstr (xs @ [0]) = cstr xs"
  by (induction xs) (auto simp: cstr_def)

text \<open>
  C29: \<open>validstat\<close> passes exactly the buffers that are one well-formed entry, all of it, whose name, when it is
  not too long to be looked at, is \<open>/\<close> or holds no forbidden byte.
\<close>
theorem validstat_accepts:
  assumes "0 \<le> n" "nat n \<le> length s"
  shows "validstat s n = Inr () \<longleftrightarrow>
    nat n = BIT16SZ + unat (GBIT16 s 0) \<and> statcheck s 0 (nat n) = 0 \<and>
    (let m = unat (GBIT16 s 41); name = cstr (take m (drop 43 s)) in
     m \<ge> 64 \<or> name = [SLASH] \<or> (\<forall>b\<in>set name. \<not> isfrog b))"
proof -
  have c: "statcheckbuf s 0 (nat n) = n \<longleftrightarrow> nat n = BIT16SZ + unat (GBIT16 s 0) \<and> statcheck s 0 (nat n) = 0"
  proof -
    define K where "K = BIT16SZ + unat (GBIT16 s 0)"
    have "n = int K \<longleftrightarrow> nat n = K" using assms(1) by linarith
    then show ?thesis unfolding K_def [symmetric]
      using assms(1) by (cases rule: statcheckbuf_cases [of s 0 "nat n", folded K_def])
        (auto simp: statcheckbuf_def K_def [symmetric] statcheck_def split: if_splits)
  qed
  let ?b = "cstr (take (unat (GBIT16 s 41)) (drop 43 s) @ [0])"
  have b: "?b = cstr (take (unat (GBIT16 s 41)) (drop 43 s))"  by (rule cstr_snoc)
  have nf: "nul_free ?b" by (auto simp: nul_free_def cstr_def dest: set_takeWhileD)
  have l: "unat (GBIT16 s 41) < 64 \<Longrightarrow> length ?b < 65536"
    unfolding b using length_takeWhile_le [of "\<lambda>b. b \<noteq> 0" "take (unat (GBIT16 s 41)) (drop 43 s)"]
    unfolding cstr_def length_take by linarith
  show ?thesis
    using c assms(1) validname_loop_ok [OF nf, of False] l
    by (auto simp: validstat_def validname_def Let_def b)
qed

lemma validstat_accepts_witness:
  "validstat (wire_dir dir0) 52 = Inr ()"
proof -
  have s: "statcheck (wire_dir dir0) 0 52 = 0" "52 = BIT16SZ + unat (GBIT16 (wire_dir dir0) 0)"
    using statcheck_iff [of 0 52 "wire_dir dir0"] strings_at_wire [of 0 "wire_dir dir0" dir0 "[]"]
      GBIT16_wire [of 0 "wire_dir dir0" dir0 "[]"] by (simp_all add: length_wire_dir)
  have d: "drop 41 (wire_dir dir0) = enc_str [97, 98] @ enc_str [99] @ enc_str [] @ enc_str []"
    using drop_wire [of 0 "wire_dir dir0" dir0 "[]" 41] by (simp add: dir_names_def dir0_def sval_def)
  then have "unat (GBIT16 (wire_dir dir0) 41) = 2"
    using GBIT_at(2) [of 41 "wire_dir dir0" "of_nat 2"] by (simp add: enc_str_def)
  moreover have "drop 43 (wire_dir dir0) = drop 2 (drop 41 (wire_dir dir0))" by simp
  then have "take 2 (drop 43 (wire_dir dir0)) = [97, 98]" unfolding d by (simp add: enc_str_def)
  ultimately show ?thesis
    using validstat_accepts [of 52 "wire_dir dir0"] s by (simp add: length_wire_dir Let_def cstr_def isfrog_def)
qed

end
