(* ===== verification/Chan.thy ===== *)
theory Chan
  imports Names "HOL-Library.Monad_Syntax" "HOL-Library.Multiset"
begin

text \<open>
  Channels, channel names and mount heads of \<open>emu/port/chan.c\<close> as reference-counted objects in a store.
  A pointer is the index of its object; the store also holds the free list and the counters of the file.
  An operation maps a store to its result and the new store; \<open>None\<close> is a panic or a use of a
  dead or wrong pointer.  Locks are left out: an operation is one step.
\<close>

abbreviation (input) QTDIR :: u8 where "QTDIR \<equiv> 0x80"
abbreviation (input) COPEN :: u16 where "COPEN \<equiv> 1"
abbreviation (input) CFREE :: u16 where "CFREE \<equiv> 0x10"
abbreviation (input) MORDER :: u32 where "MORDER \<equiv> 3"
abbreviation (input) MREPL :: u32 where "MREPL \<equiv> 0"
abbreviation (input) MBEFORE :: u32 where "MBEFORE \<equiv> 1"
abbreviation (input) MAFTER :: u32 where "MAFTER \<equiv> 2"
abbreviation (input) MCREATE :: u32 where "MCREATE \<equiv> 4"
abbreviation (input) MREADONLY :: u32 where "MREADONLY \<equiv> 8"
abbreviation (input) CNAMESLOP :: nat where "CNAMESLOP \<equiv> 20"
abbreviation (input) MTPTSLOP :: nat where "MTPTSLOP \<equiv> 4"

record chan =
  c_ref :: int
  c_offset :: u64
  c_type :: u16
  c_dev :: u64
  c_mode :: u16
  c_flag :: u16
  c_qid :: qid
  c_fid :: int
  c_iounit :: u64
  c_umh :: "nat option"
  c_umc :: "nat option"
  c_uri :: int
  c_dri :: int
  c_mountid :: u64
  c_mflag :: u32
  c_mcp :: nat
  c_mux :: nat
  c_aux :: nat
  c_mchan :: "nat option"
  c_mqid :: qid
  c_name :: "nat option"

text \<open>\<open>n_s\<close> is the whole array of \<open>alen\<close> bytes, \<open>n_mtpt\<close> the \<open>mlen\<close> slots in use.\<close>

record cname =
  n_ref :: int
  n_s :: "u8 list"
  n_len :: nat
  n_mtpt :: "nat option list"
  n_malen :: nat

record mount =
  m_id :: int
  m_to :: nat
  m_flag :: u32
  m_spec :: cstring

record mhead =
  h_ref :: int
  h_from :: "nat option"
  h_mount :: "mount list"

datatype obj = OChan chan | OName cname | OHead mhead | OFree

datatype devev = DevClose nat | MuxClose nat

record store =
  s_heap :: "obj list"
  s_free :: "nat list"
  s_fid :: int
  s_ncname :: int
  s_mountid :: int
  s_ev :: "devev list"

definition get :: "store \<Rightarrow> nat \<Rightarrow> obj" where
  "get s p = (if p < length (s_heap s) then s_heap s ! p else OFree)"

definition put :: "nat \<Rightarrow> obj \<Rightarrow> store \<Rightarrow> store" where
  "put p ob s = s\<lparr>s_heap := (s_heap s)[p := ob]\<rparr>"

definition chan_at :: "store \<Rightarrow> nat \<Rightarrow> chan option" where
  "chan_at s p = (case get s p of OChan c \<Rightarrow> Some c | _ \<Rightarrow> None)"

definition name_at :: "store \<Rightarrow> nat \<Rightarrow> cname option" where
  "name_at s p = (case get s p of OName n \<Rightarrow> Some n | _ \<Rightarrow> None)"

definition head_at :: "store \<Rightarrow> nat \<Rightarrow> mhead option" where
  "head_at s p = (case get s p of OHead m \<Rightarrow> Some m | _ \<Rightarrow> None)"

definition cfree :: "chan \<Rightarrow> bool" where
  "cfree c \<longleftrightarrow> c_flag c AND CFREE \<noteq> 0"

fun oref :: "obj \<Rightarrow> int" where
  "oref (OChan c) = c_ref c"
| "oref (OName n) = n_ref n"
| "oref (OHead m) = h_ref m"
| "oref OFree = 0"

fun set_ref :: "int \<Rightarrow> obj \<Rightarrow> obj" where
  "set_ref x (OChan c) = OChan (c\<lparr>c_ref := x\<rparr>)"
| "set_ref x (OName n) = OName (n\<lparr>n_ref := x\<rparr>)"
| "set_ref x (OHead m) = OHead (m\<lparr>h_ref := x\<rparr>)"
| "set_ref x OFree = OFree"

definition incref :: "nat \<Rightarrow> store \<Rightarrow> store option" where
  "incref p s = (if get s p = OFree then None else Some (put p (set_ref (oref (get s p) + 1) (get s p)) s))"

definition decref :: "nat \<Rightarrow> store \<Rightarrow> (int \<times> store) option" where
  "decref p s =
     (if get s p = OFree then None
      else
        let x = oref (get s p) - 1; s = put p (set_ref x (get s p)) s
        in if x < 0 then None else Some (x, s))"

subsection \<open>Closing\<close>

text \<open>
  \<open>cclose\<close>, \<open>chanfree\<close>, \<open>cnameclose\<close>, \<open>mtptfree\<close> and \<open>putmhead\<close> call each other; the model runs
  them over the list of the calls still to be made, in the order of the code.  \<open>Relink\<close> is the end of
  \<open>chanfree\<close>, which puts the channel on the free list.
\<close>

datatype work = CClose nat | NameClose nat | PutHead nat | Mux nat | Relink nat

definition opt :: "('a \<Rightarrow> 'b) \<Rightarrow> 'a option \<Rightarrow> 'b list" where
  "opt f x = (case x of None \<Rightarrow> [] | Some y \<Rightarrow> [f y])"

definition slots :: "nat option list \<Rightarrow> nat list" where
  "slots xs = concat (map (opt id) xs)"

definition tot :: "store \<Rightarrow> nat" where
  "tot s = (\<Sum>ob\<leftarrow>s_heap s. nat (oref ob))"

lemma oref_set_ref: "ob \<noteq> OFree \<Longrightarrow> oref (set_ref x ob) = x"
  by (cases ob) auto

lemma sum_list_update_nat:
  "i < length xs \<Longrightarrow> sum_list (map f (xs[i := x])) + f (xs ! i) = sum_list (map f xs) + (f x :: nat)"
  by (induction xs arbitrary: i) (auto split: nat.split)

lemma get_valid: "get s p \<noteq> OFree \<Longrightarrow> p < length (s_heap s)"
  by (auto simp: get_def split: if_splits)

lemma tot_put:
  assumes "get s p \<noteq> OFree"
  shows "tot (put p ob s) + nat (oref (get s p)) = tot s + nat (oref ob)"
proof -
  note p = get_valid [OF assms]
  then have g: "get s p = s_heap s ! p" by (simp add: get_def)
  show ?thesis
    unfolding tot_def put_def g using sum_list_update_nat [OF p, of "\<lambda>ob. nat (oref ob)" ob] by simp
qed

lemma tot_decref:
  assumes "decref p s = Some (x, s')"
  shows "tot s' < tot s" "get s' p \<noteq> OFree" "oref (get s' p) = x"
proof -
  from assms have g: "get s p \<noteq> OFree" "x = oref (get s p) - 1" "0 \<le> x" "s' = put p (set_ref x (get s p)) s"
    by (auto simp: decref_def Let_def split: if_splits)
  then show "tot s' < tot s" using tot_put [OF g(1), of "set_ref x (get s p)"] by (simp add: oref_set_ref)
  show "get s' p \<noteq> OFree" "oref (get s' p) = x" using g get_valid [OF g(1)]
    by (cases "get s p"; simp add: get_def put_def)+
qed

lemma tot_simps [simp]: "tot (s\<lparr>s_free := a\<rparr>) = tot s" "tot (s\<lparr>s_ev := e\<rparr>) = tot s" "tot (s\<lparr>s_ncname := n\<rparr>) = tot s"
  by (simp_all add: tot_def)

function release :: "work list \<Rightarrow> store \<Rightarrow> store option" where
  "release [] s = Some s"
| "release (CClose p # w) s =
     (case chan_at s p of None \<Rightarrow> None | Some c \<Rightarrow>
        if cfree c then None
        else case decref p s of None \<Rightarrow> None | Some (x, s) \<Rightarrow>
          if x \<noteq> 0 then release w s
          else
            let s = s\<lparr>s_ev := s_ev s @ [DevClose p]\<rparr>;
                s = put p (OChan (c\<lparr>c_ref := 0, c_flag := CFREE, c_umh := None, c_umc := None, c_mux := 0, c_mchan := None\<rparr>)) s
            in release (opt PutHead (c_umh c) @ opt CClose (c_umc c) @ (if c_mux c \<noteq> 0 then [Mux (c_mux c)] else []) @
                 opt CClose (c_mchan c) @ opt NameClose (c_name c) @ Relink p # w) s)"
| "release (NameClose p # w) s =
     (case name_at s p of None \<Rightarrow> None | Some n \<Rightarrow>
        case decref p s of None \<Rightarrow> None | Some (x, s) \<Rightarrow>
          if x \<noteq> 0 then release w s
          else
            let s = s\<lparr>s_ncname := s_ncname s - 1\<rparr>; s = put p OFree s
            in if s_ncname s < 0 then None else release (map CClose (slots (n_mtpt n)) @ w) s)"
| "release (PutHead p # w) s =
     (case head_at s p of None \<Rightarrow> None | Some m \<Rightarrow>
        case decref p s of None \<Rightarrow> None | Some (x, s) \<Rightarrow>
          if x \<noteq> 0 then release w s else release w (put p OFree s))"
| "release (Mux m # w) s = release w (s\<lparr>s_ev := s_ev s @ [MuxClose m]\<rparr>)"
| "release (Relink p # w) s = release w (s\<lparr>s_free := p # s_free s\<rparr>)"
  by pat_completeness auto
termination
proof (relation "measures [\<lambda>(w, s). tot s, \<lambda>(w, s). length w]", goal_cases)
  case (3 p w s c xs x s' s2 s3)
  then have "decref p s = Some (x, s')" by simp
  note d = tot_decref [OF this]
  have "get s2 p = get s' p" using 3 by (simp add: get_def)
  then have "tot s3 \<le> tot s2" using tot_put [of s2 p] d 3 by fastforce
  then show ?case using d 3 by simp
next
  case (5 p w s n xs x s' s2 s3)
  then have "decref p s = Some (x, s')" by simp
  note d = tot_decref [OF this]
  have "get s2 p = get s' p" using 5 by (simp add: get_def)
  then have "tot s3 \<le> tot s2" using tot_put [of s2 p OFree] d 5 by simp
  then show ?case using d 5 by simp
next
  case (7 p w s m xs x s')
  then have "decref p s = Some (x, s')" by simp
  note d = tot_decref [OF this]
  then show ?case using tot_put [of s' p OFree] by simp
qed (use tot_decref in auto)

end
