(* ===== verification/ChanOps.thy ===== *)
theory ChanOps
  imports Chan
begin

text \<open>
  The operations of \<open>emu/port/chan.c\<close> on channels and names: allocation, the stack of mount points of a
  name, and the extension of a name by an element.
\<close>

definition cclose :: "nat option \<Rightarrow> store \<Rightarrow> store option" where
  "cclose c = release (opt CClose c)"

definition cnameclose :: "nat option \<Rightarrow> store \<Rightarrow> store option" where
  "cnameclose n = release (opt NameClose n)"

definition putmhead :: "nat option \<Rightarrow> store \<Rightarrow> store option" where
  "putmhead m = release (opt PutHead m)"

definition noqid :: qid where
  "noqid = \<lparr>q_path = 0, q_vers = 0, q_type = 0\<rparr>"

definition chan0 :: chan where
  "chan0 = \<lparr>c_ref = 0, c_offset = 0, c_type = 0, c_dev = 0, c_mode = 0, c_flag = 0, c_qid = noqid, c_fid = 0, c_iounit = 0,
     c_umh = None, c_umc = None, c_uri = 0, c_dri = 0, c_mountid = 0, c_mflag = 0, c_mcp = 0, c_mux = 0, c_aux = 0,
     c_mchan = None, c_mqid = noqid, c_name = None\<rparr>"

definition clear_chan :: "chan \<Rightarrow> chan" where
  "clear_chan c = c\<lparr>c_type := 0, c_flag := 0, c_ref := 1, c_dev := 0, c_offset := 0, c_iounit := 0, c_umh := None,
     c_uri := 0, c_dri := 0, c_aux := 0, c_mchan := None, c_mcp := 0, c_mux := 0, c_mqid := noqid, c_mflag := 0,
     c_name := None\<rparr>"

definition newchan :: "store \<Rightarrow> (nat \<times> store) option" where
  "newchan s =
     (case s_free s of
        [] \<Rightarrow>
          Some (length (s_heap s),
            s\<lparr>s_fid := s_fid s + 1, s_heap := s_heap s @ [OChan (clear_chan (chan0\<lparr>c_fid := s_fid s + 1\<rparr>))]\<rparr>)
      | c # cs \<Rightarrow> do {
          ch \<leftarrow> chan_at s c;
          Some (c, put c (OChan (clear_chan ch)) (s\<lparr>s_free := cs\<rparr>))
        })"

definition newcname :: "u8 list \<Rightarrow> store \<Rightarrow> nat \<times> store" where
  "newcname str s =
     (length (s_heap s),
      s\<lparr>s_heap := s_heap s @ [OName \<lparr>n_ref = 1, n_s = str @ replicate CNAMESLOP 0, n_len = length str, n_mtpt = [], n_malen = 0\<rparr>],
        s_ncname := s_ncname s + 1\<rparr>)"

definition mtptgrow :: "cname \<Rightarrow> nat \<Rightarrow> cname" where
  "mtptgrow n want = (if want \<le> n_malen n then n else n\<lparr>n_malen := want + MTPTSLOP\<rparr>)"

fun incref_slots :: "nat option list \<Rightarrow> store \<Rightarrow> store option" where
  "incref_slots [] s = Some s"
| "incref_slots (None # xs) s = incref_slots xs s"
| "incref_slots (Some c # xs) s = do { s \<leftarrow> incref c s; incref_slots xs s }"

definition mtptcopy :: "nat \<Rightarrow> nat \<Rightarrow> store \<Rightarrow> store option" where
  "mtptcopy dst src s = do {
     d \<leftarrow> name_at s dst;
     n \<leftarrow> name_at s src;
     if n_mtpt n = [] then Some s
     else do {
       let s = put dst (OName ((mtptgrow d (length (n_mtpt n)))\<lparr>n_mtpt := n_mtpt n\<rparr>)) s;
       incref_slots (n_mtpt n) s
     }
   }"

definition cnamepush :: "nat \<Rightarrow> nat option \<Rightarrow> store \<Rightarrow> store option" where
  "cnamepush n mp s = do {
     nm \<leftarrow> name_at s n;
     let s = put n (OName ((mtptgrow nm (length (n_mtpt nm) + 1))\<lparr>n_mtpt := n_mtpt nm @ [mp]\<rparr>)) s;
     incref_slots [mp] s
   }"

text \<open>A copy of a shared name, mount points included: the copy-on-write of \<open>cnamecross\<close> and \<open>addelem\<close>.\<close>

definition uncow :: "nat \<Rightarrow> store \<Rightarrow> (nat \<times> store) option" where
  "uncow n s = do {
     nm \<leftarrow> name_at s n;
     if n_ref nm > 1 then do {
       let (new, s) = newcname (cstr (n_s nm)) s;
       s \<leftarrow> mtptcopy new n s;
       s \<leftarrow> cnameclose (Some n) s;
       Some (new, s)
     } else Some (n, s)
   }"

text \<open>A reference leaves its slot before it is closed: the name is not shared then, so nothing sees the order.\<close>

definition cnamecross :: "nat \<Rightarrow> nat option \<Rightarrow> store \<Rightarrow> (nat \<times> store) option" where
  "cnamecross n mp s = do {
     nm \<leftarrow> name_at s n;
     case mp of
       None \<Rightarrow> Some (n, s)
     | Some c \<Rightarrow>
         if n_mtpt nm = [] then Some (n, s)
         else do {
           (n, s) \<leftarrow> uncow n s;
           nm \<leftarrow> name_at s n;
           let i = length (n_mtpt nm) - 1;
           let s = put n (OName (nm\<lparr>n_mtpt := (n_mtpt nm)[i := None]\<rparr>)) s;
           s \<leftarrow> cclose (n_mtpt nm ! i) s;
           nm \<leftarrow> name_at s n;
           let s = put n (OName (nm\<lparr>n_mtpt := (n_mtpt nm)[i := Some c]\<rparr>)) s;
           s \<leftarrow> incref c s;
           Some (n, s)
         }
   }"

text \<open>The string part of \<open>addelem\<close>: the array and its length with the element \<open>e\<close> behind it.\<close>

definition addstr :: "u8 list \<Rightarrow> nat \<Rightarrow> u8 list \<Rightarrow> u8 list \<times> nat" where
  "addstr s len e =
     (let i = length e;
          s = (if len + 1 + i + 1 > length s
               then take (len + 1) s @ replicate (len + 1 + i + 1 + CNAMESLOP - (len + 1)) 0 else s);
          (s, len) = (if len > 0 \<and> at s (len - 1) \<noteq> SLASH \<and> at e 0 \<noteq> SLASH then (s[len := SLASH], len + 1) else (s, len));
          s = take len s @ e @ [0] @ drop (len + i + 1) s
      in (s, len + i))"

definition addelem :: "nat \<Rightarrow> u8 list \<Rightarrow> store \<Rightarrow> (nat \<times> store) option" where
  "addelem n e s =
     (if e = [DOT] then Some (n, s)
      else do {
        (n, s) \<leftarrow> uncow n s;
        nm \<leftarrow> name_at s n;
        let (str, len) = addstr (n_s nm) (n_len nm) e;
        if isdotdot e then do {
          (str, len) \<leftarrow> cleancname str len;
          if length (n_mtpt nm) > 1 then do {
            let top = last (n_mtpt nm);
            let s = put n (OName (nm\<lparr>n_s := str, n_len := len, n_mtpt := butlast (n_mtpt nm)\<rparr>)) s;
            s \<leftarrow> cclose top s;
            Some (n, s)
          } else Some (n, put n (OName (nm\<lparr>n_s := str, n_len := len\<rparr>)) s)
        } else Some (n, put n (OName (nm\<lparr>n_s := str, n_len := len\<rparr>)) s)
      })"

definition undomount :: "nat \<Rightarrow> nat \<Rightarrow> store \<Rightarrow> (nat \<times> store) option" where
  "undomount c name s = do {
     nm \<leftarrow> name_at s name;
     if n_mtpt nm = [] then Some (c, s)
     else if length (n_mtpt nm) = 1 then
       (case n_mtpt nm ! 0 of
          None \<Rightarrow> Some (c, s)
        | Some nc \<Rightarrow>
            if nc = c then Some (c, s)
            else do {
              s \<leftarrow> incref nc s;
              s \<leftarrow> cclose (Some c) s;
              Some (nc, s)
            })
     else do {
       let i = length (n_mtpt nm) - 1;
       let s = put name (OName (nm\<lparr>n_mtpt := (n_mtpt nm)[i := None]\<rparr>)) s;
       case n_mtpt nm ! i of
         None \<Rightarrow> Some (c, s)
       | Some nc \<Rightarrow> do { s \<leftarrow> cclose (Some c) s; Some (nc, s) }
     }
   }"

subsection \<open>Devices\<close>

text \<open>
  \<open>devtab[t]->walk(c, nil, names, n)\<close> is a parameter \<open>D c names\<close>: no answer (nil), or the qids of the
  names walked and, if there was no miss, the clone.  The clone is described by a channel value; the device allocates it
  with \<open>newchan\<close> and, where it stands for a mounted server, shares the server's channel.
\<close>

record walkqid =
  w_clone :: "chan option"
  w_qid :: "qid list"

type_synonym device = "chan \<Rightarrow> u8 list list \<Rightarrow> walkqid option"

definition fill_clone :: "chan \<Rightarrow> nat option \<Rightarrow> chan \<Rightarrow> chan" where
  "fill_clone w mchan nc = nc\<lparr>c_type := c_type w, c_dev := c_dev w, c_mode := c_mode w, c_qid := c_qid w, c_offset := c_offset w,
     c_iounit := c_iounit w, c_mountid := c_mountid w, c_mflag := c_mflag w, c_aux := c_aux w, c_mqid := c_mqid w,
     c_mcp := c_mcp w, c_mchan := mchan\<rparr>"

definition adopt :: "chan \<Rightarrow> chan \<Rightarrow> store \<Rightarrow> (nat \<times> store) option" where
  "adopt c w s = do {
     (p, s) \<leftarrow> newchan s;
     nc \<leftarrow> chan_at s p;
     let mchan = (if c_mchan w = None then None else c_mchan c);
     s \<leftarrow> incref_slots [mchan] s;
     Some (p, put p (OChan (fill_clone w mchan nc)) s)
   }"

definition devwalk :: "device \<Rightarrow> nat \<Rightarrow> u8 list list \<Rightarrow> store \<Rightarrow> ((nat option \<times> qid list) option \<times> store) option" where
  "devwalk D c names s = do {
     ch \<leftarrow> chan_at s c;
     case D ch names of
       None \<Rightarrow> Some (None, s)
     | Some wq \<Rightarrow>
         (case w_clone wq of
            None \<Rightarrow> Some (Some (None, w_qid wq), s)
          | Some w \<Rightarrow> do { (p, s) \<leftarrow> adopt ch w s; Some (Some (Some p, w_qid wq), s) })
   }"

text \<open>\<open>None\<close> as the channel is the error \<open>clone failed\<close>.\<close>

definition cclone :: "device \<Rightarrow> nat \<Rightarrow> store \<Rightarrow> (nat option \<times> store) option" where
  "cclone D c s = do {
     (wq, s) \<leftarrow> devwalk D c [] s;
     case wq of
       None \<Rightarrow> Some (None, s)
     | Some (clone, _) \<Rightarrow> do {
         p \<leftarrow> clone;
         nc \<leftarrow> chan_at s p;
         ch \<leftarrow> chan_at s c;
         let s = put p (OChan (nc\<lparr>c_name := c_name ch, c_mflag := c_mflag ch\<rparr>)) s;
         s \<leftarrow> incref_slots [c_name ch] s;
         Some (Some p, s)
       }
   }"

definition cunique :: "device \<Rightarrow> nat \<Rightarrow> store \<Rightarrow> (nat option \<times> store) option" where
  "cunique D c s = do {
     ch \<leftarrow> chan_at s c;
     if c_ref ch \<noteq> 1 then do {
       (nc, s) \<leftarrow> cclone D c s;
       case nc of
         None \<Rightarrow> Some (None, s)
       | Some p \<Rightarrow> do { s \<leftarrow> cclose (Some c) s; Some (Some p, s) }
     } else Some (Some c, s)
   }"

end
