(* ===== verification/NameStr.thy ===== *)
theory NameStr
  imports ChanOps
begin

text \<open>
  The strings of names: \<open>addstr\<close> and \<open>cleancname\<close> keep the array terminated inside its bounds with
  \<open>len\<close> the length of the string, and say what the string becomes.
\<close>

definition wf_str :: "u8 list \<Rightarrow> nat \<Rightarrow> bool" where
  "wf_str s len \<longleftrightarrow> len < length s \<and> strlen s = len"

lemma strlen_cstr: "strlen s = length (cstr s)"
  by (simp add: strlen_def cstr_def)

declare nul_free_cstr [simp]

lemma wf_strE:
  assumes "wf_str s len"
  obtains w where "s = cstr s @ 0 # w" "length (cstr s) = len"
proof -
  have l: "length (cstr s) = len" "len < length s" using assms by (simp_all add: wf_str_def strlen_cstr)
  have s: "cstr s @ dropWhile (\<lambda>b. b \<noteq> 0) s = s" unfolding cstr_def by (rule takeWhile_dropWhile_id)
  then have "dropWhile (\<lambda>b. b \<noteq> 0) s \<noteq> []" using l by (metis append_Nil2 less_irrefl)
  then have "dropWhile (\<lambda>b. b \<noteq> 0) s = 0 # tl (dropWhile (\<lambda>b. b \<noteq> 0) s)"
    using hd_dropWhile [of "\<lambda>b. b \<noteq> 0" s] by (metis list.collapse)
  then show thesis using that [of "tl (dropWhile (\<lambda>b. b \<noteq> 0) s)"] s l by metis
qed

lemma wf_str_intro: "nul_free t \<Longrightarrow> wf_str (t @ 0 # w) (length t)"
  by (simp add: wf_str_def strlen_cstr cstr_nul)

lemma wf_str_new: "nul_free t \<Longrightarrow> wf_str (t @ replicate CNAMESLOP 0) (length t)"
  using wf_str_intro [of t "replicate 19 0"] by (simp add: numeral_eq_Suc)

definition join_elem :: "u8 list \<Rightarrow> u8 list \<Rightarrow> u8 list" where
  "join_elem t e = t @ (if t \<noteq> [] \<and> last t \<noteq> SLASH \<and> at e 0 \<noteq> SLASH then [SLASH] else []) @ e"

lemma addstr_ok:
  assumes "wf_str s len" "nul_free e"
  shows "\<exists>s'. addstr s len e = (s', length (join_elem (cstr s) e)) \<and> cstr s' = join_elem (cstr s) e \<and>
    wf_str s' (length (join_elem (cstr s) e))"
proof -
  let ?t = "cstr s" let ?n = "len + 1 + length e + 1"
  obtain w where w: "s = ?t @ 0 # w" and l: "length ?t = len" using wf_strE [OF assms(1)] .
  let ?g = "if ?n > length s then take (len + 1) s @ replicate (?n + CNAMESLOP - (len + 1)) 0 else s"
  have "\<exists>v. ?g = ?t @ 0 # v \<and> length e < length v"
  proof (cases "?n > length s")
    case True
    have "take (len + 1) s = ?t @ [0]" by (subst w) (simp add: l [symmetric])
    then show ?thesis using True by simp
  next
    case False
    then have "length e < length w" using arg_cong [OF w, of length] l by simp
    then show ?thesis using False w by auto
  qed
  then obtain v where v: "?g = ?t @ 0 # v" "length e < length v" by blast
  let ?c = "len > 0 \<and> at ?g (len - 1) \<noteq> SLASH \<and> at e 0 \<noteq> SLASH"
  have z: "len > 0 \<longleftrightarrow> ?t \<noteq> []" using l by auto
  have a: "at (?t @ 0 # v) (len - 1) = last ?t" if "?t \<noteq> []"
  proof -
    have "0 < length ?t" using that by simp
    then show ?thesis using that by (auto simp: at_def nth_append last_conv_nth l [symmetric])
  qed
  have c: "?c \<longleftrightarrow> ?t \<noteq> [] \<and> last ?t \<noteq> SLASH \<and> at e 0 \<noteq> SLASH"
    unfolding v(1) z using a by metis
  let ?j = "join_elem ?t e"
  have "\<exists>r. addstr s len e = (?j @ 0 # r, length ?j)"
  proof (cases ?c)
    case True
    then have j: "?j = ?t @ [SLASH] @ e" unfolding c by (simp add: join_elem_def)
    have u: "?g[len := SLASH] = ?t @ SLASH # v" unfolding v(1) by (simp add: l [symmetric])
    have "addstr s len e = (?j @ 0 # drop (length e + 1) v, length ?j)"
      unfolding addstr_def Let_def
      by (simp only: True u if_True split: prod.split) (simp add: j l [symmetric])
    then show ?thesis by blast
  next
    case False
    then have j: "?j = ?t @ e" unfolding c by (auto simp: join_elem_def)
    have "addstr s len e = (?j @ 0 # drop (length e) v, length ?j)"
      unfolding addstr_def Let_def
      by (simp only: False [unfolded v(1)] v(1) if_False split: prod.split) (simp add: j l [symmetric])
    then show ?thesis by blast
  qed
  then obtain r where r: "addstr s len e = (?j @ 0 # r, length ?j)" by blast
  have "nul_free ?j" using assms(2) nul_free_cstr [of s] by (auto simp: join_elem_def nul_free_def)
  then show ?thesis using r wf_str_intro cstr_nul by blast
qed

lemma cleanname_wf:
  assumes "nul_free s" "s \<noteq> []"
  shows "\<exists>m. cleanname (s @ 0 # w) = Some m \<and> cstr m = clean s \<and> wf_str m (length (clean s)) \<and>
    length m = length (s @ 0 # w)"
proof -
  obtain m where "cleanname (s @ 0 # w) = Some m" "cstr m = clean s" "length (cstr m) < length m" "length m = length (s @ 0 # w)"
    using cleanname_result [OF assms(1), of w] assms(2) by blast
  then show ?thesis by (intro exI [of _ m]) (simp add: wf_str_def strlen_cstr)
qed

lemma cstr_prefix: "nul_free t \<Longrightarrow> cstr (t @ m) = t @ cstr m"
  by (induction t) (auto simp: cstr_def nul_free_def)

lemma strchr_split:
  assumes "strchr t c = Some p" "c \<noteq> 0"
  shows "p < length t \<and> t ! p = c \<and> c \<notin> set (take p t)"
  using assms
proof (induction t arbitrary: p)
  case (Cons x t)
  then show ?case by (cases p) (auto split: if_splits)
qed auto

text \<open>What \<open>cleancname\<close> makes of a name: the device part of a device name stays.\<close>

definition clean_cname :: "u8 list \<Rightarrow> u8 list" where
  "clean_cname t =
     (if at t 0 = 35 then
        case strchr t SLASH of
          None \<Rightarrow> t
        | Some p \<Rightarrow> take p t @ (if clean (drop p t) = [SLASH] \<and> at t 1 \<noteq> SLASH then [] else clean (drop p t))
      else clean t)"

lemma cleancname_ok:
  assumes "wf_str s len" "0 < len"
  shows "\<exists>s'. cleancname s len = Some (s', length (clean_cname (cstr s))) \<and> cstr s' = clean_cname (cstr s) \<and>
    wf_str s' (length (clean_cname (cstr s)))"
proof -
  let ?t = "cstr s"
  obtain w where w: "s = ?t @ 0 # w" and l: "length ?t = len" using wf_strE [OF assms(1)] .
  have at0: "at s 0 = at ?t 0" by (subst w, use assms(2) l in \<open>simp add: at_def nth_append\<close>)
  show ?thesis
  proof (cases "at ?t 0 = 35")
    case False
    from cleanname_wf [of ?t w, folded w] assms(2) l
    show ?thesis using False at0 by (auto simp: cleancname_def clean_cname_def wf_str_def)
  next
    case dev: True
    show ?thesis
    proof (cases "strchr ?t SLASH")
      case None
      then show ?thesis using dev at0 assms(1) l by (simp add: cleancname_def clean_cname_def)
    next
      case (Some p)
      note p = strchr_split [OF Some, simplified]
      have "drop p s = drop p ?t @ 0 # w" "take p s = take p ?t" by (subst w, use p in simp)+
      moreover have "nul_free (drop p ?t)" "nul_free (take p ?t)"
        using nul_free_cstr [of s] by (auto simp: nul_free_def dest: in_set_dropD in_set_takeD)
      ultimately obtain m where m: "cleanname (drop p s) = Some m" "cstr m = clean (drop p ?t)"
        "wf_str m (length (clean (drop p ?t)))" and tp: "take p s = take p ?t" "nul_free (take p ?t)"
        using cleanname_wf [of "drop p ?t" w] p by auto
      have p0: "0 < p" using p dev by (cases p) (auto simp: at_def split: if_splits)
      let ?u = "take p ?t @ m"
      have cu: "cstr ?u = take p ?t @ clean (drop p ?t)" using tp(2) m(2) by (simp add: cstr_prefix)
      have lu: "wf_str ?u (length (cstr ?u))" using m(3) cu p by (simp add: wf_str_def strlen_cstr)
      have at1: "at ?u 1 = at ?t 1" if "cstr m = [SLASH]"
      proof (cases "p = 1")
        case True
        then show ?thesis using that p by (cases m) (auto simp: at_def nth_append cstr_def split: if_splits)
      next
        case False
        then show ?thesis using p p0 by (auto simp: at_def nth_append)
      qed
      have dv: "at s 0 = 35" using at0 dev by simp
      show ?thesis
      proof (cases "clean (drop p ?t) = [SLASH] \<and> at ?t 1 \<noteq> SLASH")
        case True
        then have k: "clean_cname ?t = take p ?t" using dev Some by (simp add: clean_cname_def)
        have mc: "cstr m = [SLASH] \<and> at ?u 1 \<noteq> SLASH" using True m(2) at1 by simp
        then have "m \<noteq> []" by (auto simp: cstr_def)
        then have "?u[p := 0] = take p ?t @ 0 # tl m" using p by (cases m) (simp_all add: list_update_append)
        then have f: "cstr (?u[p := 0]) = take p ?t" "wf_str (?u[p := 0]) (length (take p ?t))"
          using tp(2) by (simp_all only: cstr_nul wf_str_intro)
        then have "cleancname s len = Some (?u[p := 0], length (take p ?t))"
          unfolding cleancname_def Some using mc dv by (simp add: strlen_cstr m(1) tp(1))
        then show ?thesis using f k by simp
      next
        case False
        then have k: "clean_cname ?t = cstr ?u" using dev Some cu by (auto simp: clean_cname_def)
        have "\<not> (cstr m = [SLASH] \<and> at ?u 1 \<noteq> SLASH)" using False m(2) at1 by auto
        then have "cleancname s len = Some (?u, length (cstr ?u))"
          unfolding cleancname_def Some using dv by (auto simp: strlen_cstr m(1) tp(1) Let_def)
        then show ?thesis using lu k by simp
      qed
    qed
  qed
qed

end
