(* ===== verification/ChanInv.thy ===== *)
theory ChanInv
  imports NameStr
begin

text \<open>
  The reference counts.  \<open>owned s\<close> is the multiset of the references held in the objects of the store,
  \<open>R\<close> the multiset of those held outside it, in variables and in the mount table.  The invariant
  \<open>refs s R\<close>: an object is alive exactly when it is referenced, and its count is the number of references to it.
\<close>

datatype ptr = PC nat | PN nat | PH nat

fun idx :: "ptr \<Rightarrow> nat" where
  "idx (PC i) = i"
| "idx (PN i) = i"
| "idx (PH i) = i"

fun tag :: "obj \<Rightarrow> nat \<Rightarrow> ptr option" where
  "tag (OChan c) i = (if cfree c then None else Some (PC i))"
| "tag (OName n) i = Some (PN i)"
| "tag (OHead m) i = Some (PH i)"
| "tag OFree i = None"

definition live :: "store \<Rightarrow> ptr \<Rightarrow> bool" where
  "live s p \<longleftrightarrow> tag (get s (idx p)) (idx p) = Some p"

definition optr :: "('a \<Rightarrow> ptr) \<Rightarrow> 'a option \<Rightarrow> ptr multiset" where
  "optr f x = mset (opt f x)"

definition slot_refs :: "nat option list \<Rightarrow> ptr multiset" where
  "slot_refs xs = mset (map PC (slots xs))"

definition mount_refs :: "mount list \<Rightarrow> ptr multiset" where
  "mount_refs ms = mset (map (\<lambda>m. PC (m_to m)) ms)"

fun outs :: "obj \<Rightarrow> ptr multiset" where
  "outs (OChan c) = (if cfree c then {#}
     else optr PH (c_umh c) + optr PC (c_umc c) + optr PC (c_mchan c) + optr PN (c_name c))"
| "outs (OName n) = slot_refs (n_mtpt n)"
| "outs (OHead m) = mount_refs (h_mount m)"
| "outs OFree = {#}"

definition owned :: "store \<Rightarrow> ptr multiset" where
  "owned s = sum_list (map outs (s_heap s))"

definition refs :: "store \<Rightarrow> ptr multiset \<Rightarrow> bool" where
  "refs s R \<longleftrightarrow> (\<forall>p. live s p \<longleftrightarrow> p \<in># owned s + R) \<and>
     (\<forall>p. live s p \<longrightarrow> oref (get s (idx p)) = int (count (owned s + R) p))"

lemma optr_simps [simp]: "optr f None = {#}" "optr f (Some x) = {#f x#}"
  by (simp_all add: optr_def opt_def)

lemma slots_simps [simp]: "slots [] = []" "slots (None # xs) = slots xs" "slots (Some c # xs) = c # slots xs"
  "slots (xs @ ys) = slots xs @ slots ys"
  by (simp_all add: slots_def opt_def)

lemma slot_refs_Cons: "slot_refs (x # xs) = optr PC x + slot_refs xs"
  by (cases x) (simp_all add: slot_refs_def)

lemma slot_refs_simps [simp]: "slot_refs [] = {#}" "slot_refs (None # xs) = slot_refs xs"
  "slot_refs (Some c # xs) = add_mset (PC c) (slot_refs xs)" "slot_refs (xs @ ys) = slot_refs xs + slot_refs ys"
  by (simp_all add: slot_refs_def)

lemma mount_refs_simps [simp]: "mount_refs [] = {#}" "mount_refs (m # ms) = add_mset (PC (m_to m)) (mount_refs ms)"
  "mount_refs (ms @ ms') = mount_refs ms + mount_refs ms'"
  by (simp_all add: mount_refs_def)

lemma get_put: "get (put i ob s) j = (if i = j \<and> i < length (s_heap s) then ob else get s j)"
  by (auto simp: get_def put_def)

lemma get_others [simp]: "get (s\<lparr>s_free := a\<rparr>) p = get s p" "get (s\<lparr>s_ev := e\<rparr>) p = get s p"
  "get (s\<lparr>s_ncname := n\<rparr>) p = get s p" "get (s\<lparr>s_mountid := k\<rparr>) p = get s p" "get (s\<lparr>s_fid := k\<rparr>) p = get s p"
  by (simp_all add: get_def)

lemma at_others [simp]: "chan_at (s\<lparr>s_free := a\<rparr>) p = chan_at s p" "chan_at (s\<lparr>s_ev := e\<rparr>) p = chan_at s p"
  "chan_at (s\<lparr>s_ncname := n\<rparr>) p = chan_at s p" "chan_at (s\<lparr>s_mountid := k\<rparr>) p = chan_at s p"
  "name_at (s\<lparr>s_free := a\<rparr>) p = name_at s p" "name_at (s\<lparr>s_ev := e\<rparr>) p = name_at s p"
  "name_at (s\<lparr>s_ncname := n\<rparr>) p = name_at s p" "name_at (s\<lparr>s_mountid := k\<rparr>) p = name_at s p"
  "head_at (s\<lparr>s_free := a\<rparr>) p = head_at s p" "head_at (s\<lparr>s_ev := e\<rparr>) p = head_at s p"
  "head_at (s\<lparr>s_ncname := n\<rparr>) p = head_at s p" "head_at (s\<lparr>s_mountid := k\<rparr>) p = head_at s p"
  by (simp_all add: chan_at_def name_at_def head_at_def)

lemma refs_others [simp]: "refs (s\<lparr>s_free := a\<rparr>) R = refs s R" "refs (s\<lparr>s_ev := e\<rparr>) R = refs s R"
  "refs (s\<lparr>s_ncname := n\<rparr>) R = refs s R" "refs (s\<lparr>s_mountid := k\<rparr>) R = refs s R"
  by (simp_all add: refs_def live_def owned_def)

lemma sum_list_update_add:
  "i < length xs \<Longrightarrow> sum_list (map f (xs[i := x])) + f (xs ! i) = sum_list (map f xs) + (f x :: 'b::comm_monoid_add)"
  by (induction xs arbitrary: i) (auto split: nat.split simp: ac_simps)

lemma owned_put: "i < length (s_heap s) \<Longrightarrow> owned (put i ob s) + outs (get s i) = owned s + outs ob"
  using sum_list_update_add [of i "s_heap s" outs ob] by (simp add: owned_def put_def get_def)

lemma live_valid: "live s p \<Longrightarrow> idx p < length (s_heap s) \<and> get s (idx p) \<noteq> OFree"
  by (auto simp: live_def get_def split: if_splits)

lemma tag_set_ref [simp]: "tag (set_ref x ob) i = tag ob i" "outs (set_ref x ob) = outs ob"
  by (cases ob; simp add: cfree_def)+

lemma tag_idx: "tag ob i = Some p \<Longrightarrow> idx p = i"
  by (cases ob) (auto split: if_splits)

lemma live_put:
  assumes "i < length (s_heap s)"
  shows "live (put i ob s) p \<longleftrightarrow> (if idx p = i then tag ob i = Some p else live s p)"
  using assms by (auto simp: live_def get_put)

lemma live_unique: "live s p \<Longrightarrow> live s q \<Longrightarrow> idx p = idx q \<Longrightarrow> p = q"
  by (simp add: live_def)

lemma refs_put:
  assumes "refs s R" "live s p" "tag ob (idx p) = Some p"
    "\<And>q. q \<noteq> p \<Longrightarrow> count (owned (put (idx p) ob s) + R') q = count (owned s + R) q"
    "oref ob = int (count (owned (put (idx p) ob s) + R') p)" "0 < count (owned (put (idx p) ob s) + R') p"
  shows "refs (put (idx p) ob s) R'"
proof -
  let ?s = "put (idx p) ob s"
  have i: "idx p < length (s_heap s)" using live_valid [OF assms(2)] by simp
  have l: "live ?s q = live s q" for q
    using live_put [OF i, of ob q] assms(2,3) live_unique [OF assms(2)] by (auto simp: live_def)
  have m: "q \<in># owned ?s + R' \<longleftrightarrow> q \<in># owned s + R" for q
  proof (cases "q = p")
    case True
    then show ?thesis using assms(1,2,6) unfolding refs_def count_greater_zero_iff by blast
  next
    case False
    then show ?thesis using assms(4) [OF False] unfolding count_greater_zero_iff [symmetric] by simp
  qed
  show ?thesis unfolding refs_def
  proof (intro conjI allI impI)
    fix q
    show "live ?s q \<longleftrightarrow> q \<in># owned ?s + R'" using l m assms(1) by (simp add: refs_def)
    assume "live ?s q"
    then have lq: "live s q" using l by simp
    show "oref (get ?s (idx q)) = int (count (owned ?s + R') q)"
    proof (cases "q = p")
      case True
      then show ?thesis using assms(5) i by (simp add: get_put)
    next
      case False
      then have "idx q \<noteq> idx p" using live_unique [OF lq assms(2)] by auto
      then show ?thesis using assms(1) lq assms(4) [OF False] by (simp add: get_put refs_def)
    qed
  qed
qed

lemma owned_set_ref: "owned (put i (set_ref x (get s i)) s) = owned s"
proof (cases "i < length (s_heap s)")
  case True
  then show ?thesis using owned_put [OF True, of "set_ref x (get s i)"] by simp
next
  case False
  then show ?thesis unfolding put_def owned_def by (simp add: list_update_beyond)
qed

lemma refs_live: "refs s R \<Longrightarrow> live s p \<Longrightarrow> oref (get s (idx p)) = int (count (owned s + R) p) \<and> 0 < count (owned s + R) p"
  unfolding refs_def count_greater_zero_iff by blast

lemma refs_held: "refs s R \<Longrightarrow> p \<in># R \<Longrightarrow> live s p"
  by (simp add: refs_def)

lemma refs_owned: "refs s R \<Longrightarrow> p \<in># owned s \<Longrightarrow> live s p"
  by (simp add: refs_def)

lemma live_oref: "live s p \<Longrightarrow> oref (set_ref x (get s (idx p))) = x"
  using live_valid [of s p] by (intro oref_set_ref) simp

lemma incref_ok:
  assumes "refs s R" "live s p"
  shows "\<exists>s'. incref (idx p) s = Some s' \<and> refs s' (add_mset p R) \<and>
    s' = put (idx p) (set_ref (oref (get s (idx p)) + 1) (get s (idx p))) s"
proof -
  let ?s = "put (idx p) (set_ref (oref (get s (idx p)) + 1) (get s (idx p))) s"
  have "refs ?s (add_mset p R)"
    using assms refs_live [OF assms] by (intro refs_put [OF assms]) (simp_all add: owned_set_ref live_oref live_def)
  then show ?thesis using live_valid [OF assms(2)] by (simp add: incref_def)
qed

lemma decref_ok:
  assumes "refs s (add_mset p R)"
  shows "\<exists>x s'. decref (idx p) s = Some (x, s') \<and> x = oref (get s (idx p)) - 1 \<and> 0 \<le> x \<and>
    s' = put (idx p) (set_ref x (get s (idx p))) s \<and> (x \<noteq> 0 \<longrightarrow> refs s' R)"
proof -
  have l: "live s p" using assms by (simp add: refs_held)
  note o = refs_live [OF assms l]
  let ?x = "oref (get s (idx p)) - 1"
  let ?s = "put (idx p) (set_ref ?x (get s (idx p))) s"
  have "refs ?s R" if "?x \<noteq> 0"
  proof (rule refs_put [OF assms l])
    show "oref (set_ref ?x (get s (idx p))) = int (count (owned ?s + R) p)" using o l by (simp add: owned_set_ref live_oref)
    show "0 < count (owned ?s + R) p" 
    proof -
      have "oref (get s (idx p)) = 1 + int (count (owned s + R) p)" using o by simp
      then show ?thesis using that unfolding owned_set_ref by linarith
    qed
  qed (use l in \<open>simp_all add: owned_set_ref live_def\<close>)
  then show ?thesis using live_valid [OF l] o by (simp add: decref_def Let_def)
qed

lemma refs_swap:
  assumes "refs s R" "live s p" "tag ob (idx p) = Some p" "oref ob = oref (get s (idx p))"
    "outs (get s (idx p)) + R = outs ob + R'"
  shows "refs (put (idx p) ob s) R'"
proof -
  have i: "idx p < length (s_heap s)" using live_valid [OF assms(2)] by simp
  have "count (owned (put (idx p) ob s) + R') q = count (owned s + R) q" for q
    using arg_cong [OF owned_put [OF i, of ob], of "\<lambda>m. count m q"] arg_cong [OF assms(5), of "\<lambda>m. count m q"] by simp
  then have T: "owned (put (idx p) ob s) + R' = owned s + R" by (rule multiset_eqI)
  show ?thesis
    by (rule refs_put [OF assms(1-3)]) (use refs_live [OF assms(1,2)] in \<open>simp_all only: T assms(4)\<close>)
qed

text \<open>The last reference goes: the object dies and what it held is held outside.\<close>

lemma refs_kill:
  assumes "refs s (add_mset p R)" "oref (get s (idx p)) = 1" "tag ob (idx p) = None" "outs ob = {#}"
  shows "refs (put (idx p) ob s) (outs (get s (idx p)) + R)"
proof -
  have l: "live s p" using assms(1) by (simp add: refs_held)
  have i: "idx p < length (s_heap s)" using live_valid [OF l] by simp
  have o: "owned (put (idx p) ob s) + outs (get s (idx p)) = owned s" using owned_put [OF i, of ob] assms(4) by simp
  then have T: "owned (put (idx p) ob s) + (outs (get s (idx p)) + R) = owned s + R" by (simp add: add.assoc [symmetric])
  have c: "p \<notin># owned s + R" using refs_live [OF assms(1) l] assms(2) by (simp add: not_in_iff)
  have lv: "live (put (idx p) ob s) q \<longleftrightarrow> live s q \<and> q \<noteq> p" for q
  proof (cases "idx q = idx p")
    case True
    then have "\<not> live (put (idx p) ob s) q" using live_put [OF i, of ob q] assms(3) by simp
    moreover have "live s q \<Longrightarrow> q = p" using True l by (simp add: live_def)
    ultimately show ?thesis by blast
  next
    case False
    then have "q \<noteq> p" by auto
    then show ?thesis using live_put [OF i, of ob q] False by simp
  qed
  show ?thesis unfolding refs_def T
  proof (intro conjI allI impI)
    fix q
    show "live (put (idx p) ob s) q \<longleftrightarrow> q \<in># owned s + R"
      unfolding lv using assms(1) c by (auto simp: refs_def)
    assume "live (put (idx p) ob s) q"
    then have q: "live s q" "q \<noteq> p" unfolding lv by simp_all
    then have "idx q \<noteq> idx p" using live_unique [OF l q(1)] by auto
    then show "oref (get (put (idx p) ob s) (idx q)) = int (count (owned s + R) q)"
      using assms(1) q by (simp add: get_put refs_def)
  qed
qed

subsection \<open>Closing is sound\<close>

fun wref :: "work \<Rightarrow> ptr multiset" where
  "wref (CClose p) = {#PC p#}"
| "wref (NameClose p) = {#PN p#}"
| "wref (PutHead p) = {#PH p#}"
| "wref (Mux m) = {#}"
| "wref (Relink p) = {#}"

definition wrefs :: "work list \<Rightarrow> ptr multiset" where
  "wrefs w = sum_list (map wref w)"

fun relink :: "work \<Rightarrow> nat list" where
  "relink (Relink p) = [p]"
| "relink _ = []"

abbreviation relinks :: "work list \<Rightarrow> nat list" where
  "relinks w \<equiv> concat (map relink w)"

definition dead_chan :: "store \<Rightarrow> nat \<Rightarrow> bool" where
  "dead_chan s i \<longleftrightarrow> (\<exists>c. get s i = OChan c \<and> cfree c \<and> c_umc c = None)"

text \<open>The free list, with the channels \<open>P\<close> still on their way to it, and the count of names.\<close>

definition free_ok :: "store \<Rightarrow> nat list \<Rightarrow> bool" where
  "free_ok s P \<longleftrightarrow> (\<forall>i\<in>set (s_free s @ P). dead_chan s i) \<and> distinct (s_free s @ P)"

definition isname :: "obj \<Rightarrow> nat" where
  "isname ob = (case ob of OName _ \<Rightarrow> 1 | _ \<Rightarrow> 0)"

definition names_ok :: "store \<Rightarrow> bool" where
  "names_ok s \<longleftrightarrow> s_ncname s = int (\<Sum>ob\<leftarrow>s_heap s. isname ob)"

text \<open>
  \<open>T\<close> is the mount table: its heads, each with the channel it is from.  A head with mounts is in the
  table; a name is a terminated string with a stack inside its array.
\<close>

definition wf_name :: "cname \<Rightarrow> bool" where
  "wf_name n \<longleftrightarrow> wf_str (n_s n) (n_len n) \<and> length (n_mtpt n) \<le> n_malen n"

type_synonym mtab = "(nat \<times> nat) multiset"

definition trefs :: "mtab \<Rightarrow> ptr multiset" where
  "trefs T = image_mset (\<lambda>e. PH (fst e)) T + image_mset (\<lambda>e. PC (snd e)) T"

fun obj_ok :: "mtab \<Rightarrow> nat \<Rightarrow> obj \<Rightarrow> bool" where
  "obj_ok T i (OName n) = wf_name n"
| "obj_ok T i (OHead m) = ((\<forall>f. (i, f) \<in># T \<longrightarrow> h_from m = Some f) \<and> (h_mount m = [] \<or> i \<in># image_mset fst T))"
| "obj_ok T i _ = True"

definition objs_ok :: "store \<Rightarrow> mtab \<Rightarrow> bool" where
  "objs_ok s T \<longleftrightarrow> (\<forall>i. obj_ok T i (get s i))"

definition chinv :: "store \<Rightarrow> mtab \<Rightarrow> ptr multiset \<Rightarrow> nat list \<Rightarrow> bool" where
  "chinv s T R P \<longleftrightarrow> refs s (trefs T + R) \<and> free_ok s P \<and> names_ok s \<and> objs_ok s T"

text \<open>What closing may do to the store: objects die or lose references, nothing else changes.\<close>

definition shrinks :: "store \<Rightarrow> store \<Rightarrow> bool" where
  "shrinks s s' \<longleftrightarrow> length (s_heap s') = length (s_heap s) \<and> s_fid s' = s_fid s \<and> s_mountid s' = s_mountid s \<and>
     (\<forall>i. tag (get s' i) i = None \<or> (\<exists>x. get s' i = set_ref x (get s i)))"

lemma wrefs_simps [simp]: "wrefs [] = {#}" "wrefs (x # w) = wref x + wrefs w" "wrefs (v @ w) = wrefs v + wrefs w"
  by (simp_all add: wrefs_def)

lemma wrefs_opt: "wrefs (opt PutHead x) = optr PH x" "wrefs (opt CClose x) = optr PC x" "wrefs (opt NameClose x) = optr PN x"
  by (cases x; simp add: opt_def)+

lemma wrefs_closes: "wrefs (map CClose xs) = mset (map PC xs)"
  by (induction xs) auto

lemma relinks_opt [simp]: "relinks (opt PutHead x) = []" "relinks (opt CClose x) = []" "relinks (opt NameClose x) = []"
  by (cases x; simp add: opt_def)+

lemma relinks_closes [simp]: "relinks (map CClose xs) = []"
  by (induction xs) simp_all

lemma set_ref_self: "\<exists>x. ob = set_ref x ob"
  by (rule exI [of _ "oref ob"]) (cases ob; simp)

lemma shrinks_refl [simp]: "shrinks s s"
  unfolding shrinks_def using set_ref_self by blast

lemma set_ref_set_ref [simp]: "set_ref x (set_ref y ob) = set_ref x ob"
  by (cases ob) auto

lemma shrinks_trans: "shrinks s t \<Longrightarrow> shrinks t u \<Longrightarrow> shrinks s u"
  unfolding shrinks_def by (metis set_ref_set_ref tag_set_ref(1))

lemma shrinks_put:
  "i < length (s_heap s) \<Longrightarrow> tag ob i = None \<or> (\<exists>x. ob = set_ref x (get s i)) \<Longrightarrow> shrinks s (put i ob s)"
  unfolding shrinks_def using set_ref_self by (simp add: get_put) (auto simp: put_def)

lemma shrinks_others [simp]: "shrinks s (t\<lparr>s_free := a\<rparr>) = shrinks s t" "shrinks s (t\<lparr>s_ev := e\<rparr>) = shrinks s t"
  "shrinks s (t\<lparr>s_ncname := k\<rparr>) = shrinks s t"
  by (simp_all add: shrinks_def)

lemma put_put [simp]: "put i a (put i b s) = put i a s"
  by (simp add: put_def)

lemma put_others: "put i a (s\<lparr>s_ev := e\<rparr>) = (put i a s)\<lparr>s_ev := e\<rparr>" "put i a (s\<lparr>s_ncname := k\<rparr>) = (put i a s)\<lparr>s_ncname := k\<rparr>"
  "put i a (s\<lparr>s_free := f\<rparr>) = (put i a s)\<lparr>s_free := f\<rparr>" "put i a (s\<lparr>s_mountid := m\<rparr>) = (put i a s)\<lparr>s_mountid := m\<rparr>"
  by (simp_all add: put_def)

lemma put_fields [simp]: "s_free (put i a s) = s_free s" "s_ncname (put i a s) = s_ncname s" "s_ev (put i a s) = s_ev s"
  "length (s_heap (put i a s)) = length (s_heap s)" "s_mountid (put i a s) = s_mountid s" "s_fid (put i a s) = s_fid s"
  by (simp_all add: put_def)

lemma dead_chan_put: "i < length (s_heap s) \<Longrightarrow>
    dead_chan (put i ob s) j = (if i = j then \<exists>c. ob = OChan c \<and> cfree c \<and> c_umc c = None else dead_chan s j)"
  by (auto simp: dead_chan_def get_put)

lemma dead_not_live: "dead_chan s i \<Longrightarrow> idx p = i \<Longrightarrow> \<not> live s p"
  by (auto simp: dead_chan_def live_def)

lemma free_ok_put:
  assumes "free_ok s P" "live s p"
  shows "free_ok (put (idx p) ob s) P"
proof -
  have i: "idx p < length (s_heap s)" using live_valid [OF assms(2)] by simp
  have "idx p \<notin> set (s_free s @ P)" using assms dead_not_live by (auto simp: free_ok_def)
  then show ?thesis using assms(1) by (auto simp: free_ok_def dead_chan_put [OF i])
qed

lemma names_ok_put:
  assumes "names_ok s" "i < length (s_heap s)"
  shows "s_ncname s + int (isname ob) - int (isname (get s i)) = int (\<Sum>ob\<leftarrow>s_heap (put i ob s). isname ob)"
  using assms sum_list_update_nat [OF assms(2), of isname ob] by (simp add: names_ok_def put_def get_def)

lemma isname_set_ref [simp]: "isname (set_ref x ob) = isname ob"
  by (cases ob) (auto simp: isname_def)

lemma names_ok_same:
  assumes "names_ok s" "live s p" "isname ob = isname (get s (idx p))"
  shows "names_ok (put (idx p) ob s)"
  using names_ok_put [OF assms(1), of "idx p" ob] live_valid [OF assms(2)] assms(3) by (simp add: names_ok_def)

lemma objs_ok_put: "objs_ok s T \<Longrightarrow> obj_ok T i ob \<Longrightarrow> objs_ok (put i ob s) T"
  by (simp add: objs_ok_def get_put)

lemma obj_ok_set_ref [simp]: "obj_ok T i (set_ref x ob) = obj_ok T i ob"
  by (cases ob) (simp_all add: wf_name_def)

lemma objs_ok_set_ref: "objs_ok s T \<Longrightarrow> objs_ok (put i (set_ref x (get s i)) s) T"
  by (rule objs_ok_put) (simp_all add: objs_ok_def)

lemma objs_ok_others [simp]: "objs_ok (s\<lparr>s_free := a\<rparr>) T = objs_ok s T" "objs_ok (s\<lparr>s_ev := e\<rparr>) T = objs_ok s T"
  "objs_ok (s\<lparr>s_ncname := n\<rparr>) T = objs_ok s T" "objs_ok (s\<lparr>s_mountid := k\<rparr>) T = objs_ok s T"
  by (simp_all add: objs_ok_def)

lemma objs_ok_dead: "objs_ok s T \<Longrightarrow> tag ob i = None \<Longrightarrow> objs_ok (put i ob s) T"
  by (rule objs_ok_put) (cases ob; simp)+

lemma chinv_decref:
  assumes "chinv s T (add_mset p R) P"
  shows "\<exists>x s'. decref (idx p) s = Some (x, s') \<and> x = oref (get s (idx p)) - 1 \<and> 0 \<le> x \<and>
    s' = put (idx p) (set_ref x (get s (idx p))) s \<and> shrinks s s' \<and> (x \<noteq> 0 \<longrightarrow> chinv s' T R P)"
proof -
  have l: "live s p" using assms by (auto simp: chinv_def intro: refs_held)
  obtain x s' where d: "decref (idx p) s = Some (x, s')" "x = oref (get s (idx p)) - 1" "0 \<le> x"
    "s' = put (idx p) (set_ref x (get s (idx p))) s" "x \<noteq> 0 \<longrightarrow> refs s' (trefs T + R)"
    using assms decref_ok [of s p "trefs T + R"] by (auto simp: chinv_def)
  have "free_ok s' P" "names_ok s'" "objs_ok s' T"
    using assms l unfolding d(4) chinv_def by (simp_all add: free_ok_put names_ok_same objs_ok_set_ref)
  moreover have "shrinks s s'" unfolding d(4) using live_valid [OF l] by (intro shrinks_put) auto
  ultimately show ?thesis using d by (auto simp: chinv_def)
qed

lemma chinv_kill:
  assumes "chinv s T (add_mset p R) P" "oref (get s (idx p)) = 1" "tag ob (idx p) = None" "outs ob = {#}"
    "free_ok (put (idx p) ob s) P'" "k = s_ncname s + int (isname ob) - int (isname (get s (idx p)))"
  shows "chinv ((put (idx p) ob s)\<lparr>s_ncname := k\<rparr>) T (outs (get s (idx p)) + R) P'" "shrinks s ((put (idx p) ob s)\<lparr>s_ncname := k\<rparr>)"
    "0 \<le> k"
proof -
  have l: "live s p" using assms(1) by (auto simp: chinv_def intro: refs_held)
  have "names_ok s" "idx p < length (s_heap s)" using assms(1) live_valid [OF l] by (simp_all add: chinv_def)
  note n = names_ok_put [OF this, of ob]
  show "0 \<le> k" unfolding assms(6) n by simp
  have "names_ok ((put (idx p) ob s)\<lparr>s_ncname := k\<rparr>)" unfolding names_ok_def assms(6) using n by simp
  moreover have "free_ok ((put (idx p) ob s)\<lparr>s_ncname := k\<rparr>) P'" using assms(5) by (simp add: free_ok_def dead_chan_def)
  moreover have "objs_ok ((put (idx p) ob s)\<lparr>s_ncname := k\<rparr>) T"
    using assms(1,3) by (simp add: chinv_def objs_ok_dead)
  moreover have "refs (put (idx p) ob s) (outs (get s (idx p)) + (trefs T + R))"
    using refs_kill [OF _ assms(2,3,4)] assms(1) by (simp add: chinv_def)
  ultimately show "chinv ((put (idx p) ob s)\<lparr>s_ncname := k\<rparr>) T (outs (get s (idx p)) + R) P'"
    by (simp add: chinv_def ac_simps)
  show "shrinks s ((put (idx p) ob s)\<lparr>s_ncname := k\<rparr>)"
    using live_valid [OF l] assms(3) by (simp add: shrinks_put)
qed

lemma live_chan: "live s (PC p) \<longleftrightarrow> (\<exists>c. chan_at s p = Some c \<and> \<not> cfree c)"
  by (auto simp: live_def chan_at_def split: obj.splits if_splits elim: tag.elims)

lemma live_name: "live s (PN p) \<longleftrightarrow> (\<exists>n. name_at s p = Some n)"
  by (auto simp: live_def name_at_def split: obj.splits if_splits)

lemma live_head: "live s (PH p) \<longleftrightarrow> (\<exists>m. head_at s p = Some m)"
  by (auto simp: live_def head_at_def split: obj.splits if_splits)

lemma chan_atD: "chan_at s p = Some c \<Longrightarrow> get s p = OChan c"
  by (auto simp: chan_at_def split: obj.splits)

lemma name_atD: "name_at s p = Some n \<Longrightarrow> get s p = OName n"
  by (auto simp: name_at_def split: obj.splits)

lemma head_atD: "head_at s p = Some m \<Longrightarrow> get s p = OHead m"
  by (auto simp: head_at_def split: obj.splits)

lemma chinv_held: "chinv s T R P \<Longrightarrow> p \<in># R \<Longrightarrow> live s p"
  unfolding chinv_def using refs_held [of s "trefs T + R" p] by simp

lemma chinv_reorder: "chinv s T R P \<Longrightarrow> R = R' \<Longrightarrow> mset P = mset P' \<Longrightarrow> chinv s T R' P'"
  using mset_eq_setD [of P P'] mset_eq_imp_distinct_iff [of P P'] by (auto simp: chinv_def free_ok_def)

lemma chinv_others [simp]: "chinv (s\<lparr>s_ev := e\<rparr>) T R P = chinv s T R P" "chinv (s\<lparr>s_mountid := m\<rparr>) T R P = chinv s T R P"
  by (simp_all add: chinv_def free_ok_def names_ok_def dead_chan_def objs_ok_def)

lemma chinv_relink: "chinv (s\<lparr>s_free := p # s_free s\<rparr>) T R P = chinv s T R (p # P)"
  by (auto simp: chinv_def free_ok_def names_ok_def dead_chan_def objs_ok_def)

lemma free_ok_die:
  assumes "free_ok s P" "live s (PC p)" "cfree d" "c_umc d = None"
  shows "free_ok (put p (OChan d) s) (p # P)"
proof -
  have i: "p < length (s_heap s)" using live_valid [OF assms(2)] by simp
  have "p \<notin> set (s_free s @ P)" using assms(1,2) dead_not_live [of s p "PC p"] by (auto simp: free_ok_def)
  then show ?thesis using assms by (auto simp: free_ok_def dead_chan_put [OF i])
qed

text \<open>The three ways an object dies.\<close>

lemma kill_chan:
  assumes "chinv s T (add_mset (PC p) R) P" "chan_at s p = Some c" "c_ref c = 1" "cfree d" "c_umc d = None"
  shows "chinv (put p (OChan d) s) T (outs (OChan c) + R) (p # P)" "shrinks s (put p (OChan d) s)"
proof -
  have l: "live s (PC p)" using assms(1) by (simp add: chinv_held)
  note g = chan_atD [OF assms(2)]
  have f: "free_ok (put (idx (PC p)) (OChan d) s) (p # P)"
    using free_ok_die [of s P p d] l assms by (simp add: chinv_def)
  have k: "s_ncname (put p (OChan d) s) = s_ncname s + int (isname (OChan d)) - int (isname (get s (idx (PC p))))"
    using g by (simp add: isname_def)
  have e: "(put (idx (PC p)) (OChan d) s)\<lparr>s_ncname := s_ncname (put p (OChan d) s)\<rparr> = put p (OChan d) s" by simp
  note c = chinv_kill [OF assms(1) _ _ _ f k, unfolded e]
  show "chinv (put p (OChan d) s) T (outs (OChan c) + R) (p # P)" using c(1) g assms by simp
  show "shrinks s (put p (OChan d) s)" using c(2) g assms by simp
qed

lemma chinv_free: "chinv s T R P \<Longrightarrow> free_ok s P"
  by (simp add: chinv_def)

lemma kill_name:
  assumes "chinv s T (add_mset (PN p) R) P" "name_at s p = Some n" "n_ref n = 1"
  shows "chinv (put p OFree (s\<lparr>s_ncname := s_ncname s - 1\<rparr>)) T (outs (OName n) + R) P"
    "shrinks s (put p OFree (s\<lparr>s_ncname := s_ncname s - 1\<rparr>))" "0 \<le> s_ncname s - 1"
proof -
  note g = name_atD [OF assms(2)] and l = chinv_held [OF assms(1)]
  have f: "free_ok (put (idx (PN p)) OFree s) P" using l by (intro free_ok_put chinv_free [OF assms(1)]) simp
  have k: "s_ncname s - 1 = s_ncname s + int (isname OFree) - int (isname (get s (idx (PN p))))"
    using g by (simp add: isname_def)
  note c = chinv_kill [OF assms(1) _ _ _ f k, unfolded idx.simps, folded put_others]
  show "chinv (put p OFree (s\<lparr>s_ncname := s_ncname s - 1\<rparr>)) T (outs (OName n) + R) P" using c(1) g assms by simp
  show "shrinks s (put p OFree (s\<lparr>s_ncname := s_ncname s - 1\<rparr>))" using c(2) g assms by simp
  show "0 \<le> s_ncname s - 1" using c(3) g assms by simp
qed

lemma kill_head:
  assumes "chinv s T (add_mset (PH p) R) P" "head_at s p = Some m" "h_ref m = 1"
  shows "chinv (put p OFree s) T R P" "shrinks s (put p OFree s)"
proof -
  note g = head_atD [OF assms(2)] and l = chinv_held [OF assms(1)]
  have f: "free_ok (put (idx (PH p)) OFree s) P" using l by (intro free_ok_put chinv_free [OF assms(1)]) simp
  have k: "s_ncname (put p OFree s) = s_ncname s + int (isname OFree) - int (isname (get s (idx (PH p))))"
    using g by (simp add: isname_def)
  have e: "(put (idx (PH p)) OFree s)\<lparr>s_ncname := s_ncname (put p OFree s)\<rparr> = put p OFree s" by simp
  note c = chinv_kill [OF assms(1) _ _ _ f k, unfolded e]
  have "PH p \<notin># trefs T"
  proof
    assume "PH p \<in># trefs T"
    then have "2 \<le> count (owned s + (trefs T + add_mset (PH p) R)) (PH p)" by (simp add: Suc_le_eq)
    moreover have "live s (PH p)" using l by simp
    ultimately show False using refs_live [of s "trefs T + add_mset (PH p) R" "PH p"] assms g by (auto simp: chinv_def)
  qed
  then have "p \<notin># image_mset fst T" by (auto simp: trefs_def)
  moreover have "obj_ok T p (get s p)" using assms(1) by (simp add: chinv_def objs_ok_def)
  ultimately have "h_mount m = []" using g by simp
  then show "chinv (put p OFree s) T R P" using c(1) g assms by simp
  show "shrinks s (put p OFree s)" using c(2) g assms by simp
qed

definition closes :: "work list \<Rightarrow> store \<Rightarrow> mtab \<Rightarrow> ptr multiset \<Rightarrow> bool" where
  "closes w s T R \<longleftrightarrow> (\<exists>s'. release w s = Some s' \<and> chinv s' T R [] \<and> shrinks s s')"

lemma closes_later: "closes w t T R \<Longrightarrow> shrinks s t \<Longrightarrow> release v s = release w t \<Longrightarrow> closes v s T R"
  unfolding closes_def using shrinks_trans by auto

lemma put_set_ref_id: "get s p = set_ref x (get s p) \<Longrightarrow> put p (set_ref x (get s p)) s = s"
  by (cases "p < length (s_heap s)") (simp_all add: put_def get_def list_update_beyond)

lemma release_sound: "chinv s T (wrefs w + R) (relinks w) \<Longrightarrow> closes w s T R"
proof (induction w s rule: release.induct)
  case (1 s)
  then show ?case by (simp add: closes_def)
next
  case (2 p w s)
  then have inv: "chinv s T (add_mset (PC p) (wrefs w + R)) (relinks w)" by simp
  then have "live s (PC p)" by (rule chinv_held) simp
  then obtain c where c: "chan_at s p = Some c" "\<not> cfree c" by (auto simp: live_chan)
  obtain x s1 where d: "decref p s = Some (x, s1)" "x = c_ref c - 1" "s1 = put p (OChan (c\<lparr>c_ref := x\<rparr>)) s"
    "shrinks s s1" "x \<noteq> 0 \<Longrightarrow> chinv s1 T (wrefs w + R) (relinks w)"
    using chinv_decref [OF inv] chan_atD [OF c(1)] by auto
  show ?case
  proof (cases "x = 0")
    case False
    show ?thesis
      by (rule closes_later [OF "2.IH"(1) [OF c d(1) refl False d(5) [OF False]] d(4)]) (simp add: c d(1) False)
  next
    case True
    let ?d = "c\<lparr>c_ref := 0, c_flag := CFREE, c_umh := None, c_umc := None, c_mux := 0, c_mchan := None\<rparr>"
    let ?s = "put p (OChan ?d) (s1\<lparr>s_ev := s_ev s1 @ [DevClose p]\<rparr>)"
    have s: "?s = (put p (OChan ?d) s)\<lparr>s_ev := s_ev s @ [DevClose p]\<rparr>" unfolding d(3) by (simp add: put_others)
    have k: "chinv (put p (OChan ?d) s) T (outs (OChan c) + (wrefs w + R)) (p # relinks w)" "shrinks s (put p (OChan ?d) s)"
      using kill_chan [OF inv c(1), of ?d] d(2) True by (simp_all add: cfree_def)
    let ?w = "opt PutHead (c_umh c) @ opt CClose (c_umc c) @ (if c_mux c \<noteq> 0 then [Mux (c_mux c)] else []) @
      opt CClose (c_mchan c) @ opt NameClose (c_name c) @ Relink p # w"
    have "chinv ?s T (wrefs ?w + R) (relinks ?w)"
      unfolding s chinv_others by (rule chinv_reorder [OF k(1)]) (simp_all add: c(2) wrefs_opt add.assoc)
    then have "closes ?w ?s T R" by (rule "2.IH"(2) [OF c d(1) refl _ refl refl, rotated]) (simp add: True)
    moreover have "shrinks s ?s" unfolding s using k(2) by simp
    moreover have "release (CClose p # w) s = release ?w ?s" using True c d(1) by (simp only: release.simps) (simp add: Let_def)
    ultimately show ?thesis by (rule closes_later)
  qed
next
  case (3 p w s)
  then have inv: "chinv s T (add_mset (PN p) (wrefs w + R)) (relinks w)" by simp
  then have "live s (PN p)" by (rule chinv_held) simp
  then obtain n where c: "name_at s p = Some n" by (auto simp: live_name)
  obtain x s1 where d: "decref p s = Some (x, s1)" "x = n_ref n - 1" "s1 = put p (OName (n\<lparr>n_ref := x\<rparr>)) s"
    "shrinks s s1" "x \<noteq> 0 \<Longrightarrow> chinv s1 T (wrefs w + R) (relinks w)"
    using chinv_decref [OF inv] name_atD [OF c(1)] by auto
  show ?case
  proof (cases "x = 0")
    case False
    show ?thesis
      by (rule closes_later [OF "3.IH"(1) [OF c d(1) refl False d(5) [OF False]] d(4)]) (simp add: c d(1) False)
  next
    case True
    let ?s = "put p OFree (s1\<lparr>s_ncname := s_ncname s1 - 1\<rparr>)"
    have s: "?s = put p OFree (s\<lparr>s_ncname := s_ncname s - 1\<rparr>)" unfolding d(3) by (simp add: put_others)
    have k: "chinv ?s T (outs (OName n) + (wrefs w + R)) (relinks w)" "shrinks s ?s" "0 \<le> s_ncname s - 1"
      unfolding s using kill_name [OF inv c(1)] d(2) True by simp_all
    have "\<not> s_ncname ?s < 0" using k(3) by (simp add: d(3))
    moreover have "chinv ?s T (wrefs (map CClose (slots (n_mtpt n)) @ w) + R) (relinks (map CClose (slots (n_mtpt n)) @ w))"
      by (rule chinv_reorder [OF k(1)]) (simp_all add: wrefs_closes slot_refs_def ac_simps)
    ultimately show ?thesis
      using True by (intro closes_later [OF "3.IH"(2) [OF c d(1) refl _ refl refl] k(2)]) (simp_all add: c d(1) Let_def)
  qed
next
  case (4 p w s)
  then have inv: "chinv s T (add_mset (PH p) (wrefs w + R)) (relinks w)" by simp
  then have "live s (PH p)" by (rule chinv_held) simp
  then obtain m where c: "head_at s p = Some m" by (auto simp: live_head)
  obtain x s1 where d: "decref p s = Some (x, s1)" "x = h_ref m - 1" "s1 = put p (OHead (m\<lparr>h_ref := x\<rparr>)) s"
    "shrinks s s1" "x \<noteq> 0 \<Longrightarrow> chinv s1 T (wrefs w + R) (relinks w)"
    using chinv_decref [OF inv] head_atD [OF c(1)] by auto
  show ?case
  proof (cases "x = 0")
    case False
    show ?thesis
      by (rule closes_later [OF "4.IH"(1) [OF c d(1) refl False d(5) [OF False]] d(4)]) (simp add: c d(1) False)
  next
    case True
    let ?s = "put p OFree s1"
    have s: "?s = put p OFree s" unfolding d(3) by simp
    have k: "chinv ?s T (wrefs w + R) (relinks w)" "shrinks s ?s"
      unfolding s using kill_head [OF inv c(1)] d(2) True by simp_all
    show ?thesis
      by (rule closes_later [OF "4.IH"(2) [OF c d(1) refl _ k(1)] k(2)]) (use True c d(1) in simp_all)
  qed
next
  case (5 m w s)
  then show ?case using closes_later [of w "s\<lparr>s_ev := s_ev s @ [MuxClose m]\<rparr>" T R s] by simp
next
  case (6 p w s)
  then show ?case using closes_later [of w "s\<lparr>s_free := p # s_free s\<rparr>" T R s] by (simp add: chinv_relink)
qed

end
