(* ===== verification/ChanSpec.thy ===== *)
theory ChanSpec
  imports ChanInv
begin

text \<open>
  What each operation on channels and names does to the counts: started in a store whose counts are exact
  it returns (no panic, no dead object used), the counts are exact again, and the references it takes and
  gives back are the ones its statement names.  \<open>runs m Q\<close>: \<open>m\<close> returns and its result satisfies \<open>Q\<close>.
\<close>

definition runs :: "'a option \<Rightarrow> ('a \<Rightarrow> bool) \<Rightarrow> bool" where
  "runs m Q \<longleftrightarrow> (\<exists>r. m = Some r \<and> Q r)"

lemma runs_simps [simp]: "runs (Some r) Q = Q r" "\<not> runs None Q"
  "runs (Option.bind m f) Q = runs m (\<lambda>r. runs (f r) Q)"
  by (cases m; auto simp: runs_def)+

lemma runs_mono: "runs m P \<Longrightarrow> (\<And>r. P r \<Longrightarrow> Q r) \<Longrightarrow> runs m Q"
  by (auto simp: runs_def)

lemma runs_map: "runs (map_option f m) Q = runs m (\<lambda>r. Q (f r))"
  by (cases m) auto

lemma runsD: "runs m Q \<Longrightarrow> \<exists>r. m = Some r \<and> Q r"
  by (simp add: runs_def)

lemma runs2D: "runs m (\<lambda>(a, b). Q a b) \<Longrightarrow> \<exists>a b. m = Some (a, b) \<and> Q a b"
  by (auto simp: runs_def)

lemma runs4D: "runs m (\<lambda>(a, b, c, d). Q a b c d) \<Longrightarrow> \<exists>a b c d. m = Some (a, b, c, d) \<and> Q a b c d"
  by (auto simp: runs_def)

lemma runs5D: "runs m (\<lambda>(a, b, c, d, e). Q a b c d e) \<Longrightarrow> \<exists>a b c d e. m = Some (a, b, c, d, e) \<and> Q a b c d e"
  by (auto simp: runs_def)

definition keeps :: "mtab \<Rightarrow> store \<Rightarrow> store \<Rightarrow> bool" where
  "keeps T s s' \<longleftrightarrow> (\<forall>h f m. (h, f) \<in># T \<longrightarrow> get s h = OHead m \<longrightarrow> (\<exists>x. get s' h = OHead (m\<lparr>h_ref := x\<rparr>)))"

text \<open>\<open>R\<close> is held outside the store, and the mount table is as it was in \<open>s\<close>.\<close>

definition post :: "mtab \<Rightarrow> ptr multiset \<Rightarrow> store \<Rightarrow> store \<Rightarrow> bool" where
  "post T R s s' \<longleftrightarrow> chinv s' T R [] \<and> keeps T s s'"

lemma mhead_self: "\<exists>x. m = m\<lparr>h_ref := x\<rparr>"
  by (rule exI [of _ "h_ref m"]) simp

lemma keeps_refl [simp]: "keeps T s s"
  unfolding keeps_def using mhead_self by (metis (no_types))

lemma keeps_trans [trans]: "keeps T s t \<Longrightarrow> keeps T t u \<Longrightarrow> keeps T s u"
  unfolding keeps_def by fastforce

lemma post_refl: "chinv s T R [] \<Longrightarrow> post T R s s"
  by (simp add: post_def)

lemma post_trans: "post T R s t \<Longrightarrow> post T R' t u \<Longrightarrow> post T R' s u"
  by (auto simp: post_def intro: keeps_trans)

lemma postD: "post T R s s' \<Longrightarrow> chinv s' T R []"
  by (simp add: post_def)

lemma post_live: "post T R s s' \<Longrightarrow> p \<in># R \<Longrightarrow> live s' p"
  by (auto simp: post_def intro: chinv_held)

lemma runs_post:
  "runs m (\<lambda>r. post T R t (g r) \<and> Q r) \<Longrightarrow> post T R0 s t \<Longrightarrow> runs m (\<lambda>r. post T R s (g r) \<and> Q r)"
  by (rule runs_mono, assumption) (auto intro: post_trans)

lemma keeps_put:
  "(\<And>m. get s i = OHead m \<Longrightarrow> \<exists>x. ob = OHead (m\<lparr>h_ref := x\<rparr>)) \<Longrightarrow> keeps T s (put i ob s)"
  using keeps_refl [of T s] unfolding keeps_def by (auto simp: get_put)

lemma keeps_other: "get s i = OChan c \<or> get s i = OName n \<Longrightarrow> keeps T s (put i ob s)"
  by (rule keeps_put) auto

lemma keeps_set_ref: "keeps T s (put i (set_ref x (get s i)) s)"
  by (rule keeps_put) auto

lemma keeps_shrinks:
  assumes "shrinks s s'" "chinv s' T R P"
  shows "keeps T s s'"
  unfolding keeps_def
proof (intro allI impI)
  fix h f m assume h: "(h, f) \<in># T" "get s h = OHead m"
  have "PH h \<in># trefs T" using h(1) by (force simp: trefs_def)
  then have "live s' (PH h)" using assms(2) by (auto simp: chinv_def refs_def)
  then have "tag (get s' h) h \<noteq> None" by (simp add: live_def)
  then obtain x where "get s' h = set_ref x (get s h)" using assms(1) unfolding shrinks_def by (metis (no_types))
  then show "\<exists>x. get s' h = OHead (m\<lparr>h_ref := x\<rparr>)" using h(2) by auto
qed

subsection \<open>Closing\<close>

lemma release_ok:
  assumes "chinv s T (wrefs w + R) []" "relinks w = []"
  shows "runs (release w s) (\<lambda>s'. post T R s s' \<and> shrinks s s')"
  using release_sound [of s T w R] assms by (auto simp: closes_def runs_def post_def intro: keeps_shrinks)

lemma cclose_ok: "chinv s T (optr PC c + R) [] \<Longrightarrow> runs (cclose c s) (\<lambda>s'. post T R s s' \<and> shrinks s s')"
  unfolding cclose_def by (rule release_ok) (simp_all add: wrefs_opt)

lemma cnameclose_ok: "chinv s T (optr PN n + R) [] \<Longrightarrow> runs (cnameclose n s) (\<lambda>s'. post T R s s' \<and> shrinks s s')"
  unfolding cnameclose_def by (rule release_ok) (simp_all add: wrefs_opt)

lemma putmhead_ok: "chinv s T (optr PH m + R) [] \<Longrightarrow> runs (putmhead m s) (\<lambda>s'. post T R s s' \<and> shrinks s s')"
  unfolding putmhead_def by (rule release_ok) (simp_all add: wrefs_opt)

subsection \<open>Taking references\<close>

lemma chinv_live: "chinv s T R P \<Longrightarrow> p \<in># owned s + (trefs T + R) \<longleftrightarrow> live s p"
  by (simp add: chinv_def refs_def)

lemma incref_spec:
  assumes "chinv s T R []" "live s p"
  shows "\<exists>x. incref (idx p) s = Some (put (idx p) (set_ref x (get s (idx p))) s) \<and>
    post T (add_mset p R) s (put (idx p) (set_ref x (get s (idx p))) s)"
proof -
  let ?s = "put (idx p) (set_ref (oref (get s (idx p)) + 1) (get s (idx p))) s"
  have "incref (idx p) s = Some ?s" "refs ?s (add_mset p (trefs T + R))"
    using incref_ok [of s "trefs T + R" p] assms by (auto simp: chinv_def)
  moreover have "free_ok ?s []" "names_ok ?s" "objs_ok ?s T"
    using assms by (simp_all add: chinv_def free_ok_put names_ok_same objs_ok_set_ref)
  ultimately show ?thesis by (auto simp: post_def chinv_def keeps_set_ref)
qed

lemma incref_runs:
  assumes "chinv s T R []" "live s p" "idx p = i"
  shows "runs (incref i s) (\<lambda>s'. post T (add_mset p R) s s' \<and> (\<forall>j. j \<noteq> i \<longrightarrow> get s' j = get s j))"
  using incref_spec [OF assms(1,2)] assms(3) by (auto simp: runs_def get_put)

lemma incref_put: "i \<noteq> j \<Longrightarrow> incref i (put j ob s) = map_option (put j ob) (incref i s)"
  by (simp add: incref_def get_put) (simp add: put_def list_update_swap)

lemma incref_slots_put: "j \<notin> set (slots xs) \<Longrightarrow> incref_slots xs (put j ob s) = map_option (put j ob) (incref_slots xs s)"
proof (induction xs s rule: incref_slots.induct)
  case (3 c xs s)
  then show ?case by (cases "incref c s") (simp_all add: incref_put)
qed simp_all

text \<open>Only counts change.\<close>

definition reref :: "store \<Rightarrow> store \<Rightarrow> bool" where
  "reref s s' \<longleftrightarrow> (\<forall>j. \<exists>x. get s' j = set_ref x (get s j))"

lemma reref_refl [simp]: "reref s s"
  unfolding reref_def using set_ref_self by blast

lemma reref_trans: "reref s t \<Longrightarrow> reref t u \<Longrightarrow> reref s u"
  unfolding reref_def by (metis set_ref_set_ref)

lemma reref_put: "reref s (put i (set_ref x (get s i)) s)"
  unfolding reref_def get_put using set_ref_self by auto

lemma reref_live: "reref s s' \<Longrightarrow> live s' p = live s p"
  unfolding reref_def live_def by (metis tag_set_ref(1))

lemma incref_slots_runs:
  assumes "chinv s T R []" "\<And>c. c \<in> set (slots xs) \<Longrightarrow> live s (f c)" "\<And>c. idx (f c) = c"
  shows "runs (incref_slots xs s) (\<lambda>s'. post T (mset (map f (slots xs)) + R) s s' \<and>
    (\<forall>j. j \<notin> set (slots xs) \<longrightarrow> get s' j = get s j) \<and> reref s s')"
  using assms(1,2)
proof (induction xs arbitrary: s R)
  case (Cons x xs)
  show ?case
  proof (cases x)
    case (Some c)
    obtain s1 where s1: "incref c s = Some s1" "post T (add_mset (f c) R) s s1" "\<forall>j. j \<noteq> c \<longrightarrow> get s1 j = get s j" "reref s s1"
      using incref_spec [OF Cons.prems(1), of "f c"] Cons.prems(2) [of c] Some assms(3)
      by (auto simp: get_put reref_put)
    have "live s1 (f d)" if "d \<in> set (slots xs)" for d
      using Cons.prems(2) [of d] that Some s1(4) by (simp add: reref_live)
    then have "runs (incref_slots xs s1) (\<lambda>s'. post T (mset (map f (slots xs)) + add_mset (f c) R) s1 s' \<and>
        (\<forall>j. j \<notin> set (slots xs) \<longrightarrow> get s' j = get s1 j) \<and> reref s1 s')"
      by (rule Cons.IH [OF postD [OF s1(2)]])
    then show ?thesis using Some s1 by (auto simp: runs_def intro: post_trans reref_trans)
  qed (use Cons in simp)
qed (simp add: post_refl)

lemma isname_simps [simp]: "isname (OChan c) = 0" "isname (OName n) = 1" "isname (OHead m) = 0" "isname OFree = 0"
  by (simp_all add: isname_def)

subsection \<open>Changing and allocating an object\<close>

lemma chinv_swap:
  assumes "chinv s T R P" "live s p" "tag ob (idx p) = Some p" "oref ob = oref (get s (idx p))"
    "outs (get s (idx p)) + R = outs ob + R'" "isname ob = isname (get s (idx p))" "obj_ok T (idx p) ob"
  shows "chinv (put (idx p) ob s) T R' P"
proof -
  have "outs (get s (idx p)) + (trefs T + R) = outs ob + (trefs T + R')"
    using arg_cong [OF assms(5), of "\<lambda>m. trefs T + m"] by (simp add: ac_simps)
  then show ?thesis
    using refs_swap [of s "trefs T + R" p ob "trefs T + R'"] assms
    by (simp add: chinv_def free_ok_put names_ok_same objs_ok_put)
qed

lemma swap_chan:
  assumes "chinv s T R []" "chan_at s p = Some c" "\<not> cfree c" "\<not> cfree c'" "c_ref c' = c_ref c"
    "outs (OChan c) + R = outs (OChan c') + R'"
  shows "post T R' s (put p (OChan c') s)"
proof -
  note g = chan_atD [OF assms(2)]
  have "live s (PC p)" using assms(2,3) by (simp add: live_chan)
  from chinv_swap [OF assms(1) this, of "OChan c'" R'] show ?thesis
    using assms g keeps_other [of s p] by (simp add: post_def)
qed

lemma swap_name:
  assumes "chinv s T R []" "name_at s p = Some n" "n_ref n' = n_ref n" "wf_name n'"
    "slot_refs (n_mtpt n) + R = slot_refs (n_mtpt n') + R'"
  shows "post T R' s (put p (OName n') s)"
proof -
  note g = name_atD [OF assms(2)]
  have "live s (PN p)" using assms(2) by (simp add: live_name)
  from chinv_swap [OF assms(1) this, of "OName n'" R'] show ?thesis
    using assms g keeps_other [of s p] by (simp add: post_def)
qed

lemma refs_new:
  assumes "refs s R" "i < length (s_heap s)" "outs (get s i) = {#}" "tag (get s i) i = None"
    "tag ob i = Some p" "oref ob = 1" "outs ob = {#}"
  shows "refs (put i ob s) (add_mset p R)"
proof -
  have ip: "idx p = i" using assms(5) by (rule tag_idx)
  have o: "owned (put i ob s) = owned s" using owned_put [OF assms(2), of ob] assms(3,7) by simp
  have nl: "\<not> live s q" if "idx q = i" for q using assms(4) that by (simp add: live_def)
  have n: "p \<notin># owned s + R" using nl [OF ip] assms(1) by (simp add: refs_def)
  have l: "live (put i ob s) q \<longleftrightarrow> q = p \<or> live s q" for q
    using live_put [OF assms(2), of ob q] assms(5) ip nl [of q] by (auto simp: tag_idx)
  show ?thesis unfolding refs_def o
  proof (intro conjI allI impI)
    fix q
    show "live (put i ob s) q \<longleftrightarrow> q \<in># owned s + add_mset p R" unfolding l using assms(1) by (auto simp: refs_def)
    assume "live (put i ob s) q"
    then consider "q = p" | "q \<noteq> p" "live s q" "idx q \<noteq> i" unfolding l using nl by blast
    then show "oref (get (put i ob s) (idx q)) = int (count (owned s + add_mset p R) q)"
    proof cases
      case 1
      have "count (owned s + R) p = 0" using n by (simp add: not_in_iff)
      then show ?thesis using 1 ip assms(2,6) by (simp add: get_put)
    next
      case 2
      then show ?thesis using assms(1) by (simp add: get_put refs_def)
    qed
  qed
qed

definition grow :: "store \<Rightarrow> store" where
  "grow s = s\<lparr>s_heap := s_heap s @ [OFree]\<rparr>"

lemma get_grow [simp]: "get (grow s) i = get s i"
  by (simp add: get_def grow_def nth_append)

lemma put_grow: "put (length (s_heap s)) ob (grow s) = s\<lparr>s_heap := s_heap s @ [ob]\<rparr>"
  by (simp add: put_def grow_def)

lemma refs_grow: "refs s R \<Longrightarrow> refs (grow s) R"
  by (simp add: refs_def live_def) (simp add: grow_def owned_def)

lemma get_beyond: "get s (length (s_heap s)) = OFree"
  by (simp add: get_def)

lemma post_fid: "post T R s (s'\<lparr>s_fid := d\<rparr>) = post T R s s'"
  by (simp add: post_def chinv_def refs_def live_def owned_def free_ok_def dead_chan_def objs_ok_def names_ok_def keeps_def)

text \<open>A fresh object at the end of the store.\<close>

lemma chinv_append:
  assumes "chinv s T R []" "tag ob (length (s_heap s)) = Some p" "oref ob = 1" "outs ob = {#}"
    "obj_ok T (length (s_heap s)) ob" "k = s_ncname s + int (isname ob)"
  shows "post T (add_mset p R) s (s\<lparr>s_heap := s_heap s @ [ob], s_ncname := k, s_fid := d\<rparr>)"
proof -
  let ?s = "s\<lparr>s_heap := s_heap s @ [ob]\<rparr>"
  have g: "get ?s j = (if j = length (s_heap s) then ob else get s j)" for j by (auto simp: get_def nth_append)
  have "refs ?s (add_mset p (trefs T + R))"
    using refs_new [OF refs_grow, of s "trefs T + R" "length (s_heap s)" ob p] assms
    by (simp add: put_grow get_beyond chinv_def) (simp add: grow_def)
  moreover have "free_ok ?s []"
    using assms(1) get_beyond [of s] by (auto simp: chinv_def free_ok_def dead_chan_def g)
  moreover have "objs_ok ?s T" using assms(1,5) by (simp add: chinv_def objs_ok_def g)
  moreover have "keeps T s ?s" using mhead_self by (auto simp: keeps_def g get_beyond)
  moreover have "names_ok (?s\<lparr>s_ncname := k\<rparr>)" using assms(1,6) by (simp add: chinv_def names_ok_def)
  ultimately have "post T (add_mset p R) s (?s\<lparr>s_ncname := k\<rparr>)"
    by (simp add: post_def chinv_def free_ok_def dead_chan_def keeps_def)
  then show ?thesis by (simp add: post_fid [of _ _ _ d "?s\<lparr>s_ncname := k\<rparr>", simplified])
qed

subsection \<open>Channels\<close>

lemma newchan_ok:
  assumes "chinv s T R []"
  shows "runs (newchan s) (\<lambda>(p, s'). post T (add_mset (PC p) R) s s' \<and> (\<forall>j. j \<noteq> p \<longrightarrow> get s' j = get s j) \<and>
    (\<forall>q. live s q \<longrightarrow> idx q \<noteq> p) \<and>
    (\<exists>c. chan_at s' p = Some c \<and> \<not> cfree c \<and> c_name c = None \<and> c_umh c = None \<and> c_umc c = None \<and> c_mchan c = None))"
proof (cases "s_free s")
  case Nil
  let ?c = "clear_chan (chan0\<lparr>c_fid := s_fid s + 1\<rparr>)" let ?p = "length (s_heap s)"
  let ?s = "s\<lparr>s_heap := s_heap s @ [OChan ?c], s_ncname := s_ncname s, s_fid := s_fid s + 1\<rparr>"
  have "post T (add_mset (PC ?p) R) s ?s"
    by (rule chinv_append [OF assms]) (simp_all add: cfree_def clear_chan_def chan0_def)
  moreover have "\<forall>q. live s q \<longrightarrow> idx q \<noteq> ?p" by (auto dest: live_valid)
  moreover have g: "get ?s j = (if j = ?p then OChan ?c else get s j)" for j by (auto simp: get_def nth_append)
  moreover have "newchan s = Some (?p, ?s)" using Nil by (simp add: newchan_def)
  moreover have "chan_at ?s ?p = Some ?c" unfolding chan_at_def g by simp
  moreover have "\<not> cfree ?c \<and> c_name ?c = None \<and> c_umh ?c = None \<and> c_umc ?c = None \<and> c_mchan ?c = None"
    by (simp add: cfree_def clear_chan_def chan0_def)
  ultimately show ?thesis by (simp only: runs_simps split) auto
next
  case (Cons p ps)
  have "dead_chan s p" using assms Cons by (simp add: chinv_def free_ok_def)
  then obtain c where c: "get s p = OChan c" "cfree c" "c_umc c = None" by (auto simp: dead_chan_def)
  let ?c = "clear_chan c" let ?t = "s\<lparr>s_free := ps\<rparr>" let ?s = "put p (OChan ?c) ?t"
  have p: "p < length (s_heap s)" using c get_valid [of s p] by simp
  have nl: "\<forall>q. live s q \<longrightarrow> idx q \<noteq> p" using \<open>dead_chan s p\<close> dead_not_live by blast
  have "refs ?s (add_mset (PC p) (trefs T + R))"
    using assms c p by (intro refs_new) (simp_all add: chinv_def cfree_def clear_chan_def)
  moreover have "free_ok ?s []" 
  proof -
    have "free_ok ?t []" "p \<notin> set ps" using assms Cons by (auto simp: chinv_def free_ok_def dead_chan_def)
    then show ?thesis using p by (auto simp: free_ok_def dead_chan_put)
  qed
  moreover have "names_ok ?s"
    using names_ok_put [of s p "OChan ?c"] assms p c by (simp add: chinv_def names_ok_def put_others)
  moreover have "objs_ok ?s T" using assms by (simp add: chinv_def objs_ok_put)
  moreover have "keeps T s ?s" using keeps_other [of ?t p c _ T "OChan ?c"] c(1) by (simp add: keeps_def)
  ultimately have "post T (add_mset (PC p) R) s ?s" by (simp add: post_def chinv_def)
  then show ?thesis using Cons c p nl
    by (simp add: newchan_def chan_at_def get_put) (simp add: cfree_def clear_chan_def)
qed

subsection \<open>Names\<close>

lemma shrinks_live: "shrinks s s' \<Longrightarrow> live s' p \<Longrightarrow> \<exists>x. get s' (idx p) = set_ref x (get s (idx p))"
  unfolding shrinks_def live_def by (metis (no_types) option.distinct(1))

lemma shrinks_name:
  assumes "shrinks s s'" "live s' (PN n)" "name_at s n = Some nm"
  shows "\<exists>x. name_at s' n = Some (nm\<lparr>n_ref := x\<rparr>)"
  using shrinks_live [OF assms(1,2)] name_atD [OF assms(3)] by (auto simp: name_at_def)

lemma in_sum_list: "x \<in> set xs \<Longrightarrow> p \<in># f x \<Longrightarrow> p \<in># sum_list (map f xs)"
  by (induction xs) auto

lemma outs_owned: "p \<in># outs (get s i) \<Longrightarrow> p \<in># owned s"
proof -
  assume p: "p \<in># outs (get s i)"
  then have i: "i < length (s_heap s)" by (auto simp: get_def split: if_splits)
  then have "get s i \<in> set (s_heap s)" by (simp add: get_def)
  then show ?thesis using p in_sum_list [of "get s i"] by (simp add: owned_def)
qed

lemma live_out: "chinv s T R P \<Longrightarrow> p \<in># outs (get s i) \<Longrightarrow> live s p"
  using outs_owned [of p s i] chinv_live [of s T R P p] by simp

lemma live_slot:
  assumes "chinv s T R P" "name_at s n = Some nm" "c \<in> set (slots (n_mtpt nm))"
  shows "live s (PC c)" "c \<noteq> n"
proof -
  show l: "live s (PC c)"
    using live_out [OF assms(1), of "PC c" n] name_atD [OF assms(2)] assms(3) by (simp add: slot_refs_def)
  have "live s (PN n)" using assms(2) by (simp add: live_name)
  then show "c \<noteq> n" using live_unique [OF l, of "PN n"] by auto
qed

lemma wf_nameD: "chinv s T R P \<Longrightarrow> name_at s n = Some nm \<Longrightarrow> wf_name nm"
  using name_atD [of s n nm] by (auto simp: chinv_def objs_ok_def dest: spec [of _ n])

lemma wf_mtptgrow: "wf_name n \<Longrightarrow> length xs \<le> k \<Longrightarrow> wf_name ((mtptgrow n k)\<lparr>n_mtpt := xs\<rparr>)"
  by (auto simp: wf_name_def mtptgrow_def)

lemma mtptgrow_simps [simp]: "n_ref (mtptgrow n k) = n_ref n" "n_s (mtptgrow n k) = n_s n" "n_len (mtptgrow n k) = n_len n"
  "n_mtpt (mtptgrow n k) = n_mtpt n"
  by (simp_all add: mtptgrow_def)

lemma newcname_ok:
  assumes "chinv s T R []" "nul_free str" "newcname str s = (p, s')"
  shows "post T (add_mset (PN p) R) s s'" "\<And>j. j \<noteq> p \<Longrightarrow> get s' j = get s j" "\<And>q. live s q \<Longrightarrow> idx q \<noteq> p"
    "\<exists>a. name_at s' p = Some \<lparr>n_ref = 1, n_s = str @ 0 # a, n_len = length str, n_mtpt = [], n_malen = 0\<rparr>"
proof -
  let ?n = "\<lparr>n_ref = 1, n_s = str @ replicate CNAMESLOP 0, n_len = length str, n_mtpt = [], n_malen = 0\<rparr>"
  have s': "p = length (s_heap s)" "s' = s\<lparr>s_heap := s_heap s @ [OName ?n], s_ncname := s_ncname s + 1, s_fid := s_fid s\<rparr>"
    using assms(3) by (auto simp: newcname_def)
  show "post T (add_mset (PN p) R) s s'"
    unfolding s' by (rule chinv_append [OF assms(1)]) (simp_all add: wf_name_def wf_str_new [OF assms(2)])
  have g: "get s' j = (if j = p then OName ?n else get s j)" for j unfolding s' by (auto simp: get_def nth_append)
  show "get s' j = get s j" if "j \<noteq> p" for j using that g by simp
  show "idx q \<noteq> p" if "live s q" for q using live_valid [OF that] s' by simp
  have "str @ replicate CNAMESLOP 0 = str @ 0 # replicate 19 0" by (simp add: numeral_eq_Suc)
  then show "\<exists>a. name_at s' p = Some \<lparr>n_ref = 1, n_s = str @ 0 # a, n_len = length str, n_mtpt = [], n_malen = 0\<rparr>"
    unfolding name_at_def g by (intro exI [of _ "replicate 19 0"]) simp
qed

lemma name_at_get: "get s' n = get s n \<Longrightarrow> name_at s' n = name_at s n"
  by (simp add: name_at_def)

lemma name_at_put: "name_at (put p ob s) p = (if p < length (s_heap s) then case ob of OName n \<Rightarrow> Some n | _ \<Rightarrow> None else name_at s p)"
  by (simp add: name_at_def get_put split: obj.split)

lemma name_valid: "name_at s n = Some nm \<Longrightarrow> n < length (s_heap s)"
  using get_valid [of s n] by (auto dest: name_atD)

text \<open>A name takes over a stack, its slots counted.\<close>

lemma restack:
  assumes "chinv s T R []" "name_at s n = Some nm" "wf_name nm'" "n_ref nm' = n_ref nm"
    "slot_refs (n_mtpt nm') = slot_refs (n_mtpt nm) + mset (map PC (slots xs))" "\<And>c. c \<in> set (slots xs) \<Longrightarrow> live s (PC c)"
  shows "runs (incref_slots xs (put n (OName nm') s)) (\<lambda>s'. post T R s s' \<and> name_at s' n = Some nm' \<and>
    (\<forall>j. j \<noteq> n \<longrightarrow> j \<notin> set (slots xs) \<longrightarrow> get s' j = get s j))"
proof -
  have "live s (PN n)" using assms(2) by (simp add: live_name)
  then have n: "n \<notin> set (slots xs)" using assms(6) live_unique by fastforce
  obtain s1 where s1: "incref_slots xs s = Some s1" "post T (mset (map PC (slots xs)) + R) s s1"
    "\<forall>j. j \<notin> set (slots xs) \<longrightarrow> get s1 j = get s j"
    using incref_slots_runs [OF assms(1), of xs PC] assms(6) by (auto simp: runs_def)
  have a: "name_at s1 n = Some nm" using s1(3) n assms(2) by (simp add: name_at_def)
  have "post T R s1 (put n (OName nm') s1)"
    using assms(3-5) by (intro swap_name [OF postD [OF s1(2)] a]) (simp_all add: ac_simps)
  then show ?thesis
    using s1 name_valid [OF a] by (auto simp: incref_slots_put [OF n] name_at_put get_put intro: post_trans)
qed

lemma mtptcopy_ok:
  assumes "chinv s T R []" "name_at s dst = Some d" "name_at s src = Some n" "n_mtpt d = []" "n_malen d = 0"
  shows "runs (mtptcopy dst src s) (\<lambda>s'. post T R s s' \<and>
    (\<exists>k. name_at s' dst = Some (d\<lparr>n_mtpt := n_mtpt n, n_malen := k\<rparr>)) \<and> (src \<noteq> dst \<longrightarrow> name_at s' src = Some n))"
proof (cases "n_mtpt n = []")
  case True
  then have "d = d\<lparr>n_mtpt := n_mtpt n, n_malen := 0\<rparr>" using assms(4,5) by simp
  then have "\<exists>k. d = d\<lparr>n_mtpt := n_mtpt n, n_malen := k\<rparr>" ..
  then show ?thesis using True assms(1-3) by (simp add: mtptcopy_def post_refl)
next
  case False
  let ?d = "(mtptgrow d (length (n_mtpt n)))\<lparr>n_mtpt := n_mtpt n\<rparr>"
  have "runs (incref_slots (n_mtpt n) (put dst (OName ?d) s)) (\<lambda>s'. post T R s s' \<and> name_at s' dst = Some ?d \<and>
      (\<forall>j. j \<noteq> dst \<longrightarrow> j \<notin> set (slots (n_mtpt n)) \<longrightarrow> get s' j = get s j))"
    using wf_nameD [OF assms(1,2)] live_slot(1) [OF assms(1,3)]
    by (intro restack [OF assms(1,2)]) (simp_all add: wf_mtptgrow slot_refs_def assms(4))
  moreover have "?d = d\<lparr>n_mtpt := n_mtpt n, n_malen := length (n_mtpt n) + MTPTSLOP\<rparr>" using assms(5) False by (simp add: mtptgrow_def)
  then have "\<exists>k. ?d = d\<lparr>n_mtpt := n_mtpt n, n_malen := k\<rparr>" ..
  moreover have "src \<notin> set (slots (n_mtpt n))" using live_slot(2) [OF assms(1,3)] by blast
  ultimately show ?thesis
    using False assms by (auto simp: mtptcopy_def Let_def name_at_def elim!: runs_mono)
qed

lemma cnamepush_ok:
  assumes "chinv s T R []" "name_at s n = Some nm" "\<And>c. mp = Some c \<Longrightarrow> live s (PC c)"
  shows "runs (cnamepush n mp s) (\<lambda>s'. post T R s s' \<and>
    (\<exists>k. name_at s' n = Some (nm\<lparr>n_mtpt := n_mtpt nm @ [mp], n_malen := k\<rparr>)) \<and>
    (\<forall>j. j \<noteq> n \<longrightarrow> Some j \<noteq> mp \<longrightarrow> get s' j = get s j))"
proof -
  let ?d = "(mtptgrow nm (length (n_mtpt nm) + 1))\<lparr>n_mtpt := n_mtpt nm @ [mp]\<rparr>"
  have "runs (incref_slots [mp] (put n (OName ?d) s)) (\<lambda>s'. post T R s s' \<and> name_at s' n = Some ?d \<and>
      (\<forall>j. j \<noteq> n \<longrightarrow> j \<notin> set (slots [mp]) \<longrightarrow> get s' j = get s j))"
    using assms(3) wf_nameD [OF assms(1,2)] by (intro restack [OF assms(1,2)]; cases mp) (simp_all add: wf_mtptgrow slot_refs_def)
  moreover have "?d = nm\<lparr>n_mtpt := n_mtpt nm @ [mp], n_malen := n_malen ?d\<rparr>" by (simp add: mtptgrow_def)
  then have "\<exists>k. ?d = nm\<lparr>n_mtpt := n_mtpt nm @ [mp], n_malen := k\<rparr>" ..
  ultimately show ?thesis
    unfolding cnamepush_def using assms(2) by (cases mp) (auto simp: Let_def simp del: incref_slots.simps elim!: runs_mono)
qed

text \<open>The copy of a shared name has the string and the stack of the name.\<close>

lemma chinv_ref:
  assumes "chinv s T R P" "live s p"
  shows "oref (get s (idx p)) = int (count (owned s + (trefs T + R)) p)"
  using assms by (simp add: chinv_def refs_def)

lemma uncow_ok:
  assumes "chinv s T (add_mset (PN n) R) []" "name_at s n = Some nm"
  shows "runs (uncow n s) (\<lambda>(n', s'). post T (add_mset (PN n') R) s s' \<and>
    (\<exists>nm'. name_at s' n' = Some nm' \<and> n_mtpt nm' = n_mtpt nm \<and> cstr (n_s nm') = cstr (n_s nm)))"
proof (cases "n_ref nm > 1")
  case False
  have "live s (PN n)" using assms(2) by (simp add: live_name)
  from chinv_ref [OF assms(1) this] have "n_ref nm = 1" using False name_atD [OF assms(2)] by simp
  then show ?thesis using False assms by (simp add: uncow_def post_refl)
next
  case True
  obtain p s1 where new: "newcname (cstr (n_s nm)) s = (p, s1)" by (cases "newcname (cstr (n_s nm)) s")
  note s1 = newcname_ok [OF assms(1) nul_free_cstr new]
  have ln: "live s (PN n)" using assms(2) by (simp add: live_name)
  have np: "n \<noteq> p" using s1(3) [OF ln] by simp
  obtain a where a: "name_at s1 p = Some \<lparr>n_ref = 1, n_s = cstr (n_s nm) @ 0 # a, n_len = length (cstr (n_s nm)),
      n_mtpt = [], n_malen = 0\<rparr>" using s1(4) by blast
  have b: "name_at s1 n = Some nm" using s1(2) [OF np] assms(2) by (simp add: name_at_def)
  obtain s2 k where s2: "mtptcopy p n s1 = Some s2" "post T (add_mset (PN p) (add_mset (PN n) R)) s1 s2"
    "name_at s2 p = Some \<lparr>n_ref = 1, n_s = cstr (n_s nm) @ 0 # a, n_len = length (cstr (n_s nm)), n_mtpt = n_mtpt nm, n_malen = k\<rparr>"
    using mtptcopy_ok [OF postD [OF s1(1)] a b] by (auto simp: runs_def)
  have "chinv s2 T (optr PN (Some n) + add_mset (PN p) R) []"
    using postD [OF s2(2)] by (simp add: add_mset_commute)
  from cnameclose_ok [OF this] obtain s3 where s3: "cnameclose (Some n) s2 = Some s3"
    "post T (add_mset (PN p) R) s2 s3" "shrinks s2 s3" by (auto simp: runs_def)
  have l3: "live s3 (PN p)" using s3(2) by (rule post_live) simp
  obtain x where x: "name_at s3 p = Some \<lparr>n_ref = x, n_s = cstr (n_s nm) @ 0 # a, n_len = length (cstr (n_s nm)),
      n_mtpt = n_mtpt nm, n_malen = k\<rparr>"
    using shrinks_name [OF s3(3) l3 s2(3)] by auto
  have "cstr (cstr (n_s nm) @ 0 # a) = cstr (n_s nm)" by (simp add: cstr_nul)
  then show ?thesis
    using True assms(2) s1(1) s2 s3 x by (auto simp: uncow_def new post_def intro: keeps_trans)
qed

lemma uncow_elim:
  assumes "chinv s T (add_mset (PN n) R) []" "name_at s n = Some nm"
  obtains n' s' nm' where "uncow n s = Some (n', s')" "post T (add_mset (PN n') R) s s'" "name_at s' n' = Some nm'"
    "n_mtpt nm' = n_mtpt nm" "cstr (n_s nm') = cstr (n_s nm)"
  using uncow_ok [OF assms] by (auto simp: runs_def)

lemma slot_refs_update:
  assumes "i < length xs"
  shows "slot_refs (xs[i := x]) + optr PC (xs ! i) = slot_refs xs + optr PC x"
proof -
  have "slot_refs ys = sum_list (map (optr PC) ys)" for ys by (induction ys) (simp_all add: slot_refs_Cons)
  then show ?thesis using sum_list_update_add [OF assms, of "optr PC" x] by simp
qed

lemma slot_refs_last:
  assumes "xs \<noteq> []"
  shows "slot_refs (butlast xs) + optr PC (last xs) = slot_refs xs"
  using assms by (cases xs rule: rev_cases) (simp_all add: slot_refs_Cons)

text \<open>Take a reference, then write to another object, in the order of the code: write first.\<close>

lemma put_incref:
  assumes "chinv s T R []" "live s p" "idx p \<noteq> j"
  shows "\<exists>x. incref (idx p) (put j ob s) = Some (put j ob (put (idx p) (set_ref x (get s (idx p))) s)) \<and>
    post T (add_mset p R) s (put (idx p) (set_ref x (get s (idx p))) s)"
  using incref_spec [OF assms(1,2)] assms(3) by (auto simp: incref_put)

lemma incref_single: "incref_slots [Some c] s = incref c s"
  by (cases "incref c s") simp_all

lemma cnamecross_ok:
  assumes "chinv s T (add_mset (PN n) R) []" "name_at s n = Some nm" "\<And>c. mp = Some c \<Longrightarrow> PC c \<in># trefs T"
  shows "runs (cnamecross n mp s) (\<lambda>(n', s'). post T (add_mset (PN n') R) s s' \<and>
    (\<exists>nm'. name_at s' n' = Some nm' \<and> cstr (n_s nm') = cstr (n_s nm) \<and>
      n_mtpt nm' = (if mp = None \<or> n_mtpt nm = [] then n_mtpt nm else (n_mtpt nm)[length (n_mtpt nm) - 1 := mp])))"
proof (cases "mp = None \<or> n_mtpt nm = []")
  case True
  then show ?thesis using assms by (auto simp: cnamecross_def post_refl split: option.split)
next
  case False
  then obtain c where c: "mp = Some c" by auto
  obtain n1 s1 n' where u: "uncow n s = Some (n1, s1)" "post T (add_mset (PN n1) R) s s1" "name_at s1 n1 = Some n'"
    "n_mtpt n' = n_mtpt nm" "cstr (n_s n') = cstr (n_s nm)" using uncow_elim [OF assms(1,2)] .
  let ?i = "length (n_mtpt nm) - 1"
  let ?n = "n'\<lparr>n_mtpt := (n_mtpt n')[?i := None]\<rparr>"
  have i: "?i < length (n_mtpt n')" using False u(4) by simp
  note wn = wf_nameD [OF postD [OF u(2)] u(3)]
  have a: "post T (optr PC (n_mtpt n' ! ?i) + add_mset (PN n1) R) s1 (put n1 (OName ?n) s1)"
    using wn slot_refs_update [OF i, of None]
    by (intro swap_name [OF postD [OF u(2)] u(3)]) (simp_all add: wf_name_def ac_simps)
  have b: "name_at (put n1 (OName ?n) s1) n1 = Some ?n" using name_valid [OF u(3)] by (simp add: name_at_put)
  obtain s2 where s2: "cclose (n_mtpt n' ! ?i) (put n1 (OName ?n) s1) = Some s2"
    "post T (add_mset (PN n1) R) (put n1 (OName ?n) s1) s2" "shrinks (put n1 (OName ?n) s1) s2"
    using cclose_ok [OF postD [OF a]] by (auto simp: runs_def)
  have l2: "live s2 (PN n1)" using s2(2) by (rule post_live) simp
  obtain x where x: "name_at s2 n1 = Some (?n\<lparr>n_ref := x\<rparr>)" using shrinks_name [OF s2(3) l2 b] by blast
  let ?m = "?n\<lparr>n_ref := x, n_mtpt := (n_mtpt n')[?i := Some c]\<rparr>"
  have "live s2 (PC c)" using postD [OF s2(2)] assms(3) [OF c] by (simp add: chinv_def refs_def)
  then have "runs (incref_slots [Some c] (put n1 (OName ?m) s2)) (\<lambda>s'. post T (add_mset (PN n1) R) s2 s' \<and>
      name_at s' n1 = Some ?m \<and> (\<forall>j. j \<noteq> n1 \<longrightarrow> j \<notin> set (slots [Some c]) \<longrightarrow> get s' j = get s2 j))"
    using wn slot_refs_update [of ?i "(n_mtpt n')[?i := None]" "Some c"] i
    by (intro restack [OF postD [OF s2(2)] x]) (simp_all add: wf_name_def)
  then obtain s3 where s3: "incref c (put n1 (OName ?m) s2) = Some s3" "post T (add_mset (PN n1) R) s2 s3"
    "name_at s3 n1 = Some ?m" unfolding incref_single by (auto simp: runs_def)
  have "post T (add_mset (PN n1) R) s s3" using u(2) a s2(2) s3(2) by (auto simp: post_def intro: keeps_trans)
  then show ?thesis
    using False c assms(2) u s2(1) s3(1,3) x by (simp add: cnamecross_def Let_def)
qed

lemma isdotdot_iff: "nul_free e \<Longrightarrow> isdotdot e \<longleftrightarrow> e = [DOT, DOT]"
  by (cases e; cases "tl e"; cases "tl (tl e)"; auto simp: isdotdot_def at_def nul_free_def)

text \<open>The string an element makes of a name's.\<close>

definition elem_name :: "u8 list \<Rightarrow> u8 list \<Rightarrow> u8 list" where
  "elem_name t e =
     (if e = [DOT] then t else if e = [DOT, DOT] then clean_cname (join_elem t e) else join_elem t e)"

definition elem_stack :: "nat option list \<Rightarrow> u8 list \<Rightarrow> nat option list" where
  "elem_stack ms e = (if e = [DOT, DOT] \<and> length ms > 1 then butlast ms else ms)"

lemma addelem_ok:
  assumes "chinv s T (add_mset (PN n) R) []" "name_at s n = Some nm" "nul_free e"
  shows "runs (addelem n e s) (\<lambda>(n', s'). post T (add_mset (PN n') R) s s' \<and>
    (\<exists>nm'. name_at s' n' = Some nm' \<and> cstr (n_s nm') = elem_name (cstr (n_s nm)) e \<and>
      n_mtpt nm' = elem_stack (n_mtpt nm) e))"
proof (cases "e = [DOT]")
  case True
  then show ?thesis using assms by (auto simp: addelem_def elem_name_def elem_stack_def post_refl)
next
  case False
  obtain n1 s1 n' where u: "uncow n s = Some (n1, s1)" "post T (add_mset (PN n1) R) s s1" "name_at s1 n1 = Some n'"
    "n_mtpt n' = n_mtpt nm" "cstr (n_s n') = cstr (n_s nm)" using uncow_elim [OF assms(1,2)] .
  note wn = wf_nameD [OF postD [OF u(2)] u(3)]
  let ?j = "join_elem (cstr (n_s nm)) e"
  obtain t where t: "addstr (n_s n') (n_len n') e = (t, length ?j)" "cstr t = ?j" "wf_str t (length ?j)"
    using addstr_ok [OF _ assms(3), of "n_s n'" "n_len n'"] wn u(5) by (auto simp: wf_name_def)
  have step: "post T (optr PC x + add_mset (PN n1) R) s1 (put n1 (OName (n'\<lparr>n_s := v, n_len := k, n_mtpt := ms\<rparr>)) s1)"
    if "wf_str v k" "slot_refs ms + optr PC x = slot_refs (n_mtpt n')" "length ms \<le> length (n_mtpt n')" for v k ms x
    using that wn by (intro swap_name [OF postD [OF u(2)] u(3)]) (simp_all add: wf_name_def)
  note nv = name_valid [OF u(3)]
  note dd = isdotdot_iff [OF assms(3)]
  have same: "n'\<lparr>n_s := v, n_len := k, n_mtpt := n_mtpt n'\<rparr> = n'\<lparr>n_s := v, n_len := k\<rparr>" for v k by simp
  show ?thesis
  proof (cases "e = [DOT, DOT]")
    case False
    have "post T (add_mset (PN n1) R) s1 (put n1 (OName (n'\<lparr>n_s := t, n_len := length ?j\<rparr>)) s1)"
      using step [of t "length ?j" "n_mtpt n'" None] t(3) unfolding same by simp
    then show ?thesis
      using \<open>e \<noteq> [DOT]\<close> False t u nv dd
      by (auto simp: addelem_def elem_name_def elem_stack_def name_at_put intro: post_trans)
  next
    case True
    let ?k = "clean_cname ?j"
    have "0 < length ?j" by (simp add: join_elem_def True)
    then obtain v where v: "cleancname t (length ?j) = Some (v, length ?k)" "cstr v = ?k" "wf_str v (length ?k)"
      using cleancname_ok [OF t(3)] t(2) by auto
    show ?thesis
    proof (cases "length (n_mtpt n') > 1")
      case one: False
      have "post T (add_mset (PN n1) R) s1 (put n1 (OName (n'\<lparr>n_s := v, n_len := length ?k\<rparr>)) s1)"
        using step [of v "length ?k" "n_mtpt n'" None] v(3) unfolding same by simp
      then show ?thesis
        using True one t v u nv dd
        by (auto simp: addelem_def elem_name_def elem_stack_def name_at_put intro: post_trans)
    next
      case two: True
      let ?n = "n'\<lparr>n_s := v, n_len := length ?k, n_mtpt := butlast (n_mtpt n')\<rparr>"
      have p: "post T (optr PC (last (n_mtpt n')) + add_mset (PN n1) R) s1 (put n1 (OName ?n) s1)"
        using v(3) by (intro step slot_refs_last) (use two in auto)
      obtain s2 where s2: "cclose (last (n_mtpt n')) (put n1 (OName ?n) s1) = Some s2"
        "post T (add_mset (PN n1) R) (put n1 (OName ?n) s1) s2" "shrinks (put n1 (OName ?n) s1) s2"
        using cclose_ok [OF postD [OF p]] by (auto simp: runs_def)
      have "live s2 (PN n1)" using s2(2) by (rule post_live) simp
      then obtain x where "name_at s2 n1 = Some (?n\<lparr>n_ref := x\<rparr>)"
        using shrinks_name [OF s2(3), of n1 ?n] nv by (auto simp: name_at_put)
      moreover have "post T (add_mset (PN n1) R) s s2" using u(2) p s2(2) by (blast intro: post_trans)
      ultimately show ?thesis
        using True two t v u s2(1) dd by (auto simp: addelem_def elem_name_def elem_stack_def)
    qed
  qed
qed

lemma undomount_ok:
  assumes "chinv s T (add_mset (PC c) R) []" "PN n \<in># R" "name_at s n = Some nm"
  shows "runs (undomount c n s) (\<lambda>(c', s'). post T (add_mset (PC c') R) s s' \<and>
    (\<exists>nm'. name_at s' n = Some nm' \<and> cstr (n_s nm') = cstr (n_s nm) \<and> n_mtpt nm' = (if length (n_mtpt nm) > 1 then
        (n_mtpt nm)[length (n_mtpt nm) - 1 := None] else n_mtpt nm)) \<and>
    c' = (case n_mtpt nm of [] \<Rightarrow> c | _ \<Rightarrow> case last (n_mtpt nm) of None \<Rightarrow> c | Some nc \<Rightarrow> nc))"
proof -
  consider "n_mtpt nm = []" | x where "n_mtpt nm = [x]" | "length (n_mtpt nm) > 1"
    by (cases "n_mtpt nm"; cases "tl (n_mtpt nm)") auto
  then show ?thesis
  proof cases
    case 1
    then show ?thesis using assms by (simp add: undomount_def post_refl)
  next
    case 2
    show ?thesis
    proof (cases "x = None \<or> x = Some c")
      case True
      then show ?thesis using assms 2 by (auto simp: undomount_def post_refl)
    next
      case False
      then obtain d where d: "x = Some d" "d \<noteq> c" by auto
      have "live s (PC d)" using live_slot(1) [OF assms(1,3)] 2 d by simp
      from incref_runs [OF assms(1) this, of d] obtain s1 where s1: "incref d s = Some s1"
        "post T (add_mset (PC d) (add_mset (PC c) R)) s s1" "\<forall>j. j \<noteq> d \<longrightarrow> get s1 j = get s j"
        by (auto simp: runs_def)
      have "n \<noteq> d" using live_slot(2) [OF assms(1,3)] 2 d by simp
      then have n1: "name_at s1 n = Some nm" using s1(3) assms(3) by (simp add: name_at_def)
      have "chinv s1 T (optr PC (Some c) + add_mset (PC d) R) []" using postD [OF s1(2)] by (simp add: add_mset_commute)
      from cclose_ok [OF this] obtain s2 where s2: "cclose (Some c) s1 = Some s2" "post T (add_mset (PC d) R) s1 s2"
        "shrinks s1 s2" by (auto simp: runs_def)
      have "live s2 (PN n)" using s2(2) by (rule post_live) (simp add: assms(2))
      from shrinks_name [OF s2(3) this n1] show ?thesis
        using 2 d assms(3) s1 s2 by (auto simp: undomount_def intro: post_trans)
    qed
  next
    case 3
    let ?i = "length (n_mtpt nm) - 1"
    let ?n = "nm\<lparr>n_mtpt := (n_mtpt nm)[?i := None]\<rparr>"
    have i: "?i < length (n_mtpt nm)" using 3 by simp
    have l: "last (n_mtpt nm) = n_mtpt nm ! ?i" using 3 by (subst last_conv_nth) auto
    note nv = name_valid [OF assms(3)]
    have p: "post T (optr PC (n_mtpt nm ! ?i) + add_mset (PC c) R) s (put n (OName ?n) s)"
      using wf_nameD [OF assms(1,3)] slot_refs_update [OF i, of None]
      by (intro swap_name [OF assms(1,3)]) (simp_all add: wf_name_def)
    show ?thesis
    proof (cases "n_mtpt nm ! ?i")
      case None
      then show ?thesis using 3 p assms(3) nv l by (auto simp: undomount_def Let_def name_at_put split: list.split)
    next
      case (Some d)
      have "chinv (put n (OName ?n) s) T (optr PC (Some c) + add_mset (PC d) R) []"
        using postD [OF p] Some by (simp add: add_mset_commute)
      from cclose_ok [OF this] obtain s2 where s2: "cclose (Some c) (put n (OName ?n) s) = Some s2"
        "post T (add_mset (PC d) R) (put n (OName ?n) s) s2" "shrinks (put n (OName ?n) s) s2" by (auto simp: runs_def)
      have "live s2 (PN n)" using s2(2) by (rule post_live) (simp add: assms(2))
      from shrinks_name [OF s2(3) this, of ?n] obtain x where "name_at s2 n = Some (?n\<lparr>n_ref := x\<rparr>)"
        using nv by (auto simp: name_at_put)
      moreover have "post T (add_mset (PC d) R) s s2" using p s2(2) by (rule post_trans)
      ultimately show ?thesis
        using 3 Some assms(3) l s2(1) by (auto simp: undomount_def Let_def split: list.split)
    qed
  qed
qed

end
