(* ===== verification/Mount.thy ===== *)
theory Mount
  imports ChanOps
begin

text \<open>
  The mount table: \<open>cmount\<close>, \<open>cunmount\<close>, \<open>findmount\<close>, \<open>domount\<close> and their helpers in
  \<open>emu/port/chan.c\<close> and \<open>emu/port/pgrp.c\<close>.  A mount list is the list of its mounts; a hash chain the list
  of its heads.  An operation that may raise returns a sum, and the store as the error leaves it.
\<close>

record pgrp =
  g_ref :: int
  g_id :: int
  g_mnthash :: "nat list list"
  g_progmode :: int
  g_dot :: "nat option"
  g_slash :: "nat option"
  g_nodevs :: bool

datatype nserr = Emount | Eunmount | Eunion | Eperm | Enocreate | Enotdir | Eclone

definition eqqid :: "qid \<Rightarrow> qid \<Rightarrow> bool" where
  "eqqid a b \<longleftrightarrow> q_path a = q_path b \<and> q_vers a = q_vers b"

definition eqchan :: "chan \<Rightarrow> chan \<Rightarrow> bool \<Rightarrow> bool" where
  "eqchan a b pathonly =
     (if q_path (c_qid a) \<noteq> q_path (c_qid b) then False
      else if \<not> pathonly \<and> q_vers (c_qid a) \<noteq> q_vers (c_qid b) then False
      else if c_type a \<noteq> c_type b then False
      else if c_dev a \<noteq> c_dev b then False
      else True)"

text \<open>The device number goes through an \<open>int\<close> here: it is cut to 32 bits and extended with its sign.\<close>

definition eqchantdqid :: "chan \<Rightarrow> u16 \<Rightarrow> u64 \<Rightarrow> qid \<Rightarrow> bool \<Rightarrow> bool" where
  "eqchantdqid a type dev qid pathonly =
     (if q_path (c_qid a) \<noteq> q_path qid then False
      else if \<not> pathonly \<and> q_vers (c_qid a) \<noteq> q_vers qid then False
      else if c_type a \<noteq> type then False
      else if c_dev a \<noteq> signed_take_bit 31 dev then False
      else True)"

definition MOUNTH :: "qid \<Rightarrow> nat" where
  "MOUNTH qid = unat (q_path qid AND 31)"

definition newmhead :: "nat \<Rightarrow> store \<Rightarrow> (nat \<times> store) option" where
  "newmhead from s = do {
     let mh = length (s_heap s);
     let s = s\<lparr>s_heap := s_heap s @ [OHead \<lparr>h_ref = 1, h_from = Some from, h_mount = []\<rparr>]\<rparr>;
     s \<leftarrow> incref from s;
     Some (mh, s)
   }"

definition newmount :: "nat \<Rightarrow> u32 \<Rightarrow> cstring \<Rightarrow> store \<Rightarrow> (mount \<times> store) option" where
  "newmount to flag spec s = do {
     s \<leftarrow> incref to s;
     let s = s\<lparr>s_mountid := s_mountid s + 1\<rparr>;
     Some (\<lparr>m_id = s_mountid s, m_to = to, m_flag = flag, m_spec = spec\<rparr>, s)
   }"

definition mountfree :: "mount list \<Rightarrow> store \<Rightarrow> store option" where
  "mountfree ms = release (map (\<lambda>m. CClose (m_to m)) ms)"

text \<open>The head whose channel satisfies \<open>P\<close> in a hash chain.\<close>

fun find_head :: "(chan \<Rightarrow> bool) \<Rightarrow> nat list \<Rightarrow> store \<Rightarrow> nat option option" where
  "find_head P [] s = Some None"
| "find_head P (m # ms) s = do {
     mh \<leftarrow> head_at s m;
     case h_from mh of
       None \<Rightarrow> find_head P ms s
     | Some from \<Rightarrow> do {
         f \<leftarrow> chan_at s from;
         if P f then Some (Some m) else find_head P ms s
       }
   }"

fun copy_union :: "mount list \<Rightarrow> u32 \<Rightarrow> store \<Rightarrow> (mount list \<times> store) option" where
  "copy_union [] flg s = Some ([], s)"
| "copy_union (um # ums) flg s = do {
     (f, s) \<leftarrow> newmount (m_to um) (flg OR (m_flag um AND MREADONLY)) (m_spec um) s;
     (fs, s) \<leftarrow> copy_union ums flg s;
     Some (f # fs, s)
   }"

definition set_mounts :: "nat \<Rightarrow> mount list \<Rightarrow> store \<Rightarrow> store option" where
  "set_mounts m ms s = do { mh \<leftarrow> head_at s m; Some (put m (OHead (mh\<lparr>h_mount := ms\<rparr>)) s) }"

definition mounts_of :: "nat option \<Rightarrow> store \<Rightarrow> mount list option" where
  "mounts_of mh s = (case mh of None \<Rightarrow> Some [] | Some m \<Rightarrow> map_option h_mount (head_at s m))"

text \<open>Find or make the head for \<open>old\<close>; a new union starts with the old directory itself.\<close>

definition mount_head :: "nat \<Rightarrow> u32 \<Rightarrow> pgrp \<Rightarrow> store \<Rightarrow> (nat \<times> pgrp \<times> store) option" where
  "mount_head old order pg s = do {
     od \<leftarrow> chan_at s old;
     let h = MOUNTH (c_qid od);
     let chain = g_mnthash pg ! h;
     r \<leftarrow> find_head (\<lambda>f. eqchan f od True) chain s;
     case r of
       Some m \<Rightarrow> Some (m, pg, s)
     | None \<Rightarrow> do {
         (m, s) \<leftarrow> newmhead old s;
         let pg = pg\<lparr>g_mnthash := (g_mnthash pg)[h := chain @ [m]]\<rparr>;
         if order \<noteq> MREPL then do {
           (nm, s) \<leftarrow> newmount old 0 None s;
           s \<leftarrow> set_mounts m [nm] s;
           Some (m, pg, s)
         } else Some (m, pg, s)
       }
   }"

text \<open>The end of \<open>cmount\<close>: what is replaced goes, and the new mount with its copies is linked in.\<close>

definition link_mounts :: "nat \<Rightarrow> u32 \<Rightarrow> mount \<Rightarrow> mount list \<Rightarrow> store \<Rightarrow> store option" where
  "link_mounts m order nm copies s = do {
     ms \<leftarrow> mounts_of (Some m) s;
     (ms, s) \<leftarrow> (if ms \<noteq> [] \<and> order = MREPL
                 then do { s \<leftarrow> set_mounts m [] s; s \<leftarrow> mountfree ms s; Some ([], s) }
                 else Some (ms, s));
     set_mounts m (if ms \<noteq> [] \<and> order = MAFTER then ms @ nm # copies else nm # copies @ ms) s
   }"

definition cmount :: "nat \<Rightarrow> nat \<Rightarrow> u32 \<Rightarrow> cstring \<Rightarrow> pgrp \<Rightarrow> store \<Rightarrow> ((nserr + int) \<times> pgrp \<times> store) option" where
  "cmount new old flag spec pg s = do {
     n \<leftarrow> chan_at s new;
     od \<leftarrow> chan_at s old;
     if QTDIR AND (q_type (c_qid od) XOR q_type (c_qid n)) \<noteq> 0 then Some (Inl Emount, pg, s)
     else do {
       let order = flag AND MORDER;
       if q_type (c_qid od) AND QTDIR = 0 \<and> order \<noteq> MREPL then Some (Inl Emount, pg, s)
       else do {
         mhm \<leftarrow> mounts_of (c_umh n) s;
         if flag AND MCREATE \<noteq> 0 \<and> mhm \<noteq> [] \<and> (tl mhm \<noteq> [] \<or> m_flag (hd mhm) AND MCREATE = 0)
         then Some (Inl Emount, pg, s)
         else do {
           (m, pg, s) \<leftarrow> mount_head old order pg s;
           (nm, s) \<leftarrow> newmount new flag spec s;
           mhm \<leftarrow> mounts_of (c_umh n) s;
           let flg = (if order = MREPL then MAFTER OR (flag AND MREADONLY) else order OR (flag AND MREADONLY));
           (copies, s) \<leftarrow> copy_union (tl mhm) flg s;
           let nm = (if flag AND MCREATE \<noteq> 0 then nm\<lparr>m_flag := m_flag nm OR MCREATE\<rparr> else nm);
           s \<leftarrow> link_mounts m order nm copies s;
           Some (Inr (m_id nm), pg, s)
         }
       }
     }
   }"

text \<open>The first mount of a list that is \<open>mounted\<close>, or whose server is: what is left and the one taken out.\<close>

fun take_mount :: "chan \<Rightarrow> mount list \<Rightarrow> store \<Rightarrow> (mount list \<times> mount option) option" where
  "take_mount mounted [] s = Some ([], None)"
| "take_mount mounted (f # fs) s = do {
     to \<leftarrow> chan_at s (m_to f);
     srv \<leftarrow> (case c_mchan to of None \<Rightarrow> Some False | Some p \<Rightarrow> do { mc \<leftarrow> chan_at s p; Some (eqchan mc mounted True) });
     if eqchan to mounted True \<or> srv then Some (fs, Some f)
     else do { (gs, r) \<leftarrow> take_mount mounted fs s; Some (f # gs, r) }
   }"

definition unlink_head :: "nat \<Rightarrow> nat \<Rightarrow> pgrp \<Rightarrow> pgrp" where
  "unlink_head h m pg = pg\<lparr>g_mnthash := (g_mnthash pg)[h := remove1 m (g_mnthash pg ! h)]\<rparr>"

definition cunmount :: "nat \<Rightarrow> nat option \<Rightarrow> pgrp \<Rightarrow> store \<Rightarrow> ((nserr + unit) \<times> pgrp \<times> store) option" where
  "cunmount mnt mounted pg s = do {
     c \<leftarrow> chan_at s mnt;
     let h = MOUNTH (c_qid c);
     r \<leftarrow> find_head (\<lambda>f. eqchan f c True) (g_mnthash pg ! h) s;
     case r of
       None \<Rightarrow> Some (Inl Eunmount, pg, s)
     | Some m \<Rightarrow> do {
         mh \<leftarrow> head_at s m;
         case mounted of
           None \<Rightarrow> do {
             s \<leftarrow> set_mounts m [] s;
             s \<leftarrow> mountfree (h_mount mh) s;
             s \<leftarrow> cclose (h_from mh) s;
             s \<leftarrow> putmhead (Some m) s;
             Some (Inr (), unlink_head h m pg, s)
           }
         | Some md \<Rightarrow> do {
             mc \<leftarrow> chan_at s md;
             (ms, f) \<leftarrow> take_mount mc (h_mount mh) s;
             case f of
               None \<Rightarrow> Some (Inl Eunion, pg, s)
             | Some f \<Rightarrow> do {
                 s \<leftarrow> set_mounts m ms s;
                 s \<leftarrow> mountfree [f] s;
                 if ms = [] then do {
                   s \<leftarrow> cclose (h_from mh) s;
                   s \<leftarrow> putmhead (Some m) s;
                   Some (Inr (), unlink_head h m pg, s)
                 } else Some (Inr (), pg, s)
               }
           }
       }
   }"

text \<open>
  \<open>findmount\<close>: \<open>cp\<close> is what \<open>*cp\<close> holds, \<open>mp\<close> likewise, or \<open>None\<close> for a nil \<open>mp\<close>.  The result is whether
  something is mounted and the new contents.
\<close>

definition findmount ::
  "nat option \<Rightarrow> nat option option \<Rightarrow> u16 \<Rightarrow> u64 \<Rightarrow> qid \<Rightarrow> pgrp \<Rightarrow> store \<Rightarrow>
   (bool \<times> nat option \<times> nat option option \<times> store) option"
where
  "findmount cp mp type dev qid pg s = do {
     r \<leftarrow> find_head (\<lambda>f. eqchantdqid f type dev qid True) (g_mnthash pg ! MOUNTH qid) s;
     case r of
       None \<Rightarrow> Some (False, cp, mp, s)
     | Some m \<Rightarrow> do {
         (mp, s) \<leftarrow> (case mp of
             None \<Rightarrow> Some (None, s)
           | Some cur \<Rightarrow> do {
               s \<leftarrow> incref m s;
               s \<leftarrow> putmhead cur s;
               Some (Some (Some m), s)
             });
         s \<leftarrow> cclose cp s;
         ms \<leftarrow> mounts_of (Some m) s;
         case ms of
           [] \<Rightarrow> None
         | f # _ \<Rightarrow> do { s \<leftarrow> incref (m_to f) s; Some (True, Some (m_to f), mp, s) }
       }
   }"

definition domount :: "nat \<Rightarrow> nat option \<Rightarrow> nat option \<Rightarrow> pgrp \<Rightarrow> store \<Rightarrow> (bool \<times> nat \<times> nat option \<times> nat option \<times> store) option" where
  "domount c m name pg s = do {
     ch \<leftarrow> chan_at s c;
     (found, cp, mp, s) \<leftarrow> findmount (Some c) (Some m) (c_type ch) (c_dev ch) (c_qid ch) pg s;
     if \<not> found then Some (False, c, m, name, s)
     else do {
       c \<leftarrow> cp;
       m \<leftarrow> mp;
       case name of
         None \<Rightarrow> Some (True, c, m, None, s)
       | Some n \<Rightarrow> do {
           h \<leftarrow> m;
           mh \<leftarrow> head_at s h;
           (n, s) \<leftarrow> cnamecross n (h_from mh) s;
           Some (True, c, m, Some n, s)
         }
     }
   }"

definition mheadflag :: "nat option \<Rightarrow> store \<Rightarrow> u32 option" where
  "mheadflag m s = do { ms \<leftarrow> mounts_of m s; Some (case ms of [] \<Rightarrow> 0 | f # _ \<Rightarrow> m_flag f) }"

definition mutatingmode :: "u32 \<Rightarrow> bool" where
  "mutatingmode mode = (let rwmode = mode AND 3 in rwmode = 1 \<or> rwmode = 2 \<or> mode AND (16 OR 64) \<noteq> 0)"

definition checkwritable :: "chan \<Rightarrow> nserr + unit" where
  "checkwritable c = (if c_mflag c AND MREADONLY \<noteq> 0 then Inl Eperm else Inr ())"

definition isdir :: "chan \<Rightarrow> nserr + unit" where
  "isdir c = (if q_type (c_qid c) AND QTDIR \<noteq> 0 then Inr () else Inl Enotdir)"

fun creatable :: "mount list \<Rightarrow> mount option" where
  "creatable [] = None"
| "creatable (f # fs) = (if m_flag f AND (MCREATE OR MREADONLY) = MCREATE then Some f else creatable fs)"

definition createdir :: "device \<Rightarrow> nat \<Rightarrow> nat \<Rightarrow> store \<Rightarrow> ((nserr + nat) \<times> store) option" where
  "createdir D c m s = do {
     ms \<leftarrow> mounts_of (Some m) s;
     case creatable ms of
       None \<Rightarrow> Some (Inl Enocreate, s)
     | Some f \<Rightarrow> do {
         (nc, s) \<leftarrow> cclone D (m_to f) s;
         case nc of
           None \<Rightarrow> Some (Inl Eclone, s)
         | Some p \<Rightarrow> do {
             ch \<leftarrow> chan_at s p;
             let s = put p (OChan (ch\<lparr>c_mflag := m_flag f\<rparr>)) s;
             s \<leftarrow> cclose (Some c) s;
             Some (Inr p, s)
           }
       }
   }"

end
