(* ===== verification/Walk.thy ===== *)
theory Walk
  imports Mount
begin

text \<open>
  \<open>walk\<close> of \<open>emu/port/chan.c\<close>: the path is walked in batches, each up to the next mount point, the next
  \<open>..\<close> or \<open>MAXWELEM\<close> names; the new name and its stack of mount points grow with it.  \<open>walk_step\<close> is one
  turn of the loop.  A reference that leaves a field is closed after the field is emptied; the objects are not shared then.
\<close>

abbreviation (input) MAXWELEM :: nat where "MAXWELEM \<equiv> 16"

datatype walkerr = WalkNotdir | WalkDevice | WalkNotexist

text \<open>The outcomes: \<open>-1\<close> with \<open>*nerror\<close> and the error string set, an error raised, or the end of the path.\<close>

datatype wres = WErr nat walkerr | WRaise | WDone nat nat "nat option"

record wstate =
  w_have :: nat
  w_c :: nat
  w_name :: nat
  w_mh :: "nat option"
  w_didmount :: bool

definition has_dotdot :: "u8 list list \<Rightarrow> nat option" where
  "has_dotdot es = (let k = length (takeWhile (\<lambda>e. \<not> isdotdot e) es) in if k < length es then Some k else None)"

text \<open>\<open>dotdot\<close> and \<open>ntry\<close>.\<close>

definition batch :: "u8 list list \<Rightarrow> bool \<times> nat" where
  "batch rest =
     (let ntry = (if length rest > MAXWELEM then MAXWELEM else length rest)
      in case has_dotdot (take ntry rest) of
           None \<Rightarrow> (False, ntry)
         | Some i \<Rightarrow> if i = 0 then (True, 1) else (False, i))"

text \<open>The union members behind the first: the first that answers, with its mount.\<close>

fun union_walk ::
  "device \<Rightarrow> u8 list list \<Rightarrow> mount list \<Rightarrow> store \<Rightarrow> (((nat option \<times> qid list) \<times> mount) option \<times> store) option"
where
  "union_walk D es [] s = Some (None, s)"
| "union_walk D es (f # fs) s = do {
     (wq, s) \<leftarrow> devwalk D (m_to f) es s;
     case wq of
       None \<Rightarrow> union_walk D es fs s
     | Some w \<Rightarrow> Some (Some (w, f), s)
   }"

text \<open>The first of the qids at which something is mounted: its index, the channel and the head.\<close>

fun crossing :: "nat \<Rightarrow> u16 \<Rightarrow> u64 \<Rightarrow> qid list \<Rightarrow> pgrp \<Rightarrow> store \<Rightarrow> ((nat \<times> nat \<times> nat) option \<times> store) option" where
  "crossing i type dev [] pg s = Some (None, s)"
| "crossing i type dev (q # qs) pg s = do {
     (found, cp, mp, s) \<leftarrow> findmount None (Some None) type dev q pg s;
     if found then do { nc \<leftarrow> cp; m \<leftarrow> mp; nmh \<leftarrow> m; Some (Some (i, nc, nmh), s) }
     else crossing (i + 1) type dev qs pg s
   }"

text \<open>One name element and one stack slot per element walked.\<close>

fun push_elems :: "u8 list list \<Rightarrow> nat option \<Rightarrow> nat \<Rightarrow> store \<Rightarrow> (nat \<times> store) option" where
  "push_elems [] nmh n s = Some (n, s)"
| "push_elems (e # es) nmh n s = do {
     (n, s) \<leftarrow> addelem n e s;
     mp \<leftarrow> (case nmh of Some m \<Rightarrow> if es = [] then map_option h_from (head_at s m) else Some None | None \<Rightarrow> Some None);
     s \<leftarrow> cnamepush n mp s;
     push_elems es nmh n s
   }"

definition set_mflag :: "nat option \<Rightarrow> u32 \<Rightarrow> store \<Rightarrow> store option" where
  "set_mflag c mflag s =
     (case c of
        None \<Rightarrow> Some s
      | Some p \<Rightarrow> do { ch \<leftarrow> chan_at s p; Some (put p (OChan (ch\<lparr>c_mflag := mflag\<rparr>)) s) })"

text \<open>The walk request, with the rest of the union tried if it fails: \<open>wq\<close>, \<open>type\<close>, \<open>dev\<close> and \<open>mflag\<close>.\<close>

definition walk_request ::
  "device \<Rightarrow> bool \<Rightarrow> u8 list list \<Rightarrow> nat \<Rightarrow> nat option \<Rightarrow> u32 \<Rightarrow> store \<Rightarrow>
   (((nat option \<times> qid list) \<times> u16 \<times> u64 \<times> u32) option \<times> store) option"
where
  "walk_request D nomount es c mh mflag s = do {
     ch \<leftarrow> chan_at s c;
     (wq, s) \<leftarrow> devwalk D c es s;
     case wq of
       Some w \<Rightarrow> Some (Some (w, c_type ch, c_dev ch, mflag), s)
     | None \<Rightarrow>
         if mh = None \<or> nomount then Some (None, s)
         else do {
           ms \<leftarrow> mounts_of mh s;
           if ms = [] then None
           else do {
             (r, s) \<leftarrow> union_walk D es (tl ms) s;
             case r of
               None \<Rightarrow> Some (None, s)
             | Some (w, f) \<Rightarrow> do { to \<leftarrow> chan_at s (m_to f); Some (Some (w, c_type to, c_dev to, m_flag f), s) }
           }
         }
   }"

definition walk_fail :: "nat \<Rightarrow> nat \<Rightarrow> nat option \<Rightarrow> nat \<Rightarrow> walkerr \<Rightarrow> store \<Rightarrow> ((wres + wstate) \<times> store) option" where
  "walk_fail c n mh nerror e s = do {
     s \<leftarrow> cclose (Some c) s;
     s \<leftarrow> cnameclose (Some n) s;
     s \<leftarrow> putmhead mh s;
     Some (Inl (WErr nerror e), s)
   }"

definition walk_next :: "nat \<Rightarrow> nat option \<Rightarrow> wstate \<Rightarrow> store \<Rightarrow> ((wres + wstate) \<times> store) option" where
  "walk_next c mh st s = do {
     s \<leftarrow> cclose (Some c) s;
     s \<leftarrow> putmhead mh s;
     Some (Inr st, s)
   }"

definition walk_dotdot :: "nat \<Rightarrow> nat \<Rightarrow> nat option \<Rightarrow> nat \<Rightarrow> nat option \<times> qid list \<Rightarrow> store \<Rightarrow> ((wres + wstate) \<times> store) option"
where
  "walk_dotdot c n mh nhave w s =
     (case w of
        (Some p, [q]) \<Rightarrow> do {
          (n, s) \<leftarrow> addelem n [DOT, DOT] s;
          (nc, s) \<leftarrow> undomount p n s;
          walk_next c mh \<lparr>w_have = nhave + 1, w_c = nc, w_name = n, w_mh = None, w_didmount = False\<rparr> s
        }
      | _ \<Rightarrow> None)"

text \<open>A batch without \<open>..\<close>: the end of the batch, or the first mount point in it.\<close>

definition walk_batch ::
  "device \<Rightarrow> bool \<Rightarrow> pgrp \<Rightarrow> u8 list list \<Rightarrow> nat \<Rightarrow> nat \<Rightarrow> nat option \<Rightarrow> nat \<Rightarrow> nat option \<times> qid list \<Rightarrow> u16 \<Rightarrow> u64 \<Rightarrow> store \<Rightarrow>
   ((wres + wstate) \<times> store) option"
where
  "walk_batch D nomount pg es c n mh nhave w type dev s = do {
     let (clone, qids) = w;
     (r, s) \<leftarrow> (if nomount then Some (None, s) else crossing 0 type dev (take (length es - 1) qids) pg s);
     case r of
       None \<Rightarrow>
         (case clone of
            None \<Rightarrow>
              if qids = [] \<or> q_type (last qids) AND QTDIR \<noteq> 0
              then walk_fail c n mh (nhave + length qids + 1) WalkNotexist s
              else walk_fail c n mh (nhave + length qids) WalkNotdir s
          | Some nc \<Rightarrow> do {
              (n, s) \<leftarrow> push_elems (take (length qids) es) None n s;
              walk_next c mh \<lparr>w_have = nhave + length qids, w_c = nc, w_name = n, w_mh = None, w_didmount = False\<rparr> s
            })
     | Some (i, nc, nmh) \<Rightarrow> do {
         (u, s) \<leftarrow> cunique D nc s;
         case u of
           None \<Rightarrow> Some (Inl WRaise, s)
         | Some nc \<Rightarrow> do {
             mflag \<leftarrow> mheadflag (Some nmh) s;
             s \<leftarrow> set_mflag (Some nc) mflag s;
             s \<leftarrow> cclose clone s;
             (n, s) \<leftarrow> push_elems (take (i + 1) es) (Some nmh) n s;
             walk_next c mh \<lparr>w_have = nhave + i + 1, w_c = nc, w_name = n, w_mh = Some nmh, w_didmount = True\<rparr> s
           }
       }
   }"

definition walk_step :: "device \<Rightarrow> bool \<Rightarrow> pgrp \<Rightarrow> u8 list list \<Rightarrow> wstate \<Rightarrow> store \<Rightarrow> ((wres + wstate) \<times> store) option" where
  "walk_step D nomount pg names st s = do {
     let nhave = w_have st;
     let c = w_c st;
     let n = w_name st;
     let mh = w_mh st;
     ch \<leftarrow> chan_at s c;
     if q_type (c_qid ch) AND QTDIR = 0 then do {
       s \<leftarrow> cnameclose (Some n) s;
       s \<leftarrow> cclose (Some c) s;
       s \<leftarrow> putmhead mh s;
       Some (Inl (WErr nhave WalkNotdir), s)
     }
     else do {
       let (dotdot, ntry) = batch (drop nhave names);
       let es = take ntry (drop nhave names);
       (found, c, mh, nm, s) \<leftarrow> (if \<not> dotdot \<and> \<not> nomount \<and> \<not> w_didmount st then domount c mh (Some n) pg s
                                else Some (False, c, mh, Some n, s));
       n \<leftarrow> nm;
       mflag \<leftarrow> (if found then mheadflag mh s else Some (c_mflag ch));
       (wq, s) \<leftarrow> walk_request D nomount es c mh mflag s;
       case wq of
         None \<Rightarrow> walk_fail c n mh (nhave + 1) WalkDevice s
       | Some (w, type, dev, mflag) \<Rightarrow> do {
           s \<leftarrow> set_mflag (fst w) mflag s;
           if dotdot then walk_dotdot c n mh nhave w s
           else walk_batch D nomount pg es c n mh nhave w type dev s
         }
     }
   }"

partial_function (option) walk_loop :: "device \<Rightarrow> bool \<Rightarrow> pgrp \<Rightarrow> u8 list list \<Rightarrow> wstate \<Rightarrow> store \<Rightarrow> (wres \<times> store) option" where
  "walk_loop D nomount pg names st s =
     (if w_have st < length names then
        Option.bind (walk_step D nomount pg names st s)
          (\<lambda>(r, s). case r of Inl e \<Rightarrow> Some (e, s) | Inr st \<Rightarrow> walk_loop D nomount pg names st s)
      else Some (WDone (w_c st) (w_name st) (w_mh st), s))"

text \<open>The origin of the walk is slot 0 of its name.\<close>

definition walk_pin :: "nat \<Rightarrow> nat \<Rightarrow> store \<Rightarrow> (nat \<times> store) option" where
  "walk_pin c n s = do {
     nm \<leftarrow> name_at s n;
     if n_mtpt nm = [] then do {
       (n, s) \<leftarrow> (if n_ref nm > 1 then do {
                    let (pinned, s) = newcname (cstr (n_s nm)) s;
                    s \<leftarrow> cnameclose (Some n) s;
                    Some (pinned, s)
                  } else Some (n, s));
       s \<leftarrow> cnamepush n (Some c) s;
       Some (n, s)
     } else Some (n, s)
   }"

definition walk_end :: "device \<Rightarrow> nat \<Rightarrow> nat \<Rightarrow> nat \<Rightarrow> nat option \<Rightarrow> store \<Rightarrow> (nat option \<times> store) option" where
  "walk_end D cp c n mh s = do {
     s \<leftarrow> putmhead mh s;
     (u, s) \<leftarrow> cunique D c s;
     case u of
       None \<Rightarrow> Some (None, s)
     | Some c \<Rightarrow> do {
         ch \<leftarrow> chan_at s c;
         let s = put c (OChan (ch\<lparr>c_umh := None\<rparr>)) s;
         s \<leftarrow> putmhead (c_umh ch) s;
         ch \<leftarrow> chan_at s c;
         let s = put c (OChan (ch\<lparr>c_name := Some n\<rparr>)) s;
         s \<leftarrow> cnameclose (c_name ch) s;
         s \<leftarrow> cclose (Some cp) s;
         Some (Some c, s)
       }
   }"

datatype walked = Walked nat | WalkErr nat walkerr | WalkRaised

definition walk :: "device \<Rightarrow> nat \<Rightarrow> u8 list list \<Rightarrow> bool \<Rightarrow> pgrp \<Rightarrow> store \<Rightarrow> (walked \<times> store) option" where
  "walk D cp names nomount pg s = do {
     s \<leftarrow> incref cp s;
     ch \<leftarrow> chan_at s cp;
     n \<leftarrow> c_name ch;
     s \<leftarrow> incref n s;
     (n, s) \<leftarrow> walk_pin cp n s;
     (r, s) \<leftarrow> walk_loop D nomount pg names \<lparr>w_have = 0, w_c = cp, w_name = n, w_mh = None, w_didmount = False\<rparr> s;
     case r of
       WErr nerror e \<Rightarrow> Some (WalkErr nerror e, s)
     | WRaise \<Rightarrow> Some (WalkRaised, s)
     | WDone c n mh \<Rightarrow> do {
         (u, s) \<leftarrow> walk_end D cp c n mh s;
         case u of None \<Rightarrow> Some (WalkRaised, s) | Some c \<Rightarrow> Some (Walked c, s)
       }
   }"

end
