(* ===== verification/DevSpec.thy ===== *)
theory DevSpec
  imports ChanSpec Walk
begin

text \<open>
  The contract of a device's \<open>walk\<close>, as \<open>emu/port/dev.c\<close> and \<open>emu/port/devmnt.c\<close> keep it, and what it
  gives the operations that ask devices: cloning, and looking a path up in the mount table.
\<close>

text \<open>The file a channel is at.\<close>

definition same_file :: "chan \<Rightarrow> chan \<Rightarrow> bool" where
  "same_file a b \<longleftrightarrow> c_type a = c_type b \<and> c_dev a = c_dev b \<and> c_qid a = c_qid b"

locale device =
  fixes D :: device
  assumes clone_all: "D ch es = Some wq \<Longrightarrow> w_clone wq \<noteq> None \<Longrightarrow> length (w_qid wq) = length es"
    and clone_part: "D ch es = Some wq \<Longrightarrow> w_clone wq = None \<Longrightarrow> w_qid wq \<noteq> [] \<and> length (w_qid wq) < length es"
    and clone_self: "D ch [] = Some wq \<Longrightarrow> w_clone wq = Some w \<Longrightarrow> same_file w ch"
begin

lemma no_names: "D ch [] = Some wq \<Longrightarrow> w_clone wq \<noteq> None \<and> w_qid wq = []"
  using clone_all [of ch "[]"] clone_part [of ch "[]"] by fastforce

lemma one_name: "D ch [e] = Some wq \<Longrightarrow> \<exists>w q. w_clone wq = Some w \<and> w_qid wq = [q]"
  using clone_all [of ch "[e]" wq] clone_part [of ch "[e]" wq] by (cases "w_clone wq"; cases "w_qid wq") auto

lemma qids_le: "D ch es = Some wq \<Longrightarrow> length (w_qid wq) \<le> length es"
  using clone_all [of ch es wq] clone_part [of ch es wq] by (cases "w_clone wq") auto

end

lemma chan_live: "live s (PC c) \<Longrightarrow> \<exists>ch. chan_at s c = Some ch \<and> \<not> cfree ch"
  by (simp add: live_chan)

lemma live_mchan:
  assumes "chinv s T R P" "chan_at s c = Some ch" "\<not> cfree ch"
  shows "c_mchan ch = Some d \<Longrightarrow> live s (PC d)" "c_name ch = Some n \<Longrightarrow> live s (PN n)" "c_umh ch = Some h \<Longrightarrow> live s (PH h)"
  using live_out [OF assms(1), of _ c] chan_atD [OF assms(2)] assms(3) by auto

text \<open>All but the new object \<open>p\<close> is as it was, counts aside.\<close>

definition adds :: "nat \<Rightarrow> store \<Rightarrow> store \<Rightarrow> bool" where
  "adds p s s' \<longleftrightarrow> (\<forall>q. live s q \<longrightarrow> idx q \<noteq> p) \<and> (\<forall>j. j \<noteq> p \<longrightarrow> (\<exists>x. get s' j = set_ref x (get s j)))"

lemma adds_live: "adds p s s' \<Longrightarrow> live s q \<Longrightarrow> live s' q"
  unfolding adds_def live_def by (metis tag_set_ref(1))

lemma adds_reref: "adds p s t \<Longrightarrow> reref t u \<Longrightarrow> adds p s u"
  unfolding adds_def reref_def by (metis set_ref_set_ref)

lemma adds_put: "adds p s t \<Longrightarrow> adds p s (put p ob t)"
  by (auto simp: adds_def get_put)

lemma adds_new: "\<forall>q. live s q \<longrightarrow> idx q \<noteq> p \<Longrightarrow> \<forall>j. j \<noteq> p \<longrightarrow> get s1 j = get s j \<Longrightarrow> adds p s s1"
  unfolding adds_def using set_ref_self by simp

lemma adds_chan:
  assumes "adds p s s'" "chan_at s c = Some ch" "\<not> cfree ch"
  shows "\<exists>x. chan_at s' c = Some (ch\<lparr>c_ref := x\<rparr>)"
proof -
  have "live s (PC c)" using assms(2,3) by (simp add: live_chan)
  then have "c \<noteq> p" using assms(1) by (auto simp: adds_def)
  then show ?thesis using assms(1) chan_atD [OF assms(2)] by (force simp: adds_def chan_at_def)
qed

lemma adopt_ok:
  assumes "chinv s T R []" "chan_at s c = Some ch" "\<not> cfree ch"
  shows "runs (adopt ch w s) (\<lambda>(p, s'). post T (add_mset (PC p) R) s s' \<and> adds p s s' \<and>
    (\<exists>nc x. chan_at s' p = Some (fill_clone w x nc) \<and> \<not> cfree nc \<and> c_name nc = None \<and> c_umh nc = None))"
proof -
  obtain p s1 nc where s1: "newchan s = Some (p, s1)" "post T (add_mset (PC p) R) s s1" "\<forall>j. j \<noteq> p \<longrightarrow> get s1 j = get s j"
    "\<forall>q. live s q \<longrightarrow> idx q \<noteq> p" "chan_at s1 p = Some nc" "\<not> cfree nc" "c_name nc = None" "c_umh nc = None"
    "c_umc nc = None" "c_mchan nc = None"
    using newchan_ok [OF assms(1)] by (auto simp: runs_def)
  let ?m = "if c_mchan w = None then None else c_mchan ch"
  have l: "live s1 (PC d) \<and> d \<noteq> p" if "d \<in> set (slots [?m])" for d
  proof -
    have "c_mchan ch = Some d" using that by (cases "c_mchan ch") (auto split: if_splits)
    then have "live s (PC d)" by (rule live_mchan(1) [OF assms])
    moreover from this have "d \<noteq> p" using s1(4) by auto
    ultimately show ?thesis using s1(3) by (simp add: live_def)
  qed
  obtain s2 where s2: "incref_slots [?m] s1 = Some s2" "post T (mset (map PC (slots [?m])) + add_mset (PC p) R) s1 s2"
    "\<forall>j. j \<notin> set (slots [?m]) \<longrightarrow> get s2 j = get s1 j" "reref s1 s2"
    using incref_slots_runs [OF postD [OF s1(2)], of "[?m]" PC] l by (auto simp: runs_def)
  have "p \<notin> set (slots [?m])" using l by blast
  then have g: "chan_at s2 p = Some nc" using s2(3) s1(5) by (simp add: chan_at_def)
  let ?c = "fill_clone w ?m nc"
  have "post T (add_mset (PC p) R) s2 (put p (OChan ?c) s2)"
    by (rule swap_chan [OF postD [OF s2(2)] g s1(6)])
      (use s1 in \<open>simp_all add: fill_clone_def cfree_def slots_def opt_def split: option.split\<close>)
  moreover have "chan_at (put p (OChan ?c) s2) p = Some ?c"
    using chan_atD [OF g] get_valid [of s2 p] by (simp add: chan_at_def get_put)
  moreover have "adds p s (put p (OChan ?c) s2)" using s1(3,4) s2(4) by (blast intro: adds_put adds_reref adds_new)
  ultimately show ?thesis using s1 s2 unfolding adopt_def
    by (fastforce simp: Let_def intro: post_trans)
qed

lemma devwalk_ok:
  assumes "chinv s T R []" "live s (PC c)"
  shows "runs (devwalk D c es s) (\<lambda>(r, s'). \<exists>ch. chan_at s c = Some ch \<and> (case r of
      None \<Rightarrow> D ch es = None \<and> s' = s
    | Some (clone, qids) \<Rightarrow> \<exists>wq. D ch es = Some wq \<and> qids = w_qid wq \<and> (clone = None \<longleftrightarrow> w_clone wq = None) \<and>
        post T (optr PC clone + R) s s' \<and>
        (\<forall>p. clone = Some p \<longrightarrow> adds p s s' \<and> (\<exists>nc x w. w_clone wq = Some w \<and>
          chan_at s' p = Some (fill_clone w x nc) \<and> \<not> cfree nc \<and> c_name nc = None \<and> c_umh nc = None))))"
proof -
  obtain ch where ch: "chan_at s c = Some ch" "\<not> cfree ch" using chan_live [OF assms(2)] by blast
  show ?thesis
  proof (cases "D ch es")
    case None
    then show ?thesis using ch by (simp add: devwalk_def)
  next
    case (Some wq)
    show ?thesis
    proof (cases "w_clone wq")
      case None
      then show ?thesis using Some ch assms(1) by (simp add: devwalk_def post_refl)
    next
      case w: (Some w)
      have "runs (adopt ch w s) (\<lambda>(p, s'). post T (add_mset (PC p) R) s s' \<and> adds p s s' \<and>
        (\<exists>nc x. chan_at s' p = Some (fill_clone w x nc) \<and> \<not> cfree nc \<and> c_name nc = None \<and> c_umh nc = None))"
        by (rule adopt_ok [OF assms(1) ch])
      then show ?thesis using w Some ch by (fastforce simp: devwalk_def runs_def)
    qed
  qed
qed

lemma chan_at_put: "chan_at (put p ob s) p = (if p < length (s_heap s) then case ob of OChan n \<Rightarrow> Some n | _ \<Rightarrow> None else chan_at s p)"
  by (simp add: chan_at_def get_put split: obj.split)

lemma chan_valid: "chan_at s c = Some ch \<Longrightarrow> c < length (s_heap s)"
  using get_valid [of s c] by (auto dest: chan_atD)

lemma shrinks_chan:
  assumes "shrinks s s'" "live s' (PC c)" "chan_at s c = Some ch"
  shows "\<exists>x. chan_at s' c = Some (ch\<lparr>c_ref := x\<rparr>)"
  using shrinks_live [OF assms(1,2)] chan_atD [OF assms(3)] by (auto simp: chan_at_def)

context device
begin

lemma cclone_ok:
  assumes "chinv s T R []" "chan_at s c = Some ch" "live s (PC c)"
  shows "runs (cclone D c s) (\<lambda>(r, s'). post T (optr PC r + R) s s' \<and> 
    (\<forall>p. r = Some p \<longrightarrow> adds p s s' \<and> (\<exists>wq w k. D ch [] = Some wq \<and> w_clone wq = Some w \<and> chan_at s' p = Some k \<and> same_file k w)))"
proof -
  obtain r s1 where d: "devwalk D c [] s = Some (r, s1)" and r: "case r of
      None \<Rightarrow> D ch [] = None \<and> s1 = s
    | Some (clone, qids) \<Rightarrow> \<exists>wq. D ch [] = Some wq \<and> qids = w_qid wq \<and> (clone = None \<longleftrightarrow> w_clone wq = None) \<and>
        post T (optr PC clone + R) s s1 \<and>
        (\<forall>p. clone = Some p \<longrightarrow> adds p s s1 \<and> (\<exists>nc x w. w_clone wq = Some w \<and>
          chan_at s1 p = Some (fill_clone w x nc) \<and> \<not> cfree nc \<and> c_name nc = None \<and> c_umh nc = None))"
    using devwalk_ok [OF assms(1,3), of D "[]"] assms(2) unfolding runs_def by auto
  show ?thesis
  proof (cases r)
    case None
    then show ?thesis using d r assms(1) by (simp add: cclone_def post_refl)
  next
    case (Some wp)
    then obtain p qids wq w x nc where p: "r = Some (Some p, qids)" "D ch [] = Some wq" "w_clone wq = Some w"
      "post T (add_mset (PC p) R) s s1" "adds p s s1" "chan_at s1 p = Some (fill_clone w x nc)"
      "\<not> cfree nc" "c_name nc = None"
      using r no_names [of ch] by (cases wp; cases "fst wp") (auto split: prod.splits)
    let ?n = "fill_clone w x nc"
    have nf: "\<not> cfree ?n" "c_name ?n = None" "same_file ?n w"
      using p(7,8) by (simp_all add: fill_clone_def cfree_def same_file_def)
    have lp: "live s1 (PC p)" using p(4) by (rule post_live) simp
    have "live s1 (PC c)" using p(5) assms(3) by (rule adds_live)
    then obtain ch1 where ch1: "chan_at s1 c = Some ch1" "\<not> cfree ch1" using chan_live by blast
    let ?k = "?n\<lparr>c_name := c_name ch1, c_mflag := c_mflag ch1\<rparr>"
    have ln: "live s1 (PN n) \<and> n \<noteq> p" if "c_name ch1 = Some n" for n
      using live_mchan(2) [OF postD [OF p(4)] ch1 that] live_unique [OF lp, of "PN n"] by auto
    obtain s2 where s2: "incref_slots [c_name ch1] s1 = Some s2"
      "post T (mset (map PN (slots [c_name ch1])) + add_mset (PC p) R) s1 s2"
      "\<forall>j. j \<notin> set (slots [c_name ch1]) \<longrightarrow> get s2 j = get s1 j" "reref s1 s2"
      using incref_slots_runs [OF postD [OF p(4)], of "[c_name ch1]" PN] ln
      by (cases "c_name ch1") (auto simp: runs_def)
    have np: "p \<notin> set (slots [c_name ch1])" using ln by (cases "c_name ch1") auto
    then have g: "chan_at s2 p = Some ?n" using s2(3) p(6) by (simp add: chan_at_def)
    have "post T (add_mset (PC p) R) s2 (put p (OChan ?k) s2)"
      by (rule swap_chan [OF postD [OF s2(2)] g nf(1)]) (use nf in \<open>cases "c_name ch1"; simp add: cfree_def\<close>)+
    moreover have "chan_at (put p (OChan ?k) s2) p = Some ?k" using chan_valid [OF g] by (simp add: chan_at_put)
    moreover have "incref_slots [c_name ch1] (put p (OChan ?k) s1) = Some (put p (OChan ?k) s2)"
      using incref_slots_put [OF np] s2(1) by simp
    moreover have "adds p s (put p (OChan ?k) s2)" using p(5) s2(4) by (blast intro: adds_put adds_reref)
    ultimately show ?thesis
      using d p s2 ch1 nf(3) unfolding cclone_def
      by (auto simp: same_file_def simp del: incref_slots.simps intro: post_trans)
  qed
qed

lemma cunique_ok:
  assumes "chinv s T (add_mset (PC c) R) []" "chan_at s c = Some ch"
  shows "runs (cunique D c s) (\<lambda>(r, s'). post T (add_mset (PC (case r of None \<Rightarrow> c | Some p \<Rightarrow> p)) R) s s' \<and>
    (\<forall>p. r = Some p \<longrightarrow> (\<exists>k. chan_at s' p = Some k \<and> same_file k ch)))"
proof (cases "c_ref ch = 1")
  case True
  then show ?thesis using assms by (simp add: cunique_def post_refl same_file_def)
next
  case False
  have "live s (PC c)" using assms(1) by (rule chinv_held) simp
  from cclone_ok [OF assms(1,2) this] obtain r s1 where s1: "cclone D c s = Some (r, s1)"
    "post T (optr PC r + add_mset (PC c) R) s s1" "\<And>p. r = Some p \<Longrightarrow> adds p s s1 \<and>
      (\<exists>wq w k. D ch [] = Some wq \<and> w_clone wq = Some w \<and> chan_at s1 p = Some k \<and> same_file k w)"
    by (auto simp: runs_def)
  show ?thesis
  proof (cases r)
    case None
    then show ?thesis using s1 False assms(2) by (simp add: cunique_def)
  next
    case (Some p)
    obtain wq w k where k: "D ch [] = Some wq" "w_clone wq = Some w" "chan_at s1 p = Some k" "same_file k w"
      using s1(3) [OF Some] by auto
    have "same_file k ch" using clone_self [OF k(1,2)] k(4) by (simp add: same_file_def)
    have "chinv s1 T (optr PC (Some c) + add_mset (PC p) R) []" using postD [OF s1(2)] Some by (simp add: add_mset_commute)
    from cclose_ok [OF this] obtain s2 where s2: "cclose (Some c) s1 = Some s2" "post T (add_mset (PC p) R) s1 s2" "shrinks s1 s2"
      by (auto simp: runs_def)
    have "live s2 (PC p)" using s2(2) by (rule post_live) simp
    from shrinks_chan [OF s2(3) this k(3)] obtain x where "chan_at s2 p = Some (k\<lparr>c_ref := x\<rparr>)" by blast
    then show ?thesis using s1(1,2) s2(1,2) Some False assms(2) \<open>same_file k ch\<close>
      by (auto simp: cunique_def same_file_def intro: post_trans)
  qed
qed

end

subsection \<open>The mount table\<close>

text \<open>
  Every head is in the table once and has mounts, and the chains of \<open>pg\<close> hold heads of the table, each of
  its own reference.
\<close>

definition tab_ok :: "pgrp \<Rightarrow> store \<Rightarrow> mtab \<Rightarrow> bool" where
  "tab_ok pg s T \<longleftrightarrow> length (g_mnthash pg) = 32 \<and> mset (concat (g_mnthash pg)) \<subseteq># image_mset fst T \<and>
     (\<forall>h. count (image_mset fst T) h \<le> 1) \<and> (\<forall>h f m. (h, f) \<in># T \<longrightarrow> get s h = OHead m \<longrightarrow> h_mount m \<noteq> [])"

lemma table_head:
  assumes "chinv s T R P" "(h, f) \<in># T"
  shows "\<exists>m. head_at s h = Some m \<and> h_from m = Some f" "live s (PH h)" "live s (PC f)"
proof -
  have r: "PH h \<in># trefs T" "PC f \<in># trefs T" using assms(2) by (force simp: trefs_def)+
  show l: "live s (PH h)" "live s (PC f)" using assms(1) r by (auto simp: chinv_def refs_def)
  then obtain m where m: "head_at s h = Some m" by (auto simp: live_head)
  then show "\<exists>m. head_at s h = Some m \<and> h_from m = Some f"
    using assms head_atD [OF m] by (auto simp: chinv_def objs_ok_def dest: spec [of _ h])
qed

lemma tab_post:
  assumes "tab_ok pg s T" "post T R s s'" "chinv s T R0 P"
  shows "tab_ok pg s' T"
proof -
  have "h_mount m' \<noteq> []" if h: "(h, f) \<in># T" "get s' h = OHead m'" for h f m'
  proof -
    obtain m where m: "head_at s h = Some m" using table_head(1) [OF assms(3) h(1)] by blast
    have "h_mount m \<noteq> []" using assms(1) h(1) head_atD [OF m] by (auto simp: tab_ok_def)
    moreover have "\<exists>x. get s' h = OHead (m\<lparr>h_ref := x\<rparr>)"
      using assms(2) h(1) head_atD [OF m] unfolding post_def keeps_def by blast
    ultimately show ?thesis using h(2) by auto
  qed
  then show ?thesis using assms(1) by (auto simp: tab_ok_def)
qed

lemma table_mounts:
  assumes "tab_ok pg s T" "chinv s T R P" "(h, f) \<in># T"
  obtains m g gs where "head_at s h = Some m" "h_mount m = g # gs" "\<And>x. x \<in> set (g # gs) \<Longrightarrow> live s (PC (m_to x))"
proof -
  obtain m where m: "head_at s h = Some m" using table_head(1) [OF assms(2,3)] by blast
  have "h_mount m \<noteq> []" using assms(1,3) head_atD [OF m] by (auto simp: tab_ok_def)
  moreover have "live s (PC (m_to x))" if "x \<in> set (h_mount m)" for x
    using live_out [OF assms(2), of "PC (m_to x)" h] head_atD [OF m] that by (auto simp: mount_refs_def)
  ultimately show thesis using that m by (cases "h_mount m") auto
qed

lemma MOUNTH_less: "MOUNTH q < 32"
proof -
  have "unat (q_path q AND 31) \<le> unat (31 :: 64 word)"
    unfolding word_le_nat_alt [symmetric] by (rule word_and_le1)
  then show ?thesis by (simp add: MOUNTH_def)
qed

lemma chain_table:
  assumes "tab_ok pg s T" "h \<in> set (g_mnthash pg ! MOUNTH q)"
  shows "\<exists>f. (h, f) \<in># T"
proof -
  have "MOUNTH q < length (g_mnthash pg)" using MOUNTH_less [of q] assms(1) by (simp add: tab_ok_def)
  then have "g_mnthash pg ! MOUNTH q \<in> set (g_mnthash pg)" by (rule nth_mem)
  then have "h \<in># mset (concat (g_mnthash pg))" using assms(2) by auto
  moreover have "mset (concat (g_mnthash pg)) \<subseteq># image_mset fst T" using assms(1) by (simp add: tab_ok_def)
  ultimately have "h \<in># image_mset fst T" by (metis mset_subset_eqD)
  then show ?thesis by auto
qed

lemma find_head_ok:
  assumes "chinv s T R P" "\<And>h. h \<in> set ms \<Longrightarrow> \<exists>f. (h, f) \<in># T"
  shows "\<exists>r. find_head p ms s = Some r \<and> (\<forall>h. r = Some h \<longrightarrow> h \<in> set ms)"
  using assms(2)
proof (induction ms)
  case (Cons h ms)
  obtain f where "(h, f) \<in># T" using Cons.prems by auto
  then obtain m c where "head_at s h = Some m" "h_from m = Some f" "chan_at s f = Some c"
    using table_head [OF assms(1)] chan_live by blast
  then show ?case using Cons by auto
qed simp

end
