(* ===== verification/Dev.thy ===== *)
theory Dev
  imports DevSpec
begin

text \<open>
  The device toolkit of \<open>emu/port/dev.c\<close>, with the \<open>openmode\<close> of \<open>emu/port/sysfile.c\<close>.  A generator is its answers,
  \<open>DEVDOTDOT\<close> being the index -1.  \<open>None\<close> is a panic, a generator that never ends its list, or
  a use of an entry the generator did not fill in.
\<close>

datatype genans = GenEnd | GenSkip | GenDir "cstring dir"

type_synonym devgen = "chan \<Rightarrow> cstring \<Rightarrow> int \<Rightarrow> genans"

text \<open>What the toolkit reads of the running system: \<open>eve\<close>, the user, the clock, the build date and the device characters.\<close>

record devenv =
  v_eve :: "u8 list"
  v_user :: "u8 list"
  v_time :: u64
  v_kerndate :: u64
  v_dc :: "u16 \<Rightarrow> u16"

record dirtab =
  t_name :: "u8 list"
  t_qid :: qid
  t_length :: u64
  t_perm :: u64

datatype deverr = DevEnotdir | DevEperm | DevEnonexist | DevEbadarg | DevEshort

abbreviation (input) CMSG :: u16 where "CMSG \<equiv> 2"
abbreviation (input) QTMOUNT :: u8 where "QTMOUNT \<equiv> 0x10"
abbreviation (input) DMDIR :: u64 where "DMDIR \<equiv> 0x80000000"
abbreviation (input) DMMOUNT :: u64 where "DMMOUNT \<equiv> 0x10000000"

text \<open>\<open>qid.type << 24\<close> is an \<open>int\<close>, and sign-extends when it meets the \<open>long\<close> \<open>perm\<close>.\<close>

definition devdir :: "devenv \<Rightarrow> chan \<Rightarrow> qid \<Rightarrow> u8 list \<Rightarrow> u64 \<Rightarrow> u8 list \<Rightarrow> u64 \<Rightarrow> cstring dir" where
  "devdir v c qid n len user perm =
     (let qid = (if c_flag c AND CMSG \<noteq> 0 then qid\<lparr>q_type := q_type qid OR QTMOUNT\<rparr> else qid)
      in \<lparr>d_type = v_dc v (c_type c), d_dev = ucast (c_dev c), d_qid = qid,
          d_mode = perm OR scast (push_bit 24 (ucast (q_type qid) :: 32 word)),
          d_atime = v_time v, d_mtime = v_kerndate v, d_length = len, d_name = Some n, d_uid = Some user,
          d_gid = Some (v_eve v), d_muid = Some user\<rparr>)"

definition devgen :: "devenv \<Rightarrow> dirtab list option \<Rightarrow> devgen" where
  "devgen v tab c name i =
     (case tab of
        None \<Rightarrow> GenEnd
      | Some tab \<Rightarrow>
          (case drop (nat (i + 1)) tab of
             [] \<Rightarrow> GenEnd
           | t # _ \<Rightarrow> GenDir (devdir v c (t_qid t) (t_name t) (t_length t) (v_eve v) (t_perm t))))"

definition devclone :: "chan \<Rightarrow> chan option" where
  "devclone c =
     (if c_flag c AND COPEN \<noteq> 0 then None
      else Some ((clear_chan chan0)\<lparr>c_type := c_type c, c_dev := c_dev c, c_mode := c_mode c, c_qid := c_qid c,
        c_offset := c_offset c, c_umh := None, c_mountid := c_mountid c, c_mflag := c_mflag c, c_aux := c_aux c,
        c_mqid := c_mqid c, c_mcp := c_mcp c\<rparr>))"

text \<open>The first entry of the generator with the name, from index \<open>i\<close> on.\<close>

partial_function (option) gen_find :: "devgen \<Rightarrow> chan \<Rightarrow> u8 list \<Rightarrow> nat \<Rightarrow> cstring dir option option" where
  "gen_find gen nc n i =
     (case gen nc (Some n) (int i) of
        GenEnd \<Rightarrow> Some None
      | GenSkip \<Rightarrow> gen_find gen nc n (i + 1)
      | GenDir d \<Rightarrow> if map_option cstr (d_name d) = Some n then Some (Some d) else gen_find gen nc n (i + 1))"

text \<open>
  The loop of \<open>devwalk\<close> over the names, \<open>j\<close> of them done: \<open>Inl\<close> is an error on the first name, \<open>Inr\<close>
  the channel and the qids when it stops.  \<open>dot\<close> is the path of \<open>tab[0]\<close> when the generator is \<open>devgen\<close>.
\<close>

fun devwalk_loop :: "devgen \<Rightarrow> u64 option \<Rightarrow> u8 list list \<Rightarrow> chan \<Rightarrow> qid list \<Rightarrow> (deverr + chan \<times> qid list) option" where
  "devwalk_loop gen dot [] nc qids = Some (Inr (nc, qids))"
| "devwalk_loop gen dot (n # ns) nc qids =
     (if q_type (c_qid nc) AND QTDIR = 0 then Some (if qids = [] then Inl DevEnotdir else Inr (nc, qids))
      else if n = [DOT] then devwalk_loop gen dot ns nc (qids @ [c_qid nc])
      else if n = [DOT, DOT] then
        (case gen nc None (-1) of
           GenDir d \<Rightarrow> devwalk_loop gen dot ns (nc\<lparr>c_qid := d_qid d\<rparr>) (qids @ [d_qid d])
         | _ \<Rightarrow> None)
      else do {
        r \<leftarrow> (if dot \<noteq> None \<and> dot \<noteq> Some (q_path (c_qid nc)) then Some None else gen_find gen nc n 0);
        case r of
          None \<Rightarrow> Some (if qids = [] then Inl DevEnonexist else Inr (nc, qids))
        | Some d \<Rightarrow> devwalk_loop gen dot ns (nc\<lparr>c_qid := d_qid d\<rparr>) (qids @ [d_qid d])
      })"

text \<open>
  \<open>devwalk\<close> with a nil \<open>nc\<close>, as \<open>cclone\<close> and \<open>walk\<close> call it: an error raised, nil, or the result.
\<close>

definition dev_walk :: "devgen \<Rightarrow> u64 option \<Rightarrow> chan \<Rightarrow> u8 list list \<Rightarrow> (deverr + walkqid option) option" where
  "dev_walk gen dot c names =
     (if names \<noteq> [] \<and> q_type (c_qid c) AND QTDIR = 0 then Some (Inl DevEnotdir)
      else do {
        nc \<leftarrow> devclone c;
        r \<leftarrow> devwalk_loop gen dot names (nc\<lparr>c_type := 0\<rparr>) [];
        case r of
          Inl e \<Rightarrow> Some (Inr None)
        | Inr (nc, qids) \<Rightarrow>
            if length qids < length names then Some (Inr (Some \<lparr>w_clone = None, w_qid = qids\<rparr>))
            else Some (Inr (Some \<lparr>w_clone = Some (nc\<lparr>c_type := c_type c\<rparr>), w_qid = qids\<rparr>))
      })"

text \<open>The last element of a name.\<close>

definition last_elem :: "u8 list \<Rightarrow> u8 list" where
  "last_elem s = rev (takeWhile (\<lambda>b. b \<noteq> SLASH) (rev s))"

partial_function (option) stat_loop ::
  "devenv \<Rightarrow> devgen \<Rightarrow> chan \<Rightarrow> cstring \<Rightarrow> u8 list \<Rightarrow> nat \<Rightarrow> (deverr + nat \<times> u8 list) option"
where
  "stat_loop v gen c name buf i =
     (case gen c None (int i) of
        GenEnd \<Rightarrow>
          if q_type (c_qid c) AND QTDIR \<noteq> 0 then
            let elem = (case name of None \<Rightarrow> [63, 63, 63] | Some s \<Rightarrow> if s = [SLASH] then [SLASH] else last_elem s);
                (n, buf) = convD2M (devdir v c (c_qid c) elem 0 (v_eve v) (DMDIR OR 0x16D)) buf
            in Some (if n = 0 then Inl DevEbadarg else Inr (n, buf))
          else Some (Inl DevEnonexist)
      | GenSkip \<Rightarrow> stat_loop v gen c name buf (i + 1)
      | GenDir d \<Rightarrow>
          if q_path (c_qid c) = q_path (d_qid d) then
            let d = (if c_flag c AND CMSG \<noteq> 0 then d\<lparr>d_mode := d_mode d OR DMMOUNT\<rparr> else d);
                (n, buf) = convD2M d buf
            in Some (if n = 0 then Inl DevEbadarg else Inr (n, buf))
          else stat_loop v gen c name buf (i + 1))"

definition devstat :: "devenv \<Rightarrow> devgen \<Rightarrow> chan \<Rightarrow> cstring \<Rightarrow> u8 list \<Rightarrow> (deverr + nat \<times> u8 list) option" where
  "devstat v gen c name buf = stat_loop v gen c name buf 0"

text \<open>The buffer with \<open>m\<close> bytes done; the result has the bytes read, the buffer and \<open>c->dri\<close>.\<close>

partial_function (option) dirread_loop :: "devgen \<Rightarrow> chan \<Rightarrow> nat \<Rightarrow> u8 list \<Rightarrow> ((deverr + nat) \<times> u8 list \<times> chan) option" where
  "dirread_loop gen c m buf =
     (if m < length buf then
        (case gen c None (c_dri c) of
           GenEnd \<Rightarrow> Some (Inr m, buf, c)
         | GenSkip \<Rightarrow> dirread_loop gen (c\<lparr>c_dri := c_dri c + 1\<rparr>) m buf
         | GenDir d \<Rightarrow>
             (case convD2M d (drop m buf) of
                (dsz, rest) \<Rightarrow>
                  if dsz \<le> BIT16SZ then Some (if m = 0 then Inl DevEshort else Inr m, take m buf @ rest, c)
                  else dirread_loop gen (c\<lparr>c_dri := c_dri c + 1\<rparr>) (m + dsz) (take m buf @ rest)))
      else Some (Inr m, buf, c))"

definition devdirread :: "devgen \<Rightarrow> chan \<Rightarrow> u8 list \<Rightarrow> ((deverr + nat) \<times> u8 list \<times> chan) option" where
  "devdirread gen c buf = dirread_loop gen c 0 buf"

definition access :: "u64 list" where
  "access = [0x100, 0x80, 0x180, 0x40]"

definition devpermcheck :: "devenv \<Rightarrow> u8 list \<Rightarrow> u64 \<Rightarrow> u32 \<Rightarrow> deverr + unit" where
  "devpermcheck v fileuid perm omode =
     (let perm = (if v_user v = fileuid then perm
                  else if v_user v = v_eve v then push_bit 3 perm
                  else push_bit 6 perm);
          t = access ! unat (omode AND 3)
      in if t AND perm \<noteq> t then Inl DevEperm else Inr ())"

definition openmode :: "u32 \<Rightarrow> deverr + u32" where
  "openmode o' =
     (if o' \<ge> 16 OR 32 OR 64 OR 3 then Inl DevEbadarg
      else
        let o' = o' AND NOT (16 OR 32 OR 64)
        in if o' > 3 then Inl DevEbadarg
           else if o' = 3 then Inr 0
           else Inr o')"

text \<open>The generator's entry for the file of the channel, where there is one.\<close>

partial_function (option) gen_entry :: "devgen \<Rightarrow> chan \<Rightarrow> nat \<Rightarrow> cstring dir option option" where
  "gen_entry gen c i =
     (case gen c None (int i) of
        GenEnd \<Rightarrow> Some None
      | GenSkip \<Rightarrow> gen_entry gen c (i + 1)
      | GenDir d \<Rightarrow> if q_path (c_qid c) = q_path (d_qid d) then Some (Some d) else gen_entry gen c (i + 1))"

definition devopen :: "devenv \<Rightarrow> devgen \<Rightarrow> chan \<Rightarrow> u32 \<Rightarrow> ((deverr + unit) \<times> chan) option" where
  "devopen v gen c omode = do {
     r \<leftarrow> gen_entry gen c 0;
     let perm = (case r of
         None \<Rightarrow> Inr ()
       | Some d \<Rightarrow> devpermcheck v (case d_uid d of None \<Rightarrow> [] | Some u \<Rightarrow> u) (d_mode d) omode);
     case perm of
       Inl e \<Rightarrow> Some (Inl e, c)
     | Inr _ \<Rightarrow>
         let c = c\<lparr>c_offset := 0\<rparr> in
         if q_type (c_qid c) AND QTDIR \<noteq> 0 \<and> omode \<noteq> 0 then Some (Inl DevEperm, c)
         else (case openmode omode of
                 Inl e \<Rightarrow> Some (Inl e, c)
               | Inr m \<Rightarrow> Some (Inr (), c\<lparr>c_mode := ucast m, c_flag := c_flag c OR COPEN\<rparr>))
   }"

end
