(* ===== verification/DevTab.thy ===== *)
theory DevTab
  imports Dev
begin

text \<open>
  The device toolkit keeps the walk contract, whatever the generator; on a table (\<open>devgen\<close>) its loops end,
  and walk, stat and directory reads answer with the entries of the table.
\<close>

lemma bind_Some_iff: "Option.bind m f = Some r \<longleftrightarrow> (\<exists>x. m = Some x \<and> f x = Some r)"
  by (cases m) auto

lemma devwalk_loop_qids:
  "devwalk_loop gen dot ns nc qs = Some (Inr (nc', qs')) \<Longrightarrow>
   length qs \<le> length qs' \<and> length qs' \<le> length qs + length ns \<and> (qs = [] \<and> ns \<noteq> [] \<longrightarrow> qs' \<noteq> [])"
proof (induction gen dot ns nc qs rule: devwalk_loop.induct)
  case (2 gen dot n ns nc qs)
  consider "q_type (c_qid nc) AND QTDIR = 0" | "q_type (c_qid nc) AND QTDIR \<noteq> 0" "n = [DOT]"
    | "q_type (c_qid nc) AND QTDIR \<noteq> 0" "n = [DOT, DOT]" | "q_type (c_qid nc) AND QTDIR \<noteq> 0" "n \<noteq> [DOT]" "n \<noteq> [DOT, DOT]"
    by blast
  then show ?case
  proof cases
    case 1
    then show ?thesis using "2.prems" by (auto split: if_splits)
  next
    case 2
    then show ?thesis using "2.IH"(1) "2.prems" by fastforce
  next
    case 3
    then obtain d where "gen nc None (-1) = GenDir d" using "2.prems" by (auto split: genans.splits)
    then show ?thesis using 3 "2.IH"(2) "2.prems" by fastforce
  next
    case 4
    let ?r = "if dot \<noteq> None \<and> dot \<noteq> Some (q_path (c_qid nc)) then Some None else gen_find gen nc n 0"
    obtain r where r: "?r = Some r" using "2.prems" 4 by (auto simp: bind_Some_iff)
    show ?thesis
    proof (cases r)
      case None
      then show ?thesis using r "2.prems" 4 by (auto split: if_splits)
    next
      case (Some d)
      then have "devwalk_loop gen dot ns (nc\<lparr>c_qid := d_qid d\<rparr>) (qs @ [d_qid d]) = Some (Inr (nc', qs'))"
        using r "2.prems" 4 by simp
      from "2.IH"(3) [OF _ _ _ r Some this] 4 show ?thesis by fastforce
    qed
  qed
qed simp

definition dev_device :: "devgen \<Rightarrow> u64 option \<Rightarrow> device" where
  "dev_device gen dot c names = (case dev_walk gen dot c names of Some (Inr r) \<Rightarrow> r | _ \<Rightarrow> None)"

lemma dev_deviceD:
  assumes "dev_device gen dot c names = Some wq"
  obtains nc0 nc qs where "devclone c = Some nc0" "devwalk_loop gen dot names (nc0\<lparr>c_type := 0\<rparr>) [] = Some (Inr (nc, qs))"
    "w_qid wq = qs" "w_clone wq = (if length qs < length names then None else Some (nc\<lparr>c_type := c_type c\<rparr>))"
proof -
  have w: "dev_walk gen dot c names = Some (Inr (Some wq))"
    using assms by (auto simp: dev_device_def split: option.splits sum.splits)
  obtain nc0 r where r: "devclone c = Some nc0" "devwalk_loop gen dot names (nc0\<lparr>c_type := 0\<rparr>) [] = Some r"
    "(case r of Inl e \<Rightarrow> Some (Inr None) | Inr (nc, qids) \<Rightarrow>
        if length qids < length names then Some (Inr (Some \<lparr>w_clone = None, w_qid = qids\<rparr>))
        else Some (Inr (Some \<lparr>w_clone = Some (nc\<lparr>c_type := c_type c\<rparr>), w_qid = qids\<rparr>))) = Some (Inr (Some wq) :: deverr + walkqid option)"
    using w unfolding dev_walk_def bind_Some_iff by (simp only: bind_Some_iff split: if_splits) blast+
  then obtain nc qs where "r = Inr (nc, qs)" by (cases r) auto
  then show thesis using r by (intro that [of nc0 nc qs]) (auto split: if_splits)
qed

lemma devclone_file: "devclone c = Some nc \<Longrightarrow> same_file nc c"
  by (auto simp: devclone_def same_file_def split: if_splits)

interpretation dev: device "dev_device gen dot" for gen dot
proof (unfold_locales, goal_cases)
  case (1 ch es wq)
  from 1(1) obtain nc0 nc qs where "devwalk_loop gen dot es (nc0\<lparr>c_type := 0\<rparr>) [] = Some (Inr (nc, qs))" "w_qid wq = qs"
    "w_clone wq = (if length qs < length es then None else Some (nc\<lparr>c_type := c_type ch\<rparr>))" by (rule dev_deviceD)
  then show ?case using 1(2) devwalk_loop_qids by (fastforce split: if_splits)
next
  case (2 ch es wq)
  from 2(1) obtain nc0 nc qs where "devwalk_loop gen dot es (nc0\<lparr>c_type := 0\<rparr>) [] = Some (Inr (nc, qs))" "w_qid wq = qs"
    "w_clone wq = (if length qs < length es then None else Some (nc\<lparr>c_type := c_type ch\<rparr>))" by (rule dev_deviceD)
  then show ?case using 2(2) devwalk_loop_qids by (fastforce split: if_splits)
next
  case (3 ch wq w)
  from 3(1) obtain nc0 nc qs where "devclone ch = Some nc0" "devwalk_loop gen dot [] (nc0\<lparr>c_type := 0\<rparr>) [] = Some (Inr (nc, qs))"
    "w_clone wq = (if length qs < length ([] :: u8 list list) then None else Some (nc\<lparr>c_type := c_type ch\<rparr>))" by (rule dev_deviceD)
  then show ?case using 3(2) devclone_file by (fastforce simp: same_file_def)
qed

subsection \<open>Tables\<close>

definition entry :: "devenv \<Rightarrow> chan \<Rightarrow> dirtab \<Rightarrow> cstring dir" where
  "entry v c t = devdir v c (t_qid t) (t_name t) (t_length t) (v_eve v) (t_perm t)"

lemma devgen_index: "devgen v (Some (t0 # ts)) c n (int i) = (case drop i ts of [] \<Rightarrow> GenEnd | t # _ \<Rightarrow> GenDir (entry v c t))"
  by (simp add: devgen_def entry_def nat_add_distrib split: list.split)

lemma devgen_dotdot: "devgen v (Some (t0 # ts)) c n (-1) = GenDir (entry v c t0)"
  by (simp add: devgen_def entry_def)

lemma gen_find_table:
  "gen_find (devgen v (Some (t0 # ts))) c n i = Some (map_option (entry v c) (find (\<lambda>t. cstr (t_name t) = n) (drop i ts)))"
proof (induction "drop i ts" arbitrary: i)
  case Nil
  then show ?case by (subst gen_find.simps) (simp add: devgen_index flip: Nil)
next
  case (Cons t us)
  then have "drop (i + 1) ts = us" by (metis drop_Suc tl_drop Suc_eq_plus1 list.sel(3))
  then show ?case using Cons
    by (subst gen_find.simps) (auto simp: devgen_index entry_def devdir_def Let_def simp flip: Cons(2))
qed

lemma devwalk_loop_table: "\<exists>r. devwalk_loop (devgen v (Some (t0 # ts))) dot ns nc qs = Some r"
proof (induction ns arbitrary: nc qs)
  case (Cons n ns)
  then show ?case by (auto simp: devgen_dotdot gen_find_table split: option.splits)
qed simp

lemma dev_walk_table:
  assumes "c_flag c AND COPEN = 0"
  shows "\<exists>r. dev_walk (devgen v (Some (t0 # ts))) dot c names = Some r"
proof -
  obtain nc where nc: "devclone c = Some nc" using assms by (simp add: devclone_def)
  obtain r where "devwalk_loop (devgen v (Some (t0 # ts))) dot names (nc\<lparr>c_type := 0\<rparr>) [] = Some r"
    using devwalk_loop_table by blast
  then show ?thesis using nc by (cases r) (auto simp: dev_walk_def)
qed

lemma entry_qid: "c_flag c AND CMSG = 0 \<Longrightarrow> d_qid (entry v c t) = t_qid t"
  by (simp add: entry_def devdir_def Let_def)

lemma dev_walk_one:
  assumes "c_flag c AND COPEN = 0" "q_type (c_qid c) AND QTDIR \<noteq> 0" "n \<noteq> [DOT]" "n \<noteq> [DOT, DOT]"
    "dot = None \<or> dot = Some (q_path (c_qid c))"
  shows "\<exists>nc. devclone c = Some nc \<and> dev_walk (devgen v (Some (t0 # ts))) dot c [n] = Some (Inr (case find (\<lambda>t. cstr (t_name t) = n) ts of
    None \<Rightarrow> None | Some t \<Rightarrow> Some \<lparr>w_clone = Some (nc\<lparr>c_qid := t_qid t\<rparr>), w_qid = [t_qid t]\<rparr>))"
proof -
  obtain nc where nc: "devclone c = Some nc" "c_type nc = c_type c" "c_qid nc = c_qid c" "c_flag nc AND CMSG = 0"
    using assms(1) by (simp add: devclone_def clear_chan_def)
  have q: "d_qid (entry v (nc\<lparr>c_type := 0\<rparr>) t) = t_qid t" for t using nc(4) by (simp add: entry_qid)
  have "nc\<lparr>c_qid := x, c_type := c_type c\<rparr> = nc\<lparr>c_qid := x\<rparr>" for x using nc(2) by (cases nc) simp
  then show ?thesis using nc assms(2-5)
    by (auto simp: dev_walk_def gen_find_table q split: option.split)
qed

text \<open>How many of the entries fit in \<open>n\<close> bytes.\<close>

fun fit :: "nat \<Rightarrow> cstring dir list \<Rightarrow> nat" where
  "fit n [] = 0"
| "fit n (d # ds) = (if sizeD2M d \<le> n then fit (n - sizeD2M d) ds + 1 else 0)"

lemma sizeD2M_ge: "STATFIXLEN \<le> sizeD2M d"
  by (simp add: sizeD2M_def)

lemma entry_dri [simp]: "entry v (c\<lparr>c_dri := i\<rparr>) t = entry v c t"
  by (simp add: entry_def devdir_def)

text \<open>What a directory read of \<open>n\<close> bytes gives of the entries \<open>es\<close>: as many as fit.\<close>

definition fitting :: "nat \<Rightarrow> cstring dir list \<Rightarrow> cstring dir list" where
  "fitting n es = take (fit n es) es"

lemma dirread_loop_table:
  assumes "c_dri c = int k" "m \<le> length buf"
  shows "\<exists>r buf'. dirread_loop (devgen v (Some (t0 # ts))) c m buf =
      Some (r, buf', c\<lparr>c_dri := int (k + fit (length buf - m) (map (entry v c) (drop k ts)))\<rparr>) \<and> length buf' = length buf \<and>
    take (m + sum_list (map sizeD2M (fitting (length buf - m) (map (entry v c) (drop k ts))))) buf' =
      take m buf @ concat (map wire_dir (fitting (length buf - m) (map (entry v c) (drop k ts)))) \<and>
    r = (if m = 0 \<and> fit (length buf - m) (map (entry v c) (drop k ts)) = 0 \<and> drop k ts \<noteq> [] \<and> buf \<noteq> [] then Inl DevEshort
         else Inr (m + sum_list (map sizeD2M (fitting (length buf - m) (map (entry v c) (drop k ts))))))"
  using assms unfolding fitting_def
proof (induction "drop k ts" arbitrary: k c m buf)
  case Nil
  have "dirread_loop (devgen v (Some (t0 # ts))) c m buf = Some (Inr m, buf, c)"
    by (subst dirread_loop.simps) (simp add: Nil.prems(1) devgen_index flip: Nil.hyps)
  moreover have "c\<lparr>c_dri := int k\<rparr> = c" using Nil.prems(1) by (cases c) simp
  ultimately show ?case by (simp flip: Nil.hyps)
next
  case (Cons t us)
  have us: "drop (Suc k) ts = us" using Cons.hyps(2) by (metis drop_Suc tl_drop list.sel(3))
  let ?d = "entry v c t" let ?c = "c\<lparr>c_dri := c_dri c + 1\<rparr>"
  have c0: "c\<lparr>c_dri := int k\<rparr> = c" using Cons.prems(1) by (cases c) simp
  show ?case
  proof (cases "m < length buf")
    case False
    then have "dirread_loop (devgen v (Some (t0 # ts))) c m buf = Some (Inr m, buf, c)" by (subst dirread_loop.simps) simp
    moreover have "m = length buf" using False Cons.prems(2) by simp
    moreover have "fit 0 (map (entry v c) (drop k ts)) = 0" using sizeD2M_ge [of ?d] by (simp flip: Cons.hyps(2))
    ultimately show ?thesis using c0 by simp
  next
    case True
    have g: "devgen v (Some (t0 # ts)) c None (c_dri c) = GenDir ?d"
      unfolding Cons.prems(1) devgen_index using Cons.hyps(2) by (simp flip: Cons.hyps(2))
    have ge: "STATFIXLEN \<le> sizeD2M ?d" by (rule sizeD2M_ge)
    show ?thesis
    proof (cases "sizeD2M ?d \<le> length buf - m")
      case False
      then obtain rest where "convD2M ?d (drop m buf) = (if length buf - m < BIT16SZ then 0 else BIT16SZ, rest)" "length rest = length buf - m"
        unfolding convD2M_eq by (cases "length buf - m < BIT16SZ") simp_all
      then have "dirread_loop (devgen v (Some (t0 # ts))) c m buf = Some (if m = 0 then Inl DevEshort else Inr m, take m buf @ rest, c)"
        using True by (subst dirread_loop.simps) (simp add: g)
      then have st: "dirread_loop (devgen v (Some (t0 # ts))) c m buf = Some (if m = 0 then Inl DevEshort else Inr m, take m buf @ rest, c)" .
      have f: "fit (length buf - m) (map (entry v c) (drop k ts)) = 0" using False by (simp flip: Cons.hyps(2))
      have ne: "drop k ts \<noteq> []" "buf \<noteq> []" using True by (auto simp flip: Cons.hyps(2))
      show ?thesis unfolding f st
        by (intro exI [of _ "if m = 0 then Inl DevEshort else Inr m"] exI [of _ "take m buf @ rest"])
          (use c0 ne True \<open>length rest = length buf - m\<close> in simp)
    next
      case fits: True
      let ?n = "sizeD2M ?d" let ?b = "take m buf @ wire_dir ?d @ drop ?n (drop m buf)"
      have cv: "convD2M ?d (drop m buf) = (?n, wire_dir ?d @ drop ?n (drop m buf))" using fits ge by (simp add: convD2M_eq)
      have lb: "length ?b = length buf" using fits True by (simp add: length_wire_dir)
      have st: "dirread_loop (devgen v (Some (t0 # ts))) c m buf = dirread_loop (devgen v (Some (t0 # ts))) ?c (m + ?n) ?b"
        using True ge by (subst dirread_loop.simps) (simp add: g cv)
      have h: "us = drop (Suc k) ts" "c_dri ?c = int (Suc k)" "m + ?n \<le> length ?b" using us Cons.prems(1) fits True lb by simp_all
      have e: "map (entry v c) (drop k ts) = ?d # map (entry v c) us" by (simp flip: Cons.hyps(2))
      have nz: "(m + ?n = 0) = False" using ge by simp
      let ?j = "fit (length buf - (m + ?n)) (map (entry v c) us)"
      obtain r buf' where ih: "dirread_loop (devgen v (Some (t0 # ts))) ?c (m + ?n) ?b = Some (r, buf', ?c\<lparr>c_dri := int (Suc k + ?j)\<rparr>)"
        "length buf' = length ?b"
        "take (m + ?n + sum_list (map sizeD2M (take ?j (map (entry v c) us)))) buf' =
          take (m + ?n) ?b @ concat (map wire_dir (take ?j (map (entry v c) us)))"
        "r = Inr (m + ?n + sum_list (map sizeD2M (take ?j (map (entry v c) us))))"
        using Cons.hyps(1) [OF h] unfolding lb us entry_dri using nz by (simp only: simp_thms if_False) blast
      have f: "fit (length buf - m) (?d # map (entry v c) us) = ?j + 1" using fits by simp
      have tk: "take (?j + 1) (?d # map (entry v c) us) = ?d # take ?j (map (entry v c) us)" by simp
      have tb: "take (m + ?n) ?b = take m buf @ wire_dir ?d" using True by (simp add: length_wire_dir)
      have dri: "?c\<lparr>c_dri := int (Suc k + ?j)\<rparr> = c\<lparr>c_dri := int (k + (?j + 1))\<rparr>" by simp
      have nr: "m = 0 \<and> ?j + 1 = 0 \<and> x \<longleftrightarrow> False" for x by simp
      show ?thesis unfolding e f tk st ih(1) dri nr
        using ih(2-4) unfolding lb tb
        by (intro exI [of _ r] exI [of _ buf'] conjI) (simp_all only: list.map sum_list.Cons concat.simps append_assoc add.assoc if_False)
    qed
  qed
qed

end
