(* ===== verification/NsRoot.thy ===== *)
theory NsRoot
  imports DevTab
begin

text \<open>Small name spaces to show the properties at work.\<close>

text \<open>Object 0 is the root's channel, object 1 is its name, with a stack of mount points.\<close>

definition root_chan :: chan where
  "root_chan = (clear_chan chan0)\<lparr>c_qid := \<lparr>q_path = 0, q_vers = 0, q_type = 0x80\<rparr>, c_name := Some 1\<rparr>"

definition root_name :: cname where
  "root_name = \<lparr>n_ref = 1, n_s = [SLASH, 0], n_len = 1, n_mtpt = [], n_malen = 0\<rparr>"

definition tiny :: "int \<Rightarrow> int \<Rightarrow> nat option list \<Rightarrow> store" where
  "tiny x y st = \<lparr>s_heap = [OChan (root_chan\<lparr>c_ref := x\<rparr>), OName (root_name\<lparr>n_ref := y, n_mtpt := st, n_malen := length st\<rparr>)],
     s_free = [], s_fid = 1, s_ncname = 1, s_mountid = 1, s_ev = []\<rparr>"

lemma tiny_get: "get (tiny x y st) i = (if i = 0 then OChan (root_chan\<lparr>c_ref := x\<rparr>)
    else if i = 1 then OName (root_name\<lparr>n_ref := y, n_mtpt := st, n_malen := length st\<rparr>) else OFree)"
  by (auto simp: get_def tiny_def less_Suc_eq)

lemma tiny_at: "chan_at (tiny x y st) 0 = Some (root_chan\<lparr>c_ref := x\<rparr>)"
  "name_at (tiny x y st) 1 = Some (root_name\<lparr>n_ref := y, n_mtpt := st, n_malen := length st\<rparr>)"
  by (simp_all add: chan_at_def name_at_def tiny_get)

text \<open>It is a good store when the counts are those of the stack and of the references \<open>R\<close> held outside.\<close>

lemma tiny_inv:
  assumes "x = int (count (slot_refs st + R) (PC 0))" "y = int (count R (PN 1)) + 1" "x > 0"
    "\<And>p. p \<in># slot_refs st \<Longrightarrow> p = PC 0" "\<And>p. p \<in># R \<Longrightarrow> p = PC 0 \<or> p = PN 1"
  shows "chinv (tiny x y st) {#} R []"
proof -
  let ?s = "tiny x y st"
  have l: "live ?s p \<longleftrightarrow> p = PC 0 \<or> p = PN 1" for p
    by (cases p) (auto simp: live_def tiny_get root_chan_def clear_chan_def cfree_def)
  have o: "owned ?s = add_mset (PN 1) (slot_refs st)"
    by (simp add: owned_def tiny_def root_chan_def clear_chan_def chan0_def cfree_def)
  have n: "count (slot_refs st) (PN 1) = 0" using assms(4) [of "PN 1"] by (simp flip: not_in_iff) blast
  have "count (slot_refs st + R) (PC 0) > 0" using assms(1,3) by linarith
  then have p: "PC 0 \<in># slot_refs st + R" by (simp only: count_greater_zero_iff)
  have "refs ?s R" unfolding refs_def l o using assms n p by (auto simp: tiny_get)
  moreover have "objs_ok ?s {#}"
    by (auto simp: objs_ok_def tiny_get root_name_def wf_name_def wf_str_def strlen_def)
  moreover have "names_ok ?s" by (simp add: names_ok_def tiny_def isname_def)
  ultimately show ?thesis by (simp add: chinv_def trefs_def free_ok_def tiny_def)
qed

text \<open>The root held by one process.\<close>

definition root_store :: store where
  "root_store = tiny 1 1 []"

definition root_pgrp :: pgrp where
  "root_pgrp = \<lparr>g_ref = 1, g_id = 1, g_mnthash = replicate 32 [], g_progmode = 420, g_dot = None, g_slash = None, g_nodevs = False\<rparr>"

lemma root_at: "chan_at root_store 0 = Some root_chan" "name_at root_store 1 = Some root_name"
  using tiny_at [of 1 1 "[]"] by (simp_all add: root_store_def root_chan_def root_name_def clear_chan_def)

lemma root_inv: "chinv root_store {#} {#PC 0#} []"
  unfolding root_store_def by (rule tiny_inv) (simp_all add: slot_refs_def split: if_splits)

lemma root_tab: "tab_ok root_pgrp s {#}"
  by (simp add: tab_ok_def root_pgrp_def concat_replicate_trivial)

text \<open>The same with slot 0 of the name set, as a walk pins it, and the references a walk takes.\<close>

definition pinned_store :: store where
  "pinned_store = tiny 3 2 [Some 0]"

lemma pinned_inv: "chinv pinned_store {#} {#PN 1, PC 0, PC 0#} []"
  unfolding pinned_store_def by (rule tiny_inv) (auto simp: slot_refs_def)

lemma pinned_at: "name_at pinned_store 1 = Some (root_name\<lparr>n_ref := 2, n_mtpt := [Some 0], n_malen := 1\<rparr>)"
  unfolding pinned_store_def using tiny_at(2) [of 3 2 "[Some 0]"] by simp

text \<open>A process whose root and working directory are the root.\<close>

definition home_store :: store where
  "home_store = tiny 2 1 []"

definition home_pgrp :: pgrp where
  "home_pgrp = root_pgrp\<lparr>g_slash := Some 0, g_dot := Some 0\<rparr>"

lemma home_inv: "chinv home_store {#} {#PC 0, PC 0#} []"
  unfolding home_store_def by (rule tiny_inv) (auto simp: slot_refs_def)

lemma home_tab: "tab_ok home_pgrp s {#}"
  by (simp add: tab_ok_def home_pgrp_def root_pgrp_def concat_replicate_trivial)

text \<open>A device with nothing but its root.\<close>

definition env0 :: devenv where
  "env0 = \<lparr>v_eve = [105], v_user = [105], v_time = 0, v_kerndate = 0, v_dc = (\<lambda>_. 99)\<rparr>"

definition root_dev :: device where
  "root_dev = dev_device (devgen env0 None) None"

lemma root_dev: "device root_dev"
  unfolding root_dev_def by (rule dev.device_axioms)

end
