(* ===== verification/WalkSpec.thy ===== *)
theory WalkSpec
  imports DevSpec
begin

text \<open>
  \<open>walk\<close> keeps the counts: from the mount table up to the whole walk.
\<close>

definition mpref :: "nat option option \<Rightarrow> ptr multiset" where
  "mpref mp = (case mp of None \<Rightarrow> {#} | Some m \<Rightarrow> optr PH m)"

lemma mpref_simps [simp]: "mpref None = {#}" "mpref (Some m) = optr PH m"
  by (simp_all add: mpref_def)

text \<open>The string of a name, and that the names held keep theirs.\<close>

definition named :: "store \<Rightarrow> nat \<Rightarrow> u8 list \<Rightarrow> bool" where
  "named s n t \<longleftrightarrow> (\<exists>nm. name_at s n = Some nm \<and> cstr (n_s nm) = t)"

definition nsame :: "ptr multiset \<Rightarrow> store \<Rightarrow> store \<Rightarrow> bool" where
  "nsame R s s' \<longleftrightarrow> (\<forall>n t. PN n \<in># R \<longrightarrow> named s n t \<longrightarrow> named s' n t)"

lemma nsame_refl [simp]: "nsame R s s"
  by (simp add: nsame_def)

lemma nsame_trans: "nsame R s t \<Longrightarrow> nsame R t u \<Longrightarrow> nsame R s u"
  by (simp add: nsame_def)

lemma nsameD: "nsame R s s' \<Longrightarrow> PN n \<in># R \<Longrightarrow> named s n t \<Longrightarrow> named s' n t"
  by (simp add: nsame_def)

lemma nsame_parts [simp]: "nsame (A + B) s s' \<longleftrightarrow> nsame A s s' \<and> nsame B s s'"
  "nsame (add_mset (PC i) A) s s' \<longleftrightarrow> nsame A s s'" "nsame (add_mset (PH i) A) s s' \<longleftrightarrow> nsame A s s'"
  "nsame (add_mset (PN n) A) s s' \<longleftrightarrow> (\<forall>t. named s n t \<longrightarrow> named s' n t) \<and> nsame A s s'"
  by (auto simp: nsame_def)

lemma nsame_opt [simp]: "nsame (optr PC c) s s'" "nsame (optr PH h) s s'" "nsame (mpref mp) s s'"
proof -
  show "nsame (optr PC c) s s'" by (cases c) (simp_all add: nsame_def)
  show h: "nsame (optr PH h) s s'" for h by (cases h) (simp_all add: nsame_def)
  show "nsame (mpref mp) s s'" using h by (cases mp) (simp_all add: nsame_def)
qed

lemma named_set_ref: "get s' i = set_ref x (get s i) \<Longrightarrow> named s i t \<Longrightarrow> named s' i t"
  by (auto simp: named_def name_at_def split: obj.splits)

lemma nsame_reref: "reref s s' \<Longrightarrow> nsame R s s'"
  unfolding nsame_def reref_def using named_set_ref by metis

lemma named_shrinks: "shrinks s s' \<Longrightarrow> live s' (PN n) \<Longrightarrow> named s n t \<Longrightarrow> named s' n t"
  using shrinks_live [of s s' "PN n"] named_set_ref [of s' n _ s t] by auto

lemma nsame_shrinks: "post T R s0 s' \<Longrightarrow> shrinks s s' \<Longrightarrow> nsame R s s'"
  unfolding nsame_def using named_shrinks post_live by blast

lemma nsame_adds: "chinv s T R P \<Longrightarrow> adds p s s' \<Longrightarrow> nsame R s s'"
  unfolding nsame_def
proof (intro allI impI)
  fix n t assume a: "chinv s T R P" "adds p s s'" "PN n \<in># R" "named s n t"
  have "live s (PN n)" using a(1,3) by (simp add: chinv_def refs_def)
  then have "n \<noteq> p" using a(2) by (auto simp: adds_def)
  then obtain x where "get s' n = set_ref x (get s n)" using a(2) unfolding adds_def by blast
  then show "named s' n t" using a(4) by (rule named_set_ref)
qed

lemma named_put_chan: "chan_at s p = Some c \<Longrightarrow> named (put p (OChan d) s) n t = named s n t"
  by (auto simp: named_def name_at_def get_put dest: chan_atD)

lemma nsame_put_chan: "chan_at s p = Some c \<Longrightarrow> nsame R s (put p (OChan d) s)"
  by (simp add: nsame_def named_put_chan)

lemma incref_reref: "incref i s = Some s' \<Longrightarrow> reref s s'"
  by (auto simp: incref_def reref_put split: if_splits)

lemma take_head:
  assumes "chinv s T (mpref mp + R) []" "live s (PH h)"
  shows "runs (case mp of None \<Rightarrow> Some (None, s) | Some cur \<Rightarrow> do { s \<leftarrow> incref h s; s \<leftarrow> putmhead cur s; Some (Some (Some h), s) })
    (\<lambda>(mp', s'). post T (mpref mp' + R) s s' \<and> nsame R s s' \<and> mp' = map_option (\<lambda>_. Some h) mp)"
proof (cases mp)
  case None
  then show ?thesis using assms by (simp add: post_refl)
next
  case (Some cur)
  from runsD [OF incref_runs [OF assms refl]] obtain s1 where s1: "incref h s = Some s1"
    "post T (add_mset (PH h) (mpref mp + R)) s s1" by auto
  have "chinv s1 T (optr PH cur + add_mset (PH h) R) []" using postD [OF s1(2)] Some by simp
  from runsD [OF putmhead_ok [OF this]] obtain s2 where
    s2: "putmhead cur s1 = Some s2" "post T (add_mset (PH h) R) s1 s2" "shrinks s1 s2" by auto
  then show ?thesis using Some s1 nsame_trans [OF nsame_reref [OF incref_reref [OF s1(1)]], of R s2] nsame_shrinks [OF s2(2,3)]
    by (auto intro: post_trans)
qed

lemma findmount_ok:
  assumes "chinv s T (optr PC cp + mpref mp + R) []" "tab_ok pg s T"
  shows "runs (findmount cp mp type dev qid pg s) (\<lambda>(found, cp', mp', s').
    post T (optr PC cp' + mpref mp' + R) s s' \<and> nsame R s s' \<and> (\<not> found \<longrightarrow> cp' = cp \<and> mp' = mp \<and> s' = s) \<and>
    (found \<longrightarrow> (\<exists>h f. (h, f) \<in># T \<and> mp' = map_option (\<lambda>_. Some h) mp) \<and> cp' \<noteq> None))"
proof -
  obtain r where r: "find_head (\<lambda>f. eqchantdqid f type dev qid True) (g_mnthash pg ! MOUNTH qid) s = Some r"
    "\<And>h. r = Some h \<Longrightarrow> h \<in> set (g_mnthash pg ! MOUNTH qid)"
    using find_head_ok [OF assms(1), of "g_mnthash pg ! MOUNTH qid"] chain_table [OF assms(2)] by blast
  show ?thesis
  proof (cases r)
    case None
    then show ?thesis using r(1) assms(1) by (simp add: findmount_def post_refl)
  next
    case (Some h)
    obtain f where f: "(h, f) \<in># T" using chain_table [OF assms(2) r(2) [OF Some]] by blast
    have "chinv s T (mpref mp + (optr PC cp + R)) []" using assms(1) by (simp add: ac_simps)
    from runsD [OF take_head [OF this table_head(2) [OF assms(1) f]]] obtain mp1 s1 where s1:
      "(case mp of None \<Rightarrow> Some (None, s) | Some cur \<Rightarrow> do { s \<leftarrow> incref h s; s \<leftarrow> putmhead cur s; Some (Some (Some h), s) }) = Some (mp1, s1)"
      "post T (mpref mp1 + (optr PC cp + R)) s s1" "mp1 = map_option (\<lambda>_. Some h) mp" "nsame R s s1" by auto
    have "chinv s1 T (optr PC cp + (mpref mp1 + R)) []" using postD [OF s1(2)] by (simp add: ac_simps)
    from runsD [OF cclose_ok [OF this]] obtain s2 where s2: "cclose cp s1 = Some s2" "post T (mpref mp1 + R) s1 s2" "nsame R s1 s2"
      using nsame_shrinks by fastforce
    have p2: "post T (mpref mp1 + R) s s2" using s1(2) s2(2) by (rule post_trans)
    have "tab_ok pg s2 T" using assms(2) p2 assms(1) by (rule tab_post)
    from table_mounts [OF this postD [OF p2] f] obtain m g gs where m: "head_at s2 h = Some m" "h_mount m = g # gs"
      "live s2 (PC (m_to g))" by (metis list.set_intros(1))
    from runsD [OF incref_runs [OF postD [OF p2] m(3) refl]] obtain s3 where s3: "incref (m_to g) s2 = Some s3"
      "post T (add_mset (PC (m_to g)) (mpref mp1 + R)) s2 s3" by auto
    have "post T (optr PC (Some (m_to g)) + mpref mp1 + R) s s3" using post_trans [OF p2 s3(2)] by simp
    moreover have "nsame R s s3" using s1(4) s2(3) nsame_reref [OF incref_reref [OF s3(1)]] by (blast intro: nsame_trans)
    ultimately show ?thesis
      using Some r(1) s1(1,3) s2(1) s3(1) m f by (auto simp: findmount_def mounts_of_def)
  qed
qed

lemma domount_ok:
  assumes "chinv s T (add_mset (PC c) (add_mset (PN n) (optr PH m + R))) []" "tab_ok pg s T"
  shows "runs (domount c m (Some n) pg s) (\<lambda>(found, c', m', nm, s'). \<exists>n'. nm = Some n' \<and>
    post T (add_mset (PC c') (add_mset (PN n') (optr PH m' + R))) s s' \<and> (\<forall>t. named s n t \<longrightarrow> named s' n' t) \<and>
    (\<not> found \<longrightarrow> m' = m) \<and> (found \<longrightarrow> (\<exists>h f. (h, f) \<in># T \<and> m' = Some h)))"
proof -
  obtain ch where ch: "chan_at s c = Some ch" using chan_live [OF chinv_held [OF assms(1), of "PC c"]] by auto
  have "chinv s T (optr PC (Some c) + mpref (Some m) + add_mset (PN n) R) []" using assms(1) by (simp add: add_mset_commute)
  from runs4D [OF findmount_ok [OF this assms(2), of "c_type ch" "c_dev ch" "c_qid ch"]] obtain found cp mp s1 where
    s1: "findmount (Some c) (Some m) (c_type ch) (c_dev ch) (c_qid ch) pg s = Some (found, cp, mp, s1)"
    "post T (optr PC cp + mpref mp + add_mset (PN n) R) s s1" "\<not> found \<longrightarrow> cp = Some c \<and> mp = Some m"
    "found \<longrightarrow> (\<exists>h f. (h, f) \<in># T \<and> mp = Some (Some h)) \<and> cp \<noteq> None" "nsame (add_mset (PN n) R) s s1"
    unfolding option.map by blast
  show ?thesis
  proof (cases found)
    case False
    then show ?thesis using s1 ch by (auto simp: domount_def add_mset_commute)
  next
    case True
    then obtain h f c1 where h: "(h, f) \<in># T" "mp = Some (Some h)" "cp = Some c1" using s1(4) by auto
    have i1: "chinv s1 T (add_mset (PN n) (add_mset (PC c1) (add_mset (PH h) R))) []"
      using postD [OF s1(2)] h by (simp add: add_mset_commute)
    obtain nm where nm: "name_at s1 n = Some nm" using chinv_held [OF i1, of "PN n"] by (auto simp: live_name)
    obtain mh where mh: "head_at s1 h = Some mh" "h_from mh = Some f" using table_head(1) [OF i1 h(1)] by blast
    have "PC f \<in># trefs T" using h(1) by (force simp: trefs_def)
    then have "runs (cnamecross n (h_from mh) s1) (\<lambda>(n', s'). post T (add_mset (PN n') (add_mset (PC c1) (add_mset (PH h) R))) s1 s' \<and>
        named s' n' (cstr (n_s nm)))"
      using mh(2) by (intro runs_mono [OF cnamecross_ok [OF i1 nm]]) (auto simp: named_def)
    then obtain n2 s2 where s2: "cnamecross n (h_from mh) s1 = Some (n2, s2)"
      "post T (add_mset (PN n2) (add_mset (PC c1) (add_mset (PH h) R))) s1 s2" "named s2 n2 (cstr (n_s nm))"
      unfolding runs_def by auto
    have "named s2 n2 t" if "named s n t" for t using s1(5) that nm s2(3) by (auto simp: named_def)
    moreover
    have "post T (add_mset (PC c1) (add_mset (PN n2) (optr PH (Some h) + R))) s s2"
      using post_trans [OF s1(2) s2(2)] by (simp add: add_mset_commute)
    ultimately show ?thesis using True s1(1) ch h mh s2(1) by (auto simp: domount_def)
  qed
qed

lemma mounts_of_ok:
  assumes "tab_ok pg s T" "chinv s T R P" "(h, f) \<in># T"
  obtains g gs where "mounts_of (Some h) s = Some (g # gs)" "\<And>x. x \<in> set (g # gs) \<Longrightarrow> live s (PC (m_to x))"
proof -
  obtain m g gs where "head_at s h = Some m" "h_mount m = g # gs" "\<And>x. x \<in> set (g # gs) \<Longrightarrow> live s (PC (m_to x))"
    using table_mounts [OF assms] by blast
  then show thesis by (intro that [of g gs]) (simp_all add: mounts_of_def)
qed

lemma mheadflag_ok:
  assumes "tab_ok pg s T" "chinv s T R P" "(h, f) \<in># T"
  shows "\<exists>x. mheadflag (Some h) s = Some x"
proof -
  obtain g gs where "mounts_of (Some h) s = Some (g # gs)" using mounts_of_ok [OF assms] by blast
  then show ?thesis by (simp add: mheadflag_def)
qed

lemma crossing_ok:
  assumes "chinv s T R []" "tab_ok pg s T"
  shows "runs (crossing i type dev qs pg s) (\<lambda>(r, s'). case r of None \<Rightarrow> s' = s
    | Some (j, nc, nmh) \<Rightarrow> i \<le> j \<and> j < i + length qs \<and> (\<exists>f. (nmh, f) \<in># T) \<and>
        post T (add_mset (PC nc) (add_mset (PH nmh) R)) s s' \<and> nsame R s s')"
proof (induction qs arbitrary: i)
  case (Cons q qs)
  have "chinv s T (optr PC None + mpref (Some None) + R) []" using assms(1) by simp
  from runs4D [OF findmount_ok [OF this assms(2), of type dev q]] obtain found cp mp s1 where s1:
    "findmount None (Some None) type dev q pg s = Some (found, cp, mp, s1)"
    "post T (optr PC cp + mpref mp + R) s s1" "\<not> found \<longrightarrow> s1 = s"
    "found \<longrightarrow> (\<exists>h f. (h, f) \<in># T \<and> mp = Some (Some h)) \<and> cp \<noteq> None" "nsame R s s1" unfolding option.map by blast
  show ?case
  proof (cases found)
    case True
    then obtain h f c1 where h: "(h, f) \<in># T" "mp = Some (Some h)" "cp = Some c1" using s1(4) by auto
    then have "post T (add_mset (PC c1) (add_mset (PH h) R)) s s1" using s1(2) by (simp add: add_mset_commute)
    then show ?thesis using True s1(1,5) h by auto
  next
    case False
    then show ?thesis using s1(1,3) Cons.IH [of "i + 1"] by (auto elim!: runs_mono split: option.splits)
  qed
qed simp

lemma elem_step_ok:
  assumes "chinv s T (add_mset (PN n) R) []" "name_at s n = Some nm" "nul_free e" "\<And>c. mp = Some c \<Longrightarrow> PC c \<in># trefs T"
  shows "runs (do { (n, s) \<leftarrow> addelem n e s; s \<leftarrow> cnamepush n mp s; Some (n, s) }) (\<lambda>(n', s').
    post T (add_mset (PN n') R) s s' \<and> (\<exists>nm'. name_at s' n' = Some nm' \<and>
      cstr (n_s nm') = elem_name (cstr (n_s nm)) e \<and> n_mtpt nm' = elem_stack (n_mtpt nm) e @ [mp]))"
proof -
  from runs2D [OF addelem_ok [OF assms(1-3)]] obtain n1 s1 nm1 where s1: "addelem n e s = Some (n1, s1)"
    "post T (add_mset (PN n1) R) s s1" "name_at s1 n1 = Some nm1" "cstr (n_s nm1) = elem_name (cstr (n_s nm)) e"
    "n_mtpt nm1 = elem_stack (n_mtpt nm) e" by blast
  have l: "live s1 (PC c)" if "mp = Some c" for c
    using postD [OF s1(2)] assms(4) [OF that] by (simp add: chinv_def refs_def)
  from runsD [OF cnamepush_ok [OF postD [OF s1(2)] s1(3), of mp]] l obtain s2 k where "cnamepush n1 mp s1 = Some s2"
    "post T (add_mset (PN n1) R) s1 s2" "name_at s2 n1 = Some (nm1\<lparr>n_mtpt := n_mtpt nm1 @ [mp], n_malen := k\<rparr>)" by auto
  then show ?thesis using s1 by (auto intro: post_trans)
qed

text \<open>What the elements \<open>es\<close> make of a name, \<open>from\<close> in the last slot.\<close>

fun push_name :: "u8 list \<Rightarrow> u8 list list \<Rightarrow> u8 list" where
  "push_name t [] = t"
| "push_name t (e # es) = push_name (elem_name t e) es"

fun push_stack :: "nat option list \<Rightarrow> u8 list list \<Rightarrow> nat option \<Rightarrow> nat option list" where
  "push_stack ms [] from = ms"
| "push_stack ms (e # es) from = push_stack (elem_stack ms e @ [if es = [] then from else None]) es from"

lemma push_elems_ok:
  assumes "chinv s T (add_mset (PN n) R) []" "name_at s n = Some nm" "list_all nul_free es"
    "case nmh of None \<Rightarrow> from = None | Some h \<Rightarrow> \<exists>f. (h, f) \<in># T \<and> from = Some f"
  shows "runs (push_elems es nmh n s) (\<lambda>(n', s'). post T (add_mset (PN n') R) s s' \<and> (\<exists>nm'. name_at s' n' = Some nm' \<and>
      cstr (n_s nm') = push_name (cstr (n_s nm)) es \<and> n_mtpt nm' = push_stack (n_mtpt nm) es from))"
  using assms(1-3)
proof (induction es arbitrary: n nm s)
  case Nil
  then show ?case by (simp add: post_refl)
next
  case (Cons e es)
  let ?mp = "if es = [] then from else None"
  have e: "nul_free e" "list_all nul_free es" using Cons.prems(3) by simp_all
  have fr: "PC c \<in># trefs T" if "?mp = Some c" for c
    using that assms(4) by (force simp: trefs_def split: option.splits if_splits)
  from runs2D [OF addelem_ok [OF Cons.prems(1,2) e(1)]] obtain n1 s1 where s1: "addelem n e s = Some (n1, s1)"
    "post T (add_mset (PN n1) R) s s1" by blast
  have mp: "(case nmh of Some m \<Rightarrow> if es = [] then map_option h_from (head_at s1 m) else Some None | None \<Rightarrow> Some None) = Some ?mp"
    using assms(4) table_head(1) [OF postD [OF s1(2)]] by (auto split: option.splits)
  from runs2D [OF elem_step_ok [OF Cons.prems(1,2) e(1) fr]] obtain n2 s2 nm2 where s2:
    "(do { (n, s) \<leftarrow> addelem n e s; s \<leftarrow> cnamepush n ?mp s; Some (n, s) }) = Some (n2, s2)"
    "post T (add_mset (PN n2) R) s s2" "name_at s2 n2 = Some nm2" "cstr (n_s nm2) = elem_name (cstr (n_s nm)) e"
    "n_mtpt nm2 = elem_stack (n_mtpt nm) e @ [?mp]" by blast
  then have p: "cnamepush n1 ?mp s1 = Some s2" "n2 = n1" using s1(1) by (auto split: option.splits bind_splits)
  from runs2D [OF Cons.IH [OF postD [OF s2(2)] s2(3) e(2)]] obtain n3 s3 nm3 where
    "push_elems es nmh n2 s2 = Some (n3, s3)" "post T (add_mset (PN n3) R) s2 s3" "name_at s3 n3 = Some nm3"
    "cstr (n_s nm3) = push_name (cstr (n_s nm2)) es" "n_mtpt nm3 = push_stack (n_mtpt nm2) es from" by blast
  then show ?case using s1(1) mp p s2 by (auto intro: post_trans)
qed

subsection \<open>One turn of the loop\<close>

definition intab :: "nat option \<Rightarrow> mtab \<Rightarrow> bool" where
  "intab mh T \<longleftrightarrow> (\<forall>h. mh = Some h \<longrightarrow> (\<exists>f. (h, f) \<in># T))"

definition winv :: "pgrp \<Rightarrow> mtab \<Rightarrow> ptr multiset \<Rightarrow> wstate \<Rightarrow> store \<Rightarrow> bool" where
  "winv pg T R st s \<longleftrightarrow> chinv s T (add_mset (PC (w_c st)) (add_mset (PN (w_name st)) (optr PH (w_mh st) + R))) [] \<and>
     tab_ok pg s T \<and> intab (w_mh st) T"

text \<open>
  What a turn may end in: an error with everything it held given back, an error raised with what it held
  left counted, or the next turn, with some of the elements to come added to the name \<open>t\<close> it started with.
\<close>

definition stepped :: "pgrp \<Rightarrow> mtab \<Rightarrow> ptr multiset \<Rightarrow> nat \<Rightarrow> u8 list list \<Rightarrow> u8 list \<Rightarrow> store \<Rightarrow> wres + wstate \<Rightarrow> store \<Rightarrow> bool" where
  "stepped pg T R have names t s r s' \<longleftrightarrow> (case r of
     Inl (WErr k e) \<Rightarrow> post T R s s' \<and> have \<le> k \<and> k \<le> length names
   | Inl WRaise \<Rightarrow> \<exists>L. post T (L + R) s s'
   | Inl (WDone c n mh) \<Rightarrow> False
   | Inr st \<Rightarrow> have < w_have st \<and> w_have st \<le> length names \<and> winv pg T R st s' \<and> keeps T s s' \<and>
       named s' (w_name st) (push_name t (take (w_have st - have) (drop have names))))"

definition wq_ok :: "u8 list list \<Rightarrow> nat option \<times> qid list \<Rightarrow> bool" where
  "wq_ok es w \<longleftrightarrow> (if fst w = None then snd w \<noteq> [] \<and> length (snd w) < length es else length (snd w) = length es)"

lemma stepped_trans:
  assumes "stepped pg T R h names t s1 r s2" "keeps T s s1"
  shows "stepped pg T R h names t s r s2"
  using assms by (auto simp: stepped_def post_def intro: keeps_trans split: sum.splits wres.splits)

lemma batch_ok:
  assumes "rest \<noteq> []" "batch rest = (dotdot, ntry)"
  shows "0 < ntry" "ntry \<le> length rest" "ntry \<le> MAXWELEM" "dotdot \<Longrightarrow> ntry = 1 \<and> isdotdot (hd rest)"
    "\<not> dotdot \<Longrightarrow> list_all (\<lambda>e. \<not> isdotdot e) (take ntry rest)"
proof -
  let ?n = "min (length rest) MAXWELEM" let ?k = "length (takeWhile (\<lambda>e. \<not> isdotdot e) (take ?n rest))"
  have n: "(if length rest > MAXWELEM then MAXWELEM else length rest) = ?n" "0 < ?n" using assms(1) by auto
  have b: "(dotdot, ntry) = (if ?k < ?n then if ?k = 0 then (True, 1) else (False, ?k) else (False, ?n))"
    using assms(2) unfolding batch_def has_dotdot_def Let_def n(1) by (auto split: if_splits)
  have k: "?k \<le> ?n" using length_takeWhile_le [of "\<lambda>e. \<not> isdotdot e" "take ?n rest"] by simp
  have "0 < ntry \<and> ntry \<le> m" if "(dotdot, ntry) = (if i < m then if i = 0 then (True, 1) else (False, i) else (False, m))"
    "0 < m" for i m :: nat using that by (auto split: if_splits)
  from this [OF b n(2)] show "0 < ntry" "ntry \<le> length rest" "ntry \<le> MAXWELEM" by simp_all
  show "ntry = 1 \<and> isdotdot (hd rest)" if dotdot
  proof -
    have z: "i = 0 \<and> ntry = 1" if "(dotdot, ntry) = (if i < m then if i = 0 then (True, 1) else (False, i) else (False, m))" dotdot
      for i m :: nat using that by (auto split: if_splits)
    have "takeWhile (\<lambda>e. \<not> isdotdot e) (take ?n rest) = []" "ntry = 1" using z [OF b that] by simp_all
    moreover obtain e es where r: "rest = e # es" using assms(1) by (cases rest) auto
    moreover have "take ?n rest = e # take (?n - 1) es" unfolding r by (simp add: take_Cons')
    ultimately show ?thesis by (auto split: if_splits)
  qed
  show "list_all (\<lambda>e. \<not> isdotdot e) (take ntry rest)" if "\<not> dotdot"
  proof -
    have "ntry = i" if "(dotdot, ntry) = (if i < m then if i = 0 then (True, 1) else (False, i) else (False, m))"
      "i \<le> m" for i m :: nat using that \<open>\<not> dotdot\<close> by (auto split: if_splits)
    from this [OF b k] have ntry: "ntry = ?k" .
    have "takeWhile (\<lambda>e. \<not> isdotdot e) (take ?n rest) = take ?k (take ?n rest)" by (rule takeWhile_eq_take)
    also have "\<dots> = take ntry rest" using k by (simp only: take_take min.absorb1 ntry)
    finally have "take ntry rest = takeWhile (\<lambda>e. \<not> isdotdot e) (take ?n rest)" ..
    then show ?thesis by (auto simp: list_all_iff dest: set_takeWhileD)
  qed
qed

lemma walk_fail_ok:
  assumes "chinv s T (add_mset (PC c) (add_mset (PN n) (optr PH mh + R))) []"
  shows "\<exists>s'. walk_fail c n mh k e s = Some (Inl (WErr k e), s') \<and> post T R s s'"
proof -
  have "chinv s T (optr PC (Some c) + (add_mset (PN n) (optr PH mh + R))) []" using assms by (simp add: add_mset_commute)
  from runsD [OF cclose_ok [OF this]] obtain s1 where s1: "cclose (Some c) s = Some s1"
    "post T (add_mset (PN n) (optr PH mh + R)) s s1" by auto
  have "chinv s1 T (optr PN (Some n) + (optr PH mh + R)) []" using postD [OF s1(2)] by simp
  from runsD [OF cnameclose_ok [OF this]] obtain s2 where s2: "cnameclose (Some n) s1 = Some s2"
    "post T (optr PH mh + R) s1 s2" by auto
  from runsD [OF putmhead_ok [OF postD [OF s2(2)]]] obtain s3 where "putmhead mh s2 = Some s3" "post T R s2 s3" by auto
  then show ?thesis using s1 s2 by (auto simp: walk_fail_def intro: post_trans)
qed

lemma walk_notdir_ok:
  assumes "chinv s T (add_mset (PC c) (add_mset (PN n) (optr PH mh + R))) []"
  shows "\<exists>s1 s2 s3. cnameclose (Some n) s = Some s1 \<and> cclose (Some c) s1 = Some s2 \<and> putmhead mh s2 = Some s3 \<and> post T R s s3"
proof -
  have "chinv s T (optr PN (Some n) + (add_mset (PC c) (optr PH mh + R))) []" using assms by (simp add: add_mset_commute)
  from runsD [OF cnameclose_ok [OF this]] obtain s1 where s1: "cnameclose (Some n) s = Some s1"
    "post T (add_mset (PC c) (optr PH mh + R)) s s1" by auto
  have "chinv s1 T (optr PC (Some c) + (optr PH mh + R)) []" using postD [OF s1(2)] by simp
  from runsD [OF cclose_ok [OF this]] obtain s2 where s2: "cclose (Some c) s1 = Some s2"
    "post T (optr PH mh + R) s1 s2" by auto
  from runsD [OF putmhead_ok [OF postD [OF s2(2)]]] obtain s3 where "putmhead mh s2 = Some s3" "post T R s2 s3" by auto
  then show ?thesis using s1 s2 by (auto intro: post_trans)
qed

lemma walk_next_ok:
  assumes "chinv s T (add_mset (PC c) (optr PH mh + (add_mset (PC (w_c st)) (add_mset (PN (w_name st)) (optr PH (w_mh st) + R))))) []"
    "tab_ok pg s T" "intab (w_mh st) T"
  shows "\<exists>s'. walk_next c mh st s = Some (Inr st, s') \<and> winv pg T R st s' \<and> keeps T s s' \<and>
    (\<forall>t. named s (w_name st) t \<longrightarrow> named s' (w_name st) t)"
proof -
  let ?R = "add_mset (PC (w_c st)) (add_mset (PN (w_name st)) (optr PH (w_mh st) + R))"
  have "chinv s T (optr PC (Some c) + (optr PH mh + ?R)) []" using assms(1) by (simp add: add_mset_commute)
  from runsD [OF cclose_ok [OF this]] obtain s1 where s1: "cclose (Some c) s = Some s1" "post T (optr PH mh + ?R) s s1" "shrinks s s1" by auto
  from runsD [OF putmhead_ok [OF postD [OF s1(2)]]] obtain s2 where s2: "putmhead mh s1 = Some s2" "post T ?R s1 s2" "shrinks s1 s2" by auto
  have "nsame ?R s s1" using nsame_shrinks [OF s1(2,3)] unfolding nsame_parts(1) by blast
  then have "nsame ?R s s2" using nsame_shrinks [OF s2(2,3)] by (rule nsame_trans)
  moreover have "post T ?R s s2" using s1(2) s2(2) by (rule post_trans)
  ultimately show ?thesis using s1 s2 tab_post [OF assms(2) _ assms(1)] assms(3) by (auto simp: walk_next_def winv_def post_def)
qed

lemma set_mflag_ok:
  assumes "chinv s T (optr PC c + R) []"
  shows "\<exists>s'. set_mflag c x s = Some s' \<and> post T (optr PC c + R) s s' \<and> nsame Q s s'"
proof (cases c)
  case (Some p)
  obtain ch where ch: "chan_at s p = Some ch" "\<not> cfree ch" using chan_live [OF chinv_held [OF assms, of "PC p"]] Some by auto
  have "post T (optr PC c + R) s (put p (OChan (ch\<lparr>c_mflag := x\<rparr>)) s)"
    using ch(2) by (intro swap_chan [OF assms ch]) (simp_all add: cfree_def)
  then show ?thesis using Some ch by (simp add: set_mflag_def nsame_put_chan)
qed (use assms in \<open>simp add: set_mflag_def post_refl\<close>)

lemma keeps_mounts:
  assumes "keeps T s s'" "chinv s' T R P" "(h, f) \<in># T" "head_at s h = Some m" "x \<in> set (h_mount m)"
  shows "live s' (PC (m_to x))"
proof -
  obtain y where "get s' h = OHead (m\<lparr>h_ref := y\<rparr>)" using assms(1,3) head_atD [OF assms(4)] unfolding keeps_def by blast
  then show ?thesis using assms(5) by (intro live_out [OF assms(2), of _ h]) (simp add: mount_refs_def)
qed

context device
begin

lemma devwalk_wq:
  assumes "chinv s T R []" "live s (PC c)"
  shows "\<exists>r s'. devwalk D c es s = Some (r, s') \<and> (case r of None \<Rightarrow> s' = s
    | Some w \<Rightarrow> post T (optr PC (fst w) + R) s s' \<and> nsame R s s' \<and> wq_ok es w)"
proof -
  from runs2D [OF devwalk_ok [OF assms, of D es]] obtain r s1 ch where r: "devwalk D c es s = Some (r, s1)" "chan_at s c = Some ch"
    "case r of None \<Rightarrow> D ch es = None \<and> s1 = s
    | Some (clone, qids) \<Rightarrow> \<exists>wq. D ch es = Some wq \<and> qids = w_qid wq \<and> (clone = None \<longleftrightarrow> w_clone wq = None) \<and>
        post T (optr PC clone + R) s s1 \<and> (\<forall>p. clone = Some p \<longrightarrow> adds p s s1 \<and> (\<exists>nc x w. w_clone wq = Some w \<and>
          chan_at s1 p = Some (fill_clone w x nc) \<and> \<not> cfree nc \<and> c_name nc = None \<and> c_umh nc = None))" by blast
  show ?thesis
  proof (cases r)
    case None
    then show ?thesis using r by simp
  next
    case (Some w)
    obtain cl qs where w: "w = (cl, qs)" by (cases w)
    then obtain wq where wq: "D ch es = Some wq" "qs = w_qid wq" "cl = None \<longleftrightarrow> w_clone wq = None" "post T (optr PC cl + R) s s1"
      "\<And>p. cl = Some p \<Longrightarrow> adds p s s1"
      using r(3) Some by auto
    have "nsame R s s1"
    proof (cases cl)
      case None
      then have "s1 = s" using r(1,2) wq(1,3) by (simp add: devwalk_def)
      then show ?thesis by simp
    next
      case (Some p)
      show ?thesis using nsame_adds [OF assms(1) wq(5) [OF Some]] .
    qed
    moreover
    have "wq_ok es w" using clone_all [OF wq(1)] clone_part [OF wq(1)] wq(2,3) w by (auto simp: wq_ok_def)
    ultimately show ?thesis using r(1) Some w wq(4) by simp
  qed
qed

lemma union_walk_ok:
  assumes "chinv s T R []" "\<And>f. f \<in> set fs \<Longrightarrow> live s (PC (m_to f))"
  shows "\<exists>r s'. union_walk D es fs s = Some (r, s') \<and> (case r of None \<Rightarrow> s' = s
    | Some (w, f) \<Rightarrow> f \<in> set fs \<and> post T (optr PC (fst w) + R) s s' \<and> nsame R s s' \<and> wq_ok es w)"
  using assms(2)
proof (induction fs)
  case (Cons f fs)
  obtain r s1 where r: "devwalk D (m_to f) es s = Some (r, s1)"
    "case r of None \<Rightarrow> s1 = s | Some w \<Rightarrow> post T (optr PC (fst w) + R) s s1 \<and> nsame R s s1 \<and> wq_ok es w"
    using devwalk_wq [OF assms(1)] Cons.prems by fastforce
  show ?case
  proof (cases r)
    case None
    then show ?thesis using r Cons by (fastforce split: option.splits)
  next
    case (Some w)
    then show ?thesis using r by simp
  qed
qed simp

lemma walk_request_ok:
  assumes "chinv s T (add_mset (PC c) R) []" "tab_ok pg s T" "intab mh T"
  shows "\<exists>r s'. walk_request D nomount es c mh mflag s = Some (r, s') \<and> (case r of
      None \<Rightarrow> s' = s
    | Some (w, type, dev, mf) \<Rightarrow> post T (optr PC (fst w) + add_mset (PC c) R) s s' \<and> nsame R s s' \<and> wq_ok es w)"
proof -
  have lc: "live s (PC c)" using assms(1) by (rule chinv_held) simp
  obtain ch where ch: "chan_at s c = Some ch" using chan_live [OF lc] by blast
  obtain r s1 where r: "devwalk D c es s = Some (r, s1)"
    "case r of None \<Rightarrow> s1 = s | Some w \<Rightarrow> post T (optr PC (fst w) + add_mset (PC c) R) s s1 \<and> nsame R s s1 \<and> wq_ok es w"
    using devwalk_wq [OF assms(1) lc] unfolding nsame_parts by blast
  show ?thesis
  proof (cases r)
    case (Some w)
    then show ?thesis using r ch by (simp add: walk_request_def)
  next
    case None
    show ?thesis
    proof (cases "mh = None \<or> nomount")
      case True
      then show ?thesis using None r ch by (simp add: walk_request_def)
    next
      case False
      then obtain h f where h: "mh = Some h" "(h, f) \<in># T" using assms(3) by (auto simp: intab_def)
      obtain m g gs where m: "head_at s h = Some m" "h_mount m = g # gs" "\<And>x. x \<in> set (g # gs) \<Longrightarrow> live s (PC (m_to x))"
        using table_mounts [OF assms(2,1) h(2)] by blast
      obtain u s2 where u: "union_walk D es gs s = Some (u, s2)" "case u of None \<Rightarrow> s2 = s
        | Some (w, f) \<Rightarrow> f \<in> set gs \<and> post T (optr PC (fst w) + add_mset (PC c) R) s s2 \<and> nsame R s s2 \<and> wq_ok es w"
        using union_walk_ok [OF assms(1), of gs es] m(3) unfolding nsame_parts(2) by auto
      show ?thesis
      proof (cases u)
        case u0: None
        then show ?thesis using None r ch False h(1) m u by (simp add: walk_request_def mounts_of_def)
      next
        case u1: (Some wf)
        obtain w x where wf: "wf = (w, x)" by (cases wf)
        have p: "x \<in> set gs" "post T (optr PC (fst w) + add_mset (PC c) R) s s2" "wq_ok es w" "nsame R s s2"
          using u(2) u1 wf by simp_all
        have "live s2 (PC (m_to x))"
          using p(1,2) m h(2) by (intro keeps_mounts [of T s s2 _ "[]" h f m]) (auto simp: post_def)
        then obtain to where "chan_at s2 (m_to x) = Some to" using chan_live by blast
        then show ?thesis using None r ch False h(1) m u(1) u1 wf p by (simp add: walk_request_def mounts_of_def)
      qed
    qed
  qed
qed

end

lemma walk_dotdot_ok:
  assumes "chinv s T (add_mset (PC p) (add_mset (PC c) (add_mset (PN n) (optr PH mh + R)))) []" "tab_ok pg s T" "named s n t"
  shows "\<exists>st s'. walk_dotdot c n mh have (Some p, [q]) s = Some (Inr st, s') \<and> w_have st = have + 1 \<and>
    winv pg T R st s' \<and> keeps T s s' \<and> named s' (w_name st) (elem_name t [DOT, DOT])"
proof -
  have i: "chinv s T (add_mset (PN n) (add_mset (PC p) (add_mset (PC c) (optr PH mh + R)))) []"
    using assms(1) by (simp add: add_mset_commute)
  obtain nm where nm: "name_at s n = Some nm" "cstr (n_s nm) = t" using assms(3) by (auto simp: named_def)
  have nf: "nul_free [DOT, DOT]" by (simp add: nul_free_def)
  from runs2D [OF addelem_ok [OF i nm(1) nf]] obtain n1 s1 nm1 where s1: "addelem n [DOT, DOT] s = Some (n1, s1)"
    "post T (add_mset (PN n1) (add_mset (PC p) (add_mset (PC c) (optr PH mh + R)))) s s1" "name_at s1 n1 = Some nm1"
    "cstr (n_s nm1) = elem_name t [DOT, DOT]" unfolding nm(2) by blast
  have i1: "chinv s1 T (add_mset (PC p) (add_mset (PN n1) (add_mset (PC c) (optr PH mh + R)))) []"
    using postD [OF s1(2)] by (simp add: add_mset_commute)
  have "PN n1 \<in># add_mset (PN n1) (add_mset (PC c) (optr PH mh + R))" by simp
  from runs2D [OF undomount_ok [OF i1 this s1(3)]] obtain c2 s2 where s2: "undomount p n1 s1 = Some (c2, s2)"
    "post T (add_mset (PC c2) (add_mset (PN n1) (add_mset (PC c) (optr PH mh + R)))) s1 s2"
    "named s2 n1 (elem_name t [DOT, DOT])" unfolding s1(4) named_def by blast
  let ?st = "\<lparr>w_have = have + 1, w_c = c2, w_name = n1, w_mh = None, w_didmount = False\<rparr>"
  have p: "post T (add_mset (PC c2) (add_mset (PN n1) (add_mset (PC c) (optr PH mh + R)))) s s2"
    using s1(2) s2(2) by (rule post_trans)
  have "\<exists>s'. walk_next c mh ?st s2 = Some (Inr ?st, s') \<and> winv pg T R ?st s' \<and> keeps T s2 s' \<and>
      (\<forall>t. named s2 (w_name ?st) t \<longrightarrow> named s' (w_name ?st) t)"
    using postD [OF p] tab_post [OF assms(2) p assms(1)] by (intro walk_next_ok) (simp_all add: add_mset_commute intab_def)
  then show ?thesis using s1(1) s2(1,3) p by (auto simp: walk_dotdot_def post_def intro: keeps_trans)
qed

context device
begin

lemma cunique_nsame:
  assumes "chinv s T (add_mset (PC c) R) []" "chan_at s c = Some ch" "cunique D c s = Some (Some p, s')"
  shows "nsame R s s'"
proof (cases "c_ref ch = 1")
  case True
  then show ?thesis using assms(2,3) by (simp add: cunique_def)
next
  case False
  have "live s (PC c)" using assms(1) by (rule chinv_held) simp
  from runs2D [OF cclone_ok [OF assms(1,2) this]] obtain r s1 where s1: "cclone D c s = Some (r, s1)"
    "post T (optr PC r + add_mset (PC c) R) s s1" "\<And>q. r = Some q \<Longrightarrow> adds q s s1" by blast
  then obtain q where q: "r = Some q" "cclose (Some c) s1 = Some s'"
    using False assms(2,3) by (cases r) (auto simp: cunique_def split: bind_splits)
  have "chinv s1 T (optr PC (Some c) + add_mset (PC q) R) []" using postD [OF s1(2)] q(1) by (simp add: add_mset_commute)
  from runsD [OF cclose_ok [OF this]] have "post T (add_mset (PC q) R) s1 s'" "shrinks s1 s'" using q(2) by auto
  then have "nsame R s1 s'" using nsame_shrinks by fastforce
  moreover have "nsame R s s1" using nsame_adds [OF assms(1) s1(3) [OF q(1)]] by simp
  ultimately show ?thesis by (rule nsame_trans [rotated])
qed

end

lemma take_push:
  assumes "chinv s T (add_mset (PN n) R) []" "list_all nul_free es"
    "case nmh of None \<Rightarrow> from = None | Some h \<Rightarrow> \<exists>f. (h, f) \<in># T \<and> from = Some f"
    "named s n t"
  shows "\<exists>n' s'. push_elems es nmh n s = Some (n', s') \<and> post T (add_mset (PN n') R) s s' \<and> named s' n' (push_name t es)"
proof -
  obtain nm where nm: "name_at s n = Some nm" "cstr (n_s nm) = t" using assms(4) by (auto simp: named_def)
  from runs2D [OF push_elems_ok [OF assms(1) nm(1) assms(2,3)]] show ?thesis unfolding nm(2) named_def by blast
qed

context device
begin

lemma walk_batch_ok:
  assumes "chinv s T (optr PC (fst w) + add_mset (PC c) (add_mset (PN n) (optr PH mh + R))) []" "tab_ok pg s T"
    "wq_ok es w" "list_all nul_free es" "es \<noteq> []" "have + length es \<le> length names" "es = take (length es) (drop have names)"
    "named s n t"
  shows "\<exists>r s'. walk_batch D nomount pg es c n mh have w type dev s = Some (r, s') \<and> stepped pg T R have names t s r s'"
proof -
  obtain cl qs where w: "w = (cl, qs)" by (cases w)
  let ?R = "add_mset (PC c) (add_mset (PN n) (optr PH mh + R))"
  have "runs (if nomount then Some (None, s) else crossing 0 type dev (take (length es - 1) qs) pg s)
    (\<lambda>(r, s'). case r of None \<Rightarrow> s' = s | Some (j, nc, nmh) \<Rightarrow> j < length es - 1 \<and> (\<exists>f. (nmh, f) \<in># T) \<and>
        post T (add_mset (PC nc) (add_mset (PH nmh) (optr PC cl + ?R))) s s' \<and> named s' n t)"
    using assms(8) crossing_ok [OF assms(1,2), of 0 type dev "take (length es - 1) qs"] w
    by (auto elim!: runs_mono split: option.splits)
  from runs2D [OF this] obtain r s1 where r: "(if nomount then Some (None, s) else crossing 0 type dev (take (length es - 1) qs) pg s) = Some (r, s1)"
    "case r of None \<Rightarrow> s1 = s | Some (j, nc, nmh) \<Rightarrow> j < length es - 1 \<and> (\<exists>f. (nmh, f) \<in># T) \<and>
        post T (add_mset (PC nc) (add_mset (PH nmh) (optr PC cl + ?R))) s s1 \<and> named s1 n t" by blast
  have es: "take k es = take k (drop have names)" if "k \<le> length es" for k
    using arg_cong [OF assms(7), of "take k"] that by simp
  show ?thesis
  proof (cases r)
    case None
    then have s1: "s1 = s" using r(2) by simp
    show ?thesis
    proof (cases cl)
      case c0: None
      have l: "length qs < length es" using assms(3) w c0 by (simp add: wq_ok_def)
      have i: "chinv s T ?R []" using assms(1) w c0 by simp
      show ?thesis
      proof (cases "qs = [] \<or> q_type (last qs) AND QTDIR \<noteq> 0")
        case True
        obtain s2 where "walk_fail c n mh (have + length qs + 1) WalkNotexist s = Some (Inl (WErr (have + length qs + 1) WalkNotexist), s2)" "post T R s s2"
          using walk_fail_ok [OF i] by blast
        then show ?thesis
          using True r(1) None s1 w c0 l assms(6) by (auto simp: walk_batch_def stepped_def)
      next
        case False
        obtain s2 where "walk_fail c n mh (have + length qs) WalkNotdir s = Some (Inl (WErr (have + length qs) WalkNotdir), s2)" "post T R s s2"
          using walk_fail_ok [OF i] by blast
        then show ?thesis
          using False r(1) None s1 w c0 l assms(6) by (auto simp: walk_batch_def stepped_def)
      qed
    next
      case c1: (Some nc)
      have l: "length qs = length es" using assms(3) w c1 by (simp add: wq_ok_def)
      have i: "chinv s T (add_mset (PN n) (add_mset (PC nc) (add_mset (PC c) (optr PH mh + R)))) []"
        using assms(1) w c1 by (simp add: add_mset_commute)
      obtain n1 s2 where p: "push_elems (take (length qs) es) None n s = Some (n1, s2)"
        "post T (add_mset (PN n1) (add_mset (PC nc) (add_mset (PC c) (optr PH mh + R)))) s s2"
        "named s2 n1 (push_name t (take (length qs) es))"
        using take_push [OF i _ _ assms(8), of "take (length qs) es" None None] assms(4,8) l by auto
      let ?st = "\<lparr>w_have = have + length qs, w_c = nc, w_name = n1, w_mh = None, w_didmount = False\<rparr>"
      have "\<exists>s'. walk_next c mh ?st s2 = Some (Inr ?st, s') \<and> winv pg T R ?st s' \<and> keeps T s2 s' \<and>
          (\<forall>t. named s2 (w_name ?st) t \<longrightarrow> named s' (w_name ?st) t)"
        using postD [OF p(2)] tab_post [OF assms(2) p(2) assms(1)]
        by (intro walk_next_ok) (simp_all add: add_mset_commute intab_def)
      then show ?thesis using r(1) None s1 w c1 p l assms(5,6) es [of "length qs"]
        by (auto simp: walk_batch_def stepped_def post_def intro: keeps_trans)
    qed
  next
    case (Some x)
    obtain j nc nmh where x: "x = (j, nc, nmh)" by (cases x)
    then obtain f where f: "j < length es - 1" "(nmh, f) \<in># T" "post T (add_mset (PC nc) (add_mset (PH nmh) (optr PC cl + ?R))) s s1"
      "named s1 n t" using r(2) Some by auto
    obtain ch where ch: "chan_at s1 nc = Some ch" using chan_live [OF post_live [OF f(3), of "PC nc"]] by auto
    from runs2D [OF cunique_ok [OF postD [OF f(3)] ch]] obtain u s2 where u: "cunique D nc s1 = Some (u, s2)"
      "post T (add_mset (PC (case u of None \<Rightarrow> nc | Some p \<Rightarrow> p)) (add_mset (PH nmh) (optr PC cl + ?R))) s1 s2" by blast
    show ?thesis
    proof (cases u)
      case None
      have "post T ((add_mset (PC nc) (add_mset (PH nmh) (optr PC cl + add_mset (PC c) (add_mset (PN n) (optr PH mh))))) + R) s s2"
        using post_trans [OF f(3) u(2)] None by (simp add: ac_simps)
      then have "\<exists>L. post T (L + R) s s2" by blast
      then show ?thesis using r(1) Some x w u(1) None by (auto simp: walk_batch_def stepped_def)
    next
      case u1: (Some p)
      have p2: "post T (add_mset (PC p) (add_mset (PH nmh) (optr PC cl + ?R))) s s2" using post_trans [OF f(3) u(2)] u1 by simp
      have n2: "named s2 n t" using nsameD [OF cunique_nsame [OF postD [OF f(3)] ch u(1) [unfolded u1]] _ f(4)] by simp
      obtain mf where mf: "mheadflag (Some nmh) s2 = Some mf"
        using mheadflag_ok [OF tab_post [OF assms(2) p2 assms(1)] postD [OF p2] f(2)] by blast
      have "chinv s2 T (optr PC (Some p) + (add_mset (PH nmh) (optr PC cl + ?R))) []" using postD [OF p2] by (simp add: add_mset_commute)
      from set_mflag_ok [OF this, where Q = "{#PN n#}"] obtain s3 where s3: "set_mflag (Some p) mf s2 = Some s3"
        "post T (optr PC cl + add_mset (PC p) (add_mset (PH nmh) ?R)) s2 s3" "nsame {#PN n#} s2 s3" by (auto simp: add_mset_commute)
      from runsD [OF cclose_ok [OF postD [OF s3(2)]]] obtain s4 where s4: "cclose cl s3 = Some s4"
        "post T (add_mset (PC p) (add_mset (PH nmh) ?R)) s3 s4" "shrinks s3 s4" by auto
      have "named s3 n t" using nsameD [OF s3(3) _ n2] by simp
      then have n4: "named s4 n t" using nsameD [OF nsame_shrinks [OF s4(2,3)]] by simp
      have i4: "chinv s4 T (add_mset (PN n) (add_mset (PC p) (add_mset (PH nmh) (add_mset (PC c) (optr PH mh + R))))) []"
        using postD [OF s4(2)] by (simp add: add_mset_commute)
      obtain n1 s5 where s5: "push_elems (take (j + 1) es) (Some nmh) n s4 = Some (n1, s5)"
        "post T (add_mset (PN n1) (add_mset (PC p) (add_mset (PH nmh) (add_mset (PC c) (optr PH mh + R))))) s4 s5"
        "named s5 n1 (push_name t (take (j + 1) es))"
        using take_push [OF i4 _ _ n4, of "take (j + 1) es" "Some f" "Some nmh"] assms(4) f(2) n4
        by (auto simp: list_all_iff dest: in_set_takeD)
      let ?st = "\<lparr>w_have = have + j + 1, w_c = p, w_name = n1, w_mh = Some nmh, w_didmount = True\<rparr>"
      have p5: "post T (add_mset (PN n1) (add_mset (PC p) (add_mset (PH nmh) (add_mset (PC c) (optr PH mh + R))))) s s5"
        using p2 s3(2) s4(2) s5(2) by (blast intro: post_trans)
      have "\<exists>s'. walk_next c mh ?st s5 = Some (Inr ?st, s') \<and> winv pg T R ?st s' \<and> keeps T s5 s' \<and>
          (\<forall>t. named s5 (w_name ?st) t \<longrightarrow> named s' (w_name ?st) t)"
        using postD [OF p5] tab_post [OF assms(2) p5 assms(1)] f(2)
        by (intro walk_next_ok) (auto simp add: add_mset_commute intab_def)
      then show ?thesis using r(1) Some x w u(1) u1 mf s3(1) s4(1) s5(1,3) p5 f(1) assms(6) es [of "Suc j"]
        by (auto simp: walk_batch_def stepped_def post_def intro: keeps_trans)
    qed
  qed
qed

lemma walk_step_ok:
  assumes "winv pg T R st s" "w_have st < length names" "list_all nul_free names" "named s (w_name st) t"
  shows "\<exists>r s'. walk_step D nomount pg names st s = Some (r, s') \<and> stepped pg T R (w_have st) names t s r s'"
proof -
  let ?c = "w_c st" let ?n = "w_name st" let ?mh = "w_mh st" let ?have = "w_have st"
  have i: "chinv s T (add_mset (PC ?c) (add_mset (PN ?n) (optr PH ?mh + R))) []" and tab: "tab_ok pg s T" and mh: "intab ?mh T"
    using assms(1) by (simp_all add: winv_def)
  obtain ch where ch: "chan_at s ?c = Some ch" using chan_live [OF chinv_held [OF i, of "PC ?c"]] by auto
  show ?thesis
  proof (cases "q_type (c_qid ch) AND QTDIR = 0")
    case True
    from walk_notdir_ok [OF i] show ?thesis
      using True ch assms(2) by (auto simp: walk_step_def Let_def stepped_def)
  next
    case dir: False
    obtain dotdot ntry where b: "batch (drop ?have names) = (dotdot, ntry)" by (cases "batch (drop ?have names)")
    have bt: "0 < ntry" "ntry \<le> length names - ?have" "dotdot \<Longrightarrow> ntry = 1"
      using batch_ok [OF _ b] assms(2) by auto
    let ?es = "take ntry (drop ?have names)"
    have es: "?es \<noteq> []" "list_all nul_free ?es" "?have + length ?es \<le> length names" "?es = take (length ?es) (drop ?have names)"
      using bt assms(2,3) by (auto simp: list_all_iff dest!: in_set_takeD in_set_dropD)
    obtain found c1 m1 n1 s1 where d: "(if \<not> dotdot \<and> \<not> nomount \<and> \<not> w_didmount st then domount ?c ?mh (Some ?n) pg s
        else Some (False, ?c, ?mh, Some ?n, s)) = Some (found, c1, m1, Some n1, s1)"
      "post T (add_mset (PC c1) (add_mset (PN n1) (optr PH m1 + R))) s s1" "\<not> found \<longrightarrow> m1 = ?mh"
      "found \<longrightarrow> (\<exists>h f. (h, f) \<in># T \<and> m1 = Some h)" "named s1 n1 t"
    proof (cases "\<not> dotdot \<and> \<not> nomount \<and> \<not> w_didmount st")
      case True
      obtain f c2 m2 n2 s2 where "domount ?c ?mh (Some ?n) pg s = Some (f, c2, m2, Some n2, s2)"
        "post T (add_mset (PC c2) (add_mset (PN n2) (optr PH m2 + R))) s s2" "\<not> f \<longrightarrow> m2 = ?mh"
        "f \<longrightarrow> (\<exists>h g. (h, g) \<in># T \<and> m2 = Some h)" "named s2 n2 t"
        using runs5D [OF domount_ok [OF i tab]] assms(4) by blast
      then show thesis using True by (intro that [of f c2 m2 n2 s2]) simp_all
    next
      case False
      then show thesis using i by (intro that [of False ?c ?mh ?n s]) (use assms(4) in \<open>auto simp: post_refl\<close>)
    qed
    have m1: "intab m1 T" using mh d(3,4) by (cases found) (auto simp: intab_def)
    have tab1: "tab_ok pg s1 T" using tab d(2) i by (rule tab_post)
    obtain mf where mf: "(if found then mheadflag m1 s1 else Some (c_mflag ch)) = Some mf"
      using d(4) mheadflag_ok [OF tab1 postD [OF d(2)]] by (cases found) auto
    obtain q s2 where q: "walk_request D nomount ?es c1 m1 mf s1 = Some (q, s2)" "case q of None \<Rightarrow> s2 = s1
        | Some (w, type, dev, mf) \<Rightarrow> post T (optr PC (fst w) + add_mset (PC c1) (add_mset (PN n1) (optr PH m1 + R))) s1 s2 \<and>
            nsame (add_mset (PN n1) (optr PH m1 + R)) s1 s2 \<and> wq_ok ?es w"
      using walk_request_ok [OF postD [OF d(2)] tab1 m1] by blast
    note step = walk_step_def Let_def
    show ?thesis
    proof (cases q)
      case None
      then obtain s3 where "walk_fail c1 n1 m1 (?have + 1) WalkDevice s2 = Some (Inl (WErr (?have + 1) WalkDevice), s3)" "post T R s2 s3"
        using walk_fail_ok [OF postD [OF d(2)]] q(2) by auto
      then show ?thesis using ch dir b d(1,2) mf q None assms(2)
        by (auto simp: step stepped_def intro: post_trans)
    next
      case (Some z)
      obtain w type dev mf2 where z: "z = (w, type, dev, mf2)" by (cases z)
      have p2: "post T (optr PC (fst w) + add_mset (PC c1) (add_mset (PN n1) (optr PH m1 + R))) s1 s2" "wq_ok ?es w"
        "nsame (add_mset (PN n1) (optr PH m1 + R)) s1 s2" using q(2) Some z by simp_all
      from set_mflag_ok [OF postD [OF p2(1)], where Q = "{#PN n1#}"] obtain s3 where s3: "set_mflag (fst w) mf2 s2 = Some s3"
        "post T (optr PC (fst w) + add_mset (PC c1) (add_mset (PN n1) (optr PH m1 + R))) s2 s3" "nsame {#PN n1#} s2 s3" by blast
      have n3: "named s3 n1 t" using nsameD [OF s3(3) _ nsameD [OF p2(3) _ d(5)]] by simp
      have p3: "post T (optr PC (fst w) + add_mset (PC c1) (add_mset (PN n1) (optr PH m1 + R))) s s3"
        using d(2) p2(1) s3(2) by (blast intro: post_trans)
      have tab3: "tab_ok pg s3 T" using tab p3 i by (rule tab_post)
      have k3: "keeps T s s3" using p3 by (simp add: post_def)
      show ?thesis
      proof (cases dotdot)
        case True
        then have one: "length ?es = 1" using bt es(3) assms(2) by simp
        then have "fst w \<noteq> None" using p2(2) by (auto simp: wq_ok_def length_Suc_conv split: if_splits)
        then obtain p qd where w: "w = (Some p, [qd])" using p2(2) one by (cases w) (auto simp: wq_ok_def length_Suc_conv)
        have "chinv s3 T (add_mset (PC p) (add_mset (PC c1) (add_mset (PN n1) (optr PH m1 + R)))) []"
          using postD [OF p3] w by (simp add: add_mset_commute)
        from walk_dotdot_ok [OF this tab3 n3] obtain st1 s4 where
          "walk_dotdot c1 n1 m1 ?have (Some p, [qd]) s3 = Some (Inr st1, s4)" "w_have st1 = ?have + 1"
          "winv pg T R st1 s4" "keeps T s3 s4" "named s4 (w_name st1) (elem_name t [DOT, DOT])" by blast
        moreover have "list_all nul_free (drop ?have names)" using assms(3) by (auto simp: list_all_iff dest: in_set_dropD)
        then have "take 1 (drop ?have names) = [[DOT, DOT]]" using batch_ok(4) [OF _ b True] assms(2) isdotdot_iff
          by (cases "drop ?have names") auto
        ultimately show ?thesis using ch dir b d(1) mf q(1) Some z s3(1) True w k3 assms(2)
          by (auto simp: step stepped_def intro: keeps_trans)
      next
        case False
        obtain r s4 where r: "walk_batch D nomount pg ?es c1 n1 m1 ?have w type dev s3 = Some (r, s4)"
          "stepped pg T R ?have names t s3 r s4"
          using walk_batch_ok [OF postD [OF p3] tab3 p2(2) es(2,1,3,4) n3] by blast
        have "stepped pg T R ?have names t s r s4" using r(2) k3 by (rule stepped_trans)
        then show ?thesis using ch dir b d(1) mf q(1) Some z s3(1) False r(1) by (auto simp: step)
      qed
    qed
  qed
qed

end

end
