(* ===== verification/WalkSound.thy ===== *)
theory WalkSound
  imports WalkSpec
begin

text \<open>
  The whole walk: it returns, the counts stay exact, and it moves the caller's channel all the way or not
  at all.
\<close>

lemma push_name_append: "push_name t (xs @ ys) = push_name (push_name t xs) ys"
  by (induction xs arbitrary: t) auto

lemma push_name_take: "push_name (push_name t (take k (drop h names))) (drop (h + k) names) = push_name t (drop h names)"
  unfolding push_name_append [symmetric] by (metis add.commute append_take_drop_id drop_drop)

context device
begin

lemma walk_loop_ok:
  assumes "winv pg T R st s" "list_all nul_free names" "named s (w_name st) t"
  shows "\<exists>r s'. walk_loop D nomount pg names st s = Some (r, s') \<and> (case r of
      WErr k e \<Rightarrow> post T R s s' \<and> k \<le> length names
    | WRaise \<Rightarrow> \<exists>L. post T (L + R) s s'
    | WDone c n mh \<Rightarrow> post T (add_mset (PC c) (add_mset (PN n) (optr PH mh + R))) s s' \<and>
        named s' n (push_name t (drop (w_have st) names)))"
  using assms(1,3)
proof (induction "length names - w_have st" arbitrary: st s t rule: less_induct)
  case less
  show ?case
  proof (cases "w_have st < length names")
    case False
    then show ?thesis using less.prems by (simp add: walk_loop.simps winv_def post_refl)
  next
    case True
    obtain r s1 where s1: "walk_step D nomount pg names st s = Some (r, s1)" "stepped pg T R (w_have st) names t s r s1"
      using walk_step_ok [OF less.prems(1) True assms(2) less.prems(2)] by blast
    show ?thesis
    proof (cases r)
      case (Inl e)
      then show ?thesis using True s1 by (cases e) (auto simp: walk_loop.simps [of D nomount pg names st] stepped_def)
    next
      case (Inr st1)
      then have st1: "w_have st < w_have st1" "w_have st1 \<le> length names" "winv pg T R st1 s1" "keeps T s s1"
        "named s1 (w_name st1) (push_name t (take (w_have st1 - w_have st) (drop (w_have st) names)))"
        using s1(2) by (simp_all add: stepped_def)
      have all: "push_name (push_name t (take (w_have st1 - w_have st) (drop (w_have st) names))) (drop (w_have st1) names) =
          push_name t (drop (w_have st) names)"
        using push_name_take [of t "w_have st1 - w_have st" "w_have st" names] st1(1) by simp
      obtain q s2 where q: "walk_loop D nomount pg names st1 s1 = Some (q, s2)" "case q of
          WErr k e \<Rightarrow> post T R s1 s2 \<and> k \<le> length names
        | WRaise \<Rightarrow> \<exists>L. post T (L + R) s1 s2
        | WDone c n mh \<Rightarrow> post T (add_mset (PC c) (add_mset (PN n) (optr PH mh + R))) s1 s2 \<and>
            named s2 n (push_name t (drop (w_have st) names))"
        using less.hyps [OF _ st1(3,5)] st1(1) True unfolding all by (meson diff_less_mono2)
      have "walk_loop D nomount pg names st s = Some (q, s2)"
        using True s1(1) Inr q(1) by (simp add: walk_loop.simps [of D nomount pg names st])
      then show ?thesis using q(2) st1(4) by (auto simp: post_def intro: keeps_trans split: wres.splits)
    qed
  qed
qed

end

lemma walk_pin_ok:
  assumes "chinv s T (add_mset (PN n) (add_mset (PC c) R)) []" "name_at s n = Some nm"
  shows "\<exists>n' s' nm'. walk_pin c n s = Some (n', s') \<and> post T (add_mset (PN n') (add_mset (PC c) R)) s s' \<and>
    name_at s' n' = Some nm' \<and> cstr (n_s nm') = cstr (n_s nm) \<and>
    n_mtpt nm' = (if n_mtpt nm = [] then [Some c] else n_mtpt nm)"
proof (cases "n_mtpt nm = []")
  case False
  then show ?thesis using assms by (simp add: walk_pin_def post_refl)
next
  case True
  let ?pin = "if n_ref nm > 1 then do { let (pinned, s) = newcname (cstr (n_s nm)) s; s \<leftarrow> cnameclose (Some n) s; Some (pinned, s) }
    else Some (n, s)"
  obtain n1 s1 nm1 where s1: "?pin = Some (n1, s1)" "post T (add_mset (PN n1) (add_mset (PC c) R)) s s1"
    "name_at s1 n1 = Some nm1" "cstr (n_s nm1) = cstr (n_s nm)" "n_mtpt nm1 = []"
  proof (cases "n_ref nm > 1")
    case False
    then show thesis using that assms True by (simp add: post_refl)
  next
    case shared: True
    obtain p t where new: "newcname (cstr (n_s nm)) s = (p, t)" by (cases "newcname (cstr (n_s nm)) s")
    note t = newcname_ok [OF assms(1) nul_free_cstr new]
    obtain a where a: "name_at t p = Some \<lparr>n_ref = 1, n_s = cstr (n_s nm) @ 0 # a, n_len = length (cstr (n_s nm)),
        n_mtpt = [], n_malen = 0\<rparr>" using t(4) by blast
    have "chinv t T (optr PN (Some n) + add_mset (PN p) (add_mset (PC c) R)) []"
      using postD [OF t(1)] by (simp add: add_mset_commute)
    from runsD [OF cnameclose_ok [OF this]] obtain u where u: "cnameclose (Some n) t = Some u"
      "post T (add_mset (PN p) (add_mset (PC c) R)) t u" "shrinks t u" by blast
    have "live u (PN p)" using u(2) by (rule post_live) simp
    from shrinks_name [OF u(3) this a] obtain x where x: "name_at u p = Some
        \<lparr>n_ref = x, n_s = cstr (n_s nm) @ 0 # a, n_len = length (cstr (n_s nm)), n_mtpt = [], n_malen = 0\<rparr>" by auto
    show thesis
      by (rule that [OF _ _ x]) (use shared new u t(1) in \<open>auto simp: cstr_nul intro: post_trans\<close>)
  qed
  have "live s1 (PC c)" using s1(2) by (rule post_live) simp
  then obtain s2 k where "cnamepush n1 (Some c) s1 = Some s2" "post T (add_mset (PN n1) (add_mset (PC c) R)) s1 s2"
    "name_at s2 n1 = Some (nm1\<lparr>n_mtpt := n_mtpt nm1 @ [Some c], n_malen := k\<rparr>)"
    using runsD [OF cnamepush_ok [OF postD [OF s1(2)] s1(3), of "Some c"]] by auto
  then show ?thesis using True assms(2) s1 by (auto simp: walk_pin_def intro: post_trans)
qed

context device
begin

lemma walk_end_ok:
  assumes "chinv s T (add_mset (PC c) (add_mset (PN n) (optr PH mh + add_mset (PC cp) R))) []" "named s n t"
  shows "\<exists>r s'. walk_end D cp c n mh s = Some (r, s') \<and> (case r of
      None \<Rightarrow> \<exists>L. post T (L + add_mset (PC cp) R) s s'
    | Some p \<Rightarrow> post T (add_mset (PC p) R) s s' \<and> (\<exists>k. chan_at s' p = Some k \<and> c_name k = Some n) \<and> named s' n t)"
proof -
  let ?R = "add_mset (PN n) (add_mset (PC cp) R)"
  have "chinv s T (optr PH mh + add_mset (PC c) ?R) []" using assms(1) by (simp add: ac_simps)
  from runsD [OF putmhead_ok [OF this]] obtain s1 where s1: "putmhead mh s = Some s1" "post T (add_mset (PC c) ?R) s s1" "shrinks s s1" by auto
  have n1: "named s1 n t" using nsameD [OF nsame_shrinks [OF s1(2,3)] _ assms(2)] by simp
  obtain ch where ch: "chan_at s1 c = Some ch" using chan_live [OF post_live [OF s1(2), of "PC c"]] by auto
  from runs2D [OF cunique_ok [OF postD [OF s1(2)] ch]] obtain u s2 where u: "cunique D c s1 = Some (u, s2)"
    "post T (add_mset (PC (case u of None \<Rightarrow> c | Some p \<Rightarrow> p)) ?R) s1 s2" by blast
  show ?thesis
  proof (cases u)
    case None
    have "post T ({#PC c, PN n#} + add_mset (PC cp) R) s s2" using post_trans [OF s1(2) u(2)] None by (simp add: add_mset_commute)
    then have "\<exists>L. post T (L + add_mset (PC cp) R) s s2" by blast
    then show ?thesis using None s1(1) u(1) by (simp add: walk_end_def)
  next
    case (Some p)
    have p2: "post T (add_mset (PC p) ?R) s s2" using post_trans [OF s1(2) u(2)] Some by simp
    have n2: "named s2 n t" using nsameD [OF cunique_nsame [OF postD [OF s1(2)] ch u(1) [unfolded Some]] _ n1] by simp
    obtain k where k: "chan_at s2 p = Some k" "\<not> cfree k" using chan_live [OF post_live [OF p2, of "PC p"]] by auto
    have "post T (optr PH (c_umh k) + add_mset (PC p) ?R) s2 (put p (OChan (k\<lparr>c_umh := None\<rparr>)) s2)"
      using k(2) by (intro swap_chan [OF postD [OF p2] k]) (simp_all add: cfree_def ac_simps)
    note p3 = post_trans [OF p2 this]
    from runsD [OF putmhead_ok [OF postD [OF p3]]] obtain s3 where
      s3: "putmhead (c_umh k) (put p (OChan (k\<lparr>c_umh := None\<rparr>)) s2) = Some s3"
      "post T (add_mset (PC p) ?R) (put p (OChan (k\<lparr>c_umh := None\<rparr>)) s2) s3" "shrinks (put p (OChan (k\<lparr>c_umh := None\<rparr>)) s2) s3"
      by auto
    have "named (put p (OChan (k\<lparr>c_umh := None\<rparr>)) s2) n t" using n2 named_put_chan [OF k(1)] by simp
    then have n3: "named s3 n t" using nsameD [OF nsame_shrinks [OF s3(2,3)]] by simp
    note p4 = post_trans [OF p3 s3(2)]
    obtain l where l: "chan_at s3 p = Some l" "\<not> cfree l" using chan_live [OF post_live [OF p4, of "PC p"]] by auto
    have "post T (optr PN (c_name l) + add_mset (PC cp) (add_mset (PC p) R)) s3 (put p (OChan (l\<lparr>c_name := Some n\<rparr>)) s3)"
      using l(2) by (intro swap_chan [OF postD [OF p4] l]) (simp_all add: cfree_def ac_simps)
    note p5 = post_trans [OF p4 this]
    from runsD [OF cnameclose_ok [OF postD [OF p5]]] obtain s4 where
      s4: "cnameclose (c_name l) (put p (OChan (l\<lparr>c_name := Some n\<rparr>)) s3) = Some s4"
      "post T (add_mset (PC cp) (add_mset (PC p) R)) (put p (OChan (l\<lparr>c_name := Some n\<rparr>)) s3) s4"
      "shrinks (put p (OChan (l\<lparr>c_name := Some n\<rparr>)) s3) s4" by auto
    have g3: "chan_at (put p (OChan (l\<lparr>c_name := Some n\<rparr>)) s3) p = Some (l\<lparr>c_name := Some n\<rparr>)"
      using chan_valid [OF l(1)] by (simp add: chan_at_put)
    have "chinv s4 T (optr PC (Some cp) + add_mset (PC p) R) []" using postD [OF s4(2)] by (simp add: add_mset_commute)
    from runsD [OF cclose_ok [OF this]] obtain s5 where
      s5: "cclose (Some cp) s4 = Some s5" "post T (add_mset (PC p) R) s4 s5" "shrinks s4 s5" by auto
    have sh: "shrinks (put p (OChan (l\<lparr>c_name := Some n\<rparr>)) s3) s5" using s4(3) s5(3) by (rule shrinks_trans)
    have lp: "live s5 (PC p)" using s5(2) by (rule post_live) simp
    from shrinks_chan [OF sh lp g3] obtain x where k5: "chan_at s5 p = Some (l\<lparr>c_name := Some n, c_ref := x\<rparr>)" by auto
    then have "live s5 (PN n)" using lp by (intro live_mchan(2) [OF postD [OF s5(2)] k5]) (simp_all add: live_chan)
    moreover have "named (put p (OChan (l\<lparr>c_name := Some n\<rparr>)) s3) n t" using n3 named_put_chan [OF l(1)] by simp
    ultimately have n5: "named s5 n t" by (rule named_shrinks [OF sh])
    have "post T (add_mset (PC p) R) s s5" using post_trans [OF post_trans [OF p5 s4(2)] s5(2)] .
    then show ?thesis using k5 n5 Some s1(1) u(1) k(1) s3(1) l(1) s4(1) s5(1) by (simp add: walk_end_def Let_def)
  qed
qed

lemma walk_ok:
  assumes "chinv s T (add_mset (PC cp) R) []" "tab_ok pg s T" "chan_at s cp = Some ch" "c_name ch = Some n"
    "list_all nul_free names"
  shows "\<exists>r s'. walk D cp names nomount pg s = Some (r, s') \<and> (case r of
      Walked p \<Rightarrow> post T (add_mset (PC p) R) s s' \<and> (\<exists>nm k n' nm'. name_at s n = Some nm \<and> chan_at s' p = Some k \<and>
        c_name k = Some n' \<and> name_at s' n' = Some nm' \<and> cstr (n_s nm') = push_name (cstr (n_s nm)) names)
    | WalkErr k e \<Rightarrow> post T (add_mset (PC cp) R) s s' \<and> k \<le> length names
    | WalkRaised \<Rightarrow> \<exists>L. post T (L + add_mset (PC cp) R) s s')"
proof -
  let ?R = "add_mset (PC cp) R"
  have lc: "live s (PC cp)" using assms(1) by (rule chinv_held) simp
  then have nf: "\<not> cfree ch" using assms(3) by (simp add: live_chan)
  have ln: "live s (PN n)" using live_mchan(2) [OF assms(1,3) nf assms(4)] .
  obtain x where x: "incref cp s = Some (put cp (set_ref x (get s cp)) s)" "post T (add_mset (PC cp) ?R) s (put cp (set_ref x (get s cp)) s)"
    using incref_spec [OF assms(1) lc] by auto
  let ?s1 = "put cp (set_ref x (get s cp)) s"
  have c1: "chan_at ?s1 cp = Some (ch\<lparr>c_ref := x\<rparr>)" using chan_atD [OF assms(3)] chan_valid [OF assms(3)] by (simp add: chan_at_put)
  have "live ?s1 (PN n)" using ln by (simp add: reref_live [OF reref_put])
  from runsD [OF incref_runs [OF postD [OF x(2)] this refl]] obtain s2 where s2: "incref n ?s1 = Some s2"
    "post T (add_mset (PN n) (add_mset (PC cp) ?R)) ?s1 s2" by auto
  obtain nm0 where nm0: "name_at s n = Some nm0" using ln by (auto simp: live_name)
  then have "named s n (cstr (n_s nm0))" by (simp add: named_def)
  then have "named s2 n (cstr (n_s nm0))"
    using nsameD [OF nsame_trans [OF nsame_reref [OF incref_reref [OF x(1)]] nsame_reref [OF incref_reref [OF s2(1)]]], of n "{#PN n#}"]
    by simp
  then obtain nm where nm: "name_at s2 n = Some nm" "cstr (n_s nm) = cstr (n_s nm0)" by (auto simp: named_def)
  from walk_pin_ok [OF postD [OF s2(2)] nm(1)] obtain n1 s3 where s3: "walk_pin cp n s2 = Some (n1, s3)"
    "post T (add_mset (PN n1) (add_mset (PC cp) ?R)) s2 s3" "named s3 n1 (cstr (n_s nm0))" unfolding nm(2) named_def by blast
  have p3: "post T (add_mset (PN n1) (add_mset (PC cp) ?R)) s s3" using x(2) s2(2) s3(2) by (blast intro: post_trans)
  let ?st = "\<lparr>w_have = 0, w_c = cp, w_name = n1, w_mh = None, w_didmount = False\<rparr>"
  have "winv pg T ?R ?st s3" using postD [OF p3] tab_post [OF assms(2) p3 assms(1)] by (simp add: winv_def intab_def add_mset_commute)
  moreover have "named s3 (w_name ?st) (cstr (n_s nm0))" using s3(3) by simp
  ultimately obtain r s4 where r: "walk_loop D nomount pg names ?st s3 = Some (r, s4)" "case r of
      WErr k e \<Rightarrow> post T ?R s3 s4 \<and> k \<le> length names
    | WRaise \<Rightarrow> \<exists>L. post T (L + ?R) s3 s4
    | WDone c n mh \<Rightarrow> post T (add_mset (PC c) (add_mset (PN n) (optr PH mh + ?R))) s3 s4 \<and>
        named s4 n (push_name (cstr (n_s nm0)) (drop (w_have ?st) names))"
    using walk_loop_ok [OF _ assms(5), where st = ?st] by blast
  note w = walk_def x(1) c1 assms(4) s2(1) s3(1) r(1)
  show ?thesis
  proof (cases r)
    case (WErr k e)
    then show ?thesis using r(2) p3 by (auto simp: w intro: post_trans)
  next
    case WRaise
    then show ?thesis using r(2) p3 by (auto simp: w intro: post_trans)
  next
    case (WDone c m mh)
    then have p4: "post T (add_mset (PC c) (add_mset (PN m) (optr PH mh + ?R))) s3 s4"
      "named s4 m (push_name (cstr (n_s nm0)) names)" using r(2) by simp_all
    from walk_end_ok [OF postD [OF p4(1)] p4(2)] obtain u s5 where u: "walk_end D cp c m mh s4 = Some (u, s5)" "case u of
      None \<Rightarrow> \<exists>L. post T (L + ?R) s4 s5 | Some p \<Rightarrow> post T (add_mset (PC p) R) s4 s5 \<and>
        (\<exists>k. chan_at s5 p = Some k \<and> c_name k = Some m) \<and> named s5 m (push_name (cstr (n_s nm0)) names)" by blast
    have p5: "post T X s s5" if "post T X s4 s5" for X using p3 p4(1) that by (blast intro: post_trans)
    show ?thesis using u p5 WDone nm0 by (cases u) (auto simp: w named_def)
  qed
qed

end

end
