(* ===== verification/MountSpec.thy ===== *)
theory MountSpec
  imports DevSpec
begin

text \<open>
  \<open>cmount\<close> and \<open>cunmount\<close>: they keep the counts exact and the table well formed, an error leaves
  everything as it was, and the union that results is in the order asked for.
\<close>

lemma chinv_enter:
  assumes "chinv s T (add_mset (PH m) (add_mset (PC f) R)) P" "head_at s m = Some mh" "h_from mh = Some f" "m \<notin># image_mset fst T"
  shows "chinv s (add_mset (m, f) T) R P"
proof -
  have "obj_ok (add_mset (m, f) T) i (get s i)" for i
  proof -
    have "obj_ok T i (get s i)" using assms(1) by (simp add: chinv_def objs_ok_def)
    moreover have "(m, g) \<notin># T" for g using assms(4) by force
    ultimately show ?thesis using assms(2-4) head_atD [OF assms(2)] by (cases "get s i") auto
  qed
  moreover have "trefs (add_mset (m, f) T) + R = trefs T + add_mset (PH m) (add_mset (PC f) R)"
    by (simp add: trefs_def)
  ultimately show ?thesis using assms(1) by (simp add: chinv_def objs_ok_def add_mset_commute)
qed

lemma chinv_leave:
  assumes "chinv s (add_mset (m, f) T) R P" "head_at s m = Some mh" "h_mount mh = []"
  shows "chinv s T (add_mset (PH m) (add_mset (PC f) R)) P"
proof -
  have "obj_ok T i (get s i)" for i
  proof -
    have "obj_ok (add_mset (m, f) T) i (get s i)" using assms(1) by (simp add: chinv_def objs_ok_def)
    then show ?thesis using assms(2,3) head_atD [OF assms(2)] by (cases "get s i") (auto split: if_splits)
  qed
  moreover have "trefs (add_mset (m, f) T) + R = trefs T + add_mset (PH m) (add_mset (PC f) R)"
    by (simp add: trefs_def)
  ultimately show ?thesis using assms(1) by (simp add: chinv_def objs_ok_def add_mset_commute)
qed

lemma head_at_put: "head_at (put p ob s) q = (if q = p \<and> p < length (s_heap s) then case ob of OHead n \<Rightarrow> Some n | _ \<Rightarrow> None else head_at s q)"
  by (auto simp: head_at_def get_put split: obj.split)

lemma head_valid: "head_at s c = Some ch \<Longrightarrow> c < length (s_heap s)"
  using get_valid [of s c] by (auto dest: head_atD)

lemma set_mounts_ok:
  assumes "chinv s T R []" "head_at s m = Some mh" "mount_refs (h_mount mh) + R = mount_refs ms + R'"
    "ms = [] \<or> m \<in># image_mset fst T"
  shows "\<exists>s'. set_mounts m ms s = Some s' \<and> chinv s' T R' [] \<and> head_at s' m = Some (mh\<lparr>h_mount := ms\<rparr>) \<and>
    (\<forall>j. j \<noteq> m \<longrightarrow> get s' j = get s j)"
proof -
  note g = head_atD [OF assms(2)]
  have l: "live s (PH m)" using assms(2) by (simp add: live_head)
  have "obj_ok T m (get s m)" using assms(1) by (simp add: chinv_def objs_ok_def)
  then have o: "obj_ok T m (OHead (mh\<lparr>h_mount := ms\<rparr>))" using g assms(4) by auto
  have "chinv (put (idx (PH m)) (OHead (mh\<lparr>h_mount := ms\<rparr>)) s) T R' []"
    by (rule chinv_swap [OF assms(1) l]) (use g assms(3) o in simp_all)
  then show ?thesis using assms(2) head_valid [OF assms(2)] by (simp add: set_mounts_def head_at_put get_put)
qed

lemma newhead_ok:
  assumes "chinv s T R []" "live s (PC f)"
  shows "\<exists>m s'. newmhead f s = Some (m, s') \<and> post T (add_mset (PC f) (add_mset (PH m) R)) s s' \<and>
    head_at s' m = Some \<lparr>h_ref = 1, h_from = Some f, h_mount = []\<rparr> \<and> m \<notin># image_mset fst T \<and> adds m s s'"
proof -
  let ?m = "length (s_heap s)" let ?h = "\<lparr>h_ref = 1, h_from = Some f, h_mount = []\<rparr>"
  let ?s = "s\<lparr>s_heap := s_heap s @ [OHead ?h], s_ncname := s_ncname s, s_fid := s_fid s\<rparr>"
  have fr: "?m \<notin># image_mset fst T"
  proof
    assume "?m \<in># image_mset fst T"
    then obtain g where "(?m, g) \<in># T" by auto
    then have "live s (PH ?m)" by (rule table_head(2) [OF assms(1)])
    then show False using live_valid by fastforce
  qed
  then have "(?m, g) \<notin># T" for g by force
  then have p: "post T (add_mset (PH ?m) R) s ?s" by (intro chinv_append [OF assms(1)]) simp_all
  have g: "get ?s j = (if j = ?m then OHead ?h else get s j)" for j by (auto simp: get_def nth_append)
  have fm: "f \<noteq> ?m" using live_valid [OF assms(2)] by simp
  then have "live ?s (PC f)" using assms(2) unfolding live_def g by simp
  from incref_spec [OF postD [OF p] this] obtain x where x: "incref f ?s = Some (put f (set_ref x (get ?s f)) ?s)"
    "post T (add_mset (PC f) (add_mset (PH ?m) R)) ?s (put f (set_ref x (get ?s f)) ?s)" by auto
  have "head_at (put f (set_ref x (get ?s f)) ?s) ?m = Some ?h" unfolding head_at_def get_put g using fm by simp
  moreover have "adds ?m s (put f (set_ref x (get ?s f)) ?s)"
  proof (rule adds_reref [OF adds_new reref_put])
    show "\<forall>q. live s q \<longrightarrow> idx q \<noteq> ?m" using live_valid [of s] by fastforce
    show "\<forall>j. j \<noteq> ?m \<longrightarrow> get ?s j = get s j" unfolding g by simp
  qed
  ultimately show ?thesis using x p fr by (auto simp: newmhead_def intro: post_trans)
qed

lemma post_mountid: "post T R s (s'\<lparr>s_mountid := d\<rparr>) = post T R s s'"
  by (simp add: post_def keeps_def)

lemma newmount_ok:
  assumes "chinv s T R []" "live s (PC to)"
  shows "\<exists>nm s'. newmount to flag spec s = Some (nm, s') \<and> post T (add_mset (PC to) R) s s' \<and> reref s s' \<and>
    nm = \<lparr>m_id = s_mountid s', m_to = to, m_flag = flag, m_spec = spec\<rparr> \<and> s_mountid s' = s_mountid s + 1"
proof -
  from incref_spec [OF assms] obtain x where x: "incref to s = Some (put to (set_ref x (get s to)) s)"
    "post T (add_mset (PC to) R) s (put to (set_ref x (get s to)) s)" by auto
  show ?thesis using x reref_put [of s to x] by (simp add: newmount_def post_mountid reref_def)
qed

lemma reref_head: "reref s s' \<Longrightarrow> head_at s m = Some mh \<Longrightarrow> \<exists>x. head_at s' m = Some (mh\<lparr>h_ref := x\<rparr>)"
proof -
  assume a: "reref s s'" "head_at s m = Some mh"
  from a(1) obtain x where "get s' m = set_ref x (get s m)" unfolding reref_def by blast
  then have "head_at s' m = Some (mh\<lparr>h_ref := x\<rparr>)" using head_atD [OF a(2)] by (simp add: head_at_def)
  then show ?thesis ..
qed

text \<open>The copies of a union are its members, in order, with the flags asked for.\<close>

lemma copy_union_ok:
  assumes "chinv s T R []" "\<And>u. u \<in> set us \<Longrightarrow> live s (PC (m_to u))"
  shows "\<exists>cs s'. copy_union us flg s = Some (cs, s') \<and> post T (mount_refs cs + R) s s' \<and> reref s s' \<and>
    map m_to cs = map m_to us \<and> map m_flag cs = map (\<lambda>u. flg OR (m_flag u AND MREADONLY)) us \<and> map m_spec cs = map m_spec us"
  using assms
proof (induction us arbitrary: s R)
  case Nil
  then show ?case by (simp add: post_refl)
next
  case (Cons u us)
  obtain f s1 where s1: "newmount (m_to u) (flg OR (m_flag u AND MREADONLY)) (m_spec u) s = Some (f, s1)"
    "post T (add_mset (PC (m_to u)) R) s s1" "reref s s1" "m_to f = m_to u" "m_flag f = flg OR (m_flag u AND MREADONLY)"
    "m_spec f = m_spec u"
    using newmount_ok [OF Cons.prems(1), of "m_to u"] Cons.prems(2) [of u] by fastforce
  obtain cs s2 where s2: "copy_union us flg s1 = Some (cs, s2)" "post T (mount_refs cs + add_mset (PC (m_to u)) R) s1 s2"
    "reref s1 s2" "map m_to cs = map m_to us" "map m_flag cs = map (\<lambda>u. flg OR (m_flag u AND MREADONLY)) us"
    "map m_spec cs = map m_spec us"
    using Cons.IH [OF postD [OF s1(2)]] Cons.prems(2) s1(3) by (auto simp: reref_live)
  have "post T (mount_refs (f # cs) + R) s s2" using post_trans [OF s1(2) s2(2)] s1(4) by simp
  then show ?case using s1 s2 reref_trans [OF s1(3) s2(3)] by (auto simp: add_mset_commute)
qed

lemma mountfree_ok:
  assumes "chinv s T (mount_refs ms + R) []"
  shows "\<exists>s'. mountfree ms s = Some s' \<and> post T R s s' \<and> shrinks s s'"
proof -
  have "wrefs (map (\<lambda>m. CClose (m_to m)) ms) = mount_refs ms" by (induction ms) simp_all
  moreover have "relinks (map (\<lambda>m. CClose (m_to m)) ms) = []" by (induction ms) simp_all
  ultimately show ?thesis using runsD [OF release_ok [of s T "map (\<lambda>m. CClose (m_to m)) ms" R]] assms by (simp add: mountfree_def)
qed

lemma shrinks_head:
  assumes "shrinks s s'" "live s' (PH c)" "head_at s c = Some ch"
  shows "\<exists>x. head_at s' c = Some (ch\<lparr>h_ref := x\<rparr>)"
  using shrinks_live [OF assms(1,2)] head_atD [OF assms(3)] by (auto simp: head_at_def)

subsection \<open>Mounting\<close>

lemma keeps_except:
  assumes "\<And>j. j \<noteq> m \<Longrightarrow> get s' j = get s j" "m \<notin># image_mset fst T"
  shows "keeps T s s'"
  unfolding keeps_def
proof (intro allI impI)
  fix h f mh assume "(h, f) \<in># T" "get s h = OHead mh"
  moreover from this have "h \<noteq> m" using assms(2) by force
  ultimately show "\<exists>x. get s' h = OHead (mh\<lparr>h_ref := x\<rparr>)" using assms(1) mhead_self by simp
qed

lemma keeps_sub: "keeps (T + U) s s' \<Longrightarrow> keeps T s s'"
  by (auto simp: keeps_def)

text \<open>
  Mounting changes one head, \<open>m\<close>, from \<open>f\<close>: it is in the table then, beside the heads \<open>T0\<close>, which are kept.
\<close>

definition readied :: "mtab \<Rightarrow> ptr multiset \<Rightarrow> nat \<Rightarrow> nat \<Rightarrow> mtab \<Rightarrow> pgrp \<Rightarrow> store \<Rightarrow> store \<Rightarrow> bool" where
  "readied T R m f T0 pg s s' \<longleftrightarrow> chinv s' (add_mset (m, f) T0) R [] \<and> m \<notin># image_mset fst T0 \<and> keeps T0 s s' \<and>
     (T = T0 \<or> T = add_mset (m, f) T0) \<and> length (g_mnthash pg) = 32 \<and>
     mset (concat (g_mnthash pg)) \<subseteq># image_mset fst (add_mset (m, f) T0) \<and> (\<forall>p. live s p \<longrightarrow> live s' p) \<and>
     (\<forall>h mh. head_at s h = Some mh \<longrightarrow> (\<exists>x. head_at s' h = Some (mh\<lparr>h_ref := x\<rparr>)))"

text \<open>The group's chains: the head was there, or it is added to one of them.\<close>

definition entered :: "mtab \<Rightarrow> nat \<Rightarrow> nat \<Rightarrow> mtab \<Rightarrow> pgrp \<Rightarrow> pgrp \<Rightarrow> bool" where
  "entered T m f T0 pg pg' \<longleftrightarrow> pg' = pg\<lparr>g_mnthash := g_mnthash pg'\<rparr> \<and>
     (T = T0 \<and> mset (concat (g_mnthash pg')) = add_mset m (mset (concat (g_mnthash pg))) \<or>
      T = add_mset (m, f) T0 \<and> g_mnthash pg' = g_mnthash pg \<and> m \<in> set (concat (g_mnthash pg)))"

lemma mset_chain: "h < length xs \<Longrightarrow> mset (concat (xs[h := xs ! h @ [m]])) = add_mset m (mset (concat xs))"
  by (induction xs arbitrary: h) (auto split: nat.split)

lemma mset_unchain: "h < length xs \<Longrightarrow> m \<in> set (xs ! h) \<Longrightarrow> mset (concat (xs[h := remove1 m (xs ! h)])) = mset (concat xs) - {#m#}"
proof (induction xs arbitrary: h)
  case (Cons x xs)
  show ?case
  proof (cases h)
    case (Suc k)
    then have "m \<in># mset (concat xs)" using Cons.prems by (auto intro!: nth_mem bexI [of _ "xs ! k"])
    then show ?thesis using Cons Suc by (simp add: diff_union_swap2 mset_subset_eq_single)
  qed (use Cons.prems in \<open>simp add: diff_union_swap2\<close>)
qed simp

lemma mount_head_old:
  assumes "chinv s T R []" "tab_ok pg s T" "chan_at s old = Some od"
    "find_head (\<lambda>f. eqchan f od True) (g_mnthash pg ! MOUNTH (c_qid od)) s = Some (Some m)"
  shows "\<exists>f T0 mh. mount_head old order pg s = Some (m, pg, s) \<and> readied T R m f T0 pg s s \<and> entered T m f T0 pg pg \<and>
    head_at s m = Some mh \<and> h_from mh = Some f \<and> h_mount mh \<noteq> []"
proof -
  have mc: "m \<in> set (g_mnthash pg ! MOUNTH (c_qid od))"
    using find_head_ok [OF assms(1), of "g_mnthash pg ! MOUNTH (c_qid od)" "\<lambda>f. eqchan f od True"] chain_table [OF assms(2)] assms(4)
    by auto
  have "g_mnthash pg ! MOUNTH (c_qid od) \<in> set (g_mnthash pg)"
    using assms(2) MOUNTH_less [of "c_qid od"] by (intro nth_mem) (simp add: tab_ok_def)
  then have mpg: "m \<in> set (concat (g_mnthash pg))" using mc by auto
  from mc obtain f where f: "(m, f) \<in># T" using chain_table [OF assms(2)] by blast
  obtain mh where mh: "head_at s m = Some mh" "h_from mh = Some f" using table_head(1) [OF assms(1) f] by blast
  let ?T0 = "T - {#(m, f)#}"
  have T: "T = add_mset (m, f) ?T0" using f by simp
  have "count (image_mset fst (add_mset (m, f) ?T0)) m \<le> 1" using assms(2) T unfolding tab_ok_def by metis
  then have n: "m \<notin># image_mset fst ?T0" unfolding not_in_iff by simp
  have ne: "h_mount mh \<noteq> []" using assms(2) f head_atD [OF mh(1)] by (auto simp: tab_ok_def)
  have "readied T R m f ?T0 pg s s" unfolding readied_def
    using assms(1,2) T n mhead_self by (auto simp: tab_ok_def)
  moreover have "entered T m f ?T0 pg pg" using T mpg by (simp add: entered_def)
  moreover have "mount_head old order pg s = Some (m, pg, s)" using assms(3,4) by (simp add: mount_head_def Let_def)
  ultimately show ?thesis using mh ne by blast
qed

lemma adds_head:
  assumes "adds m s s'" "head_at s h = Some mh"
  shows "h \<noteq> m \<and> (\<exists>x. head_at s' h = Some (mh\<lparr>h_ref := x\<rparr>))"
proof -
  have "live s (PH h)" using assms(2) by (simp add: live_head)
  then have "h \<noteq> m" using assms(1) by (auto simp: adds_def)
  moreover from this obtain x where "get s' h = set_ref x (get s h)" using assms(1) by (auto simp: adds_def)
  then have "head_at s' h = Some (mh\<lparr>h_ref := x\<rparr>)" using head_atD [OF assms(2)] by (simp add: head_at_def)
  ultimately show ?thesis by blast
qed

lemma mount_head_new:
  assumes "chinv s T R []" "tab_ok pg s T" "chan_at s old = Some od" "live s (PC old)"
    "find_head (\<lambda>f. eqchan f od True) (g_mnthash pg ! MOUNTH (c_qid od)) s = Some None"
  shows "\<exists>m pg' s' mh. mount_head old order pg s = Some (m, pg', s') \<and> readied T R m old T pg' s s' \<and> entered T m old T pg pg' \<and>
    head_at s' m = Some mh \<and> h_from mh = Some old \<and> map m_to (h_mount mh) = (if order \<noteq> MREPL then [old] else [])"
proof -
  let ?h = "MOUNTH (c_qid od)"
  obtain m s1 where s1: "newmhead old s = Some (m, s1)" "post T (add_mset (PC old) (add_mset (PH m) R)) s s1"
    "head_at s1 m = Some \<lparr>h_ref = 1, h_from = Some old, h_mount = []\<rparr>" "m \<notin># image_mset fst T" "adds m s s1"
    using newhead_ok [OF assms(1,4)] by blast
  let ?T = "add_mset (m, old) T" let ?pg = "pg\<lparr>g_mnthash := (g_mnthash pg)[?h := g_mnthash pg ! ?h @ [m]]\<rparr>"
  have c1: "chinv s1 ?T R []"
    using postD [OF s1(2)] s1(3,4) by (intro chinv_enter) (auto simp: add_mset_commute)
  have "?h < length (g_mnthash pg)" using assms(2) MOUNTH_less by (simp add: tab_ok_def)
  then have tb: "length (g_mnthash ?pg) = 32" "mset (concat (g_mnthash ?pg)) \<subseteq># image_mset fst ?T"
    using assms(2) by (simp_all add: tab_ok_def mset_chain)
  have e: "entered T m old T pg ?pg"
    using \<open>?h < length (g_mnthash pg)\<close> by (simp add: entered_def mset_chain)
  have k1: "keeps T s s1" using s1(2) by (simp add: post_def)
  have l1: "live s p \<Longrightarrow> live s1 p" for p using s1(5) by (rule adds_live)
  have h1: "head_at s h = Some mh \<Longrightarrow> h \<noteq> m \<and> (\<exists>x. head_at s1 h = Some (mh\<lparr>h_ref := x\<rparr>))" for h mh
    using s1(5) by (rule adds_head)
  show ?thesis
  proof (cases "order = MREPL")
    case True
    have "readied T R m old T ?pg s s1" using c1 s1(4) k1 tb l1 h1 by (simp add: readied_def)
    moreover have "mount_head old order pg s = Some (m, ?pg, s1)"
      using True assms(3,5) s1(1) by (simp add: mount_head_def Let_def)
    ultimately show ?thesis using s1(3) True e by fastforce
  next
    case False
    obtain nm s2 where s2: "newmount old 0 None s1 = Some (nm, s2)" "post ?T (add_mset (PC old) R) s1 s2" "reref s1 s2" "m_to nm = old"
      using newmount_ok [OF c1 l1 [OF assms(4)], of 0 None] by fastforce
    obtain x where x: "head_at s2 m = Some \<lparr>h_ref = x, h_from = Some old, h_mount = []\<rparr>" using reref_head [OF s2(3) s1(3)] by auto
    from set_mounts_ok [OF postD [OF s2(2)] x, of "[nm]" R] s2(4) obtain s3 where
      s3: "set_mounts m [nm] s2 = Some s3" "chinv s3 ?T R []" "head_at s3 m = Some \<lparr>h_ref = x, h_from = Some old, h_mount = [nm]\<rparr>"
      "\<forall>j. j \<noteq> m \<longrightarrow> get s3 j = get s2 j" by auto
    have "keeps T s1 s2" using s2(2) keeps_sub [of T "{#(m, old)#}" s1 s2] by (simp add: post_def)
    moreover have "keeps T s2 s3" using s3(4) s1(4) by (intro keeps_except) auto
    ultimately have k: "keeps T s s3" using k1 by (blast intro: keeps_trans)
    have l: "live s3 p" if "live s p" for p
    proof -
      have "idx p \<noteq> m" using s1(5) that by (auto simp: adds_def)
      then show ?thesis using l1 [OF that] reref_live [OF s2(3), of p] s3(4) by (simp add: live_def)
    qed
    have h: "\<exists>x. head_at s3 h = Some (mh\<lparr>h_ref := x\<rparr>)" if "head_at s h = Some mh" for h mh
      using h1 [OF that] reref_head [OF s2(3), of h] s3(4) by (fastforce simp: head_at_def)
    have "readied T R m old T ?pg s s3" using s3(2) s1(4) k tb l h by (simp add: readied_def)
    moreover have "mount_head old order pg s = Some (m, ?pg, s3)"
      using False assms(3,5) s1(1) s2(1) s3(1) by (simp add: mount_head_def Let_def)
    ultimately show ?thesis using s3(3) s2(4) False e by fastforce
  qed
qed

text \<open>The members, as channels, of the union that a mount on \<open>old\<close> extends.\<close>

definition union_base :: "nat \<Rightarrow> chan \<Rightarrow> u32 \<Rightarrow> pgrp \<Rightarrow> store \<Rightarrow> nat list" where
  "union_base old od order pg s =
     (case find_head (\<lambda>f. eqchan f od True) (g_mnthash pg ! MOUNTH (c_qid od)) s of
        Some (Some m) \<Rightarrow> (case head_at s m of Some mh \<Rightarrow> map m_to (h_mount mh) | None \<Rightarrow> [])
      | _ \<Rightarrow> if order \<noteq> MREPL then [old] else [])"

lemma mount_head_ok:
  assumes "chinv s T R []" "tab_ok pg s T" "chan_at s old = Some od" "live s (PC old)"
  shows "\<exists>m pg' s' f T0 mh. mount_head old order pg s = Some (m, pg', s') \<and> readied T R m f T0 pg' s s' \<and> entered T m f T0 pg pg' \<and>
    head_at s' m = Some mh \<and> h_from mh = Some f \<and> map m_to (h_mount mh) = union_base old od order pg s \<and>
    (order \<noteq> MREPL \<longrightarrow> h_mount mh \<noteq> [])"
proof -
  obtain r where r: "find_head (\<lambda>f. eqchan f od True) (g_mnthash pg ! MOUNTH (c_qid od)) s = Some r"
    using find_head_ok [OF assms(1), of "g_mnthash pg ! MOUNTH (c_qid od)"] chain_table [OF assms(2)] by blast
  show ?thesis
  proof (cases r)
    case None
    from mount_head_new [OF assms(1-4) r [unfolded None], of order] show ?thesis using r None
      by (fastforce simp: union_base_def)
  next
    case (Some m)
    from mount_head_old [OF assms(1-3) r [unfolded Some], of order] show ?thesis using r Some
      by (fastforce simp: union_base_def)
  qed
qed

lemma tab_mounted:
  assumes "tab_ok pg s T" "chinv s T R0 P" "T = T0 \<or> T = add_mset (m, f) T0" "m \<notin># image_mset fst T0" "keeps T0 s s'"
    "length (g_mnthash pg') = 32" "mset (concat (g_mnthash pg')) \<subseteq># image_mset fst (add_mset (m, f) T0)"
    "head_at s' m = Some mh" "h_mount mh \<noteq> []"
  shows "tab_ok pg' s' (add_mset (m, f) T0)"
proof -
  have ne: "h_mount k \<noteq> []" if "(h, g) \<in># add_mset (m, f) T0" "get s' h = OHead k" for h g k
  proof (cases "(h, g) \<in># T0")
    case True
    then have "(h, g) \<in># T" using assms(3) by auto
    moreover from this obtain l where l: "head_at s h = Some l" using table_head(1) [OF assms(2)] by blast
    ultimately have "h_mount l \<noteq> []" using assms(1) head_atD [OF l] by (auto simp: tab_ok_def)
    moreover have "\<exists>x. get s' h = OHead (l\<lparr>h_ref := x\<rparr>)" using assms(5) True head_atD [OF l] unfolding keeps_def by blast
    ultimately show ?thesis using that(2) by auto
  next
    case False
    then show ?thesis using that head_atD [OF assms(8)] assms(9) by auto
  qed
  have "count (image_mset fst T0) h \<le> count (image_mset fst T) h" for h using assms(3) by auto
  then have "count (image_mset fst T0) h \<le> 1" for h using assms(1) by (meson le_trans tab_ok_def)
  moreover have "count (image_mset fst T0) m = 0" using assms(4) by (simp only: not_in_iff)
  ultimately have "count (image_mset fst (add_mset (m, f) T0)) h \<le> 1" for h by (cases "h = m") simp_all
  then show ?thesis using ne assms(6,7) by (simp add: tab_ok_def)
qed

text \<open>The union a mount leaves: the new member and copies of the union it is bound from, before or after the base.\<close>

definition union_after :: "u32 \<Rightarrow> nat list \<Rightarrow> nat list \<Rightarrow> nat list" where
  "union_after order news old = (if order = MREPL then news else if order = MAFTER then old @ news else news @ old)"


lemma live_umh:
  assumes "chinv s T R P" "chan_at s new = Some n" "\<not> cfree n"
  shows "\<exists>ms. mounts_of (c_umh n) s = Some ms"
proof (cases "c_umh n")
  case (Some h)
  then have "live s (PH h)" by (rule live_mchan(3) [OF assms])
  then show ?thesis using Some by (auto simp: live_head mounts_of_def)
qed (simp add: mounts_of_def)

lemma mounts_of_same:
  assumes "\<And>h mh. head_at s h = Some mh \<Longrightarrow> \<exists>x. head_at s' h = Some (mh\<lparr>h_ref := x\<rparr>)" "mounts_of u s = Some ms"
  shows "mounts_of u s' = Some ms"
proof (cases u)
  case (Some h)
  then obtain mh where "head_at s h = Some mh" "ms = h_mount mh" using assms(2) by (auto simp: mounts_of_def)
  then show ?thesis using assms(1) [of h mh] Some by (auto simp: mounts_of_def)
qed (use assms(2) in \<open>simp add: mounts_of_def\<close>)

lemma mounts_live:
  assumes "chinv s T R P" "mounts_of u s = Some ms" "x \<in> set ms"
  shows "live s (PC (m_to x))"
proof -
  obtain h mh where "u = Some h" "head_at s h = Some mh" "ms = h_mount mh" using assms(2,3) by (cases u) (auto simp: mounts_of_def)
  then show ?thesis using live_out [OF assms(1), of "PC (m_to x)" h] head_atD assms(3) by (force simp: mount_refs_def)
qed

text \<open>The last part of \<open>cmount\<close>: what was mounted goes if it is replaced, and the new members are linked in.\<close>

lemma link_mounts_ok:
  assumes "chinv s (add_mset (m, f) T0) (mount_refs (nm # cs) + R) []" "head_at s m = Some mh" "m \<notin># image_mset fst T0"
  shows "\<exists>s' mh'. link_mounts m order nm cs s = Some s' \<and> chinv s' (add_mset (m, f) T0) R [] \<and> keeps T0 s s' \<and>
    head_at s' m = Some mh' \<and> h_from mh' = h_from mh \<and>
    h_mount mh' = (if order = MREPL then nm # cs else if h_mount mh \<noteq> [] \<and> order = MAFTER then h_mount mh @ nm # cs
      else nm # cs @ h_mount mh)"
proof -
  let ?T = "add_mset (m, f) T0" let ?R = "mount_refs (nm # cs) + R"
  obtain ms s1 x where s1: "(if h_mount mh \<noteq> [] \<and> order = MREPL then do { s \<leftarrow> set_mounts m [] s; s \<leftarrow> mountfree (h_mount mh) s; Some ([], s) }
      else Some (h_mount mh, s)) = Some (ms, s1)" "chinv s1 ?T ?R []" "keeps T0 s s1"
    "head_at s1 m = Some (mh\<lparr>h_ref := x, h_mount := ms\<rparr>)" "ms = (if order = MREPL then [] else h_mount mh)"
  proof (cases "h_mount mh \<noteq> [] \<and> order = MREPL")
    case False
    have "mh = mh\<lparr>h_ref := h_ref mh, h_mount := h_mount mh\<rparr>" by simp
    then have "head_at s m = Some (mh\<lparr>h_ref := h_ref mh, h_mount := h_mount mh\<rparr>)" using assms(2) by simp
    then show thesis using False assms(1) by (intro that [of "h_mount mh" s "h_ref mh"]) auto
  next
    case True
    from set_mounts_ok [OF assms(1,2), of "[]" "mount_refs (h_mount mh) + ?R"] obtain t where
      t: "set_mounts m [] s = Some t" "chinv t ?T (mount_refs (h_mount mh) + ?R) []" "head_at t m = Some (mh\<lparr>h_mount := []\<rparr>)"
      "\<forall>j. j \<noteq> m \<longrightarrow> get t j = get s j" by auto
    from mountfree_ok [OF t(2)] obtain u where u: "mountfree (h_mount mh) t = Some u" "post ?T ?R t u" "shrinks t u" by blast
    have "live u (PH m)" by (rule table_head(2) [OF postD [OF u(2)], of m f]) simp
    from shrinks_head [OF u(3) this t(3)] obtain x where "head_at u m = Some (mh\<lparr>h_mount := [], h_ref := x\<rparr>)" by blast
    then have "head_at u m = Some (mh\<lparr>h_ref := x, h_mount := []\<rparr>)" by (cases mh) simp
    moreover have "keeps T0 s t" using t(4) assms(3) by (intro keeps_except) auto
    moreover have "keeps T0 t u" using u(2) keeps_sub [of T0 "{#(m, f)#}" t u] by (simp add: post_def)
    ultimately show thesis using True t(1) u(1,2) by (intro that [of "[]" u x]) (auto simp: post_def intro: keeps_trans)
  qed
  let ?ms = "if ms \<noteq> [] \<and> order = MAFTER then ms @ nm # cs else nm # cs @ ms"
  have "mount_refs ms + ?R = mount_refs ?ms + R" by (simp add: ac_simps)
  with set_mounts_ok [OF s1(2,4), of ?ms R] obtain s2 where s2: "set_mounts m ?ms s1 = Some s2" "chinv s2 ?T R []"
    "head_at s2 m = Some (mh\<lparr>h_ref := x, h_mount := ?ms\<rparr>)" "\<forall>j. j \<noteq> m \<longrightarrow> get s2 j = get s1 j"
    by auto
  have "keeps T0 s1 s2" using s2(4) assms(3) by (intro keeps_except) auto
  then have "keeps T0 s s2" using s1(3) by (blast intro: keeps_trans)
  moreover have "link_mounts m order nm cs s = Some s2" using assms(2) s1(1) s2(1) by (simp add: link_mounts_def mounts_of_def)
  moreover have "?ms = (if order = MREPL then nm # cs else if h_mount mh \<noteq> [] \<and> order = MAFTER then h_mount mh @ nm # cs
      else nm # cs @ h_mount mh)" using s1(5) by simp
  ultimately show ?thesis using s2(2,3) by force
qed

lemma cmount_ok:
  assumes "chinv s T R []" "tab_ok pg s T" "chan_at s new = Some n" "chan_at s old = Some od" "PC new \<in># R" "PC old \<in># R"
    "mounts_of (c_umh n) s = Some us"
  shows "\<exists>r pg' s'. cmount new old flag spec pg s = Some (r, pg', s') \<and> (case r of
      Inl e \<Rightarrow> e = Emount \<and> pg' = pg \<and> s' = s
    | Inr k \<Rightarrow> \<exists>m f T0 mh. entered T m f T0 pg pg' \<and> chinv s' (add_mset (m, f) T0) R [] \<and>
        tab_ok pg' s' (add_mset (m, f) T0) \<and> keeps T0 s s' \<and> head_at s' m = Some mh \<and> h_from mh = Some f \<and>
        map m_to (h_mount mh) = union_after (flag AND MORDER) (new # map m_to (tl us)) (union_base old od (flag AND MORDER) pg s))"
proof -
  let ?o = "flag AND MORDER"
  have ln: "live s (PC new)" and lo: "live s (PC old)" using assms(1,5,6) by (auto intro: chinv_held)
  have nn: "\<not> cfree n" using ln assms(3) by (simp add: live_chan)
  show ?thesis
  proof (cases "QTDIR AND (q_type (c_qid od) XOR q_type (c_qid n)) \<noteq> 0 \<or> q_type (c_qid od) AND QTDIR = 0 \<and> ?o \<noteq> MREPL \<or>
      flag AND MCREATE \<noteq> 0 \<and> us \<noteq> [] \<and> (tl us \<noteq> [] \<or> m_flag (hd us) AND MCREATE = 0)")
    case True
    then show ?thesis using assms(3,4,7) by (auto simp: cmount_def Let_def)
  next
    case False
    then have g: "QTDIR AND (q_type (c_qid od) XOR q_type (c_qid n)) = 0" "\<not> (q_type (c_qid od) AND QTDIR = 0 \<and> ?o \<noteq> MREPL)"
      "\<not> (flag AND MCREATE \<noteq> 0 \<and> us \<noteq> [] \<and> (tl us \<noteq> [] \<or> m_flag (hd us) AND MCREATE = 0))" by blast+
    obtain m pg1 s1 f T0 mh where s1: "mount_head old ?o pg s = Some (m, pg1, s1)" "readied T R m f T0 pg1 s s1"
      "head_at s1 m = Some mh" "h_from mh = Some f" "map m_to (h_mount mh) = union_base old od ?o pg s" "?o \<noteq> MREPL \<longrightarrow> h_mount mh \<noteq> []"
      "entered T m f T0 pg pg1"
      using mount_head_ok [OF assms(1,2,4) lo] by blast
    let ?T = "add_mset (m, f) T0"
    have r: "chinv s1 ?T R []" "m \<notin># image_mset fst T0" "keeps T0 s s1" "T = T0 \<or> T = ?T" "length (g_mnthash pg1) = 32"
      "mset (concat (g_mnthash pg1)) \<subseteq># image_mset fst ?T" "live s1 (PC new)" "mounts_of (c_umh n) s1 = Some us"
      using s1(2) ln mounts_of_same [OF _ assms(7), of s1] unfolding readied_def by blast+
    obtain nm s2 where s2: "newmount new flag spec s1 = Some (nm, s2)" "post ?T (add_mset (PC new) R) s1 s2" "reref s1 s2" "m_to nm = new"
      using newmount_ok [OF r(1,7), of flag spec] by fastforce
    have u2: "mounts_of (c_umh n) s2 = Some us" using reref_head [OF s2(3)] by (rule mounts_of_same [OF _ r(8)])
    let ?flg = "if ?o = MREPL then MAFTER OR (flag AND MREADONLY) else ?o OR (flag AND MREADONLY)"
    have "live s2 (PC (m_to u))" if "u \<in> set (tl us)" for u
      using mounts_live [OF postD [OF s2(2)] u2] that by (cases us) auto
    from copy_union_ok [OF postD [OF s2(2)] this] obtain cs s3 where s3: "copy_union (tl us) ?flg s2 = Some (cs, s3)"
      "post ?T (mount_refs cs + add_mset (PC new) R) s2 s3" "reref s2 s3" "map m_to cs = map m_to (tl us)" by blast
    obtain x where x: "head_at s3 m = Some (mh\<lparr>h_ref := x\<rparr>)" using reref_head [OF reref_trans [OF s2(3) s3(3)] s1(3)] by blast
    let ?h = "mh\<lparr>h_ref := x\<rparr>"
    let ?nm = "if flag AND MCREATE \<noteq> 0 then nm\<lparr>m_flag := m_flag nm OR MCREATE\<rparr> else nm"
    have nm: "m_to ?nm = new" using s2(4) by simp
    have "chinv s3 ?T (mount_refs (?nm # cs) + R) []" using postD [OF s3(2)] nm by (simp add: mount_refs_def)
    from link_mounts_ok [OF this x r(2), of ?o] obtain s5 mh' where l: "link_mounts m ?o ?nm cs s3 = Some s5" "chinv s5 ?T R []"
      "keeps T0 s3 s5" "head_at s5 m = Some mh'" "h_from mh' = h_from ?h"
      "h_mount mh' = (if ?o = MREPL then ?nm # cs else if h_mount ?h \<noteq> [] \<and> ?o = MAFTER then h_mount ?h @ ?nm # cs
        else ?nm # cs @ h_mount ?h)" by blast
    have "keeps T0 s s5"
      using r(3) l(3) s2(2) s3(2) keeps_sub [of T0 "{#(m, f)#}"] by (simp add: post_def) (blast intro: keeps_trans)
    moreover have "tab_ok pg1 s5 ?T"
      by (rule tab_mounted [OF assms(2,1) r(4,2) calculation r(5,6) l(4)]) (simp add: l(6))
    moreover have "map m_to (h_mount mh') = union_after ?o (new # map m_to (tl us)) (union_base old od ?o pg s)"
      using l(6) s1(5,6) s3(4) nm by (auto simp: union_after_def)
    moreover have "cmount new old flag spec pg s = Some (Inr (m_id ?nm), pg1, s5)"
      unfolding cmount_def using assms(3,4,7) g s1(1) s2(1) u2 s3(1) l(1) by (simp add: Let_def)
    ultimately show ?thesis using s1(4,7) l(2,4,5) by auto
  qed
qed

subsection \<open>Unmounting\<close>

definition is_mounted :: "chan \<Rightarrow> store \<Rightarrow> mount \<Rightarrow> bool" where
  "is_mounted mounted s x \<longleftrightarrow> (\<exists>to. chan_at s (m_to x) = Some to \<and> (eqchan to mounted True \<or>
     (\<exists>p mc. c_mchan to = Some p \<and> chan_at s p = Some mc \<and> eqchan mc mounted True)))"

lemma take_mount_ok:
  assumes "chinv s T R P" "\<And>x. x \<in> set ms \<Longrightarrow> live s (PC (m_to x))"
  shows "\<exists>gs r. take_mount mc ms s = Some (gs, r) \<and> (case r of
      None \<Rightarrow> gs = ms \<and> list_all (\<lambda>x. \<not> is_mounted mc s x) ms
    | Some x \<Rightarrow> \<exists>as bs. ms = as @ x # bs \<and> gs = as @ bs \<and> is_mounted mc s x \<and> list_all (\<lambda>x. \<not> is_mounted mc s x) as)"
  using assms(2)
proof (induction ms)
  case (Cons x ms)
  obtain to where to: "chan_at s (m_to x) = Some to" "\<not> cfree to" using chan_live [OF Cons.prems [of x]] by auto
  obtain srv where srv: "(case c_mchan to of None \<Rightarrow> Some False | Some p \<Rightarrow> do { mc' \<leftarrow> chan_at s p; Some (eqchan mc' mc True) }) = Some srv"
    "srv \<longleftrightarrow> (\<exists>p mc'. c_mchan to = Some p \<and> chan_at s p = Some mc' \<and> eqchan mc' mc True)"
  proof (cases "c_mchan to")
    case (Some p)
    obtain mc' where "chan_at s p = Some mc'" using chan_live [OF live_mchan(1) [OF assms(1) to Some]] by blast
    then show thesis using Some by (intro that [of "eqchan mc' mc True"]) simp_all
  next
    case None
    then show thesis by (intro that [of False]) simp_all
  qed
  have im: "is_mounted mc s x \<longleftrightarrow> eqchan to mc True \<or> srv" using to(1) srv(2) by (auto simp: is_mounted_def)
  show ?case
  proof (cases "is_mounted mc s x")
    case True
    then have "take_mount mc (x # ms) s = Some (ms, Some x)" using im to(1) srv(1) by simp
    moreover have "x # ms = [] @ x # ms \<and> ms = [] @ ms \<and> is_mounted mc s x \<and> list_all (\<lambda>x. \<not> is_mounted mc s x) []"
      using True by simp
    ultimately show ?thesis by (intro exI [of _ ms] exI [of _ "Some x"]) (simp only: option.case, blast)
  next
    case False
    obtain gs r where g: "take_mount mc ms s = Some (gs, r)" "case r of
      None \<Rightarrow> gs = ms \<and> list_all (\<lambda>x. \<not> is_mounted mc s x) ms
    | Some y \<Rightarrow> \<exists>as bs. ms = as @ y # bs \<and> gs = as @ bs \<and> is_mounted mc s y \<and> list_all (\<lambda>x. \<not> is_mounted mc s x) as"
      using Cons by auto
    have e: "take_mount mc (x # ms) s = Some (x # gs, r)" using False im to(1) srv(1) g(1) by simp
    show ?thesis
    proof (cases r)
      case None
      then show ?thesis using e g(2) False by simp
    next
      case (Some y)
      then obtain as bs where "ms = as @ y # bs" "gs = as @ bs" "is_mounted mc s y" "list_all (\<lambda>x. \<not> is_mounted mc s x) as"
        using g(2) by auto
      then have "x # ms = (x # as) @ y # bs" "x # gs = (x # as) @ bs" "list_all (\<lambda>x. \<not> is_mounted mc s x) (x # as)"
        using False by simp_all
      then show ?thesis using \<open>is_mounted mc s y\<close>
        by (intro exI [of _ "x # gs"] exI [of _ "Some y"] conjI e [unfolded Some]) (simp only: option.case, blast)
    qed
  qed
qed simp

text \<open>A head with no mounts left goes out of the table, with the channel it is from.\<close>

lemma drop_head:
  assumes "chinv s (add_mset (m, f) T0) R []" "head_at s m = Some mh" "h_mount mh = []"
  shows "\<exists>s1 s2. cclose (Some f) s = Some s1 \<and> putmhead (Some m) s1 = Some s2 \<and> post T0 R s s2"
proof -
  have "chinv s T0 (optr PC (Some f) + add_mset (PH m) R) []"
    using chinv_leave [OF assms] by (simp add: add_mset_commute)
  from runsD [OF cclose_ok [OF this]] obtain s1 where s1: "cclose (Some f) s = Some s1" "post T0 (add_mset (PH m) R) s s1" by auto
  have "chinv s1 T0 (optr PH (Some m) + R) []" using postD [OF s1(2)] by simp
  from runsD [OF putmhead_ok [OF this]] show ?thesis using s1 by (auto intro: post_trans)
qed

lemma tab_unlinked:
  assumes "tab_ok pg s (add_mset (m, f) T0)" "chinv s (add_mset (m, f) T0) R P" "keeps T0 s s'" "m \<in> set (g_mnthash pg ! h)"
    "h < length (g_mnthash pg)"
  shows "tab_ok (unlink_head h m pg) s' T0"
proof -
  have "h_mount k \<noteq> []" if "(i, g) \<in># T0" "get s' i = OHead k" for i g k
  proof -
    have e: "(i, g) \<in># add_mset (m, f) T0" using that(1) by simp
    then obtain l where l: "head_at s i = Some l" using table_head(1) [OF assms(2)] by blast
    then have "h_mount l \<noteq> []" using assms(1) e head_atD [OF l] unfolding tab_ok_def by blast
    moreover have "\<exists>x. get s' i = OHead (l\<lparr>h_ref := x\<rparr>)" using assms(3) that(1) head_atD [OF l] unfolding keeps_def by blast
    ultimately show ?thesis using that(2) by auto
  qed
  moreover have "mset (concat (g_mnthash (unlink_head h m pg))) = mset (concat (g_mnthash pg)) - {#m#}"
    using mset_unchain [OF assms(5,4)] by (simp add: unlink_head_def)
  moreover have "mset (concat (g_mnthash pg)) - {#m#} \<subseteq># image_mset fst T0"
    using assms(1) by (simp add: tab_ok_def subset_eq_diff_conv)
  moreover have "count (image_mset fst T0) i \<le> 1" for i
  proof -
    have "count (image_mset fst T0) i \<le> count (image_mset fst (add_mset (m, f) T0)) i" by simp
    also have "\<dots> \<le> 1" using assms(1) by (simp only: tab_ok_def)
    finally show ?thesis .
  qed
  ultimately show ?thesis using assms(1) by (simp add: tab_ok_def unlink_head_def)
qed

text \<open>The head \<open>m\<close> is where things are mounted on \<open>c\<close>: the channel it is from is \<open>c\<close> to \<open>eqchan\<close>.\<close>

definition is_from :: "chan \<Rightarrow> store \<Rightarrow> nat \<Rightarrow> bool" where
  "is_from c s m \<longleftrightarrow> (\<exists>mh f fc. head_at s m = Some mh \<and> h_from mh = Some f \<and> chan_at s f = Some fc \<and> eqchan fc c True)"

lemma find_head_find:
  "find_head (\<lambda>f. eqchan f c True) ms s = Some r \<Longrightarrow> r = find (is_from c s) ms"
proof (induction ms)
  case (Cons m ms)
  obtain mh where mh: "head_at s m = Some mh" using Cons.prems by (cases "head_at s m") simp_all
  show ?case
  proof (cases "h_from mh")
    case None
    then show ?thesis using Cons mh by (simp add: is_from_def)
  next
    case (Some f)
    then obtain fc where "chan_at s f = Some fc" using Cons.prems mh by (cases "chan_at s f") simp_all
    then show ?thesis using Cons mh Some by (simp add: is_from_def split: if_splits)
  qed
qed simp

lemma find_in: "find P xs = Some x \<Longrightarrow> x \<in> set xs \<and> P x"
  by (auto simp: find_Some_iff)

text \<open>What \<open>cunmount\<close> leaves: the head gone, or in the table with the mounts that are left.\<close>

definition unmounted :: "pgrp \<Rightarrow> mtab \<Rightarrow> ptr multiset \<Rightarrow> chan \<Rightarrow> store \<Rightarrow> nat option \<Rightarrow> pgrp \<Rightarrow> store \<Rightarrow> bool" where
  "unmounted pg T R c s mounted pg' s' \<longleftrightarrow> (\<exists>m f T0 mh. T = add_mset (m, f) T0 \<and> find (is_from c s) (g_mnthash pg ! MOUNTH (c_qid c)) = Some m \<and>
     head_at s m = Some mh \<and> h_from mh = Some f \<and> keeps T0 s s' \<and>
     (case mounted of
        None \<Rightarrow> pg' = unlink_head (MOUNTH (c_qid c)) m pg \<and> chinv s' T0 R [] \<and> tab_ok pg' s' T0
      | Some md \<Rightarrow> \<exists>mc as x bs. chan_at s md = Some mc \<and> h_mount mh = as @ x # bs \<and> is_mounted mc s x \<and>
          list_all (\<lambda>y. \<not> is_mounted mc s y) as \<and>
          (if as @ bs = [] then pg' = unlink_head (MOUNTH (c_qid c)) m pg \<and> chinv s' T0 R [] \<and> tab_ok pg' s' T0
           else pg' = pg \<and> chinv s' T R [] \<and> tab_ok pg s' T \<and> (\<exists>k. head_at s' m = Some (mh\<lparr>h_ref := k, h_mount := as @ bs\<rparr>)))))"

text \<open>What there is not when \<open>cunmount\<close> fails.\<close>

definition nothing_mounted :: "pgrp \<Rightarrow> chan \<Rightarrow> store \<Rightarrow> nat option \<Rightarrow> nserr \<Rightarrow> bool" where
  "nothing_mounted pg c s mounted e \<longleftrightarrow> (case find (is_from c s) (g_mnthash pg ! MOUNTH (c_qid c)) of
     None \<Rightarrow> e = Eunmount
   | Some m \<Rightarrow> e = Eunion \<and> (\<exists>md mc mh. mounted = Some md \<and> chan_at s md = Some mc \<and> head_at s m = Some mh \<and>
       list_all (\<lambda>y. \<not> is_mounted mc s y) (h_mount mh)))"

lemma cunmount_ok:
  assumes "chinv s T R []" "tab_ok pg s T" "chan_at s mnt = Some c" "\<And>md. mounted = Some md \<Longrightarrow> PC md \<in># R"
  shows "\<exists>r pg' s'. cunmount mnt mounted pg s = Some (r, pg', s') \<and> (case r of
      Inl e \<Rightarrow> pg' = pg \<and> s' = s \<and> nothing_mounted pg c s mounted e
    | Inr u \<Rightarrow> unmounted pg T R c s mounted pg' s')"
proof -
  let ?h = "MOUNTH (c_qid c)"
  obtain r where r: "find_head (\<lambda>f. eqchan f c True) (g_mnthash pg ! ?h) s = Some r" "\<And>m. r = Some m \<Longrightarrow> m \<in> set (g_mnthash pg ! ?h)"
    using find_head_ok [OF assms(1), of "g_mnthash pg ! ?h"] chain_table [OF assms(2)] by blast
  note fr = find_head_find [OF r(1)]
  show ?thesis
  proof (cases r)
    case None
    then show ?thesis using assms(3) r(1) fr by (simp add: cunmount_def nothing_mounted_def Let_def)
  next
    case (Some m)
    note m = r(2) [OF Some]
    have fm: "find (is_from c s) (g_mnthash pg ! ?h) = Some m" using fr Some by simp
    obtain f where f: "(m, f) \<in># T" using chain_table [OF assms(2) m] by blast
    define T0 where "T0 = T - {#(m, f)#}"
    have T: "T = add_mset (m, f) T0" using f by (simp add: T0_def)
    have "count (image_mset fst (add_mset (m, f) T0)) m \<le> 1" using assms(2) T unfolding tab_ok_def by metis
    then have n: "m \<notin># image_mset fst T0" unfolding not_in_iff by simp
    have hl: "?h < length (g_mnthash pg)" using assms(2) MOUNTH_less by (simp add: tab_ok_def)
    obtain mh where mh: "head_at s m = Some mh" "h_from mh = Some f" using table_head(1) [OF assms(1) f] by blast
    have mt: "m \<in># image_mset fst T" using f by force
    have unlink: "tab_ok (unlink_head ?h m pg) t T0" if "keeps T0 s t" for t
      using tab_unlinked [OF assms(2) [unfolded T] assms(1) [unfolded T] that m hl] .
    have sub: "post T R' u v \<Longrightarrow> keeps T0 u v" for R' u v using keeps_sub [of T0 "{#(m, f)#}" u v] T by (simp add: post_def)
    have closing: "\<exists>t u x. set_mounts m ms s = Some t \<and> mountfree fs t = Some u \<and> chinv u T R [] \<and> keeps T0 s u \<and>
        head_at u m = Some (mh\<lparr>h_ref := x, h_mount := ms\<rparr>)" if "mset (h_mount mh) = mset ms + mset fs" for ms fs
    proof -
      have "mount_refs (h_mount mh) + R = mount_refs ms + (mount_refs fs + R)"
        using arg_cong [OF that, of "image_mset (\<lambda>x. PC (m_to x))"] by (simp add: mount_refs_def)
      from set_mounts_ok [OF assms(1) mh(1) this] mt obtain t where t: "set_mounts m ms s = Some t" "chinv t T (mount_refs fs + R) []"
        "head_at t m = Some (mh\<lparr>h_mount := ms\<rparr>)" "\<forall>j. j \<noteq> m \<longrightarrow> get t j = get s j" by blast
      from mountfree_ok [OF t(2)] obtain u where u: "mountfree fs t = Some u" "post T R t u" "shrinks t u" by blast
      have "live u (PH m)" by (rule table_head(2) [OF postD [OF u(2)] f])
      from shrinks_head [OF u(3) this t(3)] obtain x where "head_at u m = Some (mh\<lparr>h_mount := ms, h_ref := x\<rparr>)" by blast
      then have "head_at u m = Some (mh\<lparr>h_ref := x, h_mount := ms\<rparr>)" by (cases mh) simp
      moreover have "keeps T0 s t" using t(4) n by (intro keeps_except) auto
      then have "keeps T0 s u" using sub [OF u(2)] by (rule keeps_trans)
      ultimately show ?thesis using t(1) u(1,2) by (auto simp: post_def)
    qed
    have drop: "\<exists>v w. cclose (h_from mh) u = Some v \<and> putmhead (Some m) v = Some w \<and> chinv w T0 R [] \<and> keeps T0 s w"
      if "chinv u T R []" "keeps T0 s u" "head_at u m = Some (mh\<lparr>h_ref := x, h_mount := []\<rparr>)" for u x
    proof -
      from drop_head [OF that(1) [unfolded T] that(3)] obtain v w where
        "cclose (Some f) u = Some v" "putmhead (Some m) v = Some w" "post T0 R u w" by auto
      then show ?thesis using that(2) mh(2) by (auto simp: post_def intro: keeps_trans)
    qed
    show ?thesis
    proof (cases mounted)
      case None
      obtain t u x where c: "set_mounts m [] s = Some t" "mountfree (h_mount mh) t = Some u" "chinv u T R []" "keeps T0 s u"
        "head_at u m = Some (mh\<lparr>h_ref := x, h_mount := []\<rparr>)" using closing [of "[]" "h_mount mh"] by auto
      from drop [OF c(3-5)] obtain v w where d: "cclose (h_from mh) u = Some v" "putmhead (Some m) v = Some w" "chinv w T0 R []" "keeps T0 s w"
        by blast
      have "cunmount mnt mounted pg s = Some (Inr (), unlink_head ?h m pg, w)"
        using assms(3) r(1) Some None mh(1) c(1,2) d(1,2) by (simp add: cunmount_def Let_def)
      moreover have "unmounted pg T R c s mounted (unlink_head ?h m pg) w"
        using None T fm mh d(3,4) unlink [OF d(4)] by (auto simp: unmounted_def)
      ultimately show ?thesis by fastforce
    next
      case md: (Some md)
      obtain mc where mc: "chan_at s md = Some mc" using chan_live [OF chinv_held [OF assms(1) assms(4) [OF md]]] by blast
      obtain gs y where g: "take_mount mc (h_mount mh) s = Some (gs, y)" "case y of
          None \<Rightarrow> gs = h_mount mh \<and> list_all (\<lambda>x. \<not> is_mounted mc s x) (h_mount mh)
        | Some x \<Rightarrow> \<exists>as bs. h_mount mh = as @ x # bs \<and> gs = as @ bs \<and> is_mounted mc s x \<and> list_all (\<lambda>x. \<not> is_mounted mc s x) as"
        using take_mount_ok [OF assms(1), of "h_mount mh" mc] mounts_live [OF assms(1), of "Some m" "h_mount mh"] mh(1)
        by (auto simp: mounts_of_def)
      show ?thesis
      proof (cases y)
        case None
        then show ?thesis using assms(3) r(1) Some md mh(1) mc g fm by (simp add: cunmount_def nothing_mounted_def Let_def)
      next
        case x: (Some x)
        then obtain as bs where ab: "h_mount mh = as @ x # bs" "gs = as @ bs" "is_mounted mc s x" "list_all (\<lambda>x. \<not> is_mounted mc s x) as"
          using g(2) by auto
        obtain t u k where c: "set_mounts m gs s = Some t" "mountfree [x] t = Some u" "chinv u T R []" "keeps T0 s u"
          "head_at u m = Some (mh\<lparr>h_ref := k, h_mount := gs\<rparr>)" using closing [of gs "[x]"] ab(1,2) by auto
        show ?thesis
        proof (cases "gs = []")
          case True
          from drop [OF c(3,4)] c(5) True obtain v w where d: "cclose (h_from mh) u = Some v" "putmhead (Some m) v = Some w"
            "chinv w T0 R []" "keeps T0 s w" by blast
          have "cunmount mnt mounted pg s = Some (Inr (), unlink_head ?h m pg, w)"
            using assms(3) r(1) Some md mh(1) mc g(1) x True c(1,2) d(1,2) by (simp add: cunmount_def Let_def)
          moreover have "unmounted pg T R c s mounted (unlink_head ?h m pg) w"
            unfolding unmounted_def
            by (intro exI [of _ m] exI [of _ f] exI [of _ T0] exI [of _ mh])
              (use md T fm mh d(3,4) unlink [OF d(4)] mc ab True in auto)
          ultimately show ?thesis by fastforce
        next
          case False
          have "cunmount mnt mounted pg s = Some (Inr (), pg, u)"
            using assms(3) r(1) Some md mh(1) mc g(1) x False c(1,2) by (simp add: cunmount_def Let_def)
          moreover have tb: "length (g_mnthash pg) = 32" "mset (concat (g_mnthash pg)) \<subseteq># image_mset fst (add_mset (m, f) T0)"
            using assms(2) unfolding tab_ok_def T by blast+
          have "tab_ok pg u (add_mset (m, f) T0)"
            by (rule tab_mounted [OF assms(2,1) _ n c(4) tb c(5)]) (use T False in simp_all)
          then have "tab_ok pg u T" unfolding T .
          then have "unmounted pg T R c s mounted pg u"
            unfolding unmounted_def
            by (intro exI [of _ m] exI [of _ f] exI [of _ T0] exI [of _ mh])
              (use md T fm mh c(3-5) mc ab False in auto)
          ultimately show ?thesis by fastforce
        qed
      qed
    qed
  qed
qed

end
