(* ===== verification/NsProps.thy ===== *)
theory NsProps
  imports NsRoot WalkSound MountSpec DevTab
begin

text \<open>The properties of the name space.\<close>

subsection \<open>Closing\<close>

text \<open>
  C15: \<open>cclose\<close> returns: no count goes below zero, no dead channel is closed, and the chain of closes it starts
  (\<open>chanfree\<close>, \<open>cnameclose\<close>, \<open>mtptfree\<close>, \<open>putmhead\<close>) ends.  The counts are exact afterwards, so what
  only the closed channel referred to is freed and nothing else is: every other object is as it was, its count aside.
\<close>
theorem cclose_exact:
  assumes "chinv s T (add_mset (PC c) R) []"
  shows "\<exists>s'. cclose (Some c) s = Some s' \<and> chinv s' T R [] \<and>
    (\<forall>p. live s' p \<longrightarrow> (\<exists>x. get s' (idx p) = set_ref x (get s (idx p))))"
proof -
  have "chinv s T (optr PC (Some c) + R) []" using assms by simp
  from runsD [OF cclose_ok [OF this]] show ?thesis using shrinks_live by (auto simp: post_def)
qed

lemma cclose_exact_witness: "\<exists>s'. cclose (Some 0) root_store = Some s' \<and> chinv s' {#} {#} []"
  using cclose_exact [of root_store "{#}" 0 "{#}"] root_inv by auto

subsection \<open>Walking\<close>

text \<open>
  C6: a \<open>walk\<close> with devices that keep the walk contract always returns, never uses a dead object and keeps every
  count exact.  It moves the caller's channel all the way or not at all: on success the caller holds, instead of the old
  one, a channel whose name is the old name with every one of the elements added to it, in order; on an error it holds
  the old channel and nothing more; the error points into the path, and the mount table is as it was.
  When a clone fails on the way an error is raised instead, and what the walk held (\<open>L\<close>) stays counted.
\<close>
theorem walk_sound:
  assumes "device D" "chinv s T (add_mset (PC cp) R) []" "tab_ok pg s T" "chan_at s cp = Some ch" "c_name ch = Some n"
    "list_all nul_free names"
  shows "\<exists>r s'. walk D cp names nomount pg s = Some (r, s') \<and> tab_ok pg s' T \<and> keeps T s s' \<and> (case r of
      Walked p \<Rightarrow> chinv s' T (add_mset (PC p) R) [] \<and> (\<exists>nm k n' nm'. name_at s n = Some nm \<and> chan_at s' p = Some k \<and>
        c_name k = Some n' \<and> name_at s' n' = Some nm' \<and> cstr (n_s nm') = push_name (cstr (n_s nm)) names)
    | WalkErr k e \<Rightarrow> chinv s' T (add_mset (PC cp) R) [] \<and> k \<le> length names
    | WalkRaised \<Rightarrow> \<exists>L. chinv s' T (L + add_mset (PC cp) R) [])"
proof -
  from device.walk_ok [OF assms] obtain r s' where r: "walk D cp names nomount pg s = Some (r, s')" "case r of
      Walked p \<Rightarrow> post T (add_mset (PC p) R) s s' \<and> (\<exists>nm k n' nm'. name_at s n = Some nm \<and> chan_at s' p = Some k \<and>
        c_name k = Some n' \<and> name_at s' n' = Some nm' \<and> cstr (n_s nm') = push_name (cstr (n_s nm)) names)
    | WalkErr k e \<Rightarrow> post T (add_mset (PC cp) R) s s' \<and> k \<le> length names
    | WalkRaised \<Rightarrow> \<exists>L. post T (L + add_mset (PC cp) R) s s'" by blast
  then have "tab_ok pg s' T" "keeps T s s'" using tab_post [OF assms(3) _ assms(2)] by (auto simp: post_def split: walked.splits)
  then show ?thesis using r by (auto simp: post_def split: walked.splits)
qed

text \<open>A device with one file, \<open>a\<close>, in its root: a walk of \<open>../a\<close>.\<close>

definition tab0 :: "dirtab list" where
  "tab0 = [\<lparr>t_name = [46, 0], t_qid = c_qid root_chan, t_length = 0, t_perm = 0x1ED\<rparr>,
    \<lparr>t_name = [97, 0], t_qid = \<lparr>q_path = 1, q_vers = 0, q_type = 0\<rparr>, t_length = 0, t_perm = 0x1B6\<rparr>]"

definition tab_dev :: device where
  "tab_dev = dev_device (devgen env0 (Some tab0)) (Some 0)"

lemma tab_dev: "device tab_dev"
  unfolding tab_dev_def by (rule dev.device_axioms)

declare walk_loop.simps [code] gen_find.simps [code] clean_loop.simps [code]

lemma walk_evaluates: "map_option fst (walk tab_dev 0 [[46, 46], [97]] False root_pgrp root_store) = Some (Walked 3)"
  by code_simp

lemma walk_sound_witness:
  "\<exists>s' k n' nm'. walk tab_dev 0 [[46, 46], [97]] False root_pgrp root_store = Some (Walked 3, s') \<and>
     chan_at s' 3 = Some k \<and> c_name k = Some n' \<and> name_at s' n' = Some nm' \<and> cstr (n_s nm') = [47, 97]"
proof -
  have n: "c_name root_chan = Some 1" by (simp add: root_chan_def)
  have e: "list_all nul_free [[46, 46], [97]]" by (simp add: nul_free_def)
  have p: "push_name (cstr (n_s root_name)) [[46, 46], [97]] = [47, 97]" by code_simp
  obtain s' where w: "walk tab_dev 0 [[46, 46], [97]] False root_pgrp root_store = Some (Walked 3, s')"
    using walk_evaluates by auto
  from walk_sound [OF tab_dev root_inv root_tab root_at(1) n e, of False] w p root_at(2) show ?thesis by auto
qed

text \<open>
  C14: \<open>..\<close> cannot leave the root of a walk: with only slot 0 on the stack of the name, \<open>addelem\<close> with \<open>..\<close>
  and \<open>undomount\<close> give back the channel of slot 0, whatever channel the device answered with, and slot 0 stays.
\<close>
theorem dotdot_pinned:
  assumes "chinv s T (add_mset (PN n) (add_mset (PC c) R)) []" "name_at s n = Some nm" "n_mtpt nm = [Some root]"
  shows "\<exists>n' s1 s'. addelem n [DOT, DOT] s = Some (n', s1) \<and> undomount c n' s1 = Some (root, s') \<and>
    chinv s' T (add_mset (PN n') (add_mset (PC root) R)) [] \<and>
    (\<exists>nm'. name_at s' n' = Some nm' \<and> n_mtpt nm' = [Some root] \<and> cstr (n_s nm') = clean_cname (join_elem (cstr (n_s nm)) [DOT, DOT]))"
proof -
  have nf: "nul_free [DOT, DOT]" by (simp add: nul_free_def)
  from runs2D [OF addelem_ok [OF assms(1,2) nf]] obtain n1 s1 nm1 where s1: "addelem n [DOT, DOT] s = Some (n1, s1)"
    "post T (add_mset (PN n1) (add_mset (PC c) R)) s s1" "name_at s1 n1 = Some nm1"
    "cstr (n_s nm1) = elem_name (cstr (n_s nm)) [DOT, DOT]" "n_mtpt nm1 = elem_stack (n_mtpt nm) [DOT, DOT]" by blast
  have st: "n_mtpt nm1 = [Some root]" using s1(5) assms(3) by (simp add: elem_stack_def)
  have i1: "chinv s1 T (add_mset (PC c) (add_mset (PN n1) R)) []" using postD [OF s1(2)] by (simp add: add_mset_commute)
  from runs2D [OF undomount_ok [OF i1 _ s1(3)]] st obtain s2 nm2 where s2: "undomount c n1 s1 = Some (root, s2)"
    "post T (add_mset (PC root) (add_mset (PN n1) R)) s1 s2" "name_at s2 n1 = Some nm2" "cstr (n_s nm2) = cstr (n_s nm1)"
    "n_mtpt nm2 = n_mtpt nm1" by auto
  show ?thesis using s1(1) s2 postD [OF s2(2)] st s1(4) by (auto simp: elem_name_def add_mset_commute)
qed

lemma dotdot_pinned_witness:
  "\<exists>n' s1 s'. addelem 1 [DOT, DOT] pinned_store = Some (n', s1) \<and> undomount 0 n' s1 = Some (0, s')"
  using dotdot_pinned [OF pinned_inv pinned_at] by auto

subsection \<open>Mounting\<close>

text \<open>
  C7: \<open>cmount\<close> returns.  An error leaves the store and the table as they were.  Otherwise one head is changed or added,
  the counts stay exact and the table well formed, the other heads are kept, and the members of the union are, in order, the new
  one with the rest of the union it is bound from, put in place of, before or after what was there, as the flags ask;
  a new union starts from the directory itself.
\<close>
theorem cmount_union:
  assumes "chinv s T R []" "tab_ok pg s T" "chan_at s new = Some n" "chan_at s old = Some od" "PC new \<in># R" "PC old \<in># R"
    "mounts_of (c_umh n) s = Some us"
  shows "\<exists>r pg' s'. cmount new old flag spec pg s = Some (r, pg', s') \<and> (case r of
      Inl e \<Rightarrow> e = Emount \<and> pg' = pg \<and> s' = s
    | Inr k \<Rightarrow> \<exists>m f T0 mh. entered T m f T0 pg pg' \<and> chinv s' (add_mset (m, f) T0) R [] \<and>
        tab_ok pg' s' (add_mset (m, f) T0) \<and> keeps T0 s s' \<and> head_at s' m = Some mh \<and> h_from mh = Some f \<and>
        map m_to (h_mount mh) = union_after (flag AND MORDER) (new # map m_to (tl us)) (union_base old od (flag AND MORDER) pg s))"
  using cmount_ok [OF assms] .

lemma cmount_union_witness:
  "\<exists>r pg' s'. cmount 0 0 MBEFORE None root_pgrp root_store = Some (r, pg', s') \<and> r \<noteq> Inl Eperm"
proof -
  from cmount_union [of root_store "{#}" "{#PC 0#}" root_pgrp 0 root_chan 0 root_chan "[]" MBEFORE None] root_inv root_tab root_at
  obtain r pg' s' where "cmount 0 0 MBEFORE None root_pgrp root_store = Some (r, pg', s')" "\<And>e. r = Inl e \<Longrightarrow> e = Emount"
    by (force simp: mounts_of_def root_chan_def clear_chan_def)
  then show ?thesis by (metis nserr.distinct(5))
qed

text \<open>
  C8: \<open>cunmount\<close> returns.  What it takes off is the first head in the chain of \<open>mnt\<close> that is from a channel
  \<open>eqchan\<close> to \<open>mnt\<close>; if there is none the error is \<open>Eunmount\<close>, and an error leaves the store and the table as they were.
  Without \<open>mounted\<close> the whole head goes; with it the first member that is the mounted channel or stands for its server
  goes, the others keep their order, and the head goes with the last of them; if there is no such member the error is
  \<open>Eunion\<close>.  The counts stay exact and the table well formed.
\<close>
theorem cunmount_removes:
  assumes "chinv s T R []" "tab_ok pg s T" "chan_at s mnt = Some c" "\<And>md. mounted = Some md \<Longrightarrow> PC md \<in># R"
  shows "\<exists>r pg' s'. cunmount mnt mounted pg s = Some (r, pg', s') \<and> (case r of
      Inl e \<Rightarrow> pg' = pg \<and> s' = s \<and> nothing_mounted pg c s mounted e
    | Inr u \<Rightarrow> unmounted pg T R c s mounted pg' s')"
  using cunmount_ok [OF assms] .

text \<open>The root bound before itself: a head with two members, from the root's channel.\<close>

definition bound_store :: store where
  "bound_store = \<lparr>s_heap = [OChan (root_chan\<lparr>c_ref := 4\<rparr>), OName root_name,
      OHead \<lparr>h_ref = 1, h_from = Some 0, h_mount =
        [\<lparr>m_id = 3, m_to = 0, m_flag = 1, m_spec = None\<rparr>, \<lparr>m_id = 2, m_to = 0, m_flag = 0, m_spec = None\<rparr>]\<rparr>],
    s_free = [], s_fid = 1, s_ncname = 1, s_mountid = 3, s_ev = []\<rparr>"

definition bound_pgrp :: pgrp where
  "bound_pgrp = root_pgrp\<lparr>g_mnthash := (replicate 32 [])[0 := [2]]\<rparr>"

lemma bound: "cmount 0 0 MBEFORE None root_pgrp root_store = Some (Inr 3, bound_pgrp, bound_store)"
  by code_simp

lemma bound_ok: "chinv bound_store {#(2, 0)#} {#PC 0#} []" "tab_ok bound_pgrp bound_store {#(2, 0)#}"
proof -
  have "mounts_of (c_umh root_chan) root_store = Some []" by (simp add: mounts_of_def root_chan_def clear_chan_def)
  from cmount_ok [OF root_inv root_tab root_at(1,1) _ _ this, of MBEFORE None] bound obtain m f T0 mh where
    e: "entered {#} m f T0 root_pgrp bound_pgrp" "chinv bound_store (add_mset (m, f) T0) {#PC 0#} []"
      "tab_ok bound_pgrp bound_store (add_mset (m, f) T0)" "head_at bound_store m = Some mh" "h_from mh = Some f" by auto
  have "mset (concat (g_mnthash bound_pgrp)) = {#2#}" by code_simp
  moreover have "concat (g_mnthash root_pgrp) = []" by code_simp
  ultimately have m: "m = 2" "T0 = {#}" using e(1) by (auto simp: entered_def)
  have "head_at bound_store 2 = Some \<lparr>h_ref = 1, h_from = Some 0, h_mount =
    [\<lparr>m_id = 3, m_to = 0, m_flag = 1, m_spec = None\<rparr>, \<lparr>m_id = 2, m_to = 0, m_flag = 0, m_spec = None\<rparr>]\<rparr>" by code_simp
  then have "f = 0" using e(4,5) m(1) by auto
  then show "chinv bound_store {#(2, 0)#} {#PC 0#} []" "tab_ok bound_pgrp bound_store {#(2, 0)#}" using e(2,3) m by simp_all
qed

lemma bound_at: "chan_at bound_store 0 = Some (root_chan\<lparr>c_ref := 4\<rparr>)"
  "g_mnthash bound_pgrp ! MOUNTH (c_qid (root_chan\<lparr>c_ref := 4\<rparr>)) = [2]" "is_from (root_chan\<lparr>c_ref := 4\<rparr>) bound_store 2"
proof -
  show "chan_at bound_store 0 = Some (root_chan\<lparr>c_ref := 4\<rparr>)" by (simp add: chan_at_def get_def bound_store_def root_chan_def clear_chan_def cfree_def)
  moreover show "g_mnthash bound_pgrp ! MOUNTH (c_qid (root_chan\<lparr>c_ref := 4\<rparr>)) = [2]" by code_simp
  ultimately show "is_from (root_chan\<lparr>c_ref := 4\<rparr>) bound_store 2"
    by (auto simp: is_from_def bound_store_def head_at_def get_def eqchan_def)
qed

lemma cunmount_removes_witness:
  "(\<exists>pg' s'. cunmount 0 None bound_pgrp bound_store = Some (Inr (), pg', s') \<and> concat (g_mnthash pg') = []) \<and>
   cunmount 0 None root_pgrp root_store = Some (Inl Eunmount, root_pgrp, root_store)"
proof
  have n: "\<not> nothing_mounted bound_pgrp (root_chan\<lparr>c_ref := 4\<rparr>) bound_store None e" for e
    using bound_at(2,3) by (simp add: nothing_mounted_def)
  from cunmount_removes [OF bound_ok bound_at(1), of None] n obtain pg' s' where
    c: "cunmount 0 None bound_pgrp bound_store = Some (Inr (), pg', s')"
      "unmounted bound_pgrp {#(2, 0)#} {#PC 0#} (root_chan\<lparr>c_ref := 4\<rparr>) bound_store None pg' s'"
    by (fastforce split: sum.splits)
  from c(2) have "pg' = unlink_head (MOUNTH (c_qid (root_chan\<lparr>c_ref := 4\<rparr>))) 2 bound_pgrp" by (auto simp: unmounted_def)
  moreover have "concat (g_mnthash (unlink_head (MOUNTH (c_qid (root_chan\<lparr>c_ref := 4\<rparr>))) 2 bound_pgrp)) = []" by code_simp
  ultimately show "\<exists>pg' s'. cunmount 0 None bound_pgrp bound_store = Some (Inr (), pg', s') \<and> concat (g_mnthash pg') = []"
    using c(1) by blast
  have "g_mnthash root_pgrp ! MOUNTH (c_qid root_chan) = []" by code_simp
  then show "cunmount 0 None root_pgrp root_store = Some (Inl Eunmount, root_pgrp, root_store)"
    using cunmount_removes [OF root_inv root_tab root_at(1), of None]
    by (auto simp: nothing_mounted_def unmounted_def split: sum.splits) (metis old.sum.exhaust old.unit.exhaust)
qed

subsection \<open>Devices\<close>

text \<open>
  \<open>devwalk\<close> of one name in a device with a table answers with the first entry of that name: its qid, and a
  clone of the channel moved to it; and with nil if the table has no such entry.
\<close>
theorem dev_walk_finds:
  assumes "c_flag c AND COPEN = 0" "q_type (c_qid c) AND QTDIR \<noteq> 0" "n \<noteq> [DOT]" "n \<noteq> [DOT, DOT]"
    "dot = None \<or> dot = Some (q_path (c_qid c))"
  shows "\<exists>nc. devclone c = Some nc \<and> dev_walk (devgen v (Some (t0 # ts))) dot c [n] = Some (Inr (case find (\<lambda>t. cstr (t_name t) = n) ts of
    None \<Rightarrow> None | Some t \<Rightarrow> Some \<lparr>w_clone = Some (nc\<lparr>c_qid := t_qid t\<rparr>), w_qid = [t_qid t]\<rparr>))"
  using dev_walk_one [OF assms] .

lemma dev_walk_finds_witness:
  "\<exists>nc. dev_walk (devgen env0 (Some tab0)) (Some 0) root_chan [[97]] =
    Some (Inr (Some \<lparr>w_clone = Some (nc\<lparr>c_qid := \<lparr>q_path = 1, q_vers = 0, q_type = 0\<rparr>\<rparr>), w_qid = [\<lparr>q_path = 1, q_vers = 0, q_type = 0\<rparr>]\<rparr>))"
  using dev_walk_finds [of root_chan "[97]" "Some 0" env0 "hd tab0" "tl tab0"]
  by (auto simp: tab0_def root_chan_def clear_chan_def cstr_def)

text \<open>
  C16: a read of a device directory with a table gives whole entries of the table, in the form of \<open>convD2M\<close>, from
  \<open>c->dri\<close> on and as many as fit in the buffer, and moves \<open>c->dri\<close> past them; it fails only when there is
  an entry left and not even one fits.
\<close>
theorem devdirread_entries:
  assumes "c_dri c = int k"
  shows "\<exists>r buf'. devdirread (devgen v (Some (t0 # ts))) c buf =
      Some (r, buf', c\<lparr>c_dri := int (k + fit (length buf) (map (entry v c) (drop k ts)))\<rparr>) \<and> length buf' = length buf \<and>
    take (sum_list (map sizeD2M (fitting (length buf) (map (entry v c) (drop k ts))))) buf' =
      concat (map wire_dir (fitting (length buf) (map (entry v c) (drop k ts)))) \<and>
    r = (if fit (length buf) (map (entry v c) (drop k ts)) = 0 \<and> drop k ts \<noteq> [] \<and> buf \<noteq> [] then Inl DevEshort
         else Inr (sum_list (map sizeD2M (fitting (length buf) (map (entry v c) (drop k ts))))))"
  unfolding devdirread_def using dirread_loop_table [OF assms le0, of _ t0 ts buf]
  by (simp only: diff_zero add_0 take_0 append_Nil simp_thms)

lemma devdirread_entries_witness:
  "\<exists>buf'. devdirread (devgen env0 (Some tab0)) root_chan (replicate 10 0) = Some (Inl DevEshort, buf', root_chan\<lparr>c_dri := 0\<rparr>)"
  using devdirread_entries [of root_chan 0 env0 "hd tab0" "tl tab0" "replicate 10 0"]
  by (auto simp: tab0_def root_chan_def clear_chan_def chan0_def sizeD2M_def)

end
