(* ===== verification/Fgrp.thy ===== *)
theory Fgrp
  imports DevSpec
begin

text \<open>
  File descriptors: the descriptor groups of \<open>emu/port/pgrp.c\<close> and the operations on them in
  \<open>emu/port/sysfile.c\<close>.  A group is its array of \<open>nfd\<close> slots with the bounds on the slots in use; the channels
  are those of the store.  Memory never runs out.
\<close>

abbreviation (input) DELTAFD :: nat where "DELTAFD \<equiv> 20"
abbreviation (input) MAXNFD :: nat where "MAXNFD \<equiv> 4000"
abbreviation (input) QTAUTH :: u8 where "QTAUTH \<equiv> 0x08"
abbreviation (input) OTRUNC :: u32 where "OTRUNC \<equiv> 16"
abbreviation (input) CMSG :: u16 where "CMSG \<equiv> 2"

record fgrp =
  f_ref :: int
  f_fd :: "nat option list"
  f_maxfd :: nat
  f_minfd :: nat

datatype fderr = Ebadfd | Ebadusefd | Enofd | Eauth

text \<open>The number of slots that \<open>newfgrp\<close> and \<open>dupfgrp\<close> allocate.\<close>

definition fgrp_size :: "nat \<Rightarrow> nat" where
  "fgrp_size maxfd = (if maxfd \<ge> DELTAFD then (maxfd + 1 + DELTAFD - 1) div DELTAFD * DELTAFD else DELTAFD)"

definition newfgrp :: "fgrp option \<Rightarrow> fgrp" where
  "newfgrp old =
     (case old of
        None \<Rightarrow> \<lparr>f_ref = 1, f_fd = replicate DELTAFD None, f_maxfd = 0, f_minfd = 0\<rparr>
      | Some old \<Rightarrow> \<lparr>f_ref = 1, f_fd = replicate (fgrp_size (f_maxfd old)) None, f_maxfd = f_maxfd old, f_minfd = 0\<rparr>)"

definition dupfgrp :: "fgrp \<Rightarrow> store \<Rightarrow> (fgrp \<times> store) option" where
  "dupfgrp f s = do {
     let n = fgrp_size (f_maxfd f);
     let used = take (f_maxfd f + 1) (f_fd f);
     s \<leftarrow> incref_slots used s;
     Some (\<lparr>f_ref = 1, f_fd = used @ replicate (n - length used) None, f_maxfd = f_maxfd f, f_minfd = f_minfd f\<rparr>, s)
   }"

text \<open>\<open>None\<close> as the group is a group that is gone.\<close>

definition closefgrp :: "fgrp \<Rightarrow> store \<Rightarrow> (fgrp option \<times> store) option" where
  "closefgrp f s =
     (let ref = f_ref f - 1
      in if ref < 0 then None
         else if ref \<noteq> 0 then Some (Some (f\<lparr>f_ref := ref\<rparr>), s)
         else do { s \<leftarrow> release (map CClose (slots (take (f_maxfd f + 1) (f_fd f)))) s; Some (None, s) })"

text \<open>\<open>None\<close> is the answer -1.\<close>

definition growfd :: "fgrp \<Rightarrow> nat \<Rightarrow> fgrp option" where
  "growfd f fd =
     (let nfd = length (f_fd f)
      in if fd < nfd then Some f
         else
           let n = (if nfd + DELTAFD > MAXNFD then MAXNFD else nfd + DELTAFD)
           in if fd \<ge> n then None else Some (f\<lparr>f_fd := f_fd f @ replicate (n - nfd) None\<rparr>))"

text \<open>\<open>None\<close>: \<open>exhausted\<close> raises its error.\<close>

definition newfd :: "nat \<Rightarrow> fgrp \<Rightarrow> (nat \<times> fgrp) option" where
  "newfd c f =
     (let i = f_minfd f + length (takeWhile (\<lambda>x. x \<noteq> None) (drop (f_minfd f) (f_fd f)))
      in case growfd f i of
           None \<Rightarrow> None
         | Some f \<Rightarrow>
             Some (i, f\<lparr>f_minfd := i + 1, f_maxfd := (if i > f_maxfd f then i else f_maxfd f), f_fd := (f_fd f)[i := Some c]\<rparr>))"

definition fdtochan :: "fgrp \<Rightarrow> int \<Rightarrow> u32 \<Rightarrow> bool \<Rightarrow> bool \<Rightarrow> store \<Rightarrow> ((fderr + nat) \<times> store) option" where
  "fdtochan f fd mode chkmnt iref s =
     (if fd < 0 \<or> int (f_maxfd f) < fd then Some (Inl Ebadfd, s)
      else if nat fd \<ge> length (f_fd f) then None
      else case f_fd f ! nat fd of
        None \<Rightarrow> Some (Inl Ebadfd, s)
      | Some c \<Rightarrow> do {
          s \<leftarrow> (if iref then incref c s else Some s);
          ch \<leftarrow> chan_at s c;
          let bad = do { s \<leftarrow> (if iref then cclose (Some c) s else Some s); Some (Inl Ebadusefd, s) };
          if chkmnt \<and> c_flag ch AND CMSG \<noteq> 0 then bad
          else if sint mode < 0 \<or> c_mode ch = 2 then Some (Inr c, s)
          else if mode AND OTRUNC \<noteq> 0 \<and> c_mode ch = 0 then bad
          else if mode AND NOT OTRUNC \<noteq> ucast (c_mode ch) then bad
          else Some (Inr c, s)
        })"

text \<open>The search of \<open>fdclose\<close> for the new \<open>maxfd\<close>, down from \<open>i\<close>.\<close>

fun lower_maxfd :: "nat option list \<Rightarrow> nat \<Rightarrow> nat \<Rightarrow> nat" where
  "lower_maxfd fds 0 maxfd = maxfd"
| "lower_maxfd fds (Suc i) maxfd = (if fds ! i = None then lower_maxfd fds i i else maxfd)"

definition fdclose :: "fgrp \<Rightarrow> nat \<Rightarrow> store \<Rightarrow> (fgrp \<times> store) option" where
  "fdclose f fd s =
     (if fd \<ge> length (f_fd f) then None
      else case f_fd f ! fd of
        None \<Rightarrow> Some (f, s)
      | Some c \<Rightarrow> do {
          let fds = (f_fd f)[fd := None];
          let f = f\<lparr>f_fd := fds, f_maxfd := (if fd = f_maxfd f then lower_maxfd fds fd (f_maxfd f) else f_maxfd f),
                    f_minfd := (if fd < f_minfd f then fd else f_minfd f)\<rparr>;
          s \<leftarrow> cclose (Some c) s;
          Some (f, s)
        })"

definition kfgrpclose :: "fgrp \<Rightarrow> int \<Rightarrow> store \<Rightarrow> ((fderr + unit) \<times> fgrp \<times> store) option" where
  "kfgrpclose f fd s = do {
     (r, s) \<leftarrow> fdtochan f fd (-1) False False s;
     case r of
       Inl e \<Rightarrow> Some (Inl e, f, s)
     | Inr _ \<Rightarrow> do { (f, s) \<leftarrow> fdclose f (nat fd) s; Some (Inr (), f, s) }
   }"

definition kdup :: "int \<Rightarrow> int \<Rightarrow> fgrp \<Rightarrow> store \<Rightarrow> ((fderr + nat) \<times> fgrp \<times> store) option" where
  "kdup old new f s = do {
     (r, s) \<leftarrow> fdtochan f old (-1) False True s;
     case r of
       Inl e \<Rightarrow> Some (Inl e, f, s)
     | Inr c \<Rightarrow> do {
         ch \<leftarrow> chan_at s c;
         if q_type (c_qid ch) AND QTAUTH \<noteq> 0 then Some (Inl Eauth, f, s)
         else if new \<noteq> -1 then
           (case (if new < 0 then None else growfd f (nat new)) of
              None \<Rightarrow> do { s \<leftarrow> cclose (Some c) s; Some (Inl Ebadfd, f, s) }
            | Some f \<Rightarrow> do {
                let fd = nat new;
                let oc = f_fd f ! fd;
                let f = f\<lparr>f_maxfd := (if fd > f_maxfd f then fd else f_maxfd f), f_fd := (f_fd f)[fd := Some c]\<rparr>;
                s \<leftarrow> cclose oc s;
                Some (Inr fd, f, s)
              })
         else
           (case newfd c f of
              None \<Rightarrow> do { s \<leftarrow> cclose (Some c) s; Some (Inl Enofd, f, s) }
            | Some (fd, f) \<Rightarrow> Some (Inr fd, f, s))
       }
   }"

end
