(* ===== verification/FgrpInv.thy ===== *)
theory FgrpInv
  imports Fgrp
begin

text \<open>
  The invariant of a descriptor group and the behaviour of its operations: a group is a finite map from
  descriptors to channels, and each of its entries is one counted reference.
\<close>

definition fd_ok :: "fgrp \<Rightarrow> bool" where
  "fd_ok f \<longleftrightarrow> f_ref f > 0 \<and> length (f_fd f) \<le> MAXNFD \<and> f_maxfd f < length (f_fd f) \<and> f_minfd f \<le> length (f_fd f) \<and>
     (\<forall>i<f_minfd f. f_fd f ! i \<noteq> None) \<and> (\<forall>i<length (f_fd f). f_maxfd f < i \<longrightarrow> f_fd f ! i = None)"

definition fdmap :: "fgrp \<Rightarrow> nat \<rightharpoonup> nat" where
  "fdmap f i = (if i < length (f_fd f) then f_fd f ! i else None)"

definition fd_refs :: "fgrp \<Rightarrow> ptr multiset" where
  "fd_refs f = slot_refs (f_fd f)"

lemma runs3D: "runs m (\<lambda>(a, b, c). Q a b c) \<Longrightarrow> \<exists>a b c. m = Some (a, b, c) \<and> Q a b c"
  by (auto simp: runs_def)

lemma fdmap_simps: "f_fd g = f_fd f \<Longrightarrow> fdmap g = fdmap f"
  by (simp add: fdmap_def fun_eq_iff)

lemma slots_None: "(\<And>x. x \<in> set xs \<Longrightarrow> x = None) \<Longrightarrow> slots xs = []"
proof (induction xs)
  case (Cons x xs)
  then have "x = None" "slots xs = []" by auto
  then show ?case by simp
qed simp

lemma in_slots: "c \<in> set (slots xs) \<longleftrightarrow> Some c \<in> set xs"
  by (induction xs) (auto simp: slots_def opt_def split: option.splits)

lemma slots_replicate [simp]: "slots (replicate n None) = []"
  by (rule slots_None) simp

text \<open>The slots in use are below \<open>maxfd\<close>.\<close>

lemma fd_used:
  assumes "fd_ok f"
  shows "slots (take (f_maxfd f + 1) (f_fd f)) = slots (f_fd f)"
proof -
  have "slots (drop (f_maxfd f + 1) (f_fd f)) = []"
    using assms by (intro slots_None) (auto simp: fd_ok_def in_set_conv_nth)
  then show ?thesis using slots_simps(4) [of "take (f_maxfd f + 1) (f_fd f)" "drop (f_maxfd f + 1) (f_fd f)"] by simp
qed

lemma fgrp_size: "maxfd < 4000 \<Longrightarrow> maxfd < fgrp_size maxfd \<and> fgrp_size maxfd \<le> 4000"
  unfolding fgrp_size_def by simp presburger

lemma newfgrp_ok:
  assumes "\<And>f. old = Some f \<Longrightarrow> fd_ok f"
  shows "fd_ok (newfgrp old)" "fd_refs (newfgrp old) = {#}" "fdmap (newfgrp old) = Map.empty"
proof -
  show "fd_ok (newfgrp old)"
  proof (cases old)
    case (Some f)
    then have "f_maxfd f < 4000" using assms [OF Some] by (simp add: fd_ok_def)
    then show ?thesis using Some fgrp_size [of "f_maxfd f"] by (simp add: newfgrp_def fd_ok_def)
  qed (simp add: newfgrp_def fd_ok_def)
  show "fd_refs (newfgrp old) = {#}" "fdmap (newfgrp old) = Map.empty"
    by (auto simp: newfgrp_def fd_refs_def slot_refs_def fdmap_def fun_eq_iff split: option.split)
qed

text \<open>Growing changes neither the map nor the bounds.\<close>

lemma growfd_ok:
  assumes "fd_ok f" "growfd f fd = Some g"
  shows "fd_ok g" "fdmap g = fdmap f" "fd_refs g = fd_refs f" "fd < length (f_fd g)" "f_maxfd g = f_maxfd f" "f_minfd g = f_minfd f"
proof -
  show "fd_ok g" "fdmap g = fdmap f" "fd_refs g = fd_refs f" "fd < length (f_fd g)" "f_maxfd g = f_maxfd f" "f_minfd g = f_minfd f"
    using assms
    by (auto simp: growfd_def Let_def fd_ok_def fdmap_def fd_refs_def slot_refs_def nth_append fun_eq_iff split: if_splits)
qed

lemma growfd_next: "fd_ok f \<Longrightarrow> growfd f (length (f_fd f)) = None \<longleftrightarrow> length (f_fd f) = 4000"
  by (auto simp: growfd_def Let_def fd_ok_def split: if_splits)

lemma growfd_fails: "growfd f fd = None \<Longrightarrow> fd \<ge> length (f_fd f)"
  by (auto simp: growfd_def Let_def split: if_splits)

text \<open>The first free slot from \<open>minfd\<close> on is the first free slot.\<close>

lemma minfd_least:
  assumes "fd_ok f"
  defines "i \<equiv> f_minfd f + length (takeWhile (\<lambda>x. x \<noteq> None) (drop (f_minfd f) (f_fd f)))"
  shows "i \<le> length (f_fd f)" "fdmap f i = None" "\<And>j. j < i \<Longrightarrow> fdmap f j \<noteq> None"
proof -
  have l: "length (takeWhile (\<lambda>x. x \<noteq> None) (drop (f_minfd f) (f_fd f))) \<le> length (f_fd f) - f_minfd f"
    using length_takeWhile_le [of _ "drop (f_minfd f) (f_fd f)"] by simp
  moreover have "f_minfd f \<le> length (f_fd f)" using assms(1) by (simp add: fd_ok_def)
  ultimately show i: "i \<le> length (f_fd f)" unfolding i_def by linarith
  show "fdmap f i = None"
  proof (cases "i < length (f_fd f)")
    case True
    then have "length (takeWhile (\<lambda>x. x \<noteq> None) (drop (f_minfd f) (f_fd f))) < length (drop (f_minfd f) (f_fd f))"
      by (simp add: i_def)
    from nth_length_takeWhile [OF this] show ?thesis using True by (simp add: i_def fdmap_def)
  qed (simp add: fdmap_def)
  fix j assume j: "j < i"
  show "fdmap f j \<noteq> None"
  proof (cases "j < f_minfd f")
    case True
    then show ?thesis using assms(1) j i by (simp add: fd_ok_def fdmap_def)
  next
    case False
    then obtain k where k: "j = f_minfd f + k" by (metis le_iff_add not_less)
    then have "k < length (takeWhile (\<lambda>x. x \<noteq> None) (drop (f_minfd f) (f_fd f)))" using j by (simp add: i_def)
    note t = takeWhile_nth [OF this] and m = nth_mem [OF this]
    have "f_fd f ! j \<noteq> None" using t set_takeWhileD [OF m] k assms(1) by (simp add: fd_ok_def)
    then show ?thesis using j i by (simp add: fdmap_def)
  qed
qed

lemma fdmap_set: "i < length (f_fd f) \<Longrightarrow> f_fd g = (f_fd f)[i := x] \<Longrightarrow> fdmap g = (fdmap f)(i := x)"
  by (auto simp: fdmap_def fun_eq_iff nth_list_update)

lemma fd_refs_set:
  assumes "i < length (f_fd f)" "f_fd g = (f_fd f)[i := x]"
  shows "fd_refs g + optr PC (fdmap f i) = fd_refs f + optr PC x"
  using slot_refs_update [OF assms(1), of x] assms by (simp add: fd_refs_def fdmap_def)

text \<open>A slot is set, with the bounds adjusted as the code does.\<close>

lemma fd_ok_set:
  assumes "fd_ok f" "i < length (f_fd f)" "m \<le> length (f_fd f)" "\<And>j. j < m \<Longrightarrow> j \<noteq> i \<Longrightarrow> fdmap f j \<noteq> None"
  shows "fd_ok (f\<lparr>f_minfd := m, f_maxfd := (if i > f_maxfd f then i else f_maxfd f), f_fd := (f_fd f)[i := Some c]\<rparr>)"
  using assms by (auto simp: fd_ok_def fdmap_def nth_list_update)

lemma newfd_runs:
  assumes "fd_ok f"
  shows "newfd c f = None \<longleftrightarrow> (\<forall>j<4000. fdmap f j \<noteq> None)"
    "newfd c f = Some (i, g) \<Longrightarrow> fd_ok g \<and> fdmap f i = None \<and> (\<forall>j<i. fdmap f j \<noteq> None) \<and> fdmap g = (fdmap f)(i \<mapsto> c) \<and>
       fd_refs g = add_mset (PC c) (fd_refs f) \<and> i < 4000"
proof -
  let ?i = "f_minfd f + length (takeWhile (\<lambda>x. x \<noteq> None) (drop (f_minfd f) (f_fd f)))"
  note m = minfd_least [OF assms]
  have le: "length (f_fd f) \<le> 4000" using assms by (simp add: fd_ok_def)
  show "newfd c f = None \<longleftrightarrow> (\<forall>j<4000. fdmap f j \<noteq> None)"
  proof (cases "growfd f ?i")
    case None
    then have i: "?i = length (f_fd f)" "length (f_fd f) = 4000"
      using growfd_fails [OF None] m(1) growfd_next [OF assms] by auto
    then show ?thesis using None m(3) by (auto simp: newfd_def Let_def)
  next
    case (Some g)
    then have "?i < 4000" using growfd_ok [OF assms Some] by (simp add: fd_ok_def)
    then show ?thesis using Some m(2) by (auto simp: newfd_def Let_def)
  qed
  assume n: "newfd c f = Some (i, g)"
  then obtain h where h: "growfd f ?i = Some h" "i = ?i"
    and g: "g = h\<lparr>f_minfd := ?i + 1, f_maxfd := (if ?i > f_maxfd h then ?i else f_maxfd h), f_fd := (f_fd h)[?i := Some c]\<rparr>"
    by (auto simp: newfd_def Let_def split: option.splits)
  note k = growfd_ok [OF assms h(1)]
  have "fd_ok g" unfolding g using k m by (intro fd_ok_set) (auto simp: less_Suc_eq)
  moreover have "fdmap g = (fdmap f)(i \<mapsto> c)"
    using fdmap_set [OF k(4), of g "Some c"] k(2) h(2) by (simp add: g)
  moreover have "fd_refs g = add_mset (PC c) (fd_refs f)"
    using fd_refs_set [OF k(4), of g "Some c"] k(2,3) m(2) by (simp add: g)
  moreover have "i < 4000" using k(1,4) h(2) by (simp add: fd_ok_def)
  ultimately show "fd_ok g \<and> fdmap f i = None \<and> (\<forall>j<i. fdmap f j \<noteq> None) \<and> fdmap g = (fdmap f)(i \<mapsto> c) \<and>
       fd_refs g = add_mset (PC c) (fd_refs f) \<and> i < 4000" using m h(2) by simp
qed

lemma fd_live:
  assumes "chinv s T (fd_refs f + R) P" "fdmap f i = Some c"
  shows "live s (PC c)" "\<exists>ch. chan_at s c = Some ch \<and> \<not> cfree ch"
proof -
  have "Some c \<in> set (f_fd f)" using assms(2) by (auto simp: fdmap_def split: if_splits) (metis nth_mem)
  then have "PC c \<in># fd_refs f" by (auto simp: fd_refs_def slot_refs_def in_slots)
  then show l: "live s (PC c)" using assms(1) by (auto intro: chinv_held)
  then show "\<exists>ch. chan_at s c = Some ch \<and> \<not> cfree ch" by (simp add: live_chan)
qed

text \<open>What \<open>fdtochan\<close> accepts.\<close>

definition usable :: "chan \<Rightarrow> u32 \<Rightarrow> bool \<Rightarrow> bool" where
  "usable ch mode chkmnt \<longleftrightarrow> \<not> (chkmnt \<and> c_flag ch AND CMSG \<noteq> 0) \<and>
     (sint mode < 0 \<or> c_mode ch = 2 \<or> \<not> (mode AND OTRUNC \<noteq> 0 \<and> c_mode ch = 0) \<and> mode AND NOT OTRUNC = ucast (c_mode ch))"

definition fd_chan :: "fgrp \<Rightarrow> int \<Rightarrow> nat option" where
  "fd_chan f fd = (if fd < 0 then None else fdmap f (nat fd))"

lemma fd_chan_None:
  assumes "fd_ok f" "fd_chan f fd = None"
  shows "fdtochan f fd mode chkmnt iref s = Some (Inl Ebadfd, s)"
  using assms by (auto simp: fdtochan_def fd_chan_def fdmap_def fd_ok_def split: if_splits)

lemma fd_chan_Some:
  assumes "fd_ok f" "fd_chan f fd = Some c"
  shows "0 \<le> fd" "fd \<le> int (f_maxfd f)" "nat fd < length (f_fd f)" "f_fd f ! nat fd = Some c"
  using assms by (auto simp: fd_chan_def fdmap_def fd_ok_def split: if_splits)

lemma fdtochan_ok:
  assumes "chinv s T (fd_refs f + R) []" "fd_ok f" "fd_chan f fd = Some c" "chan_at s c = Some ch"
  shows "runs (fdtochan f fd mode chkmnt iref s) (\<lambda>(r, s'). post T ((if usable ch mode chkmnt \<and> iref then {#PC c#} else {#}) + (fd_refs f + R)) s s' \<and>
    (if usable ch mode chkmnt then r = Inr c \<and> (\<exists>x. chan_at s' c = Some (ch\<lparr>c_ref := x\<rparr>)) else r = Inl Ebadusefd))"
proof -
  note c = fd_chan_Some [OF assms(2,3)]
  have l: "live s (PC c)" using fd_live(1) [OF assms(1)] assms(3) by (auto simp: fd_chan_def split: if_splits)
  obtain s1 where s1: "(if iref then incref c s else Some s) = Some s1" "post T ((if iref then {#PC c#} else {#}) + (fd_refs f + R)) s s1"
    "\<exists>x. chan_at s1 c = Some (ch\<lparr>c_ref := x\<rparr>)"
  proof (cases iref)
    case True
    from incref_spec [OF assms(1) l] obtain x where x: "incref c s = Some (put c (set_ref x (get s c)) s)"
      "post T (add_mset (PC c) (fd_refs f + R)) s (put c (set_ref x (get s c)) s)" by auto
    moreover have "chan_at (put c (set_ref x (get s c)) s) c = Some (ch\<lparr>c_ref := x\<rparr>)"
      using chan_atD [OF assms(4)] get_valid [of s c] by (simp add: chan_at_def get_put)
    ultimately show thesis using that True by auto
  next
    case False
    have "\<exists>x. ch = ch\<lparr>c_ref := x\<rparr>" by (rule exI [of _ "c_ref ch"]) simp
    then show thesis using that False assms(1,4) post_refl by auto
  qed
  obtain x where x: "chan_at s1 c = Some (ch\<lparr>c_ref := x\<rparr>)" using s1(3) by blast
  have bad: "runs (if iref then cclose (Some c) s1 else Some s1) (\<lambda>s'. post T (fd_refs f + R) s s')"
  proof (cases iref)
    case True
    then have "chinv s1 T (optr PC (Some c) + (fd_refs f + R)) []" using postD [OF s1(2)] by simp
    from cclose_ok [OF this] show ?thesis using True s1(2) by (auto elim: runs_mono intro: post_trans)
  qed (use s1(2) in simp)
  show ?thesis
  proof (cases "usable ch mode chkmnt")
    case True
    have "fdtochan f fd mode chkmnt iref s = Some (Inr c, s1)"
      using c True s1(1) x by (auto simp: fdtochan_def usable_def Let_def)
    then show ?thesis using True s1(2) x by auto
  next
    case False
    have "fdtochan f fd mode chkmnt iref s = Option.bind (if iref then cclose (Some c) s1 else Some s1) (\<lambda>s. Some (Inl Ebadusefd, s))"
      using c False s1(1) x by (auto simp: fdtochan_def usable_def Let_def)
    then show ?thesis using False bad by (auto simp: runs_def)
  qed
qed

lemma lower_maxfd:
  assumes "\<And>j. j \<ge> i \<Longrightarrow> j < length fds \<Longrightarrow> fds ! j = None"
  shows "lower_maxfd fds i i \<le> i \<and> (\<forall>j<length fds. lower_maxfd fds i i < j \<longrightarrow> fds ! j = None)"
  using assms
proof (induction i)
  case (Suc i)
  show ?case
  proof (cases "fds ! i = None")
    case True
    then have "\<And>j. j \<ge> i \<Longrightarrow> j < length fds \<Longrightarrow> fds ! j = None" using Suc.prems by (metis Suc_leI le_neq_implies_less)
    from Suc.IH [OF this] show ?thesis using True by auto
  qed (use Suc.prems in auto)
qed simp

lemma fdclose_ok:
  assumes "chinv s T (fd_refs f + R) []" "fd_ok f" "fdmap f fd = Some c"
  shows "runs (fdclose f fd s) (\<lambda>(g, s'). fd_ok g \<and> fdmap g = (fdmap f)(fd := None) \<and> post T (fd_refs g + R) s s')"
proof -
  have fd: "fd < length (f_fd f)" "f_fd f ! fd = Some c" using assms(3) by (auto simp: fdmap_def split: if_splits)
  let ?fds = "(f_fd f)[fd := None]"
  let ?max = "if fd = f_maxfd f then lower_maxfd ?fds fd (f_maxfd f) else f_maxfd f"
  let ?g = "f\<lparr>f_fd := ?fds, f_maxfd := ?max, f_minfd := (if fd < f_minfd f then fd else f_minfd f)\<rparr>"
  have max: "?max \<le> f_maxfd f \<and> (\<forall>j<length ?fds. ?max < j \<longrightarrow> ?fds ! j = None)"
  proof (cases "fd = f_maxfd f")
    case True
    have "?fds ! j = None" if "j \<ge> fd" "j < length ?fds" for j
      using that assms(2) True by (cases "j = fd") (auto simp: fd_ok_def)
    from lower_maxfd [of fd ?fds, OF this] show ?thesis using True by simp
  qed (use assms(2) fd(1) in \<open>auto simp: fd_ok_def nth_list_update\<close>)
  then have "fd_ok ?g" using assms(2) fd by (auto simp: fd_ok_def nth_list_update)
  moreover have "fdmap ?g = (fdmap f)(fd := None)" using fdmap_set [OF fd(1), of ?g None] by simp
  moreover have r: "fd_refs ?g + {#PC c#} = fd_refs f" using fd_refs_set [OF fd(1), of ?g None] assms(3) by simp
  have "chinv s T (optr PC (Some c) + (fd_refs ?g + R)) []" using assms(1) unfolding r [symmetric] by (simp add: ac_simps)
  from runsD [OF cclose_ok [OF this]] obtain s' where "cclose (Some c) s = Some s'" "post T (fd_refs ?g + R) s s'" by blast
  ultimately show ?thesis using fd by (simp add: fdclose_def Let_def)
qed

lemma minus_one_mode: "sint (- 1 :: u32) < 0"
  by simp

lemma kfgrpclose_ok:
  assumes "chinv s T (fd_refs f + R) []" "fd_ok f"
  shows "runs (kfgrpclose f fd s) (\<lambda>(r, g, s'). fd_ok g \<and> post T (fd_refs g + R) s s' \<and>
    (case fd_chan f fd of
       None \<Rightarrow> r = Inl Ebadfd \<and> g = f \<and> s' = s
     | Some c \<Rightarrow> r = Inr () \<and> fdmap g = (fdmap f)(nat fd := None)))"
proof (cases "fd_chan f fd")
  case None
  then show ?thesis using fd_chan_None [OF assms(2) None] assms post_refl by (simp add: kfgrpclose_def)
next
  case (Some c)
  have m: "fdmap f (nat fd) = Some c" using Some by (auto simp: fd_chan_def split: if_splits)
  note c = fd_chan_Some [OF assms(2) Some]
  obtain ch where ch: "chan_at s c = Some ch" using fd_live(2) [OF assms(1) m] by blast
  then have "fdtochan f fd (- 1) False False s = Some (Inr c, s)" using c by (simp add: fdtochan_def)
  then show ?thesis using runsD [OF fdclose_ok [OF assms m]] Some by (auto simp: kfgrpclose_def)
qed

lemma newfd_fails: "fd_ok f \<Longrightarrow> newfd c f = None \<Longrightarrow> fdmap f j = None \<Longrightarrow> j \<ge> 4000"
  using newfd_runs(1) [of f c] by (meson not_less)

text \<open>Setting slot \<open>fd\<close> of a group that has been grown to it.\<close>

lemma dup_set:
  assumes "fd_ok f" "growfd f fd = Some h"
    and g_def: "g = h\<lparr>f_maxfd := (if fd > f_maxfd h then fd else f_maxfd h), f_fd := (f_fd h)[fd := Some c]\<rparr>"
  shows "fd_ok g" "fdmap g = (fdmap f)(fd \<mapsto> c)" "fd_refs g + optr PC (fdmap f fd) = add_mset (PC c) (fd_refs f)" "f_fd h ! fd = fdmap f fd"
proof -
  note k = growfd_ok [OF assms(1,2)]
  show "fd_ok g" using fd_ok_set [OF k(1,4), of "f_minfd h" c] k(1) by (simp add: g_def fd_ok_def fdmap_def)
  show "fdmap g = (fdmap f)(fd \<mapsto> c)" using fdmap_set [OF k(4), of g "Some c"] k(2) by (simp add: g_def)
  show "fd_refs g + optr PC (fdmap f fd) = add_mset (PC c) (fd_refs f)"
    using fd_refs_set [OF k(4), of g "Some c"] k(2,3) by (simp add: g_def)
  show "f_fd h ! fd = fdmap f fd" using k(2,4) by (simp add: fdmap_def fun_eq_iff) (metis)
qed

lemma kdup_ok:
  assumes "chinv s T (fd_refs f + R) []" "fd_ok f" "fd_chan f old = Some c" "chan_at s c = Some ch"
  shows "runs (kdup old new f s) (\<lambda>(r, g, s'). fd_ok g \<and>
    (if q_type (c_qid ch) AND QTAUTH \<noteq> 0
     then r = Inl Eauth \<and> g = f \<and> post T (add_mset (PC c) (fd_refs f + R)) s s'
     else post T (fd_refs g + R) s s' \<and>
       (case r of
          Inl e \<Rightarrow> g = f \<and> e = (if new = -1 then Enofd else Ebadfd)
        | Inr fd \<Rightarrow> fdmap g = (fdmap f)(fd \<mapsto> c) \<and>
            (if new = -1 then fdmap f fd = None \<and> (\<forall>j<fd. fdmap f j \<noteq> None) else new = int fd))))"
proof -
  have u: "usable ch (- 1) False" by (simp add: usable_def)
  from runs2D [OF fdtochan_ok [OF assms, of "- 1" False True]] u obtain s1 x where
    s1: "fdtochan f old (- 1) False True s = Some (Inr c, s1)" "post T (add_mset (PC c) (fd_refs f + R)) s s1"
    "chan_at s1 c = Some (ch\<lparr>c_ref := x\<rparr>)" by auto
  have i1: "chinv s1 T (add_mset (PC c) (fd_refs f + R)) []" using s1(2) by (rule postD)
  then have "chinv s1 T (optr PC (Some c) + (fd_refs f + R)) []" by simp
  from runsD [OF cclose_ok [OF this]] obtain s2 where s2: "cclose (Some c) s1 = Some s2" "post T (fd_refs f + R) s s2"
    using s1(2) by (auto intro: post_trans)
  show ?thesis
  proof (cases "q_type (c_qid ch) AND QTAUTH \<noteq> 0")
    case True
    then show ?thesis using s1 assms(2) by (simp add: kdup_def)
  next
    case False
    note noauth = this
    show ?thesis
    proof (cases "new = -1")
      case True
      show ?thesis
      proof (cases "newfd c f")
        case None
        then show ?thesis using noauth True s1 s2 assms(2) by (simp add: kdup_def)
      next
        case (Some p)
        obtain fd g where p: "p = (fd, g)" by fastforce
        note n = newfd_runs(2) [OF assms(2) Some [unfolded p]]
        have "kdup old new f s = Some (Inr fd, g, s1)" using noauth True s1 Some p by (simp add: kdup_def)
        then show ?thesis using n noauth True s1(2) by simp
      qed
    next
      case False
      show ?thesis
      proof (cases "new < 0 \<or> growfd f (nat new) = None")
        case True
        then have "kdup old new f s = Some (Inl Ebadfd, f, s2)" using noauth False s1 s2 by (auto simp: kdup_def)
        then show ?thesis using noauth False s2(2) assms(2) by simp
      next
        case True: False
        then obtain h where h: "growfd f (nat new) = Some h" "0 \<le> new" by auto
        let ?g = "h\<lparr>f_maxfd := (if nat new > f_maxfd h then nat new else f_maxfd h), f_fd := (f_fd h)[nat new := Some c]\<rparr>"
        note d = dup_set [of f "nat new" h ?g c, OF assms(2) h(1) refl]
        have "chinv s1 T (optr PC (fdmap f (nat new)) + (fd_refs ?g + R)) []" using i1 d(3) by (simp add: ac_simps)
        from runsD [OF cclose_ok [OF this]] obtain s3 where s3: "cclose (fdmap f (nat new)) s1 = Some s3" "post T (fd_refs ?g + R) s s3"
          using s1(2) by (auto intro: post_trans)
        have "kdup old new f s = Some (Inr (nat new), ?g, s3)" using noauth False s1 s3(1) h d(4) by (simp add: kdup_def Let_def)
        then show ?thesis using noauth False s3(2) d(1,2) h(2) by simp
      qed
    qed
  qed
qed

text \<open>Duplicating a group takes one reference for each of its entries, closing it gives them back.\<close>

lemma dupfgrp_ok:
  assumes "chinv s T (fd_refs f + R) []" "fd_ok f"
  shows "runs (dupfgrp f s) (\<lambda>(g, s'). fd_ok g \<and> f_ref g = 1 \<and> fdmap g = fdmap f \<and> fd_refs g = fd_refs f \<and>
    post T (fd_refs g + (fd_refs f + R)) s s' \<and> reref s s')"
proof -
  let ?u = "take (f_maxfd f + 1) (f_fd f)"
  let ?g = "\<lparr>f_ref = 1, f_fd = ?u @ replicate (fgrp_size (f_maxfd f) - length ?u) None, f_maxfd = f_maxfd f, f_minfd = f_minfd f\<rparr>"
  have b: "f_maxfd f < length (f_fd f)" "f_maxfd f < 4000" using assms(2) by (auto simp: fd_ok_def)
  note z = fgrp_size [OF b(2)]
  have u: "slots ?u = slots (f_fd f)" by (rule fd_used [OF assms(2)])
  have r: "fd_refs ?g = fd_refs f" using u by (simp add: fd_refs_def slot_refs_def)
  have g: "fdmap ?g i = fdmap f i" for i
    using assms(2) b by (auto simp: fdmap_def fd_ok_def nth_append)
  have m: "f_minfd f \<le> f_maxfd f + 1"
  proof (rule ccontr)
    assume m: "\<not> f_minfd f \<le> f_maxfd f + 1"
    then have "f_maxfd f + 1 < length (f_fd f)" using assms(2) unfolding fd_ok_def by linarith
    then have "f_fd f ! (f_maxfd f + 1) = None" using assms(2) by (simp add: fd_ok_def)
    moreover have "f_fd f ! (f_maxfd f + 1) \<noteq> None" using m assms(2) unfolding fd_ok_def by (meson not_le)
    ultimately show False by simp
  qed
  have "fd_ok ?g" using assms(2) b z m by (auto simp: fd_ok_def nth_append)
  moreover have "runs (incref_slots ?u s) (\<lambda>s'. post T (fd_refs f + (fd_refs f + R)) s s' \<and> reref s s')"
  proof (rule runs_mono [OF incref_slots_runs [OF assms(1), of ?u PC]])
    fix c assume "c \<in> set (slots ?u)"
    then show "live s (PC c)" unfolding u using assms(1) by (auto intro!: chinv_held [OF assms(1)] simp: fd_refs_def slot_refs_def)
  qed (simp_all only: idx.simps u fd_refs_def slot_refs_def simp_thms)
  ultimately show ?thesis using r g by (auto simp: dupfgrp_def Let_def runs_def fun_eq_iff)
qed

lemma closefgrp_ok:
  assumes "chinv s T (fd_refs f + R) []" "fd_ok f"
  shows "runs (closefgrp f s) (\<lambda>(g, s'). case g of
      None \<Rightarrow> f_ref f = 1 \<and> post T R s s'
    | Some g \<Rightarrow> f_ref f > 1 \<and> g = f\<lparr>f_ref := f_ref f - 1\<rparr> \<and> fd_ok g \<and> s' = s)"
proof (cases "f_ref f = 1")
  case True
  have "wrefs (map CClose (slots (take (f_maxfd f + 1) (f_fd f)))) = fd_refs f"
    unfolding fd_used [OF assms(2)] by (simp add: wrefs_def fd_refs_def slot_refs_def comp_def)
  then have "runs (release (map CClose (slots (take (f_maxfd f + 1) (f_fd f)))) s) (\<lambda>s'. post T R s s' \<and> shrinks s s')"
    using assms(1) by (intro release_ok) simp_all
  then show ?thesis using True by (auto simp: closefgrp_def runs_def)
qed (use assms(2) in \<open>auto simp: closefgrp_def Let_def fd_ok_def\<close>)

end
