(* ===== verification/FdSys.thy ===== *)
theory FdSys
  imports FgrpInv NsRoot
begin

text \<open>
  Processes with descriptor groups: any sequence of opening, closing, duplicating, forking, sharing and exiting
  keeps every group well formed and every channel's count at the number of its references.
\<close>

subsection \<open>Single operations\<close>

text \<open>
  \<open>newfd\<close> gives out the lowest free descriptor and changes nothing else of the table; it fails exactly when all
  \<open>MAXNFD\<close> descriptors are in use.
\<close>
theorem newfd_least:
  assumes "fd_ok f"
  shows "case newfd c f of
      None \<Rightarrow> \<forall>j<MAXNFD. fdmap f j \<noteq> None
    | Some (i, g) \<Rightarrow> fd_ok g \<and> i = (LEAST j. fdmap f j = None) \<and> i < MAXNFD \<and> fdmap g = (fdmap f)(i \<mapsto> c)"
proof (cases "newfd c f")
  case None
  then show ?thesis using newfd_runs(1) [OF assms] by simp
next
  case (Some p)
  obtain i g where p: "p = (i, g)" by fastforce
  note n = newfd_runs(2) [OF assms Some [unfolded p]]
  then have "i = (LEAST j. fdmap f j = None)" by (metis (mono_tags, lifting) Least_equality not_less)
  then show ?thesis using n Some p by simp
qed

lemma newfd_least_witness:
  "case newfd 7 (newfgrp None) of None \<Rightarrow> False | Some (i, g) \<Rightarrow> fd_ok g \<and> fdmap g = [i \<mapsto> 7] \<and> i = 0"
  using newfd_least [of "newfgrp None" 7] newfgrp_ok [of None]
  by (simp add: newfd_def newfgrp_def growfd_def split: option.splits)

text \<open>
  C13: \<open>kdup\<close> of an open descriptor makes the descriptor asked for, or the lowest free one, refer to the same channel,
  closes what it referred to before and keeps every other descriptor; an error changes nothing.  The counts stay
  exact, but for an authentication file, whose channel keeps a reference that nothing gives back.
\<close>
theorem kdup_exact:
  assumes "chinv s T (fd_refs f + R) []" "fd_ok f" "fd_chan f old = Some c" "chan_at s c = Some ch"
  shows "\<exists>r g s'. kdup old new f s = Some (r, g, s') \<and> fd_ok g \<and>
    (if q_type (c_qid ch) AND QTAUTH \<noteq> 0
     then r = Inl Eauth \<and> g = f \<and> chinv s' T (add_mset (PC c) (fd_refs f + R)) []
     else chinv s' T (fd_refs g + R) [] \<and>
       (case r of
          Inl e \<Rightarrow> g = f \<and> e = (if new = -1 then Enofd else Ebadfd)
        | Inr fd \<Rightarrow> fdmap g = (fdmap f)(fd \<mapsto> c) \<and>
            (if new = -1 then fdmap f fd = None \<and> (\<forall>j<fd. fdmap f j \<noteq> None) else new = int fd)))"
proof -
  from runs3D [OF kdup_ok [OF assms, of new]] obtain r g s' where "kdup old new f s = Some (r, g, s')" "fd_ok g"
    "if q_type (c_qid ch) AND QTAUTH \<noteq> 0 then r = Inl Eauth \<and> g = f \<and> post T (add_mset (PC c) (fd_refs f + R)) s s'
     else post T (fd_refs g + R) s s' \<and> (case r of Inl e \<Rightarrow> g = f \<and> e = (if new = -1 then Enofd else Ebadfd)
      | Inr fd \<Rightarrow> fdmap g = (fdmap f)(fd \<mapsto> c) \<and>
          (if new = -1 then fdmap f fd = None \<and> (\<forall>j<fd. fdmap f j \<noteq> None) else new = int fd))" by blast
  then show ?thesis by (cases "q_type (c_qid ch) AND QTAUTH = 0") (simp_all add: post_def)
qed

subsection \<open>Processes\<close>

text \<open>
  The groups of all processes and the store.  An opened channel is a new one here; the rest of the store is
  the business of others, who hold \<open>R\<close>.  The third component is no state of the code: it counts the references
  \<open>kdup\<close> of an authentication file takes and nothing gives back.
\<close>

datatype fdop = FdOpen nat | FdClose nat int | FdDup nat int int | FdFork nat | FdShare nat | FdExit nat

definition dropnth :: "nat \<Rightarrow> 'a list \<Rightarrow> 'a list" where
  "dropnth i xs = take i xs @ drop (Suc i) xs"

type_synonym fdstate = "fgrp list \<times> store \<times> ptr multiset"

inductive fdstep :: "fdstate \<Rightarrow> fdop \<Rightarrow> fdstate \<Rightarrow> bool" where
  opened: "fdstep (gs, s, L) (FdOpen i) (gs[i := g], s1, L)"
    if "i < length gs" "newchan s = Some (c, s1)" "newfd c (gs ! i) = Some (fd, g)"
| full: "fdstep (gs, s, L) (FdOpen i) (gs, s2, L)"
    if "i < length gs" "newchan s = Some (c, s1)" "newfd c (gs ! i) = None" "cclose (Some c) s1 = Some s2"
| closed: "fdstep (gs, s, L) (FdClose i fd) (gs[i := g], s1, L)"
    if "i < length gs" "kfgrpclose (gs ! i) fd s = Some (r, g, s1)"
| dup: "fdstep (gs, s, L) (FdDup i old new) (gs[i := g], s1, L)"
    if "i < length gs" "kdup old new (gs ! i) s = Some (r, g, s1)" "r \<noteq> Inl Eauth"
| auth: "fdstep (gs, s, L) (FdDup i old new) (gs[i := g], s1, add_mset (PC c) L)"
    if "i < length gs" "kdup old new (gs ! i) s = Some (Inl Eauth, g, s1)" "fd_chan (gs ! i) old = Some c"
| fork: "fdstep (gs, s, L) (FdFork i) (gs @ [g], s1, L)"
    if "i < length gs" "dupfgrp (gs ! i) s = Some (g, s1)"
| share: "fdstep (gs, s, L) (FdShare i) (gs[i := (gs ! i)\<lparr>f_ref := f_ref (gs ! i) + 1\<rparr>], s, L)"
    if "i < length gs"
| left: "fdstep (gs, s, L) (FdExit i) (gs[i := g], s1, L)"
    if "i < length gs" "closefgrp (gs ! i) s = Some (Some g, s1)"
| gone: "fdstep (gs, s, L) (FdExit i) (dropnth i gs, s1, L)"
    if "i < length gs" "closefgrp (gs ! i) s = Some (None, s1)"

inductive fdrun :: "fdstate \<Rightarrow> fdop list \<Rightarrow> fdstate \<Rightarrow> bool" where
  nil: "fdrun x [] x"
| snoc: "fdrun x (as @ [a]) z" if "fdrun x as y" "fdstep y a z"

definition all_refs :: "fgrp list \<Rightarrow> ptr multiset" where
  "all_refs gs = sum_list (map fd_refs gs)"

definition fd_inv :: "mtab \<Rightarrow> ptr multiset \<Rightarrow> fdstate \<Rightarrow> bool" where
  "fd_inv T R x \<longleftrightarrow> (case x of (gs, s, L) \<Rightarrow> list_all fd_ok gs \<and> chinv s T (all_refs gs + (L + R)) [])"

lemma all_refs_simps [simp]: "all_refs [] = {#}" "all_refs (g # gs) = fd_refs g + all_refs gs" "all_refs (gs @ hs) = all_refs gs + all_refs hs"
  by (simp_all add: all_refs_def)

lemma all_refs_split:
  assumes "i < length gs"
  shows "all_refs gs = fd_refs (gs ! i) + all_refs (dropnth i gs)" "all_refs (gs[i := g]) = fd_refs g + all_refs (dropnth i gs)"
proof -
  show "all_refs gs = fd_refs (gs ! i) + all_refs (dropnth i gs)"
    using arg_cong [OF id_take_nth_drop [OF assms], of all_refs] by (simp add: dropnth_def ac_simps)
  show "all_refs (gs[i := g]) = fd_refs g + all_refs (dropnth i gs)"
    using assms by (simp add: upd_conv_take_nth_drop dropnth_def ac_simps)
qed

lemma fd_invD:
  assumes "fd_inv T R (gs, s, L)" "i < length gs"
  shows "fd_ok (gs ! i)" "chinv s T (fd_refs (gs ! i) + (all_refs (dropnth i gs) + (L + R))) []" "list_all fd_ok gs"
  using assms all_refs_split(1) [OF assms(2)] by (auto simp: fd_inv_def list_all_length ac_simps)

lemma fd_invI:
  assumes "list_all fd_ok gs" "i < length gs" "fd_ok g" "chinv s' T (fd_refs g + (all_refs (dropnth i gs) + (L + R))) []"
  shows "fd_inv T R (gs[i := g], s', L)"
proof -
  have "list_all fd_ok (gs[i := g])" using assms(1-3) by (auto simp: list_all_length nth_list_update)
  then show ?thesis using assms(4) all_refs_split(2) [OF assms(2), of g] by (simp add: fd_inv_def ac_simps)
qed

lemma fdstep_inv:
  assumes "fdstep x a y" "fd_inv T R x"
  shows "fd_inv T R y"
  using assms
proof cases
  case (opened i gs s c s1 fd g L)
  note d = fd_invD [OF assms(2) [unfolded opened(1)] opened(4)]
  from newchan_ok [OF d(2)] opened(5) have p: "post T (add_mset (PC c) (fd_refs (gs ! i) + (all_refs (dropnth i gs) + (L + R)))) s s1" by simp
  note n = newfd_runs(2) [OF d(1) opened(6)]
  show ?thesis unfolding opened(3) using d(3) opened(4) n postD [OF p] by (intro fd_invI) simp_all
next
  case (full i gs s c s1 s2 L)
  note d = fd_invD [OF assms(2) [unfolded full(1)] full(4)]
  from newchan_ok [OF d(2)] full(5) have p: "post T (add_mset (PC c) (fd_refs (gs ! i) + (all_refs (dropnth i gs) + (L + R)))) s s1" by simp
  then have "chinv s1 T (optr PC (Some c) + (fd_refs (gs ! i) + (all_refs (dropnth i gs) + (L + R)))) []" using postD by simp
  from cclose_ok [OF this] full(7) have "chinv s2 T (fd_refs (gs ! i) + (all_refs (dropnth i gs) + (L + R))) []"
    by (auto simp: post_def)
  then show ?thesis using d(3) all_refs_split(1) [OF full(4)] by (simp add: full(3) fd_inv_def ac_simps)
next
  case (closed i gs fd s r g s1 L)
  note d = fd_invD [OF assms(2) [unfolded closed(1)] closed(4)]
  from kfgrpclose_ok [OF d(2,1), of fd] closed(5) show ?thesis unfolding closed(3)
    by (intro fd_invI [OF d(3) closed(4)]) (simp_all add: post_def)
next
  case (dup i gs old new s r g s1 L)
  note d = fd_invD [OF assms(2) [unfolded dup(1)] dup(4)]
  show ?thesis
  proof (cases "fd_chan (gs ! i) old")
    case None
    then have "g = gs ! i" "s1 = s" using dup(5) fd_chan_None [OF d(1) None] by (simp_all add: kdup_def)
    then show ?thesis using assms(2) dup by simp
  next
    case (Some c)
    obtain ch where ch: "chan_at s c = Some ch"
      using fd_live(2) [OF d(2), of "nat old" c] Some by (auto simp: fd_chan_def split: if_splits)
    from kdup_ok [OF d(2,1) Some ch, of new] dup(5,6) show ?thesis unfolding dup(3)
      by (intro fd_invI [OF d(3) dup(4)]) (auto simp: post_def split: if_splits)
  qed
next
  case (auth i gs old new s g s1 c L)
  note d = fd_invD [OF assms(2) [unfolded auth(1)] auth(4)]
  obtain ch where ch: "chan_at s c = Some ch"
    using fd_live(2) [OF d(2), of "nat old" c] auth(6) by (auto simp: fd_chan_def split: if_splits)
  from kdup_ok [OF d(2,1) auth(6) ch, of new] auth(5) have
    k: "fd_ok g" "chinv s1 T (add_mset (PC c) (fd_refs g + (all_refs (dropnth i gs) + (L + R)))) []"
    by (auto simp: post_def split: if_splits)
  show ?thesis unfolding auth(3) by (rule fd_invI [OF d(3) auth(4) k(1)]) (use k(2) in \<open>simp add: ac_simps\<close>)
next
  case (fork i gs s g s1 L)
  note d = fd_invD [OF assms(2) [unfolded fork(1)] fork(4)]
  from dupfgrp_ok [OF d(2,1)] fork(5) have "fd_ok g" "chinv s1 T (fd_refs g + (fd_refs (gs ! i) + (all_refs (dropnth i gs) + (L + R)))) []"
    by (auto simp: post_def)
  then show ?thesis using d(3) all_refs_split(1) [OF fork(4)] by (simp add: fork(3) fd_inv_def ac_simps)
next
  case (share i gs s L)
  note d = fd_invD [OF assms(2) [unfolded share(1)] share(4)]
  have "fd_ok ((gs ! i)\<lparr>f_ref := f_ref (gs ! i) + 1\<rparr>)" using d(1) by (auto simp: fd_ok_def)
  then show ?thesis unfolding share(3) using d by (intro fd_invI [OF d(3) share(4)]) (simp_all add: fd_refs_def)
next
  case (left i gs s g s1 L)
  note d = fd_invD [OF assms(2) [unfolded left(1)] left(4)]
  from closefgrp_ok [OF d(2,1)] left(5) have g: "g = (gs ! i)\<lparr>f_ref := f_ref (gs ! i) - 1\<rparr>" "fd_ok g" "s1 = s" by auto
  then show ?thesis unfolding left(3) using d(2) by (intro fd_invI [OF d(3) left(4)]) (simp_all add: fd_refs_def)
next
  case (gone i gs s s1 L)
  note d = fd_invD [OF assms(2) [unfolded gone(1)] gone(4)]
  have "list_all fd_ok (dropnth i gs)" using d(3) by (auto simp: dropnth_def list_all_iff dest: in_set_takeD in_set_dropD)
  then show ?thesis using closefgrp_ok [OF d(2,1)] gone(5) by (auto simp: gone(3) fd_inv_def post_def)
qed

lemma fdrun_inv: "fdrun x as y \<Longrightarrow> fd_inv T R x \<Longrightarrow> fd_inv T R y"
  by (induction rule: fdrun.induct) (auto intro: fdstep_inv)

lemma count_slots: "count (slot_refs xs) (PC c) = length (filter (\<lambda>x. x = Some c) xs)"
proof (induction xs)
  case (Cons x xs)
  then show ?case by (cases x) (auto simp: slot_refs_Cons)
qed (simp add: slot_refs_def)

lemma count_fd_refs: "count (fd_refs g) (PC c) = card {fd. fdmap g fd = Some c}"
proof -
  have "{fd. fdmap g fd = Some c} = {i. i < length (f_fd g) \<and> f_fd g ! i = Some c}"
    by (auto simp: fdmap_def split: if_splits)
  then show ?thesis by (simp add: fd_refs_def count_slots length_filter_conv_card)
qed

lemma count_all_refs: "count (all_refs gs) (PC c) = (\<Sum>g\<leftarrow>gs. card {fd. fdmap g fd = Some c})"
  by (induction gs) (simp_all add: count_fd_refs)

text \<open>An operation on a group there is can always be carried out.\<close>

fun fdop_of :: "fdop \<Rightarrow> nat" where
  "fdop_of (FdOpen i) = i"
| "fdop_of (FdClose i fd) = i"
| "fdop_of (FdDup i old new) = i"
| "fdop_of (FdFork i) = i"
| "fdop_of (FdShare i) = i"
| "fdop_of (FdExit i) = i"

lemma fdstep_enabled:
  assumes "fd_inv T R (gs, s, L)" "fdop_of a < length gs"
  shows "\<exists>y. fdstep (gs, s, L) a y"
proof (cases a)
  case (FdOpen i)
  then have i: "i < length gs" using assms(2) by simp
  note d = fd_invD [OF assms(1) i]
  from runs2D [OF newchan_ok [OF d(2)]] obtain c s1 where s1: "newchan s = Some (c, s1)"
    "post T (add_mset (PC c) (fd_refs (gs ! i) + (all_refs (dropnth i gs) + (L + R)))) s s1" by blast
  show ?thesis
  proof (cases "newfd c (gs ! i)")
    case None
    have "chinv s1 T (optr PC (Some c) + (fd_refs (gs ! i) + (all_refs (dropnth i gs) + (L + R)))) []" using postD [OF s1(2)] by simp
    from runsD [OF cclose_ok [OF this]] show ?thesis using full [OF i s1(1) None] FdOpen by blast
  next
    case (Some p)
    then show ?thesis using opened [OF i s1(1)] FdOpen by (cases p) blast
  qed
next
  case (FdClose i fd)
  then have i: "i < length gs" using assms(2) by simp
  note d = fd_invD [OF assms(1) i]
  from runs3D [OF kfgrpclose_ok [OF d(2,1), of fd]] show ?thesis using closed [OF i] FdClose by blast
next
  case (FdDup i old new)
  then have i: "i < length gs" using assms(2) by simp
  note d = fd_invD [OF assms(1) i]
  show ?thesis
  proof (cases "fd_chan (gs ! i) old")
    case None
    then have "kdup old new (gs ! i) s = Some (Inl Ebadfd, gs ! i, s)" using fd_chan_None [OF d(1) None] by (simp add: kdup_def)
    from dup [OF i this] show ?thesis using FdDup by auto
  next
    case (Some c)
    obtain ch where ch: "chan_at s c = Some ch"
      using fd_live(2) [OF d(2), of "nat old" c] Some by (auto simp: fd_chan_def split: if_splits)
    from runs3D [OF kdup_ok [OF d(2,1) Some ch, of new]] obtain r g s' where k: "kdup old new (gs ! i) s = Some (r, g, s')" by blast
    show ?thesis using dup [OF i k] auth [OF i _ Some, of new s g s'] k FdDup by (cases "r = Inl Eauth") auto
  qed
next
  case (FdFork i)
  then have i: "i < length gs" using assms(2) by simp
  note d = fd_invD [OF assms(1) i]
  from runs2D [OF dupfgrp_ok [OF d(2,1)]] show ?thesis using fork [OF i] FdFork by blast
next
  case (FdShare i)
  then show ?thesis using share [of i gs s] assms(2) by auto
next
  case (FdExit i)
  then have i: "i < length gs" using assms(2) by simp
  note d = fd_invD [OF assms(1) i]
  from runs2D [OF closefgrp_ok [OF d(2,1)]] obtain g s' where g: "closefgrp (gs ! i) s = Some (g, s')" by blast
  show ?thesis using left [OF i, of s] gone [OF i, of s] g FdExit by (cases g) blast+
qed

text \<open>
  C10: whatever the processes do with their descriptors, every group stays well formed, every descriptor refers to a
  live channel, and the count of the channel is the number of descriptors that refer to it, over all groups, plus
  its references elsewhere, plus one for every \<open>kdup\<close> of it that was refused because it is an authentication
  file (these references are never given back); and every further operation can be carried out.
\<close>
theorem fdgroups_exact:
  assumes "fdrun (gs, s, {#}) as (gs', s', L)" "list_all fd_ok gs" "chinv s T (all_refs gs + R) []"
  shows "list_all fd_ok gs' \<and>
    (\<forall>g\<in>set gs'. \<forall>fd c. fdmap g fd = Some c \<longrightarrow> (\<exists>ch. chan_at s' c = Some ch \<and> \<not> cfree ch \<and>
       c_ref ch = int (\<Sum>h\<leftarrow>gs'. card {d. fdmap h d = Some c}) + int (count L (PC c)) +
         int (count (owned s' + trefs T + R) (PC c)))) \<and>
    (\<forall>a. fdop_of a < length gs' \<longrightarrow> (\<exists>y. fdstep (gs', s', L) a y))"
proof -
  have inv: "fd_inv T R (gs', s', L)" using fdrun_inv [OF assms(1)] assms(2,3) by (simp add: fd_inv_def)
  then have i: "list_all fd_ok gs'" "chinv s' T (all_refs gs' + (L + R)) []" by (simp_all add: fd_inv_def)
  have count: "\<exists>ch. chan_at s' c = Some ch \<and> \<not> cfree ch \<and>
      c_ref ch = int (\<Sum>h\<leftarrow>gs'. card {d. fdmap h d = Some c}) + int (count L (PC c)) +
        int (count (owned s' + trefs T + R) (PC c))"
    if g: "g \<in> set gs'" "fdmap g fd = Some c" for g fd c
  proof -
    obtain j where j: "j < length gs'" "gs' ! j = g" using g(1) by (auto simp: in_set_conv_nth)
    have l: "live s' (PC c)" using fd_live(1) [OF fd_invD(2) [OF inv j(1)]] g(2) j(2) by auto
    then obtain ch where ch: "chan_at s' c = Some ch" "\<not> cfree ch" by (auto simp: live_chan)
    have "c_ref ch = int (count (owned s' + (trefs T + (all_refs gs' + (L + R)))) (PC c))"
      using chinv_ref [OF i(2) l] chan_atD [OF ch(1)] by simp
    then show ?thesis using ch by (simp add: count_all_refs)
  qed
  show ?thesis using i(1) count fdstep_enabled [OF inv] by blast
qed

definition group0 :: fgrp where
  "group0 = (newfgrp None)\<lparr>f_fd := (replicate 20 None)[0 := Some 0]\<rparr>"

lemma group0_ok: "fd_ok group0" "fd_refs group0 = {#PC 0#}" "fd_chan group0 0 = Some 0"
proof -
  show "fd_ok group0" by (auto simp: group0_def newfgrp_def fd_ok_def nth_list_update)
  show "fd_refs group0 = {#PC 0#}" by (simp add: group0_def fd_refs_def slot_refs_def numeral_eq_Suc)
  show "fd_chan group0 0 = Some 0" by (simp add: group0_def newfgrp_def fd_chan_def fdmap_def)
qed

lemma kdup_exact_witness:
  "\<exists>g s'. kdup 0 5 group0 root_store = Some (Inl Ebadfd, g, s') \<or>
    kdup 0 5 group0 root_store = Some (Inr 5, g, s') \<and> fdmap g = (fdmap group0)(5 \<mapsto> 0)"
  using kdup_exact [of root_store "{#}" group0 "{#}" 0 0 root_chan 5] root_inv group0_ok root_at(1)
  by (fastforce simp: root_chan_def clear_chan_def split: sum.splits)

lemma fdgroups_exact_witness:
  "\<exists>gs s. fdrun ([group0], root_store, {#}) [FdFork 0, FdDup 1 0 5] (gs, s) \<and> list_all fd_ok gs"
proof -
  have i0: "fd_inv {#} {#} ([group0], root_store, {#})" using root_inv group0_ok by (simp add: fd_inv_def)
  from fdstep_enabled [OF this, of "FdFork 0"] obtain x where x: "fdstep ([group0], root_store, {#}) (FdFork 0) x" by auto
  then obtain gs s L where g: "x = (gs, s, L)" "length gs = 2" by cases auto
  have "fd_inv {#} {#} x" using fdstep_inv [OF x i0] .
  from fdstep_enabled [OF this [unfolded g(1)], of "FdDup 1 0 5"] obtain gs' s' L' where
    y: "fdstep x (FdDup 1 0 5) (gs', s', L')" using g by auto
  from fdrun.snoc [OF fdrun.snoc [OF fdrun.nil x] y] have r: "fdrun ([group0], root_store, {#}) [FdFork 0, FdDup 1 0 5] (gs', s', L')"
    by simp
  then show ?thesis using fdgroups_exact [OF r, of "{#}" "{#}"] root_inv group0_ok by auto
qed

end
