(* ===== verification/Pgrp.thy ===== *)
theory Pgrp
  imports Mount
begin

text \<open>
  Process groups, which hold the name spaces: \<open>newpgrp\<close>, \<open>pgrpcpy\<close> and \<open>closepgrp\<close> of \<open>emu/port/pgrp.c\<close>.
  The list \<open>order\<close> of \<open>pgrpcpy\<close> has the id of each mount of the parent and where its copy is: the head and the
  index in its union.  Memory never runs out.
\<close>

text \<open>\<open>ids\<close> is the counter \<open>pgrpid\<close>.\<close>

definition newpgrp :: "int \<Rightarrow> pgrp \<times> int" where
  "newpgrp ids =
     (\<lparr>g_ref = 1, g_id = ids + 1, g_mnthash = replicate 32 [], g_progmode = 0x1A4, g_dot = None, g_slash = None, g_nodevs = False\<rparr>,
      ids + 1)"

type_synonym order = "(int \<times> nat \<times> nat) list"

fun pgrpinsert :: "order \<Rightarrow> int \<times> nat \<times> nat \<Rightarrow> order" where
  "pgrpinsert [] m = [m]"
| "pgrpinsert (f # order) m = (if fst m < fst f then m # f # order else f # pgrpinsert order m)"

text \<open>The copy of a union: \<open>ns\<close> are the copies made so far of the mounts of the head \<open>mh\<close>.\<close>

fun cpy_mounts :: "nat \<Rightarrow> mount list \<Rightarrow> mount list \<Rightarrow> order \<Rightarrow> store \<Rightarrow> (mount list \<times> order \<times> store) option" where
  "cpy_mounts mh [] ns order s = Some (ns, order, s)"
| "cpy_mounts mh (m # ms) ns order s = do {
     (n, s) \<leftarrow> newmount (m_to m) (m_flag m) (m_spec m) s;
     cpy_mounts mh ms (ns @ [n]) (pgrpinsert order (m_id m, mh, length ns)) s
   }"

fun cpy_chain :: "nat list \<Rightarrow> nat list \<Rightarrow> order \<Rightarrow> store \<Rightarrow> (nat list \<times> order \<times> store) option" where
  "cpy_chain [] l order s = Some (l, order, s)"
| "cpy_chain (f # fs) l order s = do {
     h \<leftarrow> head_at s f;
     from \<leftarrow> h_from h;
     (mh, s) \<leftarrow> newmhead from s;
     (ns, order, s) \<leftarrow> cpy_mounts mh (h_mount h) [] order s;
     s \<leftarrow> set_mounts mh ns s;
     cpy_chain fs (l @ [mh]) order s
   }"

text \<open>The hash table, chain by chain; a chain of \<open>to\<close> is overwritten if there is something to copy.\<close>

fun cpy_table :: "nat list list \<Rightarrow> nat list list \<Rightarrow> order \<Rightarrow> store \<Rightarrow> (nat list list \<times> order \<times> store) option" where
  "cpy_table (fs # from) (ts # to) order s = do {
     (l, order, s) \<leftarrow> cpy_chain fs [] order s;
     (tab, order, s) \<leftarrow> cpy_table from to order s;
     Some ((if fs = [] then ts else l) # tab, order, s)
   }"
| "cpy_table _ _ order s = Some ([], order, s)"

text \<open>Ids are allocated to the copies in the order of the ids of the originals.\<close>

fun assign_ids :: "order \<Rightarrow> store \<Rightarrow> store option" where
  "assign_ids [] s = Some s"
| "assign_ids ((_, mh, k) # order) s = do {
     ms \<leftarrow> mounts_of (Some mh) s;
     s \<leftarrow> set_mounts mh (ms[k := (ms ! k)\<lparr>m_id := s_mountid s\<rparr>]) s;
     assign_ids order (s\<lparr>s_mountid := s_mountid s + 1\<rparr>)
   }"

definition pgrpcpy :: "device \<Rightarrow> pgrp \<Rightarrow> pgrp \<Rightarrow> store \<Rightarrow> ((nserr + unit) \<times> pgrp \<times> store) option" where
  "pgrpcpy D to from s = do {
     (tab, order, s) \<leftarrow> cpy_table (g_mnthash from) (g_mnthash to) [] s;
     s \<leftarrow> assign_ids order s;
     let to = to\<lparr>g_mnthash := tab, g_progmode := g_progmode from\<rparr>;
     slash \<leftarrow> g_slash from;
     (c, s) \<leftarrow> cclone D slash s;
     case c of
       None \<Rightarrow> Some (Inl Eclone, to, s)
     | Some c \<Rightarrow> do {
         let to = to\<lparr>g_slash := Some c\<rparr>;
         dot \<leftarrow> g_dot from;
         (d, s) \<leftarrow> cclone D dot s;
         case d of
           None \<Rightarrow> Some (Inl Eclone, to, s)
         | Some d \<Rightarrow> Some (Inr (), to\<lparr>g_dot := Some d, g_nodevs := g_nodevs from\<rparr>, s)
       }
   }"

text \<open>The mounts leave their head before anything is closed, which nothing sees: the group has no other user.\<close>

fun close_heads :: "nat list \<Rightarrow> store \<Rightarrow> store option" where
  "close_heads [] s = Some s"
| "close_heads (f # fs) s = do {
     h \<leftarrow> head_at s f;
     s \<leftarrow> set_mounts f [] s;
     s \<leftarrow> cclose (h_from h) s;
     s \<leftarrow> mountfree (h_mount h) s;
     s \<leftarrow> putmhead (Some f) s;
     close_heads fs s
   }"

text \<open>\<open>None\<close> as the group is a group that is gone.\<close>

definition closepgrp :: "pgrp \<Rightarrow> store \<Rightarrow> (pgrp option \<times> store) option" where
  "closepgrp p s =
     (let ref = g_ref p - 1
      in if ref < 0 then None
         else if ref \<noteq> 0 then Some (Some (p\<lparr>g_ref := ref\<rparr>), s)
         else do {
           s \<leftarrow> close_heads (concat (g_mnthash p)) s;
           s \<leftarrow> cclose (g_dot p) s;
           s \<leftarrow> cclose (g_slash p) s;
           Some (None, s)
         })"

end
