(* ===== verification/PgrpSpec.thy ===== *)
theory PgrpSpec
  imports Pgrp MountSpec
begin

text \<open>
  Copying and closing a process group: the copy has the same unions over the same directories, in heads of its
  own, with ids in the order of the parent's; closing it gives back every reference it took.
\<close>

subsection \<open>The order of the ids\<close>

lemma mset_pgrpinsert: "mset (pgrpinsert order m) = add_mset m (mset order)"
  by (induction order) auto

lemma set_pgrpinsert: "set (pgrpinsert order m) = insert m (set order)"
  by (induction order) auto

lemma sorted_pgrpinsert: "sorted (map fst order) \<Longrightarrow> sorted (map fst (pgrpinsert order m))"
  by (induction order) (auto simp: set_pgrpinsert)

lemma mset_inserts: "mset (foldl pgrpinsert order ms) = mset order + mset ms"
  by (induction ms arbitrary: order) (simp_all add: mset_pgrpinsert)

lemma sorted_inserts: "sorted (map fst order) \<Longrightarrow> sorted (map fst (foldl pgrpinsert order ms))"
  by (induction ms arbitrary: order) (simp_all add: sorted_pgrpinsert)

text \<open>The entries for the mounts of a union, copied to the head \<open>mh\<close> from index \<open>k\<close> on.\<close>

fun marks :: "nat \<Rightarrow> nat \<Rightarrow> mount list \<Rightarrow> order" where
  "marks mh k [] = []"
| "marks mh k (m # ms) = (m_id m, mh, k) # marks mh (k + 1) ms"

lemma in_marks: "(i, h, k) \<in> set (marks mh j ms) \<longleftrightarrow> h = mh \<and> (\<exists>n<length ms. k = j + n \<and> i = m_id (ms ! n))"
proof (induction ms arbitrary: j)
  case (Cons m ms)
  show ?case unfolding marks.simps list.set insert_iff Cons.IH
    by (auto simp: less_Suc_eq_0_disj)
qed simp

lemma distinct_marks: "distinct (map snd (marks mh k ms))"
proof (induction ms arbitrary: k)
  case (Cons m ms)
  have "(mh, k) \<notin> set (map snd (marks mh (k + 1) ms))" by (auto simp: in_marks)
  then show ?case using Cons by simp
qed simp

subsection \<open>Copying unions\<close>

definition copied :: "mount \<Rightarrow> mount \<Rightarrow> bool" where
  "copied m n \<longleftrightarrow> m_to n = m_to m \<and> m_flag n = m_flag m \<and> m_spec n = m_spec m"

lemma copied_refs: "list_all2 copied ms ns \<Longrightarrow> mount_refs ns = mount_refs ms"
  by (induction rule: list_all2_induct) (simp_all add: copied_def mount_refs_def)

lemma copied_trans: "list_all2 copied ls ms \<Longrightarrow> list_all2 copied ms ns \<Longrightarrow> list_all2 copied ls ns"
  by (rule list_all2_trans [of copied copied]) (auto simp: copied_def)

lemma copied_refl: "list_all2 copied ms ms"
  by (simp add: list_all2_refl copied_def)

lemma cpy_mounts_ok:
  assumes "chinv s T R []" "\<And>m. m \<in> set ms \<Longrightarrow> live s (PC (m_to m))"
  shows "\<exists>cs s'. cpy_mounts mh ms ns order s = Some (ns @ cs, foldl pgrpinsert order (marks mh (length ns) ms), s') \<and>
    list_all2 copied ms cs \<and> post T (mount_refs cs + R) s s' \<and> reref s s'"
  using assms
proof (induction ms arbitrary: ns order s R)
  case Nil
  then show ?case by (simp add: post_refl)
next
  case (Cons m ms)
  obtain n s1 where s1: "newmount (m_to m) (m_flag m) (m_spec m) s = Some (n, s1)" "post T (add_mset (PC (m_to m)) R) s s1" "reref s s1"
    "copied m n"
    using newmount_ok [OF Cons.prems(1), of "m_to m" "m_flag m" "m_spec m"] Cons.prems(2) [of m] by (auto simp: copied_def)
  obtain cs s2 where s2: "cpy_mounts mh ms (ns @ [n]) (pgrpinsert order (m_id m, mh, length ns)) s1 =
      Some (ns @ n # cs, foldl pgrpinsert order (marks mh (length ns) (m # ms)), s2)"
    "list_all2 copied ms cs" "post T (mount_refs cs + add_mset (PC (m_to m)) R) s1 s2" "reref s1 s2"
    using Cons.IH [OF postD [OF s1(2)], of "ns @ [n]"] Cons.prems(2) s1(3) by (fastforce simp: reref_live)
  have "post T (mount_refs (n # cs) + R) s s2" using post_trans [OF s1(2) s2(3)] s1(4) by (simp add: copied_def)
  moreover have "cpy_mounts mh (m # ms) ns order s = Some (ns @ n # cs, foldl pgrpinsert order (marks mh (length ns) (m # ms)), s2)"
    using s1(1) s2(1) by simp
  ultimately show ?case using s1(4) s2(2) reref_trans [OF s1(3) s2(4)] by (intro exI [of _ "n # cs"] exI [of _ s2]) simp
qed

definition union_at :: "store \<Rightarrow> nat \<Rightarrow> mount list" where
  "union_at s f = (case head_at s f of None \<Rightarrow> [] | Some h \<Rightarrow> h_mount h)"

definition head_copy :: "store \<Rightarrow> store \<Rightarrow> nat \<Rightarrow> nat \<Rightarrow> bool" where
  "head_copy s s' f m \<longleftrightarrow> (\<exists>h h'. head_at s f = Some h \<and> head_at s' m = Some h' \<and> h_from h' = h_from h \<and>
     list_all2 copied (h_mount h) (h_mount h'))"

lemma tab_elem: "m \<in># image_mset fst T \<Longrightarrow> \<exists>g. (m, g) \<in># T"
  by auto

lemma keeps_head: "keeps T s t \<Longrightarrow> (f, g) \<in># T \<Longrightarrow> head_at s f = Some h \<Longrightarrow> \<exists>x. head_at t f = Some (h\<lparr>h_ref := x\<rparr>)"
  using head_atD [of s f h] unfolding keeps_def by (fastforce simp: head_at_def)

lemma keeps_union: "keeps T s t \<Longrightarrow> (f, g) \<in># T \<Longrightarrow> head_at s f = Some h \<Longrightarrow> union_at t f = union_at s f"
  using keeps_head [of T s t f g h] by (auto simp: union_at_def)

lemma head_copy_forth: "head_copy s t f m \<Longrightarrow> keeps T t u \<Longrightarrow> (m, g) \<in># T \<Longrightarrow> head_copy s u f m"
  using keeps_head [of T t u m g] unfolding head_copy_def by fastforce

lemma head_copy_back: "head_copy t u f m \<Longrightarrow> keeps T s t \<Longrightarrow> (f, g) \<in># T \<Longrightarrow> head_at s f = Some h \<Longrightarrow> head_copy s u f m"
  using keeps_head [of T s t f g h] unfolding head_copy_def by fastforce

definition all_marks :: "store \<Rightarrow> nat list \<Rightarrow> nat list \<Rightarrow> order" where
  "all_marks s fs ms = concat (map2 (\<lambda>f m. marks m 0 (union_at s f)) fs ms)"

lemma all_marks_simps [simp]: "all_marks s [] [] = []" "all_marks s (f # fs) (m # ms) = marks m 0 (union_at s f) @ all_marks s fs ms"
  "length fs = length ms \<Longrightarrow> all_marks s (fs @ fs') (ms @ ms') = all_marks s fs ms @ all_marks s fs' ms'"
  by (simp_all add: all_marks_def)

lemma all_marks_cong: "(\<And>f. f \<in> set fs \<Longrightarrow> union_at s f = union_at t f) \<Longrightarrow> all_marks s fs ms = all_marks t fs ms"
  unfolding all_marks_def by (intro arg_cong [of _ _ concat] map_cong) (auto dest: set_zip_leftD)

text \<open>What a copy of some heads leaves: the heads \<open>ms\<close>, which are \<open>U\<close> in the table, copy the heads \<open>fs\<close>.\<close>

definition cpy_post :: "mtab \<Rightarrow> ptr multiset \<Rightarrow> nat list \<Rightarrow> nat list \<Rightarrow> mtab \<Rightarrow> store \<Rightarrow> store \<Rightarrow> bool" where
  "cpy_post T R fs ms U s s' \<longleftrightarrow> chinv s' (U + T) R [] \<and> keeps T s s' \<and> mset ms = image_mset fst U \<and>
     list_all2 (head_copy s s') fs ms \<and> distinct ms \<and> (\<forall>m\<in>set ms. m \<notin># image_mset fst T)"

lemma cpy_head_ok:
  assumes "chinv s T R []" "(f, g) \<in># T" "head_at s f = Some h" "h_from h = Some g"
  shows "\<exists>m ns s1 s2 s3. newmhead g s = Some (m, s1) \<and>
    cpy_mounts m (h_mount h) [] order s1 = Some (ns, foldl pgrpinsert order (marks m 0 (union_at s f)), s2) \<and>
    set_mounts m ns s2 = Some s3 \<and> cpy_post T R [f] [m] {#(m, g)#} s s3"
proof -
  have lg: "live s (PC g)" by (rule table_head(3) [OF assms(1,2)])
  obtain m s1 where s1: "newmhead g s = Some (m, s1)" "post T (add_mset (PC g) (add_mset (PH m) R)) s s1"
    "head_at s1 m = Some \<lparr>h_ref = 1, h_from = Some g, h_mount = []\<rparr>" "m \<notin># image_mset fst T" "adds m s s1"
    using newhead_ok [OF assms(1) lg] by blast
  let ?T = "add_mset (m, g) T"
  have c1: "chinv s1 ?T R []"
    using postD [OF s1(2)] s1(3,4) by (intro chinv_enter) (auto simp: add_mset_commute)
  have "live s (PC (m_to x))" if "x \<in> set (h_mount h)" for x
    using live_out [OF assms(1), of "PC (m_to x)" f] head_atD [OF assms(3)] that by (auto simp: mount_refs_def)
  then have "live s1 (PC (m_to x))" if "x \<in> set (h_mount h)" for x using adds_live [OF s1(5)] that by blast
  from cpy_mounts_ok [OF c1 this, of "h_mount h" m "[]" order] obtain cs s2 where
    s2: "cpy_mounts m (h_mount h) [] order s1 = Some (cs, foldl pgrpinsert order (marks m 0 (h_mount h)), s2)"
    "list_all2 copied (h_mount h) cs" "post ?T (mount_refs cs + R) s1 s2" "reref s1 s2" by auto
  obtain x where x: "head_at s2 m = Some \<lparr>h_ref = x, h_from = Some g, h_mount = []\<rparr>" using reref_head [OF s2(4) s1(3)] by auto
  from set_mounts_ok [OF postD [OF s2(3)] x, of cs R] obtain s3 where s3: "set_mounts m cs s2 = Some s3" "chinv s3 ?T R []"
    "head_at s3 m = Some \<lparr>h_ref = x, h_from = Some g, h_mount = cs\<rparr>" "\<forall>j. j \<noteq> m \<longrightarrow> get s3 j = get s2 j" by auto
  have "keeps T s s1" "keeps T s1 s2" using s1(2) s2(3) keeps_sub [of T "{#(m, g)#}" s1 s2] by (simp_all add: post_def)
  moreover have "keeps T s2 s3" using s3(4) s1(4) by (intro keeps_except) auto
  ultimately have "keeps T s s3" by (blast intro: keeps_trans)
  moreover have "head_copy s s3 f m" using assms(3,4) s2(2) s3(3) by (simp add: head_copy_def)
  moreover have "union_at s f = h_mount h" using assms(3) by (simp add: union_at_def)
  ultimately show ?thesis using s1(1,4) s2(1) s3(1,2) by (auto simp: cpy_post_def)
qed

text \<open>Two copies, one after the other.\<close>

lemma cpy_post_append:
  assumes "chinv s T R []" "cpy_post T R fs ms U s t" "cpy_post (U + T) R fs' ms' V t u" "\<And>f. f \<in> set fs' \<Longrightarrow> \<exists>g. (f, g) \<in># T"
  shows "cpy_post T R (fs @ fs') (ms @ ms') (V + U) s u" "all_marks t fs' ms' = all_marks s fs' ms'"
proof -
  have k: "keeps T s t" "keeps (U + T) t u" using assms(2,3) by (simp_all add: cpy_post_def)
  have h: "\<exists>h g. head_at s f = Some h \<and> (f, g) \<in># T" if "f \<in> set fs'" for f
    using assms(4) [OF that] table_head(1) [OF assms(1)] by blast
  have "list_all2 (head_copy s u) fs ms"
  proof (rule list.rel_mono_strong [where R = "head_copy s t"])
    show "list_all2 (head_copy s t) fs ms" using assms(2) by (simp add: cpy_post_def)
    fix f m assume fm: "m \<in> set ms" "head_copy s t f m"
    then have "m \<in># image_mset fst U" using assms(2) unfolding cpy_post_def by (metis set_mset_mset)
    then obtain g where "(m, g) \<in># U" by auto
    then have "(m, g) \<in># U + T" by simp
    then show "head_copy s u f m" using head_copy_forth [OF fm(2) k(2)] by blast
  qed
  moreover have "list_all2 (head_copy s u) fs' ms'"
  proof (rule list.rel_mono_strong [where R = "head_copy t u"])
    show "list_all2 (head_copy t u) fs' ms'" using assms(3) by (simp add: cpy_post_def)
    fix f m assume fm: "f \<in> set fs'" "head_copy t u f m"
    show "head_copy s u f m" using h [OF fm(1)] head_copy_back [OF fm(2) k(1)] by blast
  qed
  moreover have "keeps T s u" using k(1) keeps_sub [of T U t u] k(2) by (auto simp: add.commute intro: keeps_trans)
  moreover have "set ms \<inter> set ms' = {}" using assms(2,3) unfolding cpy_post_def by (metis (no_types, lifting) disjoint_iff image_mset_union set_mset_mset union_iff)
  ultimately show "cpy_post T R (fs @ fs') (ms @ ms') (V + U) s u"
    using assms(2,3) by (auto simp: cpy_post_def ac_simps intro: list_all2_appendI)
  show "all_marks t fs' ms' = all_marks s fs' ms'"
    using h keeps_union [OF k(1)] by (intro all_marks_cong) blast
qed

lemma cpy_post_nil: "chinv s T R [] \<Longrightarrow> cpy_post T R [] [] {#} s s"
  by (simp add: cpy_post_def)

lemma cpy_chain_ok:
  assumes "chinv s T R []" "\<And>f. f \<in> set fs \<Longrightarrow> \<exists>g. (f, g) \<in># T"
  shows "\<exists>ms U s'. cpy_chain fs l order s = Some (l @ ms, foldl pgrpinsert order (all_marks s fs ms), s') \<and> cpy_post T R fs ms U s s'"
  using assms
proof (induction fs arbitrary: l order s T)
  case Nil
  then show ?case using cpy_post_nil [OF Nil.prems(1)] by (intro exI [of _ "[]"]) auto
next
  case (Cons f fs)
  obtain g where f: "(f, g) \<in># T" using Cons.prems(2) [of f] by auto
  obtain h where h: "head_at s f = Some h" "h_from h = Some g" using table_head(1) [OF Cons.prems(1) f] by blast
  obtain m ns s1 s2 s3 where s1: "newmhead g s = Some (m, s1)"
    "cpy_mounts m (h_mount h) [] order s1 = Some (ns, foldl pgrpinsert order (marks m 0 (union_at s f)), s2)"
    "set_mounts m ns s2 = Some s3" "cpy_post T R [f] [m] {#(m, g)#} s s3"
    using cpy_head_ok [OF Cons.prems(1) f h, of order] by blast
  have i3: "chinv s3 ({#(m, g)#} + T) R []" using s1(4) unfolding cpy_post_def by blast
  have t: "\<exists>g. (f', g) \<in># T" if "f' \<in> set fs" for f' using Cons.prems(2) [of f'] that by simp
  then have "\<exists>g'. (f', g') \<in># {#(m, g)#} + T" if "f' \<in> set fs" for f' using that by fastforce
  from Cons.IH [OF i3 this, of "l @ [m]" "foldl pgrpinsert order (marks m 0 (union_at s f))"] obtain ms U s' where
    s': "cpy_chain fs (l @ [m]) (foldl pgrpinsert order (marks m 0 (union_at s f))) s3 =
      Some ((l @ [m]) @ ms, foldl pgrpinsert (foldl pgrpinsert order (marks m 0 (union_at s f))) (all_marks s3 fs ms), s')"
    "cpy_post ({#(m, g)#} + T) R fs ms U s3 s'" by blast
  note a = cpy_post_append [OF Cons.prems(1) s1(4) s'(2) t]
  have "cpy_chain (f # fs) l order s = Some (l @ m # ms, foldl pgrpinsert order (all_marks s (f # fs) (m # ms)), s')"
    using s1(1-3) s'(1) h a(2) by simp
  then show ?case using a(1) by auto
qed

lemma cpy_table_ok:
  assumes "chinv s T R []" "\<And>f. f \<in> set (concat cs) \<Longrightarrow> \<exists>g. (f, g) \<in># T" "length cs = length ts" "concat ts = []"
  shows "\<exists>tab U s'. cpy_table cs ts order s = Some (tab, foldl pgrpinsert order (all_marks s (concat cs) (concat tab)), s') \<and>
    map length tab = map length cs \<and> cpy_post T R (concat cs) (concat tab) U s s'"
  using assms(3,1,2,4)
proof (induction cs ts arbitrary: order s T rule: list_induct2)
  case Nil
  then show ?case using cpy_post_nil [of s T R] by auto
next
  case (Cons fs cs t ts)
  obtain ms U s1 where s1: "cpy_chain fs [] order s = Some (ms, foldl pgrpinsert order (all_marks s fs ms), s1)" "cpy_post T R fs ms U s s1"
    using cpy_chain_ok [OF Cons.prems(1), of fs "[]" order] Cons.prems(2) by auto
  have l: "length ms = length fs" using s1(2) by (auto simp: cpy_post_def dest: list_all2_lengthD)
  have i1: "chinv s1 (U + T) R []" using s1(2) by (simp add: cpy_post_def)
  have t: "\<exists>g. (f', g) \<in># T" if "f' \<in> set (concat cs)" for f' using Cons.prems(2) [of f'] that by simp
  then have "\<exists>g'. (f', g') \<in># U + T" if "f' \<in> set (concat cs)" for f' using that by fastforce
  from Cons.IH [OF i1 this, of "foldl pgrpinsert order (all_marks s fs ms)"] Cons.prems(3) obtain tab V s' where
    s': "cpy_table cs ts (foldl pgrpinsert order (all_marks s fs ms)) s1 =
      Some (tab, foldl pgrpinsert (foldl pgrpinsert order (all_marks s fs ms)) (all_marks s1 (concat cs) (concat tab)), s')"
    "map length tab = map length cs" "cpy_post (U + T) R (concat cs) (concat tab) V s1 s'" by auto
  note a = cpy_post_append [OF Cons.prems(1) s1(2) s'(3) t]
  have "(if fs = [] then t else ms) = ms" using l Cons.prems(3) by auto
  then have "cpy_table (fs # cs) (t # ts) order s =
      Some (ms # tab, foldl pgrpinsert order (all_marks s (concat (fs # cs)) (concat (ms # tab))), s')"
    using s1(1) s'(1) l a(2) by simp
  then show ?case using a(1) s'(2) l by auto
qed

subsection \<open>Allocating the ids\<close>

definition id_at :: "store \<Rightarrow> nat \<Rightarrow> nat \<Rightarrow> int" where
  "id_at s m k = m_id (union_at s m ! k)"

text \<open>Only ids change, and those of the list only.\<close>

definition relabels :: "(nat \<times> nat) set \<Rightarrow> store \<Rightarrow> store \<Rightarrow> bool" where
  "relabels A s s' \<longleftrightarrow> (\<forall>m h. head_at s m = Some h \<longrightarrow> (\<exists>h'. head_at s' m = Some h' \<and> h_from h' = h_from h \<and>
     list_all2 copied (h_mount h) (h_mount h'))) \<and> (\<forall>j. j \<notin> fst ` A \<longrightarrow> get s' j = get s j) \<and>
     (\<forall>m k. (m, k) \<notin> A \<longrightarrow> id_at s' m k = id_at s m k)"

lemma relabels_refl: "relabels A s s"
  by (auto simp: relabels_def copied_refl)

lemma relabels_trans: "relabels A s t \<Longrightarrow> relabels B t u \<Longrightarrow> relabels (A \<union> B) s u"
proof -
  assume a: "relabels A s t" "relabels B t u"
  have "\<exists>h'. head_at u m = Some h' \<and> h_from h' = h_from h \<and> list_all2 copied (h_mount h) (h_mount h')" if "head_at s m = Some h" for m h
  proof -
    obtain h1 where h1: "head_at t m = Some h1" "h_from h1 = h_from h" "list_all2 copied (h_mount h) (h_mount h1)"
      using a(1) \<open>head_at s m = Some h\<close> unfolding relabels_def by blast
    then obtain h2 where "head_at u m = Some h2" "h_from h2 = h_from h1" "list_all2 copied (h_mount h1) (h_mount h2)"
      using a(2) unfolding relabels_def by blast
    then show ?thesis using h1 copied_trans by metis
  qed
  then show "relabels (A \<union> B) s u" using a unfolding relabels_def by (simp add: image_Un)
qed

lemma relabels_length: "relabels A s t \<Longrightarrow> head_at s m = Some h \<Longrightarrow> length (union_at t m) = length (union_at s m)"
  unfolding relabels_def union_at_def by (fastforce dest: list_all2_lengthD)

lemma relabel_ok:
  assumes "chinv s T R []" "head_at s m = Some h" "m \<in># image_mset fst T" "k < length (h_mount h)"
  shows "\<exists>s'. set_mounts m ((h_mount h)[k := (h_mount h ! k)\<lparr>m_id := i\<rparr>]) s = Some s' \<and> chinv s' T R [] \<and>
    relabels {(m, k)} s s' \<and> id_at s' m k = i \<and> s_mountid s' = s_mountid s"
proof -
  let ?ms = "(h_mount h)[k := (h_mount h ! k)\<lparr>m_id := i\<rparr>]"
  have c: "list_all2 copied (h_mount h) ?ms"
    using assms(4) by (auto simp: list_all2_conv_all_nth nth_list_update copied_def)
  from set_mounts_ok [OF assms(1,2), of ?ms R] copied_refs [OF c] assms(3) obtain s' where s':
    "set_mounts m ?ms s = Some s'" "chinv s' T R []" "head_at s' m = Some (h\<lparr>h_mount := ?ms\<rparr>)" "\<forall>j. j \<noteq> m \<longrightarrow> get s' j = get s j"
    by auto
  have o: "head_at s' j = head_at s j" if "j \<noteq> m" for j using s'(4) that by (simp add: head_at_def)
  have "\<exists>h'. head_at s' j = Some h' \<and> h_from h' = h_from l \<and> list_all2 copied (h_mount l) (h_mount h')" if "head_at s j = Some l" for j l
    using that o [of j] s'(3) assms(2) c copied_refl by (cases "j = m") auto
  moreover have "id_at s' j l = id_at s j l" if "(j, l) \<noteq> (m, k)" for j l
    using that o [of j] s'(3) assms(2) by (cases "j = m") (auto simp: id_at_def union_at_def)
  ultimately have "relabels {(m, k)} s s'" using s'(4) by (simp add: relabels_def)
  moreover have "id_at s' m k = i" using s'(3) assms(4) by (simp add: id_at_def union_at_def)
  moreover have "s_mountid s' = s_mountid s" using s'(1) assms(2) by (auto simp: set_mounts_def put_def)
  ultimately show ?thesis using s'(1,2) by blast
qed

lemma chinv_mountid: "chinv (s\<lparr>s_mountid := d\<rparr>) T R P = chinv s T R P"
  by (simp add: chinv_def refs_def live_def owned_def free_ok_def dead_chan_def objs_ok_def names_ok_def get_def)

lemma get_mountid [simp]: "get (s\<lparr>s_mountid := d\<rparr>) j = get s j" "head_at (s\<lparr>s_mountid := d\<rparr>) j = head_at s j"
  by (simp_all add: head_at_def get_def)

lemma id_at_mountid [simp]: "id_at (s\<lparr>s_mountid := d\<rparr>) m k = id_at s m k"
  by (simp add: id_at_def union_at_def)

lemma relabels_mountid: "relabels A s (s'\<lparr>s_mountid := d\<rparr>) = relabels A s s'"
  by (simp add: relabels_def)

lemma assign_ids_ok:
  assumes "chinv s T R []" "distinct (map snd order)" "\<And>i m k. (i, m, k) \<in> set order \<Longrightarrow> m \<in># image_mset fst T \<and> k < length (union_at s m)"
  shows "\<exists>s'. assign_ids order s = Some s' \<and> chinv s' T R [] \<and> relabels (set (map snd order)) s s' \<and>
    (\<forall>j<length order. id_at s' (fst (snd (order ! j))) (snd (snd (order ! j))) = s_mountid s + int j)"
  using assms
proof (induction order arbitrary: s)
  case Nil
  then show ?case by (simp add: relabels_refl)
next
  case (Cons e order)
  obtain i m k where e: "e = (i, m, k)" by (cases e) auto
  have mk: "m \<in># image_mset fst T" "k < length (union_at s m)" using Cons.prems(3) [of i m k] e by auto
  then obtain g where "(m, g) \<in># T" by auto
  then obtain h where h: "head_at s m = Some h" using table_head(1) [OF Cons.prems(1)] by blast
  have k: "k < length (h_mount h)" using mk(2) h by (simp add: union_at_def)
  from relabel_ok [OF Cons.prems(1) h mk(1) k, of "s_mountid s"] obtain s1 where
    s1: "set_mounts m ((h_mount h)[k := (h_mount h ! k)\<lparr>m_id := s_mountid s\<rparr>]) s = Some s1" "chinv s1 T R []"
    "relabels {(m, k)} s s1" "id_at s1 m k = s_mountid s" "s_mountid s1 = s_mountid s" by blast
  let ?s = "s1\<lparr>s_mountid := s_mountid s + 1\<rparr>"
  have r1: "relabels {(m, k)} s ?s" using s1(3) by (simp add: relabels_mountid)
  have "m' \<in># image_mset fst T \<and> k' < length (union_at ?s m')" if "(i', m', k') \<in> set order" for i' m' k'
  proof -
    have a: "m' \<in># image_mset fst T" "k' < length (union_at s m')" using Cons.prems(3) [of i' m' k'] that by auto
    then obtain g' where "(m', g') \<in># T" by auto
    then obtain h' where "head_at s m' = Some h'" using table_head(1) [OF Cons.prems(1)] by blast
    then show ?thesis using a relabels_length [OF r1] by simp
  qed
  moreover have "chinv ?s T R []" using s1(2) by (simp add: chinv_mountid)
  moreover have "distinct (map snd order)" using Cons.prems(2) by simp
  ultimately obtain s' where s': "assign_ids order ?s = Some s'" "chinv s' T R []" "relabels (set (map snd order)) ?s s'"
    "\<forall>j<length order. id_at s' (fst (snd (order ! j))) (snd (snd (order ! j))) = s_mountid ?s + int j"
    using Cons.IH [of ?s] by blast
  have "assign_ids (e # order) s = Some s'" using e h s1(1,5) s'(1) by (simp add: mounts_of_def)
  moreover have "relabels (set (map snd (e # order))) s s'" using relabels_trans [OF r1 s'(3)] e by simp
  moreover have "id_at s' m k = s_mountid s"
  proof -
    have "(m, k) \<notin> set (map snd order)" using Cons.prems(2) e by auto
    then have "id_at s' m k = id_at ?s m k" using s'(3) by (simp add: relabels_def)
    also have "\<dots> = s_mountid s" using s1(4) by simp
    finally show ?thesis .
  qed
  then have "\<forall>j<length (e # order). id_at s' (fst (snd ((e # order) ! j))) (snd (snd ((e # order) ! j))) = s_mountid s + int j"
    using s'(4) e by (auto simp: less_Suc_eq_0_disj)
  ultimately show ?case using s'(2) by blast
qed

subsection \<open>The copy of a group\<close>

lemma in_all_marks:
  "length fs = length ms \<Longrightarrow> (i, m, k) \<in> set (all_marks s fs ms) \<longleftrightarrow>
     (\<exists>f. (f, m) \<in> set (zip fs ms) \<and> k < length (union_at s f) \<and> i = id_at s f k)"
  by (induction fs ms rule: list_induct2) (auto simp: in_marks id_at_def)

lemma distinct_all_marks: "length fs = length ms \<Longrightarrow> distinct ms \<Longrightarrow> distinct (map snd (all_marks s fs ms))"
proof (induction fs ms rule: list_induct2)
  case (Cons f fs m ms)
  have "set (map snd (marks m 0 (union_at s f))) \<inter> set (map snd (all_marks s fs ms)) = {}"
    using Cons.prems by (auto simp: in_marks in_all_marks [OF Cons.hyps] dest: set_zip_rightD)
  then show ?case using Cons distinct_marks by simp
qed simp

text \<open>The copy has a head for each head, with copies of its mounts, and their ids are in the order of the originals.\<close>

definition ids_kept :: "nat list \<Rightarrow> store \<Rightarrow> nat list \<Rightarrow> store \<Rightarrow> bool" where
  "ids_kept fs s ms s' \<longleftrightarrow> (\<forall>i<length ms. \<forall>j<length ms. \<forall>k<length (union_at s (fs ! i)). \<forall>l<length (union_at s (fs ! j)).
     id_at s (fs ! i) k < id_at s (fs ! j) l \<longrightarrow> id_at s' (ms ! i) k < id_at s' (ms ! j) l)"

definition grp_copy :: "pgrp \<Rightarrow> store \<Rightarrow> pgrp \<Rightarrow> store \<Rightarrow> bool" where
  "grp_copy from s to s' \<longleftrightarrow> map length (g_mnthash to) = map length (g_mnthash from) \<and>
     list_all2 (head_copy s s') (concat (g_mnthash from)) (concat (g_mnthash to)) \<and>
     ids_kept (concat (g_mnthash from)) s (concat (g_mnthash to)) s'"

lemma ids_kept_cong: "ids_kept fs s ms t \<Longrightarrow> (\<And>m k. m \<in> set ms \<Longrightarrow> id_at u m k = id_at t m k) \<Longrightarrow> ids_kept fs s ms u"
  by (simp add: ids_kept_def)

definition pgrp_refs :: "pgrp \<Rightarrow> ptr multiset" where
  "pgrp_refs p = optr PC (g_slash p) + optr PC (g_dot p)"

lemma zip_list_all2: "list_all2 P xs ys \<Longrightarrow> (x, y) \<in> set (zip xs ys) \<Longrightarrow> P x y"
  by (auto simp: list_all2_iff)

lemma head_copy_length: "head_copy s s' f m \<Longrightarrow> length (union_at s' m) = length (union_at s f)"
  by (auto simp: head_copy_def union_at_def dest: list_all2_lengthD)

lemma head_copy_relabels: "head_copy s t f m \<Longrightarrow> relabels A t u \<Longrightarrow> head_copy s u f m"
  unfolding head_copy_def relabels_def by (metis copied_trans)

text \<open>The table copied and its ids assigned.\<close>

lemma cpy_assign_ok:
  assumes "chinv s T R []" "tab_ok from s T" "length ts = 32" "concat ts = []"
  shows "\<exists>tab order U s1 s2. cpy_table (g_mnthash from) ts [] s = Some (tab, order, s1) \<and> assign_ids order s1 = Some s2 \<and>
    map length tab = map length (g_mnthash from) \<and> cpy_post T R (concat (g_mnthash from)) (concat tab) U s s2 \<and>
    grp_copy from s (to\<lparr>g_mnthash := tab\<rparr>) s2"
proof -
  let ?fs = "concat (g_mnthash from)"
  have ln: "length (g_mnthash from) = length ts" using assms(2,3) by (simp add: tab_ok_def)
  have "\<exists>g. (f, g) \<in># T" if "f \<in> set ?fs" for f
  proof -
    have "f \<in># image_mset fst T" using assms(2) that unfolding tab_ok_def by (metis mset_subset_eqD set_mset_mset)
    then show ?thesis by auto
  qed
  from cpy_table_ok [OF assms(1) this ln assms(4), of "[]"] obtain tab U s1 where
    s1: "cpy_table (g_mnthash from) ts [] s = Some (tab, foldl pgrpinsert [] (all_marks s ?fs (concat tab)), s1)"
    "map length tab = map length (g_mnthash from)" "cpy_post T R ?fs (concat tab) U s s1" by blast
  let ?ms = "concat tab"
  define order where "order = foldl pgrpinsert [] (all_marks s ?fs ?ms)"
  have l: "length ?fs = length ?ms" using s1(3) by (auto simp: cpy_post_def dest: list_all2_lengthD)
  have hc: "list_all2 (head_copy s s1) ?fs ?ms" using s1(3) by (simp add: cpy_post_def)
  note s1 = s1 [folded order_def]
  have mo: "mset order = mset (all_marks s ?fs ?ms)" by (simp add: order_def mset_inserts)
  then have so: "set order = set (all_marks s ?fs ?ms)" by (metis set_mset_mset)
  have "distinct (map snd (all_marks s ?fs ?ms))" using distinct_all_marks [OF l] s1(3) by (simp add: cpy_post_def)
  moreover have "mset (map snd order) = mset (map snd (all_marks s ?fs ?ms))" using mo by simp
  ultimately have do: "distinct (map snd order)" by (metis mset_eq_imp_distinct_iff)
  have ms: "m \<in># image_mset fst U" if "m \<in> set ?ms" for m using s1(3) that unfolding cpy_post_def by (metis set_mset_mset)
  have lo: "m \<in># image_mset fst (U + T) \<and> k < length (union_at s1 m)" if e: "(i, m, k) \<in> set order" for i m k
  proof -
    obtain f where f: "(f, m) \<in> set (zip ?fs ?ms)" "k < length (union_at s f)" using e unfolding so in_all_marks [OF l] by blast
    then show ?thesis using ms [of m] head_copy_length [OF zip_list_all2 [OF hc f(1)]] by (auto dest: set_zip_rightD)
  qed
  have i1: "chinv s1 (U + T) R []" using s1(3) by (simp add: cpy_post_def)
  from assign_ids_ok [OF i1 do] lo obtain s2 where s2: "assign_ids order s1 = Some s2" "chinv s2 (U + T) R []"
    "relabels (set (map snd order)) s1 s2"
    "\<forall>j<length order. id_at s2 (fst (snd (order ! j))) (snd (snd (order ! j))) = s_mountid s1 + int j" by blast
  have "m \<in> set ?ms" if e: "(i, m, k) \<in> set order" for i m k
    using e unfolding so in_all_marks [OF l] by (blast dest: set_zip_rightD)
  then have sub: "fst ` set (map snd order) \<subseteq> set ?ms" by fastforce
  have "get s2 h = get s1 h" if "(h, f) \<in># T" for h f
  proof -
    have "h \<notin> set ?ms" using s1(3) that by (force simp: cpy_post_def)
    then show ?thesis using s2(3) sub unfolding relabels_def by blast
  qed
  then have "keeps T s1 s2" unfolding keeps_def using mhead_self by metis
  moreover have hc2: "list_all2 (head_copy s s2) ?fs ?ms"
    using hc by (rule list.rel_mono_strong) (rule head_copy_relabels [OF _ s2(3)])
  ultimately have p: "cpy_post T R ?fs ?ms U s s2" using s1(3) s2(2) by (auto simp: cpy_post_def intro: keeps_trans)
  have sorted: "sorted (map fst order)" unfolding order_def by (rule sorted_inserts) simp
  have pos: "\<exists>j<length order. order ! j = (id_at s (?fs ! i) k, ?ms ! i, k)" if a: "i < length ?ms" "k < length (union_at s (?fs ! i))" for i k
  proof -
    have "(?fs ! i, ?ms ! i) \<in> set (zip ?fs ?ms)" using a(1) l by (auto simp: in_set_zip)
    then have "(id_at s (?fs ! i) k, ?ms ! i, k) \<in> set order" using a(2) unfolding so in_all_marks [OF l] by blast
    then show ?thesis by (meson in_set_conv_nth)
  qed
  have "ids_kept ?fs s ?ms s2" unfolding ids_kept_def
  proof (intro allI impI)
    fix i i' k k' assume a: "i < length ?ms" "i' < length ?ms" "k < length (union_at s (?fs ! i))" "k' < length (union_at s (?fs ! i'))"
      "id_at s (?fs ! i) k < id_at s (?fs ! i') k'"
    obtain j where j: "j < length order" "order ! j = (id_at s (?fs ! i) k, ?ms ! i, k)" using pos [OF a(1,3)] by blast
    obtain j' where j': "j' < length order" "order ! j' = (id_at s (?fs ! i') k', ?ms ! i', k')" using pos [OF a(2,4)] by blast
    have "\<not> j' \<le> j"
    proof
      assume "j' \<le> j"
      then have "map fst order ! j' \<le> map fst order ! j" using sorted j(1) by (intro sorted_nth_mono) simp_all
      then show False using j j' a(5) \<open>j' \<le> j\<close> by simp
    qed
    moreover have "id_at s2 (?ms ! i) k = s_mountid s1 + int j" using s2(4) j by fastforce
    moreover have "id_at s2 (?ms ! i') k' = s_mountid s1 + int j'" using s2(4) j' by fastforce
    ultimately show "id_at s2 (?ms ! i) k < id_at s2 (?ms ! i') k'" by simp
  qed
  then have "grp_copy from s (to\<lparr>g_mnthash := tab\<rparr>) s2" using hc2 s1(2) by (simp add: grp_copy_def)
  then show ?thesis using s1(1,2) s2(1) p by blast
qed

text \<open>A table copied is well formed, for the parent and for the copy.\<close>

lemma cpy_tab_ok:
  assumes "chinv s T R []" "tab_ok from s T" "cpy_post T R' (concat (g_mnthash from)) (concat tab) U s s'"
    "length tab = 32" "g_mnthash to = tab"
  shows "tab_ok from s' (U + T)" "tab_ok to s' (U + T)"
proof -
  let ?ms = "concat tab"
  have c: "mset ?ms = image_mset fst U" "distinct ?ms" "\<forall>m\<in>set ?ms. m \<notin># image_mset fst T" "keeps T s s'"
    "list_all2 (head_copy s s') (concat (g_mnthash from)) ?ms"
    using assms(3) by (simp_all add: cpy_post_def)
  have one: "count (image_mset fst (U + T)) h \<le> 1" for h
  proof (cases "h \<in> set ?ms")
    case True
    then have "h \<notin># image_mset fst T" using c(3) by blast
    then have "count (image_mset fst T) h = 0" by (simp only: not_in_iff)
    moreover have "count (mset ?ms) h \<le> 1" using c(2) by (simp add: distinct_count_atmost_1)
    ultimately show ?thesis using c(1) by simp
  next
    case False
    then have "count (image_mset fst U) h = 0" unfolding c(1) [symmetric] by simp
    moreover have "count (image_mset fst T) h \<le> 1" using assms(2) by (simp only: tab_ok_def)
    ultimately show ?thesis by simp
  qed
  have ne: "h_mount m \<noteq> []" if a: "(h, f) \<in># U + T" "get s' h = OHead m" for h f m
  proof (cases "(h, f) \<in># T")
    case True
    obtain k where k: "head_at s h = Some k" using table_head(1) [OF assms(1) True] by blast
    have "h_mount k \<noteq> []" using assms(2) True head_atD [OF k] by (auto simp: tab_ok_def)
    then show ?thesis using keeps_head [OF c(4) True k] a(2) by (auto simp: head_at_def)
  next
    case False
    then have "h \<in># image_mset fst U" using a(1) by force
    then have "h \<in> set ?ms" unfolding c(1) [symmetric] by simp
    then obtain j where j: "j < length ?ms" "?ms ! j = h" by (meson in_set_conv_nth)
    let ?f = "concat (g_mnthash from) ! j"
    have lj: "j < length (concat (g_mnthash from))" using j(1) list_all2_lengthD [OF c(5)] by simp
    have hc: "head_copy s s' ?f h" using list_all2_nthD2 [OF c(5) j(1)] j(2) by simp
    have "?f \<in> set (concat (g_mnthash from))" using lj by (rule nth_mem)
    then have "?f \<in># image_mset fst T" using assms(2) unfolding tab_ok_def by (metis mset_subset_eqD set_mset_mset)
    then obtain g where g: "(?f, g) \<in># T" by auto
    obtain k where k: "head_at s ?f = Some k" "head_at s' h = Some m" "list_all2 copied (h_mount k) (h_mount m)"
      using hc a(2) by (auto simp: head_copy_def head_at_def split: obj.splits)
    have "h_mount k \<noteq> []" using assms(2) g head_atD [OF k(1)] by (auto simp: tab_ok_def)
    then show ?thesis using k(3) by auto
  qed
  have "mset (concat (g_mnthash from)) \<subseteq># image_mset fst (U + T)" using assms(2) by (simp add: tab_ok_def subset_mset.add_increasing)
  then show "tab_ok from s' (U + T)" using assms(2) one ne unfolding tab_ok_def by blast
  have "mset (concat (g_mnthash to)) \<subseteq># image_mset fst (U + T)" using c(1) assms(5) by simp
  then show "tab_ok to s' (U + T)" using assms(4,5) one ne unfolding tab_ok_def by blast
qed

lemma keeps_ids: "keeps T s t \<Longrightarrow> chinv s T R P \<Longrightarrow> m \<in># image_mset fst T \<Longrightarrow> id_at t m k = id_at s m k"
proof -
  assume a: "keeps T s t" "chinv s T R P" "m \<in># image_mset fst T"
  then obtain g where g: "(m, g) \<in># T" by auto
  obtain h where "head_at s m = Some h" using table_head(1) [OF a(2) g] by blast
  then show ?thesis using keeps_union [OF a(1) g] by (simp add: id_at_def)
qed

text \<open>What happens later to the store does not touch the copy.\<close>

lemma copy_kept:
  assumes "cpy_post T R (concat (g_mnthash from)) (concat (g_mnthash to)) U s t" "grp_copy from s to t" "post (U + T) R' t u"
  shows "cpy_post T R' (concat (g_mnthash from)) (concat (g_mnthash to)) U s u" "grp_copy from s to u"
proof -
  let ?fs = "concat (g_mnthash from)" let ?ms = "concat (g_mnthash to)"
  have c: "mset ?ms = image_mset fst U" "keeps T s t" "list_all2 (head_copy s t) ?fs ?ms" "chinv t (U + T) R []"
    using assms(1) by (simp_all add: cpy_post_def)
  have k: "keeps (U + T) t u" "chinv u (U + T) R' []" using assms(3) by (simp_all add: post_def)
  have ms: "m \<in># image_mset fst (U + T)" if "m \<in> set ?ms" for m
  proof -
    have "m \<in># mset ?ms" using that by simp
    then show ?thesis unfolding c(1) by simp
  qed
  have hc: "list_all2 (head_copy s u) ?fs ?ms"
  proof (rule list.rel_mono_strong [OF c(3)])
    fix f m assume fm: "m \<in> set ?ms" "head_copy s t f m"
    obtain g where "(m, g) \<in># U + T" using tab_elem [OF ms [OF fm(1)]] by blast
    then show "head_copy s u f m" using head_copy_forth [OF fm(2) k(1)] by blast
  qed
  have "keeps T t u" using k(1) keeps_sub [of T U t u] by (simp add: add.commute)
  then show "cpy_post T R' ?fs ?ms U s u" using assms(1) hc k(2) c(2) by (auto simp: cpy_post_def intro: keeps_trans)
  have "id_at u m k' = id_at t m k'" if "m \<in> set ?ms" for m k' using keeps_ids [OF k(1) c(4) ms [OF that]] .
  then show "grp_copy from s to u" using assms(2) hc ids_kept_cong unfolding grp_copy_def by blast
qed

context device
begin

lemma cclone_same:
  assumes "chinv s T R []" "PC c \<in># R"
  shows "\<exists>r s'. cclone D c s = Some (r, s') \<and> post T (optr PC r + R) s s' \<and>
    (\<forall>p. r = Some p \<longrightarrow> adds p s s' \<and> (\<exists>ch k. chan_at s c = Some ch \<and> chan_at s' p = Some k \<and> same_file k ch))"
proof -
  have l: "live s (PC c)" using assms by (rule chinv_held)
  obtain ch where ch: "chan_at s c = Some ch" using chan_live [OF l] by blast
  from runs2D [OF cclone_ok [OF assms(1) ch l]] obtain r s' where r: "cclone D c s = Some (r, s')" "post T (optr PC r + R) s s'"
    "\<forall>p. r = Some p \<longrightarrow> adds p s s' \<and> (\<exists>wq w k. D ch [] = Some wq \<and> w_clone wq = Some w \<and> chan_at s' p = Some k \<and> same_file k w)"
    by blast
  have "\<exists>k. chan_at s' p = Some k \<and> same_file k ch" if "r = Some p" for p
    using r(3) that clone_self [of ch] by (fastforce simp: same_file_def)
  then show ?thesis using r ch by blast
qed

end

text \<open>\<open>pgrpcpy\<close> into a new group.\<close>

definition cpy_result :: "mtab \<Rightarrow> ptr multiset \<Rightarrow> pgrp \<Rightarrow> pgrp \<Rightarrow> store \<Rightarrow> nserr + unit \<Rightarrow> pgrp \<Rightarrow> store \<Rightarrow> bool" where
  "cpy_result T R from to s r to' s' \<longleftrightarrow> (\<exists>U. chinv s' (U + T) (pgrp_refs to' + R) [] \<and> keeps T s s' \<and>
     tab_ok from s' (U + T) \<and> tab_ok to' s' (U + T) \<and> mset (concat (g_mnthash to')) = image_mset fst U \<and>
     distinct (concat (g_mnthash to')) \<and> (\<forall>m\<in>set (concat (g_mnthash to')). m \<notin># image_mset fst T)) \<and>
     grp_copy from s to' s' \<and> g_ref to' = g_ref to \<and> g_progmode to' = g_progmode from \<and>
     (case r of Inl e \<Rightarrow> e = Eclone | Inr _ \<Rightarrow> g_nodevs to' = g_nodevs from \<and> g_slash to' \<noteq> None \<and> g_dot to' \<noteq> None)"

lemma cpy_resultI:
  assumes "chinv s T R0 []" "tab_ok from s T" "cpy_post T R' (concat (g_mnthash from)) (concat (g_mnthash to')) U s t"
    "grp_copy from s to' t" "post (U + T) (pgrp_refs to' + R) t s'" "length (g_mnthash to') = 32"
    "g_ref to' = g_ref to" "g_progmode to' = g_progmode from"
    "case r of Inl e \<Rightarrow> e = Eclone | Inr _ \<Rightarrow> g_nodevs to' = g_nodevs from \<and> g_slash to' \<noteq> None \<and> g_dot to' \<noteq> None"
  shows "cpy_result T R from to s r to' s'"
proof -
  note k = copy_kept [OF assms(3-5)]
  note t = cpy_tab_ok [OF assms(1,2) k(1) assms(6) refl]
  have "chinv s' (U + T) (pgrp_refs to' + R) []" using assms(5) by (rule postD)
  then show ?thesis unfolding cpy_result_def using k t assms(7-9) by (auto simp: cpy_post_def)
qed

context device
begin

lemma pgrpcpy_ok:
  assumes "chinv s T R []" "tab_ok from s T" "g_slash from = Some sl" "g_dot from = Some dt" "PC sl \<in># R" "PC dt \<in># R"
    "length (g_mnthash to) = 32" "concat (g_mnthash to) = []" "g_slash to = None" "g_dot to = None"
  shows "\<exists>r to' s'. pgrpcpy D to from s = Some (r, to', s') \<and> cpy_result T R from to s r to' s'"
proof -
  obtain tab order U s1 s2 where s2: "cpy_table (g_mnthash from) (g_mnthash to) [] s = Some (tab, order, s1)"
    "assign_ids order s1 = Some s2" "map length tab = map length (g_mnthash from)"
    "cpy_post T R (concat (g_mnthash from)) (concat tab) U s s2" "\<And>g. g_mnthash g = tab \<Longrightarrow> grp_copy from s g s2"
    using cpy_assign_ok [OF assms(1,2,7,8)] by (auto simp: grp_copy_def)
  let ?t1 = "to\<lparr>g_mnthash := tab, g_progmode := g_progmode from\<rparr>"
  have l: "length tab = 32" using s2(3) assms(2) by (metis length_map tab_ok_def)
  have i2: "chinv s2 (U + T) R []" using s2(4) by (simp add: cpy_post_def)
  obtain c s3 where s3: "cclone D sl s2 = Some (c, s3)" "post (U + T) (optr PC c + R) s2 s3"
    using cclone_same [OF i2 assms(5)] by blast
  show ?thesis
  proof (cases c)
    case None
    then have "pgrpcpy D to from s = Some (Inl Eclone, ?t1, s3)" using s2(1,2) s3(1) assms(3) by (simp add: pgrpcpy_def)
    moreover have "cpy_result T R from to s (Inl Eclone) ?t1 s3"
      using s2(4,5) s3(2) None l assms(9,10) by (intro cpy_resultI [OF assms(1,2)]) (simp_all add: pgrp_refs_def)
    ultimately show ?thesis by blast
  next
    case (Some p)
    let ?t2 = "?t1\<lparr>g_slash := Some p\<rparr>"
    have i3: "chinv s3 (U + T) (optr PC c + R) []" "PC dt \<in># optr PC c + R" using postD [OF s3(2)] assms(6) by simp_all
    obtain d s4 where s4: "cclone D dt s3 = Some (d, s4)" "post (U + T) (optr PC d + (optr PC c + R)) s3 s4"
      using cclone_same [OF i3] by blast
    have p4: "post (U + T) (optr PC d + (optr PC c + R)) s2 s4" using s3(2) s4(2) by (rule post_trans)
    show ?thesis
    proof (cases d)
      case None
      then have "pgrpcpy D to from s = Some (Inl Eclone, ?t2, s4)" using s2(1,2) s3(1) s4(1) Some assms(3,4) by (simp add: pgrpcpy_def)
      moreover have "cpy_result T R from to s (Inl Eclone) ?t2 s4"
        using s2(4,5) p4 Some None l assms(10) by (intro cpy_resultI [OF assms(1,2)]) (simp_all add: pgrp_refs_def)
      ultimately show ?thesis by blast
    next
      case q: (Some q)
      let ?t3 = "?t2\<lparr>g_dot := Some q, g_nodevs := g_nodevs from\<rparr>"
      have "pgrpcpy D to from s = Some (Inr (), ?t3, s4)" using s2(1,2) s3(1) s4(1) Some q assms(3,4) by (simp add: pgrpcpy_def)
      moreover have "cpy_result T R from to s (Inr ()) ?t3 s4"
        using s2(4,5) p4 Some q l by (intro cpy_resultI [OF assms(1,2)]) (simp_all add: pgrp_refs_def add_mset_commute)
      ultimately show ?thesis by blast
    qed
  qed
qed

end

subsection \<open>Closing a group\<close>

lemma close_heads_ok:
  assumes "chinv s (U + T) R []" "mset fs = image_mset fst U" "\<And>f. f \<in> set fs \<Longrightarrow> f \<notin># image_mset fst T"
  shows "runs (close_heads fs s) (\<lambda>s'. post T R s s')"
  using assms
proof (induction fs arbitrary: s U)
  case Nil
  then show ?case by (simp add: post_refl)
next
  case (Cons f fs)
  have "f \<in># image_mset fst U" unfolding Cons.prems(2) [symmetric] by simp
  then obtain g where g: "(f, g) \<in># U" by auto
  define V where "V = U - {#(f, g)#}"
  have U: "U = add_mset (f, g) V" using g by (simp add: V_def)
  have nT: "f \<notin># image_mset fst T" using Cons.prems(3) by simp
  have inv: "chinv s (add_mset (f, g) (V + T)) R []" using Cons.prems(1) by (simp add: U)
  have fg: "(f, g) \<in># add_mset (f, g) (V + T)" by simp
  obtain h where h: "head_at s f = Some h" "h_from h = Some g" using table_head(1) [OF inv fg] by blast
  from set_mounts_ok [OF inv h(1), of "[]" "mount_refs (h_mount h) + R"] obtain s1 where s1: "set_mounts f [] s = Some s1"
    "chinv s1 (add_mset (f, g) (V + T)) (mount_refs (h_mount h) + R) []" "head_at s1 f = Some (h\<lparr>h_mount := []\<rparr>)"
    "\<forall>j. j \<noteq> f \<longrightarrow> get s1 j = get s j" by auto
  have k1: "keeps T s s1" using s1(4) nT by (intro keeps_except) auto
  have "chinv s1 (V + T) (optr PC (Some g) + (mount_refs (h_mount h) + add_mset (PH f) R)) []"
    using chinv_leave [OF s1(2,3)] by (simp add: ac_simps)
  from runsD [OF cclose_ok [OF this]] obtain s2 where s2: "cclose (Some g) s1 = Some s2"
    "post (V + T) (mount_refs (h_mount h) + add_mset (PH f) R) s1 s2" by blast
  obtain s3 where s3: "mountfree (h_mount h) s2 = Some s3" "post (V + T) (add_mset (PH f) R) s2 s3"
    using mountfree_ok [OF postD [OF s2(2)]] by blast
  have "chinv s3 (V + T) (optr PH (Some f) + R) []" using postD [OF s3(2)] by simp
  from runsD [OF putmhead_ok [OF this]] obtain s4 where s4: "putmhead (Some f) s3 = Some s4" "post (V + T) R s3 s4" by blast
  have "keeps (V + T) s1 s4" using s2(2) s3(2) s4(2) by (auto simp: post_def intro: keeps_trans)
  then have k4: "keeps T s s4" using k1 keeps_sub [of T V s1 s4] by (auto simp: add.commute intro: keeps_trans)
  have "runs (close_heads fs s4) (\<lambda>s'. post T R s4 s')"
    using Cons.IH [OF postD [OF s4(2)]] Cons.prems(2,3) by (simp add: U)
  then show ?case using h s1(1) s2(1) s3(1) s4(1) k4 by (auto simp: runs_def post_def intro: keeps_trans)
qed

lemma closepgrp_ok:
  assumes "chinv s (U + T) (pgrp_refs p + R) []" "mset (concat (g_mnthash p)) = image_mset fst U"
    "\<And>f. f \<in> set (concat (g_mnthash p)) \<Longrightarrow> f \<notin># image_mset fst T" "g_ref p = 1"
  shows "\<exists>s'. closepgrp p s = Some (None, s') \<and> post T R s s'"
proof -
  obtain s1 where s1: "close_heads (concat (g_mnthash p)) s = Some s1" "post T (pgrp_refs p + R) s s1"
    using runsD [OF close_heads_ok [OF assms(1-3)]] by blast
  have "chinv s1 T (optr PC (g_dot p) + (optr PC (g_slash p) + R)) []"
    using postD [OF s1(2)] by (simp add: pgrp_refs_def ac_simps)
  from runsD [OF cclose_ok [OF this]] obtain s2 where s2: "cclose (g_dot p) s1 = Some s2" "post T (optr PC (g_slash p) + R) s1 s2" by blast
  from runsD [OF cclose_ok [OF postD [OF s2(2)]]] obtain s3 where s3: "cclose (g_slash p) s2 = Some s3" "post T R s2 s3" by blast
  have "closepgrp p s = Some (None, s3)" using assms(4) s1(1) s2(1) s3(1) by (simp add: closepgrp_def)
  then show ?thesis using s1(2) s2(2) s3(2) by (blast intro: post_trans)
qed

end
