(* ===== verification/NsSys.thy ===== *)
theory NsSys
  imports PgrpSpec NsRoot
begin

text \<open>
  Processes with name spaces of their own: any sequence of mounting, unmounting, forking and exiting keeps every
  table well formed and every count exact, and what one group does is not seen by another.
\<close>

subsection \<open>One group\<close>

text \<open>
  C11: \<open>pgrpcpy\<close> into a new group returns, over devices that keep the walk contract.  The copy has a head of its own
  for each head of the parent, from the same directory and with the same channels, flags and specs in the same
  order, and the ids of its mounts are in the order of the parent's; the parent's table is as it was, both are well
  formed and the counts are exact.  Only the clones of the root and the working directory can fail.
\<close>
theorem pgrpcpy_exact:
  assumes "device D" "chinv s T R []" "tab_ok from s T" "g_slash from = Some sl" "g_dot from = Some dt" "PC sl \<in># R" "PC dt \<in># R"
  shows "\<exists>r to s' U. pgrpcpy D (fst (newpgrp ids)) from s = Some (r, to, s') \<and> chinv s' (U + T) (pgrp_refs to + R) [] \<and>
    keeps T s s' \<and> tab_ok from s' (U + T) \<and> tab_ok to s' (U + T) \<and> grp_copy from s to s' \<and>
    g_progmode to = g_progmode from \<and>
    (r = Inl Eclone \<or> r = Inr () \<and> g_slash to \<noteq> None \<and> g_dot to \<noteq> None \<and> g_nodevs to = g_nodevs from)"
proof -
  from device.pgrpcpy_ok [OF assms, of "fst (newpgrp ids)"] obtain r to s' where
    "pgrpcpy D (fst (newpgrp ids)) from s = Some (r, to, s')" "cpy_result T R from (fst (newpgrp ids)) s r to s'"
    by (auto simp: newpgrp_def concat_replicate_trivial)
  then show ?thesis unfolding cpy_result_def by (cases r) auto
qed

lemma pgrpcpy_exact_witness:
  "\<exists>r to s'. pgrpcpy root_dev (fst (newpgrp 1)) home_pgrp home_store = Some (r, to, s') \<and> grp_copy home_pgrp home_store to s'"
  using pgrpcpy_exact [OF root_dev home_inv, of home_pgrp 0 0 1] home_tab by (auto simp: home_pgrp_def)

text \<open>
  C12: a group that copies another and is then closed leaves the parent's table as it was and every count exact
  without it: nothing it took is kept.
\<close>
theorem pgrpcpy_closepgrp:
  assumes "device D" "chinv s T R []" "tab_ok from s T" "g_slash from = Some sl" "g_dot from = Some dt" "PC sl \<in># R" "PC dt \<in># R"
  shows "\<exists>r to s' s''. pgrpcpy D (fst (newpgrp ids)) from s = Some (r, to, s') \<and> closepgrp to s' = Some (None, s'') \<and>
    chinv s'' T R [] \<and> keeps T s s'' \<and> tab_ok from s'' T"
proof -
  from device.pgrpcpy_ok [OF assms, of "fst (newpgrp ids)"] obtain r to s' where
    c: "pgrpcpy D (fst (newpgrp ids)) from s = Some (r, to, s')" "cpy_result T R from (fst (newpgrp ids)) s r to s'"
    by (auto simp: newpgrp_def concat_replicate_trivial)
  then obtain U where u: "chinv s' (U + T) (pgrp_refs to + R) []" "keeps T s s'" "mset (concat (g_mnthash to)) = image_mset fst U"
    "\<And>m. m \<in> set (concat (g_mnthash to)) \<Longrightarrow> m \<notin># image_mset fst T" "g_ref to = 1"
    by (auto simp: cpy_result_def newpgrp_def)
  from closepgrp_ok [OF this(1,3-5)] obtain s'' where s'': "closepgrp to s' = Some (None, s'')" "post T R s' s''" by blast
  have "post T R s s''" using u(2) s''(2) by (auto simp: post_def intro: keeps_trans)
  then show ?thesis using c(1) s''(1) tab_post [OF assms(3) _ assms(2)] by (auto simp: post_def)
qed

lemma pgrpcpy_closepgrp_witness:
  "\<exists>r to s' s''. pgrpcpy root_dev (fst (newpgrp 1)) home_pgrp home_store = Some (r, to, s') \<and> closepgrp to s' = Some (None, s'')"
  using pgrpcpy_closepgrp [OF root_dev home_inv, of home_pgrp 0 0 1] home_tab by (auto simp: home_pgrp_def)

subsection \<open>The system\<close>

text \<open>The groups, \<open>None\<close> for one that is gone, and the store; \<open>R\<close> are the references of the processes.\<close>

datatype nsop =
    NsMount nat nat nat u32 cstring
  | NsUnmount nat nat "nat option"
  | NsFork nat
  | NsShare nat
  | NsExit nat

definition hds :: "pgrp option \<Rightarrow> nat multiset" where
  "hds p = (case p of None \<Rightarrow> {#} | Some p \<Rightarrow> mset (concat (g_mnthash p)))"

definition prefs :: "pgrp option \<Rightarrow> ptr multiset" where
  "prefs p = (case p of None \<Rightarrow> {#} | Some p \<Rightarrow> pgrp_refs p)"

definition ns_heads :: "pgrp option list \<Rightarrow> nat multiset" where
  "ns_heads ps = sum_list (map hds ps)"

definition ns_refs :: "pgrp option list \<Rightarrow> ptr multiset" where
  "ns_refs ps = sum_list (map prefs ps)"

definition group_at :: "pgrp option list \<Rightarrow> nat \<Rightarrow> pgrp option" where
  "group_at ps i = (if i < length ps then ps ! i else None)"

inductive nsstep :: "device \<Rightarrow> ptr multiset \<Rightarrow> pgrp option list \<times> store \<Rightarrow> nsop \<Rightarrow> pgrp option list \<times> store \<Rightarrow> bool"
  for D R where
  mounted: "nsstep D R (ps, s) (NsMount i new old flag spec) (ps[i := Some p'], s')"
    if "group_at ps i = Some p" "PC new \<in># ns_refs ps + R" "PC old \<in># ns_refs ps + R"
      "cmount new old flag spec p s = Some (r, p', s')"
| unmounted: "nsstep D R (ps, s) (NsUnmount i mnt md) (ps[i := Some p'], s')"
    if "group_at ps i = Some p" "PC mnt \<in># ns_refs ps + R" "md = None \<or> md = Some c \<and> PC c \<in># ns_refs ps + R"
      "cunmount mnt md p s = Some (r, p', s')"
| forked: "nsstep D R (ps, s) (NsFork i) (ps @ [Some p'], s')"
    if "group_at ps i = Some p" "pgrpcpy D (fst (newpgrp ids)) p s = Some (Inr (), p', s')"
| failed: "nsstep D R (ps, s) (NsFork i) (ps, s'')"
    if "group_at ps i = Some p" "pgrpcpy D (fst (newpgrp ids)) p s = Some (Inl e, p', s')" "closepgrp p' s' = Some (None, s'')"
| shared: "nsstep D R (ps, s) (NsShare i) (ps[i := Some (p\<lparr>g_ref := g_ref p + 1\<rparr>)], s)"
    if "group_at ps i = Some p"
| exited: "nsstep D R (ps, s) (NsExit i) (ps[i := p'], s')"
    if "group_at ps i = Some p" "closepgrp p s = Some (p', s')"

inductive nsrun :: "device \<Rightarrow> ptr multiset \<Rightarrow> pgrp option list \<times> store \<Rightarrow> nsop list \<Rightarrow> pgrp option list \<times> store \<Rightarrow> bool"
  for D R where
  nil: "nsrun D R x [] x"
| snoc: "nsrun D R x (as @ [a]) z" if "nsrun D R x as y" "nsstep D R y a z"

subsection \<open>The invariant\<close>

definition good :: "store \<Rightarrow> mtab \<Rightarrow> bool" where
  "good s T \<longleftrightarrow> (\<forall>h. count (image_mset fst T) h \<le> 1) \<and> (\<forall>h f m. (h, f) \<in># T \<longrightarrow> get s h = OHead m \<longrightarrow> h_mount m \<noteq> [])"

definition group_ok :: "pgrp \<Rightarrow> bool" where
  "group_ok p \<longleftrightarrow> length (g_mnthash p) = 32 \<and> g_ref p > 0 \<and> g_slash p \<noteq> None \<and> g_dot p \<noteq> None"

definition ns_inv :: "mtab \<Rightarrow> ptr multiset \<Rightarrow> pgrp option list \<times> store \<Rightarrow> bool" where
  "ns_inv T R x \<longleftrightarrow> chinv (snd x) T (ns_refs (fst x) + R) [] \<and> good (snd x) T \<and> ns_heads (fst x) = image_mset fst T \<and>
     (\<forall>p. Some p \<in> set (fst x) \<longrightarrow> group_ok p)"

lemma tab_ok_good: "tab_ok p s T \<longleftrightarrow> length (g_mnthash p) = 32 \<and> hds (Some p) \<subseteq># image_mset fst T \<and> good s T"
  by (auto simp: tab_ok_def good_def hds_def)

lemma group_in: "group_at ps i = Some p \<Longrightarrow> i < length ps \<and> ps ! i = Some p \<and> Some p \<in> set ps"
  by (auto simp: group_at_def split: if_splits) (metis nth_mem)

lemma ns_split:
  assumes "group_at ps i = Some p"
  shows "ns_heads ps = hds (Some p) + ns_heads (ps[i := None])" "ns_heads (ps[i := q]) = hds q + ns_heads (ps[i := None])"
    "ns_refs ps = pgrp_refs p + ns_refs (ps[i := None])" "ns_refs (ps[i := q]) = prefs q + ns_refs (ps[i := None])"
proof -
  have i: "i < length ps" "ps ! i = Some p" using group_in [OF assms] by simp_all
  have upd: "sum_list (map f ps) = f (Some p) + sum_list (map f (ps[i := None]))"
    "sum_list (map f (ps[i := q])) = f q + sum_list (map f (ps[i := None]))" if n: "f None = {#}" for f :: "pgrp option \<Rightarrow> 'a multiset" and q
  proof -
    have e: "sum_list (map f (ps[i := x])) + f (Some p) = sum_list (map f ps) + f x" for x
      using sum_list_update_add [OF i(1), of f x] i(2) by (simp add: ac_simps)
    show s: "sum_list (map f ps) = f (Some p) + sum_list (map f (ps[i := None]))" using e [of None] n by (simp add: ac_simps)
    have "sum_list (map f (ps[i := q])) + f (Some p) = (f q + sum_list (map f (ps[i := None]))) + f (Some p)"
      using e [of q] unfolding s by (simp add: ac_simps)
    then show "sum_list (map f (ps[i := q])) = f q + sum_list (map f (ps[i := None]))" by simp
  qed
  have n: "hds None = {#}" "prefs None = {#}" by (simp_all add: hds_def prefs_def)
  have p: "prefs (Some p) = pgrp_refs p" by (simp add: prefs_def)
  show "ns_heads ps = hds (Some p) + ns_heads (ps[i := None])" "ns_heads (ps[i := q]) = hds q + ns_heads (ps[i := None])"
    unfolding ns_heads_def by (rule upd [of hds, OF n(1)])+
  show "ns_refs ps = pgrp_refs p + ns_refs (ps[i := None])" "ns_refs (ps[i := q]) = prefs q + ns_refs (ps[i := None])"
    unfolding ns_refs_def p [symmetric] by (rule upd [of prefs, OF n(2)])+
qed

lemma hds_sub: "q \<in> set ps \<Longrightarrow> hds q \<subseteq># ns_heads ps"
  unfolding ns_heads_def by (induction ps) (auto intro: subset_mset.add_increasing subset_mset.add_increasing2)

text \<open>No head is in two groups.\<close>

lemma heads_apart:
  assumes "ns_heads ps = image_mset fst T" "good s T" "group_at ps i = Some p" "group_at ps j = Some q" "i \<noteq> j" "m \<in># hds (Some p)"
  shows "m \<notin># hds (Some q)"
proof
  assume m: "m \<in># hds (Some q)"
  have "Some q \<in> set (ps[i := None])" using group_in [OF assms(4)] assms(5) by (metis length_list_update nth_list_update_neq nth_mem)
  from mset_subset_eqD [OF hds_sub [OF this] m] have "m \<in># ns_heads (ps[i := None])" .
  then have "count (ns_heads (ps[i := None])) m \<ge> 1" by (simp add: Suc_le_eq)
  moreover have "count (hds (Some p)) m \<ge> 1" using assms(6) by (simp add: Suc_le_eq)
  moreover have "count (ns_heads ps) m = count (hds (Some p)) m + count (ns_heads (ps[i := None])) m"
    using ns_split(1) [OF assms(3)] by simp
  ultimately have "count (ns_heads ps) m \<ge> 2" by linarith
  moreover have "count (ns_heads ps) m \<le> 1" using assms(1,2) unfolding good_def by metis
  ultimately show False by simp
qed

lemma ns_tab_ok: "ns_inv T R (ps, s) \<Longrightarrow> group_at ps i = Some p \<Longrightarrow> tab_ok p s T"
  using hds_sub [of "Some p" ps] group_in [of ps i p] by (auto simp: ns_inv_def tab_ok_good group_ok_def)

text \<open>The heads of a group are in \<open>K\<close>, and \<open>K\<close> is kept.\<close>

definition spared :: "pgrp option list \<Rightarrow> nat option \<Rightarrow> store \<Rightarrow> store \<Rightarrow> bool" where
  "spared ps i s s' \<longleftrightarrow> (\<exists>K. keeps K s s' \<and> (\<forall>j q. Some j \<noteq> i \<longrightarrow> group_at ps j = Some q \<longrightarrow> hds (Some q) \<subseteq># image_mset fst K))"

definition view :: "store \<Rightarrow> pgrp \<Rightarrow> (nat option \<times> mount list) list list" where
  "view s p = map (map (\<lambda>f. case head_at s f of None \<Rightarrow> (None, []) | Some h \<Rightarrow> (h_from h, h_mount h))) (g_mnthash p)"

lemma spared_view:
  assumes "spared ps i s s'" "ns_inv T R (ps, s)" "group_at ps j = Some q" "Some j \<noteq> i"
  shows "view s' q = view s q"
proof -
  obtain K where K: "keeps K s s'" "hds (Some q) \<subseteq># image_mset fst K" using assms(1,3,4) unfolding spared_def by blast
  have same: "\<exists>h x. head_at s f = Some h \<and> head_at s' f = Some (h\<lparr>h_ref := x\<rparr>)" if f: "f \<in> set (concat (g_mnthash q))" for f
  proof -
    have fq: "f \<in># hds (Some q)" using f by (simp add: hds_def)
    obtain g where g: "(f, g) \<in># K" using tab_elem [OF mset_subset_eqD [OF K(2) fq]] by blast
    have "hds (Some q) \<subseteq># ns_heads ps" using group_in [OF assms(3)] by (intro hds_sub) simp
    then have "f \<in># ns_heads ps" using fq by (rule mset_subset_eqD)
    then have "f \<in># image_mset fst T" using assms(2) by (simp add: ns_inv_def)
    from tab_elem [OF this] obtain g' where g': "(f, g') \<in># T" by blast
    have c: "chinv s T (ns_refs ps + R) []" using assms(2) by (simp add: ns_inv_def)
    obtain h where "head_at s f = Some h" using table_head(1) [OF c g'] by blast
    then show ?thesis using keeps_head [OF K(1) g] by blast
  qed
  have "(case head_at s' f of None \<Rightarrow> (None, []) | Some h \<Rightarrow> (h_from h, h_mount h)) =
      (case head_at s f of None \<Rightarrow> (None, []) | Some h \<Rightarrow> (h_from h, h_mount h))"
    if "f \<in> set fs" "fs \<in> set (g_mnthash q)" for f fs
  proof -
    have "f \<in> set (concat (g_mnthash q))" using that by auto
    from same [OF this] show ?thesis by auto
  qed
  then show ?thesis unfolding view_def by simp
qed

subsection \<open>The steps\<close>

lemma ns_invD:
  assumes "ns_inv T R (ps, s)" "group_at ps i = Some p"
  shows "chinv s T (ns_refs ps + R) []" "tab_ok p s T" "group_ok p" "hds (Some p) \<subseteq># image_mset fst T" "good s T"
proof -
  show "tab_ok p s T" by (rule ns_tab_ok [OF assms])
  then show "hds (Some p) \<subseteq># image_mset fst T" "good s T" by (simp_all add: tab_ok_good)
  show "chinv s T (ns_refs ps + R) []" "group_ok p" using assms group_in [OF assms(2)] by (auto simp: ns_inv_def)
qed

lemma spared_keeps: "keeps T s s' \<Longrightarrow> ns_inv T R (ps, s) \<Longrightarrow> spared ps i s s'"
  unfolding spared_def using ns_invD(4) by blast

lemma good_keeps:
  assumes "good s T" "keeps T s s'" "chinv s (U + T) R P"
  shows "good s' T"
proof -
  have "h_mount m \<noteq> []" if a: "(h, f) \<in># T" "get s' h = OHead m" for h f m
  proof -
    have "(h, f) \<in># U + T" using a(1) by simp
    then obtain k where k: "head_at s h = Some k" using table_head(1) [OF assms(3)] by blast
    have "h_mount k \<noteq> []" using assms(1) a(1) head_atD [OF k] by (auto simp: good_def)
    then show ?thesis using keeps_head [OF assms(2) a(1) k] a(2) by (auto simp: head_at_def)
  qed
  then show ?thesis using assms(1) by (simp add: good_def)
qed

lemma sub_notin: "A \<subseteq># add_mset m B \<Longrightarrow> m \<notin># A \<Longrightarrow> A \<subseteq># B"
  by (rule mset_subset_eqI) (metis count_add_mset le0 mset_subset_eq_count not_in_iff)

text \<open>One group changes, and with it one head of the table.\<close>

lemma spared_head:
  assumes "ns_inv T R (ps, s)" "group_at ps i = Some p" "keeps T0 s s'"
    "T = T0 \<or> T = add_mset (m, f) T0 \<and> m \<in># hds (Some p)"
  shows "spared ps (Some i) s s'"
proof -
  have "hds (Some q) \<subseteq># image_mset fst T0" if q: "j \<noteq> i" "group_at ps j = Some q" for j q
  proof (cases "T = T0")
    case True
    then show ?thesis using ns_invD(4) [OF assms(1) q(2)] by simp
  next
    case False
    then have m: "T = add_mset (m, f) T0" "m \<in># hds (Some p)" using assms(4) by simp_all
    have "m \<notin># hds (Some q)"
      using heads_apart [OF _ _ assms(2) q(2) _ m(2)] assms(1) q(1) by (auto simp: ns_inv_def)
    moreover have "hds (Some q) \<subseteq># add_mset m (image_mset fst T0)" using ns_invD(4) [OF assms(1) q(2)] m(1) by simp
    ultimately show ?thesis by (blast intro: sub_notin)
  qed
  then show ?thesis using assms(3) unfolding spared_def by blast
qed

lemma ns_inv_update:
  assumes "ns_inv T R (ps, s)" "group_at ps i = Some p" "chinv s' T' (prefs q + (ns_refs (ps[i := None]) + R)) []" "good s' T'"
    "hds q + ns_heads (ps[i := None]) = image_mset fst T'" "\<And>p'. q = Some p' \<Longrightarrow> group_ok p'"
  shows "ns_inv T' R (ps[i := q], s')"
proof -
  have "group_ok p'" if "Some p' \<in> set (ps[i := q])" for p'
    using that assms(1,6) set_update_subset_insert [of ps i q] by (auto simp: ns_inv_def)
  then show ?thesis using assms(3-5) ns_split(2,4) [OF assms(2), of q] by (simp add: ns_inv_def ac_simps)
qed

lemma ns_heads_rest:
  assumes "ns_inv T R (ps, s)" "group_at ps i = Some p"
  shows "image_mset fst T = hds (Some p) + ns_heads (ps[i := None])"
  using ns_split(1) [OF assms(2)] assms(1) by (simp add: ns_inv_def)

lemma group_same: "group_at ps i = Some p \<Longrightarrow> ps[i := Some p] = ps"
  using group_in [of ps i p] by (metis list_update_id)

lemma mount_step:
  assumes "ns_inv T R (ps, s)" "group_at ps i = Some p" "PC new \<in># ns_refs ps + R" "PC old \<in># ns_refs ps + R"
    "cmount new old flag spec p s = Some (r, p', s')"
  shows "\<exists>T'. ns_inv T' R (ps[i := Some p'], s') \<and> spared ps (Some i) s s'"
proof -
  note d = ns_invD [OF assms(1,2)]
  obtain n od where n: "chan_at s new = Some n" "\<not> cfree n" "chan_at s old = Some od"
    using chan_live [OF chinv_held [OF d(1) assms(3)]] chan_live [OF chinv_held [OF d(1) assms(4)]] by blast
  obtain us where us: "mounts_of (c_umh n) s = Some us" using live_umh [OF d(1) n(1,2)] by blast
  from cmount_ok [OF d(1,2) n(1,3) assms(3,4) us, of flag spec] assms(5) have r: "case r of
      Inl e \<Rightarrow> e = Emount \<and> p' = p \<and> s' = s
    | Inr k \<Rightarrow> \<exists>m f T0. entered T m f T0 p p' \<and> chinv s' (add_mset (m, f) T0) (ns_refs ps + R) [] \<and>
        tab_ok p' s' (add_mset (m, f) T0) \<and> keeps T0 s s'" by (auto split: sum.splits)
  show ?thesis
  proof (cases r)
    case (Inl e)
    then show ?thesis using r assms(1) group_same [OF assms(2)] spared_keeps [OF keeps_refl assms(1)] by auto
  next
    case (Inr k)
    then obtain m f T0 where k: "entered T m f T0 p p'" "chinv s' (add_mset (m, f) T0) (ns_refs ps + R) []"
      "tab_ok p' s' (add_mset (m, f) T0)" "keeps T0 s s'" using r by auto
    have e: "p' = p\<lparr>g_mnthash := g_mnthash p'\<rparr>" using k(1) by (simp add: entered_def)
    have c: "T = T0 \<and> hds (Some p') = add_mset m (hds (Some p)) \<or>
        T = add_mset (m, f) T0 \<and> hds (Some p') = hds (Some p) \<and> m \<in># hds (Some p)"
      using k(1) unfolding entered_def hds_def option.case set_mset_mset by metis
    have "group_ok p'" using d(3) k(3) e by (metis (no_types) group_ok_def pgrp.select_convs pgrp.surjective pgrp.update_convs(3) tab_ok_def)
    moreover have "prefs (Some p') = pgrp_refs p" by (subst e) (simp add: prefs_def pgrp_refs_def)
    moreover have "hds (Some p') + ns_heads (ps[i := None]) = image_mset fst (add_mset (m, f) T0)"
      using c ns_heads_rest [OF assms(1,2)] by auto
    ultimately have "ns_inv (add_mset (m, f) T0) R (ps[i := Some p'], s')"
      using k(2,3) ns_split(3) [OF assms(2)] by (intro ns_inv_update [OF assms(1,2)]) (auto simp: tab_ok_good ac_simps)
    moreover have "spared ps (Some i) s s'" using c by (intro spared_head [OF assms(1,2) k(4)]) blast
    ultimately show ?thesis by blast
  qed
qed

lemma unlink_hds:
  assumes "length (g_mnthash p) = 32" "m \<in> set (g_mnthash p ! MOUNTH q)"
  shows "hds (Some (unlink_head (MOUNTH q) m p)) = hds (Some p) - {#m#}" "m \<in># hds (Some p)"
proof -
  have l: "MOUNTH q < length (g_mnthash p)" using assms(1) MOUNTH_less by simp
  show "hds (Some (unlink_head (MOUNTH q) m p)) = hds (Some p) - {#m#}"
    using mset_unchain [OF l assms(2)] by (simp add: hds_def unlink_head_def)
  have "g_mnthash p ! MOUNTH q \<in> set (g_mnthash p)" using l by (rule nth_mem)
  then show "m \<in># hds (Some p)" using assms(2) by (auto simp: hds_def)
qed

lemma unmount_step:
  assumes "ns_inv T R (ps, s)" "group_at ps i = Some p" "PC mnt \<in># ns_refs ps + R"
    "md = None \<or> md = Some c \<and> PC c \<in># ns_refs ps + R" "cunmount mnt md p s = Some (r, p', s')"
  shows "\<exists>T'. ns_inv T' R (ps[i := Some p'], s') \<and> spared ps (Some i) s s'"
proof -
  note d = ns_invD [OF assms(1,2)]
  obtain n where n: "chan_at s mnt = Some n" using chan_live [OF chinv_held [OF d(1) assms(3)]] by blast
  have "\<exists>r p' s'. cunmount mnt md p s = Some (r, p', s') \<and> (case r of
      Inl e \<Rightarrow> p' = p \<and> s' = s \<and> nothing_mounted p n s md e
    | Inr u \<Rightarrow> unmounted p T (ns_refs ps + R) n s md p' s')"
    using assms(4) by (intro cunmount_ok [OF d(1,2) n]) auto
  with assms(5) have r: "case r of
      Inl e \<Rightarrow> p' = p \<and> s' = s \<and> nothing_mounted p n s md e
    | Inr u \<Rightarrow> unmounted p T (ns_refs ps + R) n s md p' s'" by auto
  show ?thesis
  proof (cases r)
    case (Inl e)
    then show ?thesis using r assms(1) group_same [OF assms(2)] spared_keeps [OF keeps_refl assms(1)] by auto
  next
    case (Inr k)
    let ?h = "MOUNTH (c_qid n)"
    from r Inr obtain m f T0 where u: "T = add_mset (m, f) T0" "m \<in> set (g_mnthash p ! ?h)" "keeps T0 s s'"
      "p' = unlink_head ?h m p \<and> chinv s' T0 (ns_refs ps + R) [] \<and> tab_ok p' s' T0 \<or>
       p' = p \<and> chinv s' T (ns_refs ps + R) [] \<and> tab_ok p s' T"
      unfolding unmounted_def by (cases md) (auto dest: find_in split: if_splits)
    have l: "length (g_mnthash p) = 32" using d(3) by (simp add: group_ok_def)
    note h = unlink_hds [OF l u(2)]
    have sp: "spared ps (Some i) s s'" using u(1) h(2) by (intro spared_head [OF assms(1,2) u(3)]) blast
    from u(4) show ?thesis
    proof
      assume a: "p' = unlink_head ?h m p \<and> chinv s' T0 (ns_refs ps + R) [] \<and> tab_ok p' s' T0"
      have "group_ok p'" using d(3) a by (simp add: group_ok_def unlink_head_def)
      moreover have "prefs (Some p') = pgrp_refs p" using a by (simp add: prefs_def pgrp_refs_def unlink_head_def)
      moreover have "hds (Some p') + ns_heads (ps[i := None]) = image_mset fst T0"
      proof -
        obtain X where x: "hds (Some p) = add_mset m X" using multi_member_split [OF h(2)] by blast
        have "add_mset m (image_mset fst T0) = hds (Some p) + ns_heads (ps[i := None])" using ns_heads_rest [OF assms(1,2)] u(1) by simp
        then show ?thesis using h(1) a x by simp
      qed
      ultimately have "ns_inv T0 R (ps[i := Some p'], s')"
        using a ns_split(3) [OF assms(2)] by (intro ns_inv_update [OF assms(1,2)]) (auto simp: tab_ok_good ac_simps)
      then show ?thesis using sp by blast
    next
      assume a: "p' = p \<and> chinv s' T (ns_refs ps + R) [] \<and> tab_ok p s' T"
      then have "ns_inv T R (ps, s')" using assms(1) by (simp add: ns_inv_def tab_ok_good)
      then show ?thesis using sp a group_same [OF assms(2)] by auto
    qed
  qed
qed

lemma ns_refs_snoc: "ns_refs (ps @ [q]) = ns_refs ps + prefs q" "ns_heads (ps @ [q]) = ns_heads ps + hds q"
  by (simp_all add: ns_refs_def ns_heads_def)

lemma fork_result:
  assumes "device D" "ns_inv T R (ps, s)" "group_at ps i = Some p" "pgrpcpy D (fst (newpgrp ids)) p s = Some (r, p', s')"
  shows "cpy_result T (ns_refs ps + R) p (fst (newpgrp ids)) s r p' s'"
proof -
  note d = ns_invD [OF assms(2,3)]
  obtain sl dt where sd: "g_slash p = Some sl" "g_dot p = Some dt" using d(3) by (auto simp: group_ok_def)
  have "PC sl \<in># ns_refs ps + R" "PC dt \<in># ns_refs ps + R" using ns_split(3) [OF assms(3)] sd by (simp_all add: pgrp_refs_def)
  from device.pgrpcpy_ok [OF assms(1) d(1,2) sd this, of "fst (newpgrp ids)"] assms(4) show ?thesis
    by (auto simp: newpgrp_def concat_replicate_trivial)
qed

lemma fork_step:
  assumes "device D" "ns_inv T R (ps, s)" "group_at ps i = Some p" "pgrpcpy D (fst (newpgrp ids)) p s = Some (Inr (), p', s')"
  shows "\<exists>T'. ns_inv T' R (ps @ [Some p'], s') \<and> spared ps None s s'"
proof -
  note d = ns_invD [OF assms(2,3)]
  from fork_result [OF assms] obtain U where u: "chinv s' (U + T) (pgrp_refs p' + (ns_refs ps + R)) []" "keeps T s s'"
    "tab_ok p' s' (U + T)" "mset (concat (g_mnthash p')) = image_mset fst U" "g_ref p' = 1" "g_slash p' \<noteq> None" "g_dot p' \<noteq> None"
    by (auto simp: cpy_result_def newpgrp_def)
  have "group_ok p'" using u(3,5-7) by (simp add: group_ok_def tab_ok_def)
  then have "ns_inv (U + T) R (ps @ [Some p'], s')"
    using assms(2) u(1,3,4) by (auto simp: ns_inv_def ns_refs_snoc prefs_def hds_def tab_ok_good ac_simps)
  then show ?thesis using spared_keeps [OF u(2) assms(2)] by blast
qed

lemma fail_step:
  assumes "device D" "ns_inv T R (ps, s)" "group_at ps i = Some p" "pgrpcpy D (fst (newpgrp ids)) p s = Some (Inl e, p', s')"
    "closepgrp p' s' = Some (None, s'')"
  shows "ns_inv T R (ps, s'') \<and> spared ps None s s''"
proof -
  note d = ns_invD [OF assms(2,3)]
  from fork_result [OF assms(1-4)] obtain U where u: "chinv s' (U + T) (pgrp_refs p' + (ns_refs ps + R)) []" "keeps T s s'"
    "mset (concat (g_mnthash p')) = image_mset fst U" "\<And>m. m \<in> set (concat (g_mnthash p')) \<Longrightarrow> m \<notin># image_mset fst T" "g_ref p' = 1"
    by (auto simp: cpy_result_def newpgrp_def)
  from closepgrp_ok [OF u(1,3,4,5)] assms(5) have p: "post T (ns_refs ps + R) s' s''" by auto
  have k: "keeps T s s''" using u(2) p by (auto simp: post_def intro: keeps_trans)
  then show ?thesis using assms(2) good_keeps [OF d(5) k, of "{#}"] d(1) postD [OF p] spared_keeps [OF k assms(2)] by (simp add: ns_inv_def)
qed

lemma exit_step:
  assumes "ns_inv T R (ps, s)" "group_at ps i = Some p" "closepgrp p s = Some (p', s')"
  shows "\<exists>T'. ns_inv T' R (ps[i := p'], s') \<and> spared ps (Some i) s s'"
proof (cases "g_ref p = 1")
  case False
  note d = ns_invD [OF assms(1,2)]
  have p': "p' = Some (p\<lparr>g_ref := g_ref p - 1\<rparr>)" "s' = s" "g_ref p > 1"
    using assms(3) False d(3) by (auto simp: closepgrp_def Let_def group_ok_def split: if_splits)
  have "ns_inv T R (ps[i := p'], s')"
    using d(1,3,5) p' ns_split(3) [OF assms(2)] ns_heads_rest [OF assms(1,2)]
    by (intro ns_inv_update [OF assms(1,2)]) (auto simp: prefs_def pgrp_refs_def hds_def group_ok_def ac_simps)
  then show ?thesis using spared_keeps [OF keeps_refl assms(1)] p'(2) by blast
next
  case True
  note d = ns_invD [OF assms(1,2)]
  let ?H = "set (concat (g_mnthash p))"
  define U V where "U = filter_mset (\<lambda>e. fst e \<in> ?H) T" and "V = filter_mset (\<lambda>e. fst e \<notin> ?H) T"
  have T: "T = U + V" unfolding U_def V_def by (rule multiset_partition)
  have uv: "image_mset fst U = filter_mset (\<lambda>m. m \<in> ?H) (image_mset fst T)"
    "image_mset fst V = filter_mset (\<lambda>m. m \<notin> ?H) (image_mset fst T)"
    unfolding U_def V_def by (simp_all add: filter_mset_image_mset)
  have apart: "m \<notin> ?H" if m: "m \<in># ns_heads (ps[i := None])" for m
  proof
    assume "m \<in> ?H"
    then have "count (hds (Some p)) m \<ge> 1" by (simp add: hds_def Suc_le_eq)
    moreover have "count (ns_heads (ps[i := None])) m \<ge> 1" using m by (simp add: Suc_le_eq)
    moreover have "count (image_mset fst T) m = count (hds (Some p)) m + count (ns_heads (ps[i := None])) m"
      using ns_heads_rest [OF assms(1,2)] by simp
    moreover have "count (image_mset fst T) m \<le> 1" using d(5) by (simp only: good_def)
    ultimately show False by linarith
  qed
  have hu: "hds (Some p) = image_mset fst U" "ns_heads (ps[i := None]) = image_mset fst V"
  proof -
    have "filter_mset (\<lambda>m. m \<in> ?H) (hds (Some p)) = hds (Some p)" "filter_mset (\<lambda>m. m \<notin> ?H) (hds (Some p)) = {#}"
      by (auto simp: hds_def filter_mset_eq_conv)
    moreover have "filter_mset (\<lambda>m. m \<in> ?H) (ns_heads (ps[i := None])) = {#}"
      "filter_mset (\<lambda>m. m \<notin> ?H) (ns_heads (ps[i := None])) = ns_heads (ps[i := None])"
      using apart by (auto simp: filter_mset_eq_conv)
    ultimately show "hds (Some p) = image_mset fst U" "ns_heads (ps[i := None]) = image_mset fst V"
      unfolding uv ns_heads_rest [OF assms(1,2)] by simp_all
  qed
  have c: "chinv s (U + V) (pgrp_refs p + (ns_refs (ps[i := None]) + R)) []"
    using d(1) ns_split(3) [OF assms(2)] T by (simp add: ac_simps)
  have "m \<notin># image_mset fst V" if "m \<in> ?H" for m using that by (simp add: uv(2))
  from closepgrp_ok [OF c _ this True] hu(1) assms(3) have p: "p' = None" "post V (ns_refs (ps[i := None]) + R) s s'"
    by (auto simp: hds_def)
  have k: "keeps V s s'" using p(2) by (simp add: post_def)
  have "good s V"
  proof -
    have "count (image_mset fst V) h \<le> count (image_mset fst T) h" for h unfolding T by simp
    then have "count (image_mset fst V) h \<le> 1" for h using d(5) unfolding good_def by (meson le_trans)
    then show ?thesis using d(5) T by (auto simp: good_def)
  qed
  then have "good s' V" using k c by (rule good_keeps)
  then have "ns_inv V R (ps[i := p'], s')"
    using p hu(2) postD [OF p(2)] by (intro ns_inv_update [OF assms(1,2)]) (simp_all add: prefs_def hds_def)
  moreover have "spared ps (Some i) s s'" unfolding spared_def
  proof (intro exI [of _ V] conjI allI impI k)
    fix j q assume a: "Some j \<noteq> Some i" "group_at ps j = Some q"
    have "Some q \<in> set (ps[i := None])" using group_in [OF a(2)] a(1) by (metis length_list_update nth_list_update_neq nth_mem)
    from hds_sub [OF this] show "hds (Some q) \<subseteq># image_mset fst V" using hu(2) by simp
  qed
  ultimately show ?thesis by blast
qed

fun nsop_of :: "nsop \<Rightarrow> nat option" where
  "nsop_of (NsMount i new old flag spec) = Some i"
| "nsop_of (NsUnmount i mnt md) = Some i"
| "nsop_of (NsFork i) = None"
| "nsop_of (NsShare i) = Some i"
| "nsop_of (NsExit i) = Some i"

lemma group_update: "j \<noteq> i \<Longrightarrow> group_at (ps[i := q]) j = group_at ps j" "group_at ps j = Some p \<Longrightarrow> group_at (ps @ [q]) j = Some p"
  by (auto simp: group_at_def nth_append split: if_splits)

lemma nsstep_ok:
  assumes "nsstep D R x a y" "device D" "ns_inv T R x"
  shows "(\<exists>T'. ns_inv T' R y) \<and> spared (fst x) (nsop_of a) (snd x) (snd y) \<and>
    (\<forall>j p. group_at (fst x) j = Some p \<longrightarrow> nsop_of a \<noteq> Some j \<longrightarrow> group_at (fst y) j = Some p)"
  using assms
proof cases
  case (mounted ps i p new old flag spec s r p' s')
  from mount_step [OF assms(3) [unfolded mounted(1)] mounted(4-7)] show ?thesis using mounted(1-3) by (auto simp: group_update)
next
  case (unmounted ps i p mnt md c s r p' s')
  from unmount_step [OF assms(3) [unfolded unmounted(1)] unmounted(4-7)] show ?thesis using unmounted(1-3) by (auto simp: group_update)
next
  case (forked ps i p ids s p' s')
  from fork_step [OF assms(2) assms(3) [unfolded forked(1)] forked(4,5)] show ?thesis using forked(1-3) by (auto simp: group_update)
next
  case (failed ps i p ids s e p' s' s'')
  from fail_step [OF assms(2) assms(3) [unfolded failed(1)] failed(4-6)] show ?thesis using failed(1-3) by auto
next
  case (shared ps i p s)
  note d = ns_invD [OF assms(3) [unfolded shared(1)] shared(4)]
  have "ns_inv T R (ps[i := Some (p\<lparr>g_ref := g_ref p + 1\<rparr>)], s)"
    using d(1,3,5) ns_split(3) [OF shared(4)] ns_heads_rest [OF assms(3) [unfolded shared(1)] shared(4)]
    by (intro ns_inv_update [OF assms(3) [unfolded shared(1)] shared(4)])
      (auto simp: prefs_def pgrp_refs_def hds_def group_ok_def ac_simps)
  moreover have "spared ps (Some i) s s" using spared_keeps [OF keeps_refl assms(3) [unfolded shared(1)]] .
  ultimately show ?thesis using shared(1-3) by (auto simp: group_update)
next
  case (exited ps i p s p' s')
  from exit_step [OF assms(3) [unfolded exited(1)] exited(4,5)] show ?thesis using exited(1-3) by (auto simp: group_update)
qed

lemma nsrun_ok:
  assumes "nsrun D R x as y" "device D" "ns_inv T R x"
  shows "(\<exists>T'. ns_inv T' R y) \<and> (\<forall>j p. group_at (fst x) j = Some p \<longrightarrow> (\<forall>a\<in>set as. nsop_of a \<noteq> Some j) \<longrightarrow>
    group_at (fst y) j = Some p \<and> view (snd y) p = view (snd x) p)"
  using assms(1,3)
proof (induction rule: nsrun.induct)
  case (nil x)
  then show ?case by blast
next
  case (snoc x as y a z)
  then obtain T1 where i: "ns_inv T1 R y" by blast
  note st = nsstep_ok [OF snoc.hyps(2) assms(2) i]
  have "group_at (fst z) j = Some p \<and> view (snd z) p = view (snd x) p"
    if a: "group_at (fst x) j = Some p" "\<forall>b\<in>set (as @ [a]). nsop_of b \<noteq> Some j" for j p
  proof -
    have y: "group_at (fst y) j = Some p" "view (snd y) p = view (snd x) p" using snoc.IH [OF snoc.prems] a by simp_all
    have "nsop_of a \<noteq> Some j" using a(2) by simp
    then show ?thesis using st y spared_view [of "fst y" "nsop_of a" "snd y" "snd z" T1 R j p] i by auto
  qed
  then show ?case using st by blast
qed

text \<open>
  C9: whatever mounts, unmounts, forks and exits the processes make, over devices that keep the walk contract, every
  mount table stays well formed, no head is in two tables and every count stays exact; and a name space whose own
  processes do none of it still shows the same unions over the same directories.
\<close>
theorem ns_isolated:
  assumes "device D" "nsrun D R (ps, s) as (ps', s')" "ns_inv T R (ps, s)"
  shows "(\<exists>T'. ns_inv T' R (ps', s')) \<and>
    (\<forall>j p. group_at ps j = Some p \<longrightarrow> (\<forall>a\<in>set as. nsop_of a \<noteq> Some j) \<longrightarrow> group_at ps' j = Some p \<and> view s' p = view s p)"
  using nsrun_ok [OF assms(2,1,3)] by simp

lemma home_ns: "ns_inv {#} {#} ([Some home_pgrp], home_store)"
  using home_inv
  by (simp add: ns_inv_def ns_refs_def prefs_def pgrp_refs_def ns_heads_def hds_def good_def group_ok_def home_pgrp_def root_pgrp_def
      concat_replicate_trivial)

lemma ns_isolated_witness:
  "\<exists>p s. nsrun root_dev {#} ([Some home_pgrp], home_store) [NsExit 0] ([p], s) \<and> (\<exists>T. ns_inv T {#} ([p], s))"
proof -
  have g: "group_at [Some home_pgrp] 0 = Some home_pgrp" by (simp add: group_at_def)
  have "chinv home_store ({#} + {#}) (pgrp_refs home_pgrp + {#}) []" using home_inv by (simp add: pgrp_refs_def home_pgrp_def)
  from closepgrp_ok [OF this] obtain s' where "closepgrp home_pgrp home_store = Some (None, s')"
    by (auto simp: home_pgrp_def root_pgrp_def concat_replicate_trivial)
  from nsrun.snoc [OF nsrun.nil nsstep.exited [OF g this]]
  have r: "nsrun root_dev {#} ([Some home_pgrp], home_store) [NsExit 0] ([None], s')" by simp
  from ns_isolated [OF root_dev r home_ns] r show ?thesis by blast
qed

end
