(* ===== verification/DStr.thy ===== *)
theory DStr
  imports Rune "HOL-Library.Monad_Syntax"
begin

text \<open>
  The strings of the Dis machine, \<open>libinterp/string.c\<close>.  A string is a counted heap object whose text is bytes
  when \<open>len\<close> is positive and runes when it is negative; the list of a payload is all the room of the object.  A
  variable holds the index of its object, or \<open>None\<close> for \<open>H\<close>.  \<open>None\<close> as the result of an operation is
  a use of a dead object or an access outside its room.
\<close>

datatype payload = Sascii "u8 list" | Srune "u16 list"

record dstring =
  z_len :: int
  z_max :: nat
  z_data :: payload

datatype disexn = ExNilref | ExBounds | ExHeap

text \<open>
  The heap allocator: how many bytes more than asked for it gives, or \<open>None\<close> when it has none left.  A string
  has \<open>SLOP\<close> bytes of data inside \<open>sizeof(String)\<close> itself, which \<open>max\<close> does not count.
\<close>

type_synonym grant = "nat \<Rightarrow> nat option"
type_synonym sheap = "(nat \<times> dstring) option list"
type_synonym sstate = "nat option list \<times> sheap"

abbreviation (input) SLOP :: nat where "SLOP \<equiv> 8"
abbreviation (input) UTFmax :: nat where "UTFmax \<equiv> 3"

definition runes_of :: "payload \<Rightarrow> u16 list" where
  "runes_of d = (case d of Srune rs \<Rightarrow> rs | Sascii bs \<Rightarrow> replicate (length bs div 2) 0)"

text \<open>Reading and writing one member of the union; text is never read through the other one.\<close>

definition rd_ascii :: "nat \<Rightarrow> nat \<Rightarrow> dstring \<Rightarrow> u8 list option" where
  "rd_ascii i n s = (case z_data s of
     Sascii bs \<Rightarrow> if i + n \<le> length bs then Some (take n (drop i bs)) else None
   | Srune rs \<Rightarrow> None)"

definition rd_rune :: "nat \<Rightarrow> nat \<Rightarrow> dstring \<Rightarrow> u16 list option" where
  "rd_rune i n s = (case z_data s of
     Srune rs \<Rightarrow> if i + n \<le> length rs then Some (take n (drop i rs)) else None
   | Sascii bs \<Rightarrow> if n = 0 then Some [] else None)"

definition wr_ascii :: "nat \<Rightarrow> u8 list \<Rightarrow> dstring \<Rightarrow> dstring option" where
  "wr_ascii i xs s = (case z_data s of
     Sascii bs \<Rightarrow> if i + length xs \<le> length bs then Some (s\<lparr>z_data := Sascii (take i bs @ xs @ drop (i + length xs) bs)\<rparr>) else None
   | Srune rs \<Rightarrow> None)"

definition wr_rune :: "nat \<Rightarrow> u16 list \<Rightarrow> dstring \<Rightarrow> dstring option" where
  "wr_rune i xs s = (let rs = runes_of (z_data s) in
     if xs = [] then Some s
     else if i + length xs \<le> length rs then Some (s\<lparr>z_data := Srune (take i rs @ xs @ drop (i + length xs) rs)\<rparr>) else None)"

definition newstring :: "grant \<Rightarrow> nat \<Rightarrow> dstring option" where
  "newstring A nb = (case A nb of
     None \<Rightarrow> None
   | Some k \<Rightarrow> Some \<lparr>z_len = int nb, z_max = nb + k, z_data = Sascii (replicate (nb + k + SLOP) 0)\<rparr>)"

definition newrunes :: "grant \<Rightarrow> int \<Rightarrow> dstring option" where
  "newrunes A nr =
     (if nr = 0 then newstring A 0
      else
        let nr = nat (if nr < 0 then - nr else nr)
        in case A (2 * nr) of
             None \<Rightarrow> None
           | Some k \<Rightarrow> Some \<lparr>z_len = - int nr, z_max = (2 * nr + k) div 2, z_data = Srune (replicate ((2 * nr + k + SLOP) div 2) 0)\<rparr>)"

definition cvtup :: "dstring \<Rightarrow> u16 list option" where
  "cvtup s = map_option (map ucast) (rd_ascii 0 (nat (z_len s)) s)"

definition stringdup :: "grant \<Rightarrow> dstring \<Rightarrow> (disexn + dstring) option" where
  "stringdup A s =
     (if z_len s \<ge> 0 then
        (case newstring A (nat (z_len s)) of
           None \<Rightarrow> Some (Inl ExHeap)
         | Some ns \<Rightarrow> do { bs \<leftarrow> rd_ascii 0 (nat (z_len s)) s; ns \<leftarrow> wr_ascii 0 bs ns; Some (Inr ns) })
      else
        (case newrunes A (- z_len s) of
           None \<Rightarrow> Some (Inl ExHeap)
         | Some ns \<Rightarrow> do { rs \<leftarrow> rd_rune 0 (nat (- z_len s)) s; ns \<leftarrow> wr_rune 0 rs ns; Some (Inr ns) }))"

subsection \<open>Objects and variables\<close>

definition sget :: "sheap \<Rightarrow> nat \<Rightarrow> (nat \<times> dstring) option" where
  "sget h p = (if p < length h then h ! p else None)"

definition destroy :: "nat option \<Rightarrow> sheap \<Rightarrow> sheap option" where
  "destroy v h = (case v of
     None \<Rightarrow> Some h
   | Some p \<Rightarrow> do { (n, s) \<leftarrow> sget h p; Some (h[p := (if n > 1 then Some (n - 1, s) else None)]) })"

definition assign :: "nat \<Rightarrow> nat option \<Rightarrow> sstate \<Rightarrow> sstate option" where
  "assign d x st = (case st of (vs, h) \<Rightarrow> do { h \<leftarrow> destroy (vs ! d) h; Some (vs[d := x], h) })"

definition sdeliver :: "nat \<Rightarrow> (disexn + dstring) \<Rightarrow> sstate \<Rightarrow> ((disexn + unit) \<times> sstate) option" where
  "sdeliver d x st = (case (x, st) of
     (Inl e, _) \<Rightarrow> Some (Inl e, st)
   | (Inr ns, vs, h) \<Rightarrow> do { st \<leftarrow> assign d (Some (length h)) (vs, h @ [Some (1, ns)]); Some (Inr (), st) })"

definition movp :: "nat \<Rightarrow> nat \<Rightarrow> sstate \<Rightarrow> sstate option" where
  "movp s d st = (case st of (vs, h) \<Rightarrow>
     (case vs ! s of
        None \<Rightarrow> assign d None st
      | Some p \<Rightarrow> do { (n, x) \<leftarrow> sget h p; assign d (Some p) (vs, h[p := Some (n + 1, x)]) }))"

definition sval :: "nat option \<Rightarrow> sheap \<Rightarrow> dstring option option" where
  "sval v h = (case v of None \<Rightarrow> Some None | Some p \<Rightarrow> do { (n, s) \<leftarrow> sget h p; Some (Some s) })"

subsection \<open>Characters\<close>

definition indc :: "nat \<Rightarrow> u64 \<Rightarrow> sstate \<Rightarrow> (disexn + int) option" where
  "indc s v st = (case st of (vs, h) \<Rightarrow> do {
     ss \<leftarrow> sval (vs ! s) h;
     case ss of
       None \<Rightarrow> Some (Inl ExNilref)
     | Some ss \<Rightarrow>
         if z_len ss < 0 then
           (if int (unat v) \<ge> - z_len ss then Some (Inl ExBounds)
            else do { rs \<leftarrow> rd_rune (unat v) 1 ss; Some (Inr (uint (hd rs))) })
         else
           (if int (unat v) \<ge> z_len ss then Some (Inl ExBounds)
            else do { bs \<leftarrow> rd_ascii (unat v) 1 ss; Some (Inr (sint (hd bs))) })
   })"

definition splitc :: "grant \<Rightarrow> bool \<Rightarrow> nat \<Rightarrow> sstate \<Rightarrow> ((disexn + nat) \<times> sstate) option" where
  "splitc A expand d st = (case st of (vs, h) \<Rightarrow> do {
     p \<leftarrow> vs ! d;
     (n, ss) \<leftarrow> sget h p;
     x \<leftarrow> (if expand \<and> z_len ss > 0 then
            (case newrunes A (z_len ss) of
               None \<Rightarrow> Some (Inl ExHeap)
             | Some ns \<Rightarrow> do { rs \<leftarrow> cvtup ss; ns \<leftarrow> wr_rune 0 rs ns; Some (Inr ns) })
          else stringdup A ss);
     case x of
       Inl e \<Rightarrow> Some (Inl e, st)
     | Inr ns \<Rightarrow> do {
         h \<leftarrow> destroy (Some p) h;
         Some (Inr (length h), vs[d := Some (length h)], h @ [Some (1, ns)])
       }
   })"

text \<open>The store of character \<open>r\<close> at \<open>v\<close>: the string written, and whether it is a new one.\<close>

definition put_rune :: "grant \<Rightarrow> u16 \<Rightarrow> nat \<Rightarrow> dstring \<Rightarrow> (disexn + bool \<times> dstring) option" where
  "put_rune A r v ss =
     (let l = nat (- z_len ss) in
      if v < l then do { ss \<leftarrow> wr_rune v [r] ss; Some (Inr (False, ss)) }
      else if v = l \<and> v < z_max ss then do { ss \<leftarrow> wr_rune v [r] (ss\<lparr>z_len := - int (v + 1)\<rparr>); Some (Inr (False, ss)) }
      else if v \<noteq> l then Some (Inl ExBounds)
      else case newstring A ((v + 1 + v div 4) * 2) of
        None \<Rightarrow> Some (Inl ExHeap)
      | Some ns \<Rightarrow> do {
          rs \<leftarrow> rd_rune 0 l ss;
          ns \<leftarrow> wr_rune 0 rs ns;
          ns \<leftarrow> wr_rune v [r] ns;
          Some (Inr (True, ns\<lparr>z_len := - int (v + 1), z_max := z_max ns div 2\<rparr>))
        })"

definition put_ascii :: "grant \<Rightarrow> u8 \<Rightarrow> nat \<Rightarrow> dstring \<Rightarrow> (disexn + bool \<times> dstring) option" where
  "put_ascii A r v ss =
     (let l = nat (z_len ss) in
      if v < l then do { ss \<leftarrow> wr_ascii v [r] ss; Some (Inr (False, ss)) }
      else if v = l \<and> v < z_max ss then do { ss \<leftarrow> wr_ascii v [r] (ss\<lparr>z_len := int (v + 1)\<rparr>); Some (Inr (False, ss)) }
      else if v \<noteq> l then Some (Inl ExBounds)
      else case newstring A (v + 1 + v div 4) of
        None \<Rightarrow> Some (Inl ExHeap)
      | Some ns \<Rightarrow> do {
          bs \<leftarrow> rd_ascii 0 l ss;
          ns \<leftarrow> wr_ascii 0 bs ns;
          ns \<leftarrow> wr_ascii v [r] ns;
          Some (Inr (True, ns\<lparr>z_len := int (v + 1)\<rparr>))
        })"

definition insc_put :: "grant \<Rightarrow> int \<Rightarrow> nat \<Rightarrow> nat \<Rightarrow> nat \<Rightarrow> sstate \<Rightarrow> ((disexn + unit) \<times> sstate) option" where
  "insc_put A r v d p st = (case st of (vs, h) \<Rightarrow> do {
     (n, ss) \<leftarrow> sget h p;
     x \<leftarrow> (if z_len ss < 0 \<or> r \<ge> 128 then put_rune A (of_int r) v ss else put_ascii A (of_int r) v ss);
     case x of
       Inl e \<Rightarrow> Some (Inl e, st)
     | Inr (new, ns) \<Rightarrow>
         if new then sdeliver d (Inr ns) st
         else do {
           let h = h[p := Some (n, ns)];
           st \<leftarrow> (if vs ! d = Some p then Some (vs, h) else assign d (Some p) (vs, h));
           Some (Inr (), st)
         }
   })"

definition insc :: "grant \<Rightarrow> int \<Rightarrow> u64 \<Rightarrow> nat \<Rightarrow> sstate \<Rightarrow> ((disexn + unit) \<times> sstate) option" where
  "insc A r v d st = (case st of (vs, h) \<Rightarrow>
     (case vs ! d of
        None \<Rightarrow>
          (case newstring A 0 of
             None \<Rightarrow> Some (Inl ExHeap, st)
           | Some ss \<Rightarrow>
               let ss = (if r \<ge> 128 then ss\<lparr>z_max := z_max ss div 2\<rparr> else ss)
               in insc_put A r (unat v) d (length h) (vs, h @ [Some (1, ss)]))
      | Some p \<Rightarrow> do {
          (n, ss) \<leftarrow> sget h p;
          if n > 1 \<or> r \<ge> 128 \<and> z_len ss > 0 then do {
            (x, st) \<leftarrow> splitc A (r \<ge> 128) d st;
            case x of Inl e \<Rightarrow> Some (Inl e, st) | Inr q \<Rightarrow> insc_put A r (unat v) d q st
          }
          else insc_put A r (unat v) d p st
        }))"

definition lenc :: "nat \<Rightarrow> sstate \<Rightarrow> int option" where
  "lenc s st = (case st of (vs, h) \<Rightarrow> do {
     ss \<leftarrow> sval (vs ! s) h;
     Some (case ss of None \<Rightarrow> 0 | Some ss \<Rightarrow> if z_len ss < 0 then - z_len ss else z_len ss)
   })"

subsection \<open>Slices and concatenation\<close>

text \<open>\<open>Inr None\<close> is \<open>H\<close>.\<close>

definition slicer :: "grant \<Rightarrow> nat \<Rightarrow> nat \<Rightarrow> dstring option \<Rightarrow> (disexn + dstring option) option" where
  "slicer A start v ds =
     (case ds of
        None \<Rightarrow> Some (if start = 0 \<and> v = 0 then Inr None else Inl ExBounds)
      | Some ds \<Rightarrow>
          let nc = v - start in
          if z_len ds < 0 then
            (if v < start \<or> int v > - z_len ds then Some (Inl ExBounds)
             else if nc = 0 then Some (Inr None)
             else case newrunes A (int nc) of
               None \<Rightarrow> Some (Inl ExHeap)
             | Some ns \<Rightarrow> do { rs \<leftarrow> rd_rune start nc ds; ns \<leftarrow> wr_rune 0 rs ns; Some (Inr (Some ns)) })
          else
            (if v < start \<or> int v > z_len ds then Some (Inl ExBounds)
             else if nc = 0 then Some (Inr None)
             else case newstring A nc of
               None \<Rightarrow> Some (Inl ExHeap)
             | Some ns \<Rightarrow> do { bs \<leftarrow> rd_ascii start nc ds; ns \<leftarrow> wr_ascii 0 bs ns; Some (Inr (Some ns)) }))"

definition slicec :: "grant \<Rightarrow> u64 \<Rightarrow> u64 \<Rightarrow> nat \<Rightarrow> sstate \<Rightarrow> ((disexn + unit) \<times> sstate) option" where
  "slicec A s m d st = (case st of (vs, h) \<Rightarrow> do {
     ds \<leftarrow> sval (vs ! d) h;
     x \<leftarrow> slicer A (unat s) (unat m) ds;
     case x of
       Inl e \<Rightarrow> Some (Inl e, st)
     | Inr None \<Rightarrow> do { st \<leftarrow> assign d None st; Some (Inr (), st) }
     | Inr (Some ns) \<Rightarrow> sdeliver d (Inr ns) st
   })"

text \<open>The text of a string as runes.\<close>

definition rd_text :: "dstring \<Rightarrow> u16 list option" where
  "rd_text s = (if z_len s < 0 then rd_rune 0 (nat (- z_len s)) s else cvtup s)"

text \<open>
  \<open>addstring\<close> of two strings that are not nil.  In place, the length is set before the text of \<open>s2\<close> is copied.
\<close>

definition add_inplace :: "nat \<Rightarrow> nat \<Rightarrow> int \<Rightarrow> sheap \<Rightarrow> sheap option" where
  "add_inplace p q l h = do {
     (n, s1) \<leftarrow> sget h p;
     let h = h[p := Some (n, s1\<lparr>z_len := l\<rparr>)];
     (m, s2) \<leftarrow> sget h q;
     s \<leftarrow> (if l < 0 then do { rs \<leftarrow> rd_text s2; wr_rune (nat (- z_len s1)) rs (s1\<lparr>z_len := l\<rparr>) }
          else do { bs \<leftarrow> rd_ascii 0 (nat (z_len s2)) s2; wr_ascii (nat (z_len s1)) bs (s1\<lparr>z_len := l\<rparr>) });
     Some (h[p := Some (n, s)])
   }"

definition add_new :: "grant \<Rightarrow> bool \<Rightarrow> dstring \<Rightarrow> dstring \<Rightarrow> (disexn + dstring) option" where
  "add_new A app s1 s2 =
     (let l1 = nat \<bar>z_len s1\<bar>; l = l1 + nat \<bar>z_len s2\<bar>; room = (if app then l + l div 4 else l) in
      if z_len s1 < 0 \<or> z_len s2 < 0 then
        (case newrunes A (int room) of
           None \<Rightarrow> Some (Inl ExHeap)
         | Some ns \<Rightarrow> do {
             r1 \<leftarrow> rd_text s1;
             ns \<leftarrow> wr_rune 0 r1 (ns\<lparr>z_len := - int l\<rparr>);
             r2 \<leftarrow> rd_text s2;
             ns \<leftarrow> wr_rune l1 r2 ns;
             Some (Inr ns)
           })
      else
        (case newstring A room of
           None \<Rightarrow> Some (Inl ExHeap)
         | Some ns \<Rightarrow> do {
             b1 \<leftarrow> rd_ascii 0 l1 s1;
             ns \<leftarrow> wr_ascii 0 b1 (ns\<lparr>z_len := int l\<rparr>);
             b2 \<leftarrow> rd_ascii 0 (nat (z_len s2)) s2;
             ns \<leftarrow> wr_ascii l1 b2 ns;
             Some (Inr ns)
           }))"

datatype sadd = AddSame "nat option" | AddNew dstring

definition addstring :: "grant \<Rightarrow> nat option \<Rightarrow> nat option \<Rightarrow> bool \<Rightarrow> sheap \<Rightarrow> ((disexn + sadd) \<times> sheap) option" where
  "addstring A s1 s2 app h =
     (let dup = (\<lambda>s. do { x \<leftarrow> stringdup A s; Some (map_sum id AddNew x, h) }) in
      case (s1, s2) of
        (None, None) \<Rightarrow> Some (Inr (AddSame None), h)
      | (None, Some q) \<Rightarrow> do { (m, t) \<leftarrow> sget h q; dup t }
      | (Some p, None) \<Rightarrow> do {
          (n, s) \<leftarrow> sget h p;
          if app \<and> \<not> n > 1 then Some (Inr (AddSame (Some p)), h) else dup s
        }
      | (Some p, Some q) \<Rightarrow> do {
          (n, s) \<leftarrow> sget h p;
          (m, t) \<leftarrow> sget h q;
          let app = (app \<and> \<not> n > 1);
          let l = \<bar>z_len s\<bar> + \<bar>z_len t\<bar>;
          if app \<and> l \<le> int (z_max s) \<and> (z_len s < 0 \<or> z_len t \<ge> 0) then do {
            h \<leftarrow> add_inplace p q (if z_len s < 0 then - l else l) h;
            Some (Inr (AddSame (Some p)), h)
          }
          else do { x \<leftarrow> add_new A app s t; Some (map_sum id AddNew x, h) }
        })"

definition addc :: "grant \<Rightarrow> nat \<Rightarrow> nat \<Rightarrow> nat \<Rightarrow> sstate \<Rightarrow> ((disexn + unit) \<times> sstate) option" where
  "addc A s m d st = (case st of (vs, h) \<Rightarrow> do {
     (x, h) \<leftarrow> addstring A (vs ! m) (vs ! s) (m = d) h;
     case x of
       Inl e \<Rightarrow> Some (Inl e, vs, h)
     | Inr (AddNew ns) \<Rightarrow> sdeliver d (Inr ns) (vs, h)
     | Inr (AddSame v) \<Rightarrow>
         if v = vs ! d then Some (Inr (), vs, h)
         else do { st \<leftarrow> assign d v (vs, h); Some (Inr (), st) }
   })"

end
