(* ===== verification/DStrConv.thy ===== *)
theory DStrConv
  imports DStr
begin

text \<open>
  Comparison of Dis strings, and their conversion from and to UTF bytes and decimal numbers
  (\<open>libinterp/string.c\<close>).  A C string is the bytes before its terminator.
\<close>

text \<open>The loop over the characters of two strings: \<open>Inl\<close> the first difference.\<close>

fun cmp_loop :: "int list \<Rightarrow> int list \<Rightarrow> int option" where
  "cmp_loop (a # as) (b # bs) = (if a \<noteq> b then Some (if a < b then -1 else 1) else cmp_loop as bs)"
| "cmp_loop _ _ = None"

text \<open>The characters as \<open>int\<close>: \<open>memcmp\<close> compares bytes unsigned, a plain \<open>char\<close> is signed.\<close>

definition cmp_chars :: "bool \<Rightarrow> dstring \<Rightarrow> int list option" where
  "cmp_chars raw s =
     (if z_len s < 0 then map_option (map uint) (rd_rune 0 (nat (- z_len s)) s)
      else map_option (map (if raw then uint else sint)) (rd_ascii 0 (nat (z_len s)) s))"

definition snil :: dstring where
  "snil = \<lparr>z_len = 0, z_max = 0, z_data = Sascii (replicate SLOP 0)\<rparr>"

definition stringcmp :: "nat option \<Rightarrow> nat option \<Rightarrow> sheap \<Rightarrow> int option" where
  "stringcmp p q h =
     (if p = q then Some 0
      else do {
        s1 \<leftarrow> sval p h;
        s2 \<leftarrow> sval q h;
        let s1 = (case s1 of None \<Rightarrow> snil | Some s \<Rightarrow> s);
        let s2 = (case s2 of None \<Rightarrow> snil | Some s \<Rightarrow> s);
        let raw = (z_len s1 \<ge> 0 \<and> z_len s2 \<ge> 0);
        c1 \<leftarrow> cmp_chars raw s1;
        c2 \<leftarrow> cmp_chars raw s2;
        Some (case cmp_loop c1 c2 of None \<Rightarrow> \<bar>z_len s1\<bar> - \<bar>z_len s2\<bar> | Some c \<Rightarrow> c)
      })"

subsection \<open>UTF\<close>

definition string2c :: "dstring option \<Rightarrow> (u8 list \<times> dstring option) option" where
  "string2c s = (case s of
     None \<Rightarrow> Some ([], None)
   | Some s \<Rightarrow>
       if z_len s \<ge> 0 then do {
         s \<leftarrow> wr_ascii (nat (z_len s)) [0] s;
         bs \<leftarrow> rd_ascii 0 (nat (z_len s)) s;
         Some (bs, Some s)
       }
       else do {
         let nc = nat (- z_len s);
         rs \<leftarrow> rd_rune 0 nc s;
         let out = concat (map (\<lambda>c. if unat c < 128 then [ucast c] else runetochar c) rs);
         if length out + 1 \<le> nc * UTFmax + UTFmax then Some (out, Some s) else None
       })"

text \<open>How many characters the bytes from \<open>p\<close> on to \<open>ecs\<close> are; a rune cut off by the end is left out.\<close>

function c2_count :: "u8 list \<Rightarrow> nat \<Rightarrow> nat \<Rightarrow> nat" where
  "c2_count mem p ecs =
     (if p < ecs then
        if at mem p < 0x80 then Suc (c2_count mem (p + 1) ecs)
        else if p + UTFmax \<le> ecs \<or> fullrune (drop p mem) (int (ecs - p))
        then Suc (c2_count mem (p + snd (chartorune (drop p mem))) ecs)
        else 0
      else 0)"
  by pat_completeness auto
termination
  by (relation "measure (\<lambda>(mem, p, ecs). ecs - p)") (use chartorune_pos in \<open>auto intro: diff_less_mono2\<close>)

declare c2_count.simps [simp del]

fun c2_runes :: "u8 list \<Rightarrow> nat \<Rightarrow> nat \<Rightarrow> u16 list" where
  "c2_runes mem p 0 = []"
| "c2_runes mem p (Suc n) = (case chartorune (drop p mem) of (r, k) \<Rightarrow> r # c2_runes mem (p + k) n)"

definition c2string :: "grant \<Rightarrow> u8 list \<Rightarrow> nat \<Rightarrow> (disexn + dstring) option" where
  "c2string A mem len =
     (let plain = length (takeWhile (\<lambda>c. c < 0x80) (take len mem)) in
      if plain = len then
        (case newstring A len of
           None \<Rightarrow> Some (Inl ExHeap)
         | Some s \<Rightarrow> do { s \<leftarrow> wr_ascii 0 (take len mem) s; Some (Inr s) })
      else
        let nc = plain + c2_count mem plain len in
        case newrunes A (int nc) of
          None \<Rightarrow> Some (Inl ExHeap)
        | Some s \<Rightarrow> do { s \<leftarrow> wr_rune 0 (c2_runes mem 0 nc) s; Some (Inr s) })"

definition cvtac :: "grant \<Rightarrow> u8 list option \<Rightarrow> nat \<Rightarrow> sstate \<Rightarrow> ((disexn + unit) \<times> sstate) option" where
  "cvtac A a d st = (case a of
     None \<Rightarrow> do { st \<leftarrow> assign d None st; Some (Inr (), st) }
   | Some a \<Rightarrow> do { x \<leftarrow> c2string A a (length a); sdeliver d x st })"

text \<open>The bytes of the array that \<open>cvtca\<close> makes.\<close>

definition cvtca :: "nat \<Rightarrow> sstate \<Rightarrow> u8 list option" where
  "cvtca s st = (case st of (vs, h) \<Rightarrow> do {
     ss \<leftarrow> sval (vs ! s) h;
     case ss of
       None \<Rightarrow> Some []
     | Some ss \<Rightarrow>
         if z_len ss < 0 then do {
           let l = nat (- z_len ss);
           rs \<leftarrow> rd_rune 0 l ss;
           let out = concat (map runetochar rs);
           if length out \<le> runenlen rs l then Some (out @ replicate (runenlen rs l - length out) 0) else None
         }
         else rd_ascii 0 (nat (z_len ss)) ss
   })"

subsection \<open>Numbers\<close>

fun digits :: "nat \<Rightarrow> u8 list" where
  "digits n = (if n < 10 then [of_nat (48 + n)] else digits (n div 10) @ [of_nat (48 + n mod 10)])"

declare digits.simps [simp del]

definition decimal :: "int \<Rightarrow> u8 list" where
  "decimal i = (if i < 0 then 45 # digits (nat (- i)) else digits (nat i))"

text \<open>\<open>%d\<close> prints the low 32 bits of the word; \<open>sprint\<close> writes a terminator after the digits.\<close>

definition cvt_print :: "grant \<Rightarrow> int \<Rightarrow> nat \<Rightarrow> sstate \<Rightarrow> ((disexn + unit) \<times> sstate) option" where
  "cvt_print A i d st = (case newstring A 16 of
     None \<Rightarrow> Some (Inl ExHeap, st)
   | Some ds \<Rightarrow> do {
       ds \<leftarrow> wr_ascii 0 (decimal i @ [0]) ds;
       sdeliver d (Inr (ds\<lparr>z_len := int (length (decimal i))\<rparr>)) st
     })"

definition cvtwc :: "grant \<Rightarrow> u64 \<Rightarrow> nat \<Rightarrow> sstate \<Rightarrow> ((disexn + unit) \<times> sstate) option" where
  "cvtwc A w d st = cvt_print A (sint (ucast w :: u32)) d st"

definition cvtlc :: "grant \<Rightarrow> u64 \<Rightarrow> nat \<Rightarrow> sstate \<Rightarrow> ((disexn + unit) \<times> sstate) option" where
  "cvtlc A v d st = cvt_print A (sint v) d st"

text \<open>\<open>strtol\<close> in base 10, of the standard library: blanks, a sign, digits, and saturation to \<open>long\<close>.\<close>

definition blank :: "u8 \<Rightarrow> bool" where
  "blank c \<longleftrightarrow> c = 32 \<or> 9 \<le> c \<and> c \<le> 13"

definition numeral_value :: "u8 list \<Rightarrow> int" where
  "numeral_value ds = foldl (\<lambda>n c. 10 * n + (uint c - 48)) 0 ds"

definition saturate :: "int \<Rightarrow> int \<Rightarrow> int" where
  "saturate m v = (if v > m then m else if v < - m - 1 then - m - 1 else v)"

definition strtol :: "u8 list \<Rightarrow> int" where
  "strtol s =
     (let s = dropWhile blank s;
          neg = (at s 0 = 45);
          s = (if at s 0 = 45 \<or> at s 0 = 43 then drop 1 s else s);
          v = numeral_value (takeWhile (\<lambda>c. 48 \<le> c \<and> c \<le> 57) s)
      in saturate 0x7FFFFFFFFFFFFFFF (if neg then - v else v))"

definition strtoint :: "u8 list \<Rightarrow> int" where
  "strtoint s = saturate 0x7FFFFFFF (strtol s)"

definition cvtcw :: "nat \<Rightarrow> sstate \<Rightarrow> int option" where
  "cvtcw s st = (case st of (vs, h) \<Rightarrow> do {
     ss \<leftarrow> sval (vs ! s) h;
     (bs, _) \<leftarrow> string2c ss;
     Some (if ss = None then 0 else strtoint bs)
   })"

end
