(* ===== verification/DStrInv.thy ===== *)
theory DStrInv
  imports DStrConv
begin

text \<open>
  The invariant of the string heap, the text a variable holds, and what each building block of the operations does
  to it.
\<close>

definition swf :: "dstring \<Rightarrow> bool" where
  "swf s \<longleftrightarrow> nat \<bar>z_len s\<bar> \<le> z_max s \<and>
     (case z_data s of
        Sascii bs \<Rightarrow> z_len s \<ge> 0 \<and> z_max s + SLOP \<le> length bs \<and> (\<forall>b\<in>set (take (nat (z_len s)) bs). b < 0x80)
      | Srune rs \<Rightarrow> z_len s < 0 \<and> z_max s < length rs)"

definition stext :: "dstring \<Rightarrow> u16 list" where
  "stext s = (case z_data s of
     Sascii bs \<Rightarrow> map ucast (take (nat (z_len s)) bs)
   | Srune rs \<Rightarrow> take (nat (- z_len s)) rs)"

definition vtext :: "sheap \<Rightarrow> nat option \<Rightarrow> u16 list" where
  "vtext h v = (case v of None \<Rightarrow> [] | Some p \<Rightarrow> (case sget h p of None \<Rightarrow> [] | Some (n, s) \<Rightarrow> stext s))"

definition texts :: "sstate \<Rightarrow> u16 list list" where
  "texts st = map (vtext (snd st)) (fst st)"

text \<open>Every string that a variable holds is alive and well formed, and its count is the number of the variables.\<close>

definition sinv :: "sstate \<Rightarrow> bool" where
  "sinv st \<longleftrightarrow> (\<forall>p. Some p \<in> set (fst st) \<longrightarrow>
     (\<exists>s. sget (snd st) p = Some (count_list (fst st) (Some p), s) \<and> swf s))"

lemma text_simps [simp]: "vtext h None = []" "sget h p = Some (n, s) \<Longrightarrow> vtext h (Some p) = stext s"
  by (simp_all add: vtext_def)

lemma sget_valid: "sget h p = Some x \<Longrightarrow> p < length h"
  by (auto simp: sget_def split: if_splits)

lemma sget_upd: "sget (h[p := x]) q = (if q = p \<and> p < length h then x else sget h q)"
  by (auto simp: sget_def)

lemma sget_app: "sget (h @ [x]) q = (if q = length h then x else sget h q)"
  by (auto simp: sget_def nth_append)

lemma sinvD: "sinv (vs, h) \<Longrightarrow> d < length vs \<Longrightarrow> vs ! d = Some p \<Longrightarrow>
    \<exists>s. sget h p = Some (count_list vs (Some p), s) \<and> swf s"
  unfolding sinv_def by (metis fst_conv nth_mem snd_conv)

lemma count_pos: "x \<in> set xs \<Longrightarrow> 0 < count_list xs x"
  by (metis count_list_0_iff gr_zeroI)

lemma count_update:
  "d < length vs \<Longrightarrow> count_list (vs[d := x]) y + (if vs ! d = y then 1 else 0) = count_list vs y + (if x = y then 1 else 0)"
proof (induction vs arbitrary: d)
  case (Cons v vs)
  show ?case
  proof (cases d)
    case (Suc k)
    then show ?thesis using Cons.IH [of k] Cons.prems by (cases "v = y") (simp_all split: if_splits)
  qed simp
qed simp

subsection \<open>Texts and their representation\<close>

lemma swf_len: "swf s \<Longrightarrow> length (stext s) = nat \<bar>z_len s\<bar>"
  by (auto simp: swf_def stext_def split: payload.splits)

lemma swf_ascii:
  assumes "swf s" "0 \<le> z_len s"
  obtains bs where "z_data s = Sascii bs" "nat (z_len s) \<le> z_max s" "z_max s + SLOP \<le> length bs"
    "\<forall>b\<in>set (take (nat (z_len s)) bs). b < 0x80" "stext s = map ucast (take (nat (z_len s)) bs)"
  using assms by (auto simp: swf_def stext_def split: payload.splits)

lemma swf_rune:
  assumes "swf s" "z_len s < 0"
  obtains rs where "z_data s = Srune rs" "nat (- z_len s) \<le> z_max s" "z_max s < length rs" "stext s = take (nat (- z_len s)) rs"
  using assms by (auto simp: swf_def stext_def split: payload.splits)

lemma rd_text_ok: "swf s \<Longrightarrow> rd_text s = Some (stext s)"
  by (auto simp: rd_text_def swf_def stext_def rd_rune_def cvtup_def rd_ascii_def split: payload.splits)

lemma rd_ascii_ok:
  assumes "swf s" "0 \<le> z_len s" "i + n \<le> nat (z_len s)"
  shows "\<exists>bs. rd_ascii i n s = Some bs \<and> map ucast bs = take n (drop i (stext s)) \<and> (\<forall>b\<in>set bs. b < 0x80) \<and> length bs = n"
proof -
  obtain bs where b: "z_data s = Sascii bs" "nat (z_len s) \<le> z_max s" "z_max s + SLOP \<le> length bs"
    "\<forall>b\<in>set (take (nat (z_len s)) bs). b < 0x80" "stext s = map ucast (take (nat (z_len s)) bs)"
    using swf_ascii [OF assms(1,2)] .
  have t: "take n (drop i bs) = take n (drop i (take (nat (z_len s)) bs))" using assms(3) by (simp add: drop_take min_def)
  then have "set (take n (drop i bs)) \<subseteq> set (take (nat (z_len s)) bs)" by (metis set_drop_subset set_take_subset subset_trans)
  then have "\<forall>b\<in>set (take n (drop i bs)). b < 0x80" using b(4) by blast
  then show ?thesis using b assms(3) t by (simp add: rd_ascii_def take_map drop_map)
qed

lemma rd_rune_ok:
  assumes "swf s" "z_len s < 0" "i + n \<le> nat (- z_len s)"
  shows "rd_rune i n s = Some (take n (drop i (stext s)))"
proof -
  obtain rs where "z_data s = Srune rs" "nat (- z_len s) \<le> z_max s" "z_max s < length rs" "stext s = take (nat (- z_len s)) rs"
    using swf_rune [OF assms(1,2)] .
  then show ?thesis using assms(3) by (simp add: rd_rune_def drop_take min_def)
qed

lemma uint_ascii: "(b :: u8) < 0x80 \<Longrightarrow> sint b = uint b"
proof -
  assume "b < 0x80"
  then have "uint b < 2 ^ 7" by (simp add: word_less_def)
  moreover have "- (2 ^ 7) \<le> uint b" by (rule order_trans [OF _ uint_ge_0]) simp
  ultimately show ?thesis by (simp add: sint_uint signed_take_bit_int_eq_self)
qed

text \<open>A new string filled with a text.\<close>

lemma newstring_wr:
  assumes "newstring A n = Some s" "length bs \<le> n" "\<forall>b\<in>set bs. b < 0x80"
  shows "\<exists>t. wr_ascii 0 bs (s\<lparr>z_len := int (length bs)\<rparr>) = Some t \<and> swf t \<and> stext t = map ucast bs \<and> z_max t = z_max s"
  using assms by (auto simp: newstring_def wr_ascii_def swf_def stext_def split: option.splits)

lemma newrunes_wr:
  assumes "newrunes A (int n) = Some s" "length rs \<le> n" "rs \<noteq> []"
  shows "\<exists>t. wr_rune 0 rs (s\<lparr>z_len := - int (length rs)\<rparr>) = Some t \<and> swf t \<and> stext t = rs"
  using assms by (auto simp: newrunes_def wr_rune_def runes_of_def swf_def stext_def Let_def split: option.splits if_splits)

subsection \<open>Variables\<close>

text \<open>The variable \<open>d\<close> takes the text \<open>t\<close> and nothing else changes.\<close>

definition sets :: "nat \<Rightarrow> u16 list \<Rightarrow> sstate \<Rightarrow> sstate \<Rightarrow> bool" where
  "sets d t st st' \<longleftrightarrow> sinv st' \<and> length (fst st') = length (fst st) \<and> texts st' = (texts st)[d := t]"

lemma destroy_ok:
  assumes "sinv (vs, h)" "d < length vs"
  shows "\<exists>h'. destroy (vs ! d) h = Some h' \<and> length h' = length h \<and> (\<forall>q. vs ! d \<noteq> Some q \<longrightarrow> sget h' q = sget h q) \<and>
    (\<forall>q n s. vs ! d = Some q \<longrightarrow> sget h q = Some (n, s) \<longrightarrow> sget h' q = (if n > 1 then Some (n - 1, s) else None))"
proof (cases "vs ! d")
  case None
  then show ?thesis by (simp add: destroy_def)
next
  case (Some p)
  from sinvD [OF assms Some] obtain s where s: "sget h p = Some (count_list vs (Some p), s)" by blast
  show ?thesis using Some s sget_valid [OF s] by (auto simp: destroy_def sget_upd)
qed

lemma assign_ok:
  assumes "sinv (vs, h)" "d < length vs"
    "\<And>q. x = Some q \<Longrightarrow> \<exists>s. sget h' q = Some (count_list vs (Some q) + 1, s) \<and> swf s"
    "\<And>q. x \<noteq> Some q \<Longrightarrow> Some q \<in> set vs \<Longrightarrow> sget h' q = sget h q"
    "\<And>q s. x = Some q \<Longrightarrow> sget h' q = Some s \<Longrightarrow> Some q \<in> set vs \<Longrightarrow> \<exists>n. sget h q = Some (n, snd s)"
  shows "\<exists>st'. assign d x (vs, h') = Some st' \<and> sets d (vtext h' x) (vs, h) st'"
proof -
  let ?n = "\<lambda>q. count_list vs (Some q) + (if x = Some q then 1 else 0)"
  have live: "\<exists>s. sget h' q = Some (?n q, s) \<and> swf s" if "Some q \<in> set vs" for q
    using that assms(1,3,4) by (cases "x = Some q") (auto simp: sinv_def)
  obtain h1 where h1: "destroy (vs ! d) h' = Some h1" "\<forall>q. vs ! d \<noteq> Some q \<longrightarrow> sget h1 q = sget h' q"
    "\<forall>q n s. vs ! d = Some q \<longrightarrow> sget h' q = Some (n, s) \<longrightarrow> sget h1 q = (if n > 1 then Some (n - 1, s) else None)"
  proof (cases "vs ! d")
    case None
    then show thesis using that by (simp add: destroy_def)
  next
    case (Some p)
    then have "Some p \<in> set vs" using assms(2) by (metis nth_mem)
    from live [OF this] obtain s where s: "sget h' p = Some (?n p, s)" by blast
    show thesis by (rule that) (use Some s sget_valid [OF s] in \<open>auto simp: destroy_def sget_upd\<close>)
  qed
  let ?vs = "vs[d := x]"
  have cnt: "count_list ?vs y + (if vs ! d = y then 1 else 0) = count_list vs y + (if x = y then 1 else 0)" for y
    by (rule count_update [OF assms(2)])
  have keep: "\<exists>s. sget h1 q = Some (count_list ?vs (Some q), s) \<and> sget h' q = Some (?n q, s) \<and> swf s" if "Some q \<in> set ?vs" for q
  proof -
    have "\<exists>s. sget h' q = Some (?n q, s) \<and> swf s"
    proof (cases "x = Some q")
      case True
      then show ?thesis using assms(3) by simp
    next
      case False
      then have "Some q \<in> set vs" using that set_update_subset_insert [of vs d x] by auto
      then show ?thesis by (rule live)
    qed
    moreover have "0 < count_list ?vs (Some q)" using that by (rule count_pos)
    ultimately show ?thesis using h1(2,3) cnt [of "Some q"] by (cases "vs ! d = Some q") (auto split: if_splits)
  qed
  have "sinv (?vs, h1)" unfolding sinv_def using keep by fastforce
  moreover have "vtext h1 (?vs ! i) = vtext h' (?vs ! i)" if "i < length vs" for i
  proof (cases "?vs ! i")
    case (Some q)
    then have "Some q \<in> set ?vs" using that by (metis length_list_update nth_mem)
    from keep [OF this] show ?thesis using Some by auto
  qed simp
  moreover have "vtext h' (vs ! i) = vtext h (vs ! i)" if "i < length vs" for i
  proof (cases "vs ! i")
    case (Some q)
    then have q: "Some q \<in> set vs" using that by (metis nth_mem)
    show ?thesis
    proof (cases "x = Some q")
      case True
      from assms(3) [OF this] obtain s where s: "sget h' q = Some (count_list vs (Some q) + 1, s)" by blast
      from assms(5) [OF True s q] show ?thesis using Some s by auto
    next
      case False
      then show ?thesis using assms(4) q Some by (simp add: vtext_def)
    qed
  qed simp
  ultimately show ?thesis using h1(1) assms(2)
    by (auto simp: assign_def sets_def texts_def intro!: nth_equalityI simp: nth_list_update split: if_splits)
qed

lemma sinv_fresh: "sinv (vs, h) \<Longrightarrow> Some q \<in> set vs \<Longrightarrow> q < length h"
  using sget_valid by (fastforce simp: sinv_def)

lemma sdeliver_ok:
  assumes "sinv (vs, h)" "d < length vs" "swf ns"
  shows "\<exists>st'. sdeliver d (Inr ns) (vs, h) = Some (Inr (), st') \<and> sets d (stext ns) (vs, h) st'"
proof -
  let ?h = "h @ [Some (1, ns)]"
  have f: "Some (length h) \<notin> set vs" using sinv_fresh [OF assms(1)] by blast
  have g: "sget ?h q = (if q = length h then Some (1, ns) else sget h q)" for q by (simp add: sget_app)
  have "\<exists>st'. assign d (Some (length h)) (vs, ?h) = Some st' \<and> sets d (vtext ?h (Some (length h))) (vs, h) st'"
    by (rule assign_ok [OF assms(1,2)]) (use assms(3) f in \<open>auto simp: sget_app count_list_0_iff\<close>)
  then show ?thesis by (auto simp: sdeliver_def sget_app)
qed

lemma movp_ok:
  assumes "sinv (vs, h)" "s < length vs" "d < length vs"
  shows "\<exists>st'. movp s d (vs, h) = Some st' \<and> sets d (vtext h (vs ! s)) (vs, h) st'"
proof (cases "vs ! s")
  case None
  have "\<exists>st'. assign d None (vs, h) = Some st' \<and> sets d (vtext h None) (vs, h) st'"
    by (rule assign_ok [OF assms(1,3)]) simp_all
  then show ?thesis using None by (simp add: movp_def)
next
  case (Some p)
  from sinvD [OF assms(1,2) Some] obtain x where x: "sget h p = Some (count_list vs (Some p), x)" "swf x" by blast
  let ?h = "h[p := Some (count_list vs (Some p) + 1, x)]"
  have g: "sget ?h q = (if q = p then Some (count_list vs (Some p) + 1, x) else sget h q)" for q
    using sget_valid [OF x(1)] by (simp add: sget_upd)
  have "\<exists>st'. assign d (Some p) (vs, ?h) = Some st' \<and> sets d (vtext ?h (Some p)) (vs, h) st'"
    by (rule assign_ok [OF assms(1,3)]) (use x sget_valid [OF x(1)] in \<open>auto simp: sget_upd\<close>)
  then show ?thesis using Some x sget_valid [OF x(1)] by (auto simp: movp_def sget_upd)
qed

text \<open>Writing to a string that one variable holds.\<close>

lemma modify_ok:
  assumes "sinv (vs, h)" "d < length vs" "vs ! d = Some p" "sget h p = Some (n, s)" "n \<le> 1" "swf s'"
  shows "sets d (stext s') (vs, h) (vs, h[p := Some (n, s')])"
proof -
  let ?h = "h[p := Some (n, s')]"
  have n: "n = count_list vs (Some p)" using sinvD [OF assms(1-3)] assms(4) by auto
  have g: "sget ?h q = (if q = p then Some (n, s') else sget h q)" for q
    using sget_valid [OF assms(4)] by (simp add: sget_upd)
  have only: "vs ! i \<noteq> Some p" if "i < length vs" "i \<noteq> d" for i
  proof
    assume "vs ! i = Some p"
    then have "0 < count_list (vs[d := None]) (Some p)" using that by (intro count_pos) (metis length_list_update nth_list_update_neq nth_mem)
    moreover have "count_list (vs[d := None]) (Some p) + 1 = n" using count_update [OF assms(2), of None "Some p"] assms(3) n by simp
    ultimately show False using assms(5) by simp
  qed
  have "sinv (vs, ?h)" using assms(1,6) n sget_valid [OF assms(4)] by (auto simp: sinv_def sget_upd)
  moreover have "vtext ?h (vs ! i) = (if i = d then stext s' else vtext h (vs ! i))" if "i < length vs" for i
    using only [OF that] that assms(3) by (cases "vs ! i") (auto simp: vtext_def g)
  ultimately show ?thesis using assms(2)
    by (auto simp: sets_def texts_def intro!: nth_equalityI simp: nth_list_update)
qed

end
