(* ===== verification/DStrSpec.thy ===== *)
theory DStrSpec
  imports DStrInv
begin

text \<open>
  What each operation on Dis strings does to the texts of the variables.
\<close>

text \<open>A computed string is one with the text \<open>t\<close>, or there was no memory for it.\<close>

definition makes :: "u16 list \<Rightarrow> (disexn + dstring) option \<Rightarrow> bool" where
  "makes t x \<longleftrightarrow> x = Some (Inl ExHeap) \<or> (\<exists>s. x = Some (Inr s) \<and> swf s \<and> stext s = t)"

lemma nat_plus_1 [simp]: "nat (1 + int n) = Suc n" "nat (int n + 1) = Suc n"
  by simp_all

lemma newstring_len: "newstring A n = Some s \<Longrightarrow> s = s\<lparr>z_len := int n\<rparr>"
  by (auto simp: newstring_def split: option.splits)

lemma newrunes_len: "newrunes A (int n) = Some s \<Longrightarrow> n \<noteq> 0 \<Longrightarrow> s = s\<lparr>z_len := - int n\<rparr>"
  by (auto simp: newrunes_def split: option.splits)

lemma makes_ascii:
  assumes "\<forall>b\<in>set bs. b < 0x80" "length bs = n"
  shows "makes (map ucast bs) (case newstring A n of None \<Rightarrow> Some (Inl ExHeap)
     | Some ns \<Rightarrow> do { ns \<leftarrow> wr_ascii 0 bs ns; Some (Inr ns) })"
proof (cases "newstring A n")
  case (Some s)
  from newstring_wr [OF Some, of bs] newstring_len [OF Some] assms show ?thesis
    by (auto simp: makes_def Some)
qed (simp add: makes_def)

lemma makes_runes:
  assumes "length rs = n" "n \<noteq> 0"
  shows "makes rs (case newrunes A (int n) of None \<Rightarrow> Some (Inl ExHeap)
     | Some ns \<Rightarrow> do { ns \<leftarrow> wr_rune 0 rs ns; Some (Inr ns) })"
proof (cases "newrunes A (int n)")
  case (Some s)
  from newrunes_wr [OF Some, of rs] newrunes_len [OF Some assms(2)] assms show ?thesis
    by (cases "rs = []") (auto simp: makes_def Some)
qed (simp add: makes_def)

lemma stringdup_ok:
  assumes "swf s"
  shows "makes (stext s) (stringdup A s)"
proof (cases "0 \<le> z_len s")
  case True
  from rd_ascii_ok [OF assms True, of 0 "nat (z_len s)"] swf_len [OF assms] True obtain bs where bs:
    "rd_ascii 0 (nat (z_len s)) s = Some bs" "map ucast bs = stext s" "\<forall>b\<in>set bs. b < 0x80" "length bs = nat (z_len s)" by auto
  from makes_ascii [OF bs(3,4), of A] show ?thesis using True bs by (simp add: stringdup_def cong: option.case_cong)
next
  case False
  then have n: "z_len s = - int (length (stext s))" "stext s \<noteq> []" using swf_len [OF assms] by auto
  have "rd_rune 0 (length (stext s)) s = Some (stext s)" using rd_rune_ok [OF assms, of 0 "length (stext s)"] n(1) False by simp
  then show ?thesis using makes_runes [of "stext s" "length (stext s)" A] n False by (simp add: stringdup_def cong: option.case_cong)
qed

text \<open>What \<open>splitc\<close> makes is of the other kind when it expands.\<close>

lemma expand_ok:
  assumes "swf s" "z_len s > 0"
  shows "makes (stext s) (case newrunes A (z_len s) of None \<Rightarrow> Some (Inl ExHeap)
     | Some ns \<Rightarrow> do { rs \<leftarrow> cvtup s; ns \<leftarrow> wr_rune 0 rs ns; Some (Inr ns) })"
proof -
  have n: "z_len s = int (length (stext s))" using swf_len [OF assms(1)] assms(2) by simp
  have "cvtup s = Some (stext s)" using rd_text_ok [OF assms(1)] assms(2) by (simp add: rd_text_def)
  then show ?thesis using makes_runes [of "stext s" "length (stext s)" A] n assms(2) by (simp cong: option.case_cong)
qed

subsection \<open>Storing a character\<close>

definition store_char :: "u16 list \<Rightarrow> nat \<Rightarrow> u16 \<Rightarrow> u16 list option" where
  "store_char t v r = (if v < length t then Some (t[v := r]) else if v = length t then Some (t @ [r]) else None)"

definition stored :: "u16 list option \<Rightarrow> (disexn + bool \<times> dstring) option \<Rightarrow> bool" where
  "stored t x \<longleftrightarrow> (case t of
     None \<Rightarrow> x = Some (Inl ExBounds)
   | Some t \<Rightarrow> x = Some (Inl ExHeap) \<or> (\<exists>b s. x = Some (Inr (b, s)) \<and> swf s \<and> stext s = t))"

text \<open>A string that can hold runes: one of runes, or an empty one whose \<open>max\<close> counts runes.\<close>

definition rready :: "dstring \<Rightarrow> u16 list \<Rightarrow> bool" where
  "rready s t \<longleftrightarrow> z_len s = - int (length t) \<and> length t \<le> z_max s \<and> z_max s < length (runes_of (z_data s)) \<and>
     take (length t) (runes_of (z_data s)) = t \<and> rd_rune 0 (length t) s = Some t"

lemma rready_rune: "swf s \<Longrightarrow> z_len s < 0 \<Longrightarrow> rready s (stext s)"
  by (auto simp: rready_def swf_def stext_def runes_of_def rd_rune_def split: payload.splits)

lemma rready_fresh: "newstring A 0 = Some s \<Longrightarrow> rready (s\<lparr>z_max := z_max s div 2\<rparr>) []"
  by (auto simp: rready_def newstring_def runes_of_def rd_rune_def split: option.splits)

lemma nat_neg_int: "nat (- (- int n)) = n"
  by simp

lemma put_rune_ok:
  assumes "rready s t"
  shows "stored (store_char t v r) (put_rune A r v s)"
proof -
  from assms have s: "z_len s = - int (length t)" "length t \<le> z_max s" "z_max s < length (runes_of (z_data s))"
    "take (length t) (runes_of (z_data s)) = t" "rd_rune 0 (length t) s = Some t" by (auto simp: rready_def)
  let ?rs = "runes_of (z_data s)"
  consider "v < length t" | "v = length t" "v < z_max s" | "v = length t" "v \<ge> z_max s" | "v > length t" by linarith
  then show ?thesis
  proof cases
    case 1
    let ?s = "s\<lparr>z_data := Srune (take v ?rs @ r # drop (v + 1) ?rs)\<rparr>"
    have u: "take v ?rs @ r # drop (v + 1) ?rs = ?rs[v := r]" using 1 s(2,3) by (simp add: upd_conv_take_nth_drop)
    have "t[v := r] = (take (length t) ?rs)[v := r]" by (simp only: s(4))
    also have "\<dots> = take (length t) (?rs[v := r])" by (simp add: take_update_swap)
    finally have "stext ?s = t[v := r]" using s(1) unfolding u by (simp add: stext_def)
    moreover have "swf ?s" unfolding u using 1 s(1-3) by (auto simp: swf_def)
    ultimately show ?thesis using 1 s by (auto simp: put_rune_def stored_def store_char_def wr_rune_def Let_def)
  next
    case 2
    let ?s = "s\<lparr>z_len := - int (v + 1), z_data := Srune (take v ?rs @ r # drop (v + 1) ?rs)\<rparr>"
    have "stext ?s = t @ [r]" using 2 s by (simp add: stext_def min_def)
    moreover have "swf ?s" using 2 s(3) by (simp add: swf_def)
    ultimately show ?thesis using 2 s by (auto simp: put_rune_def stored_def store_char_def wr_rune_def Let_def)
  next
    case 3
    show ?thesis
    proof (cases "newstring A ((v + 1 + v div 4) * 2)")
      case None
      then show ?thesis using 3 s by (simp add: put_rune_def stored_def store_char_def)
    next
      case (Some ns)
      let ?k = "(v + 1 + v div 4) * 2"
      obtain k where ns: "ns = \<lparr>z_len = int ?k, z_max = ?k + k, z_data = Sascii (replicate (?k + k + 8) 0)\<rparr>"
        using Some by (auto simp: newstring_def split: option.splits)
      let ?zs = "replicate ((?k + k + 8) div 2) (0 :: u16)"
      have l: "length t + 1 \<le> (?k + k + 8) div 2" "length t + 1 \<le> (?k + k) div 2" using 3(1) by simp_all
      obtain ns2 where w: "do { ns \<leftarrow> wr_rune 0 t ns; wr_rune v [r] ns } = Some (ns\<lparr>z_data := Srune (t @ r # ns2)\<rparr>)"
        "length ns2 = (?k + k + 8) div 2 - (length t + 1)"
      proof (cases "t = []")
        case True
        have "do { ns \<leftarrow> wr_rune 0 t ns; wr_rune v [r] ns } = Some (ns\<lparr>z_data := Srune (t @ r # drop 1 ?zs)\<rparr>)"
          using True 3(1) l(1) unfolding ns by (simp add: wr_rune_def runes_of_def Let_def)
        then show thesis by (rule that) (use True in simp)
      next
        case False
        have "do { ns \<leftarrow> wr_rune 0 t ns; wr_rune v [r] ns } = Some (ns\<lparr>z_data := Srune (t @ r # drop 1 (drop (length t) ?zs))\<rparr>)"
          using False 3(1) l(1) unfolding ns by (simp add: wr_rune_def runes_of_def Let_def)
        then show thesis by (rule that) simp
      qed
      let ?s = "ns\<lparr>z_data := Srune (t @ r # ns2), z_len := - int (v + 1), z_max := (?k + k) div 2\<rparr>"
      have "stext ?s = t @ [r]" using 3(1) by (simp add: stext_def)
      moreover have "swf ?s"
      proof -
        have "length (t @ r # ns2) = (?k + k + 8) div 2" using w(2) l(1) by simp
        also have "\<dots> = (?k + k) div 2 + 4" by simp
        finally have "(?k + k) div 2 < length (t @ r # ns2)" by linarith
        then show ?thesis using l(2) 3(1) by (simp add: swf_def del: length_append)
      qed
      moreover have "put_rune A r v s = Some (Inr (True, ?s))" using 3 s Some w(1) ns
        by (auto simp: put_rune_def bind_eq_Some_conv Let_def)
      ultimately show ?thesis using 3 by (auto simp: stored_def store_char_def)
    qed
  next
    case 4
    then show ?thesis using s by (simp add: put_rune_def stored_def store_char_def)
  qed
qed

lemma put_ascii_ok:
  assumes "swf s" "0 \<le> z_len s" "r < 0x80"
  shows "stored (store_char (stext s) v (ucast r)) (put_ascii A r v s)"
proof -
  obtain bs where s: "z_data s = Sascii bs" "nat (z_len s) \<le> z_max s" "z_max s + SLOP \<le> length bs"
    "\<forall>b\<in>set (take (nat (z_len s)) bs). b < 0x80" "stext s = map ucast (take (nat (z_len s)) bs)"
    using swf_ascii [OF assms(1,2)] .
  define l where "l = nat (z_len s)"
  have l: "z_len s = int l" "l \<le> z_max s" "length (stext s) = l" using assms(2) s(2,3,5) by (simp_all add: l_def)
  have a: "\<forall>b\<in>set (take l bs). b < 0x80" "stext s = map ucast (take l bs)" using s(4,5) by (simp_all add: l_def)
  consider "v < l" | "v = l" "v < z_max s" | "v = l" "v \<ge> z_max s" | "v > l" by linarith
  then show ?thesis
  proof cases
    case 1
    let ?bs = "take v bs @ r # drop (v + 1) bs"
    have u: "?bs = bs[v := r]" using 1 l(2) s(3) by (simp add: upd_conv_take_nth_drop)
    have "swf (s\<lparr>z_data := Sascii ?bs\<rparr>)" unfolding u using 1 l s(3) a(1) assms(3) set_update_subset_insert [of "take l bs" v r]
      by (auto simp: swf_def take_update_swap)
    moreover have "stext (s\<lparr>z_data := Sascii ?bs\<rparr>) = (stext s)[v := ucast r]"
      unfolding u a(2) using l by (simp add: stext_def take_update_swap map_update)
    ultimately show ?thesis using 1 l s by (auto simp: put_ascii_def stored_def store_char_def wr_ascii_def)
  next
    case 2
    let ?s = "s\<lparr>z_len := int (v + 1), z_data := Sascii (take v bs @ r # drop (v + 1) bs)\<rparr>"
    have "stext ?s = stext s @ [ucast r]" unfolding a(2) using 2 l s(3) by (simp add: stext_def min_def)
    moreover have "swf ?s" using 2 l s(3) a(1) assms(3) by (auto simp: swf_def min_def)
    ultimately show ?thesis using 2 l s by (auto simp: put_ascii_def stored_def store_char_def wr_ascii_def)
  next
    case 3
    show ?thesis
    proof (cases "newstring A (v + 1 + v div 4)")
      case None
      then show ?thesis using 3 l by (simp add: put_ascii_def stored_def store_char_def)
    next
      case (Some ns)
      let ?k = "v + 1 + v div 4"
      obtain k where ns: "ns = \<lparr>z_len = int ?k, z_max = ?k + k, z_data = Sascii (replicate (?k + k + 8) 0)\<rparr>"
        using Some by (auto simp: newstring_def split: option.splits)
      let ?s = "ns\<lparr>z_data := Sascii (take l bs @ r # drop (l + 1) (replicate (?k + k + 8) 0)), z_len := int (v + 1)\<rparr>"
      have ln: "length (take l bs) = l" using l(2) s(3) by simp
      have "put_ascii A r v s = Some (Inr (True, ?s))" using 3 l s(1,3) Some ln
        by (simp add: put_ascii_def rd_ascii_def wr_ascii_def ns)
      moreover have "stext ?s = stext s @ [ucast r]" unfolding a(2) using 3 ln by (simp add: stext_def)
      moreover have "swf ?s" using 3 l s(3) a(1) assms(3) ln by (auto simp: swf_def ns)
      ultimately show ?thesis using 3 l by (auto simp: stored_def store_char_def)
    qed
  next
    case 4
    then show ?thesis using l by (simp add: put_ascii_def stored_def store_char_def)
  qed
qed

text \<open>The character that \<open>insc\<close> stores is cut to a rune.\<close>

lemma insc_put_ok:
  assumes "sinv (vs, h)" "d < length vs" "vs ! d = Some p" "sget h p = Some (n, s)" "n \<le> 1"
    "0 \<le> r" "0 \<le> z_len s \<Longrightarrow> r < 128"
  shows "case store_char (stext s) v (of_int r) of
      None \<Rightarrow> insc_put A r v d p (vs, h) = Some (Inl ExBounds, vs, h)
    | Some t \<Rightarrow> insc_put A r v d p (vs, h) = Some (Inl ExHeap, vs, h) \<or>
        (\<exists>st'. insc_put A r v d p (vs, h) = Some (Inr (), st') \<and> sets d t (vs, h) st')"
proof -
  have w: "swf s" using sinvD [OF assms(1-3)] assms(4) by auto
  let ?x = "if z_len s < 0 \<or> r \<ge> 128 then put_rune A (of_int r) v s else put_ascii A (of_int r) v s"
  have "stored (store_char (stext s) v (of_int r)) ?x"
  proof (cases "z_len s < 0")
    case True
    then show ?thesis using put_rune_ok [OF rready_rune [OF w True], of v "of_int r" A] by simp
  next
    case False
    then have r: "r < 128" "0 \<le> z_len s" using assms(7) by simp_all
    have "(of_int r :: u8) < 0x80" "ucast (of_int r :: u8) = (of_int r :: u16)"
      using r(1) assms(6) by (simp_all add: word_less_def uint_word_of_int word_uint_eq_iff unsigned_ucast_eq take_bit_eq_mod)
    then show ?thesis using put_ascii_ok [OF w r(2), of "of_int r" v A] r False by simp
  qed
  then consider (bounds) "store_char (stext s) v (of_int r) = None" "?x = Some (Inl ExBounds)"
    | (full) t where "store_char (stext s) v (of_int r) = Some t" "?x = Some (Inl ExHeap)"
    | (made) t b s' where "store_char (stext s) v (of_int r) = Some t" "?x = Some (Inr (b, s'))" "swf s'" "stext s' = t"
    by (cases "store_char (stext s) v (of_int r)") (auto simp: stored_def)
  then show ?thesis
  proof cases
    case made
    show ?thesis
    proof (cases b)
      case True
      then have "insc_put A r v d p (vs, h) = sdeliver d (Inr s') (vs, h)" using made assms(4) by (simp add: insc_put_def)
      then show ?thesis using sdeliver_ok [OF assms(1,2) made(3)] made by simp
    next
      case False
      then have "insc_put A r v d p (vs, h) = Some (Inr (), vs, h[p := Some (n, s')])"
        using made assms(3,4) by (simp add: insc_put_def)
      then show ?thesis using modify_ok [OF assms(1-5) made(3)] made by simp
    qed
  qed (use assms(4) in \<open>simp_all add: insc_put_def\<close>)
qed

subsection \<open>Operations\<close>

definition same :: "sstate \<Rightarrow> sstate \<Rightarrow> bool" where
  "same st st' \<longleftrightarrow> sinv st' \<and> length (fst st') = length (fst st) \<and> texts st' = texts st"

text \<open>The variable \<open>d\<close> gets the text that \<open>spec\<close> says, or the error is raised that it says, or memory has run out.\<close>

definition outcome :: "nat \<Rightarrow> disexn + u16 list \<Rightarrow> sstate \<Rightarrow> ((disexn + unit) \<times> sstate) option \<Rightarrow> bool" where
  "outcome d spec st x \<longleftrightarrow> (\<exists>y st'. x = Some (y, st') \<and>
     (case y of
        Inl e \<Rightarrow> same st st' \<and> (e = ExHeap \<or> spec = Inl e)
      | Inr _ \<Rightarrow> (\<exists>t. spec = Inr t \<and> sets d t st st')))"

lemma outcomeE:
  assumes "outcome d spec st x"
  obtains (raised) e st' where "x = Some (Inl e, st')" "same st st'" "e = ExHeap \<or> spec = Inl e"
    | (stored) t st' where "x = Some (Inr (), st')" "spec = Inr t" "sets d t st st'"
proof -
  obtain y st' where y: "x = Some (y, st')" "case y of Inl e \<Rightarrow> same st st' \<and> (e = ExHeap \<or> spec = Inl e)
      | Inr _ \<Rightarrow> (\<exists>t. spec = Inr t \<and> sets d t st st')" using assms unfolding outcome_def by (elim exE conjE)
  show thesis
  proof (cases y)
    case (Inl e)
    then show thesis using y that(1) [of e st'] by simp
  next
    case (Inr u)
    then obtain t where "spec = Inr t" "sets d t st st'" using y(2) by auto
    then show thesis using y(1) Inr that(2) [of st' t] by simp
  qed
qed

lemma outcome_error: "e = ExHeap \<or> spec = Inl e \<Longrightarrow> same st st' \<Longrightarrow> outcome d spec st (Some (Inl e, st'))"
  by (auto simp: outcome_def)

lemma outcome_sets: "\<exists>st'. x = Some (Inr (), st') \<and> sets d t st st' \<Longrightarrow> spec = Inr t \<Longrightarrow> outcome d spec st x"
  by (auto simp: outcome_def)

lemma same_refl: "sinv st \<Longrightarrow> same st st"
  by (simp add: same_def)

lemma outcome_same: "outcome d spec st1 x \<Longrightarrow> same st st1 \<Longrightarrow> outcome d spec st x"
  unfolding outcome_def same_def sets_def by (fastforce split: sum.splits)

lemma texts_nth: "d < length vs \<Longrightarrow> texts (vs, h) ! d = vtext h (vs ! d)"
  by (simp add: texts_def)

lemma sets_same: "sets d (vtext h (vs ! d)) (vs, h) st' \<Longrightarrow> d < length vs \<Longrightarrow> same (vs, h) st'"
  by (auto simp: sets_def same_def texts_nth [symmetric])

lemma same_garbage:
  assumes "sinv (vs, h)"
  shows "same (vs, h) (vs, h @ xs)"
proof -
  have g: "sget (h @ xs) q = sget h q" if "Some q \<in> set vs" for q
    using sinv_fresh [OF assms that] by (simp add: sget_def nth_append)
  then have "sinv (vs, h @ xs)" using assms by (simp add: sinv_def)
  moreover have "vtext (h @ xs) v = vtext h v" if "v \<in> set vs" for v using g that by (cases v) (simp_all add: vtext_def)
  ultimately show ?thesis by (simp add: same_def texts_def)
qed

definition spec_of :: "u16 list option \<Rightarrow> disexn + u16 list" where
  "spec_of t = (case t of None \<Rightarrow> Inl ExBounds | Some t \<Rightarrow> Inr t)"

lemma insc_put_outcome:
  assumes "sinv (vs, h)" "d < length vs" "vs ! d = Some p" "sget h p = Some (n, s)" "n \<le> 1"
    "0 \<le> r" "0 \<le> z_len s \<Longrightarrow> r < 128"
  shows "outcome d (spec_of (store_char (stext s) v (of_int r))) (vs, h) (insc_put A r v d p (vs, h))"
  using insc_put_ok [OF assms, of A v] same_refl [OF assms(1)]
  by (auto simp: outcome_def spec_of_def split: option.splits)

lemma insc_new_outcome:
  assumes "sinv (vs, h)" "d < length vs" "vs ! d = None" "0 \<le> r" "if r \<ge> 128 then rready s [] else swf s \<and> z_len s = 0"
  shows "outcome d (spec_of (store_char [] v (of_int r))) (vs, h) (insc_put A r v d (length h) (vs, h @ [Some (1, s)]))"
proof -
  let ?x = "if z_len s < 0 \<or> r \<ge> 128 then put_rune A (of_int r) v s else put_ascii A (of_int r) v s"
  have st: "stored (store_char [] v (of_int r)) ?x"
  proof (cases "r \<ge> 128")
    case True
    then show ?thesis using put_rune_ok [of s "[]" v "of_int r" A] assms(5) by simp
  next
    case False
    then have s: "swf s" "z_len s = 0" "stext s = []" using assms(5) swf_len [of s] by auto
    have "(of_int r :: u8) < 0x80" "ucast (of_int r :: u8) = (of_int r :: u16)"
      using False assms(4) by (simp_all add: word_less_def uint_word_of_int word_uint_eq_iff unsigned_ucast_eq take_bit_eq_mod)
    then show ?thesis using put_ascii_ok [of s "of_int r" v A] s False by simp
  qed
  have g: "sget (h @ [Some (1, s)]) (length h) = Some (1, s)" by (simp add: sget_app)
  note gb = same_garbage [OF assms(1), of "[Some (1, s)]"]
  from st consider (bounds) "store_char [] v (of_int r) = None" "?x = Some (Inl ExBounds)"
    | (full) t where "store_char [] v (of_int r) = Some t" "?x = Some (Inl ExHeap)"
    | (made) t b s' where "store_char [] v (of_int r) = Some t" "?x = Some (Inr (b, s'))" "swf s'" "stext s' = t"
    by (cases "store_char [] v (of_int r)") (auto simp: stored_def)
  then show ?thesis
  proof cases
    case bounds
    then have "insc_put A r v d (length h) (vs, h @ [Some (1, s)]) = Some (Inl ExBounds, vs, h @ [Some (1, s)])"
      using g by (simp add: insc_put_def)
    then show ?thesis using gb bounds by (simp add: spec_of_def outcome_error)
  next
    case full
    then have "insc_put A r v d (length h) (vs, h @ [Some (1, s)]) = Some (Inl ExHeap, vs, h @ [Some (1, s)])"
      using g by (simp add: insc_put_def)
    then show ?thesis using gb by (simp add: outcome_error)
  next
    case made
    show ?thesis
    proof (cases b)
      case True
      have "sinv (vs, h @ [Some (1, s)])" using gb by (simp add: same_def)
      from sdeliver_ok [OF this assms(2) made(3)]
      have "outcome d (spec_of (store_char [] v (of_int r))) (vs, h @ [Some (1, s)]) (sdeliver d (Inr s') (vs, h @ [Some (1, s)]))"
        by (rule outcome_sets) (simp add: spec_of_def made)
      then show ?thesis using outcome_same [OF _ gb] True made g by (simp add: insc_put_def)
    next
      case False
      have "(h @ [Some (1, s)])[length h := Some (1, s')] = h @ [Some (1, s')]" by simp
      then have "insc_put A r v d (length h) (vs, h @ [Some (1, s)]) = sdeliver d (Inr s') (vs, h)"
        using False made g assms(3) by (simp add: insc_put_def sdeliver_def)
      then show ?thesis using sdeliver_ok [OF assms(1,2) made(3)] made by (auto simp: spec_of_def intro!: outcome_sets)
    qed
  qed
qed

lemma destroy_app: "p < length h \<Longrightarrow> destroy (Some p) (h @ [x]) = map_option (\<lambda>h. h @ [x]) (destroy (Some p) h)"
  by (cases "h ! p") (auto simp: destroy_def sget_def nth_append list_update_append)

lemma splitc_ok:
  assumes "sinv (vs, h)" "d < length vs" "vs ! d = Some p" "sget h p = Some (n, s)"
  shows "splitc A expand d (vs, h) = Some (Inl ExHeap, vs, h) \<or>
    (\<exists>q vs' h' s'. splitc A expand d (vs, h) = Some (Inr q, vs', h') \<and> same (vs, h) (vs', h') \<and> vs' ! d = Some q \<and>
       sget h' q = Some (1, s') \<and> stext s' = stext s \<and> (z_len s < 0 \<or> expand \<and> z_len s > 0 \<longrightarrow> z_len s' < 0))"
proof -
  have w: "swf s" using sinvD [OF assms(1-3)] assms(4) by auto
  let ?x = "if expand \<and> z_len s > 0 then
      (case newrunes A (z_len s) of
         None \<Rightarrow> Some (Inl ExHeap)
       | Some ns \<Rightarrow> do { rs \<leftarrow> cvtup s; ns \<leftarrow> wr_rune 0 rs ns; Some (Inr ns) })
    else stringdup A s"
  have "makes (stext s) ?x" using stringdup_ok [OF w, of A] expand_ok [OF w, of A] by simp
  then consider "?x = Some (Inl ExHeap)" | ns where "?x = Some (Inr ns)" "swf ns" "stext ns = stext s" by (auto simp: makes_def)
  then show ?thesis
  proof cases
    case 1
    then show ?thesis using assms(3,4) by (simp add: splitc_def split del: if_split cong del: if_weak_cong)
  next
    case 2
    obtain h1 where h1: "destroy (Some p) h = Some h1" "length h1 = length h" using destroy_ok [OF assms(1,2)] assms(3) by auto
    have "p < length h" using sget_valid [OF assms(4)] .
    then have "destroy (Some p) (h @ [Some (1, ns)]) = Some (h1 @ [Some (1, ns)])" using h1 by (simp add: destroy_app)
    then have d: "sdeliver d (Inr ns) (vs, h) = Some (Inr (), vs[d := Some (length h)], h1 @ [Some (1, ns)])"
      using assms(3) by (simp add: sdeliver_def assign_def)
    from sdeliver_ok [OF assms(1,2) 2(2)] d have "sets d (stext ns) (vs, h) (vs[d := Some (length h)], h1 @ [Some (1, ns)])" by simp
    then have s: "same (vs, h) (vs[d := Some (length h)], h1 @ [Some (1, ns)])"
      using sets_same [OF _ assms(2)] assms(3,4) 2(3) by simp
    have "splitc A expand d (vs, h) = Some (Inr (length h1), vs[d := Some (length h1)], h1 @ [Some (1, ns)])"
      using assms(3,4) 2(1) h1 by (simp add: splitc_def split del: if_split cong del: if_weak_cong)
    moreover have "z_len ns < 0" if "z_len s < 0 \<or> expand \<and> z_len s > 0"
      using 2(1) that
      by (auto simp: stringdup_def newrunes_def wr_rune_def Let_def bind_eq_Some_conv split: option.splits if_splits)
    ultimately show ?thesis using s h1(2) 2(3) assms(2) by (simp add: sget_app)
  qed
qed

text \<open>The one case that goes wrong: a wide character into a string that is empty but not nil.\<close>

definition wide_empty :: "int \<Rightarrow> nat \<Rightarrow> sstate \<Rightarrow> bool" where
  "wide_empty r d st = (case st of (vs, h) \<Rightarrow>
     (case vs ! d of None \<Rightarrow> False | Some p \<Rightarrow>
        (case sget h p of None \<Rightarrow> False | Some (n, s) \<Rightarrow> r \<ge> 128 \<and> z_len s = 0)))"

lemma insc_ok:
  assumes "sinv (vs, h)" "d < length vs" "0 \<le> r" "\<not> wide_empty r d (vs, h)"
  shows "outcome d (spec_of (store_char (vtext h (vs ! d)) (unat v) (of_int r))) (vs, h) (insc A r v d (vs, h))"
proof (cases "vs ! d")
  case None
  show ?thesis
  proof (cases "newstring A 0")
    case n: None
    then show ?thesis using None same_refl [OF assms(1)] by (simp add: insc_def outcome_error)
  next
    case (Some s)
    have "swf s" "z_len s = 0" using Some by (auto simp: newstring_def swf_def split: option.splits)
    then have "if r \<ge> 128 then rready (if r \<ge> 128 then s\<lparr>z_max := z_max s div 2\<rparr> else s) []
        else swf (if r \<ge> 128 then s\<lparr>z_max := z_max s div 2\<rparr> else s) \<and> z_len (if r \<ge> 128 then s\<lparr>z_max := z_max s div 2\<rparr> else s) = 0"
      using rready_fresh [OF Some] by simp
    from insc_new_outcome [OF assms(1,2) None assms(3) this, of "unat v" A]
    show ?thesis using None Some by (simp add: insc_def Let_def)
  qed
next
  case (Some p)
  from sinvD [OF assms(1,2) Some] obtain s where s: "sget h p = Some (count_list vs (Some p), s)" "swf s" by blast
  let ?n = "count_list vs (Some p)"
  show ?thesis
  proof (cases "?n > 1 \<or> r \<ge> 128 \<and> z_len s > 0")
    case False
    then have "insc A r v d (vs, h) = insc_put A r (unat v) d p (vs, h)" using Some s by (auto simp: insc_def)
    moreover have "0 \<le> z_len s \<Longrightarrow> r < 128" using False assms(4) Some s by (auto simp: wide_empty_def)
    ultimately show ?thesis using insc_put_outcome [OF assms(1,2) Some s(1) _ assms(3)] False Some s by simp
  next
    case True
    from splitc_ok [OF assms(1,2) Some s(1), of A "r \<ge> 128"] consider
        "splitc A (r \<ge> 128) d (vs, h) = Some (Inl ExHeap, vs, h)"
      | q vs' h' s' where "splitc A (r \<ge> 128) d (vs, h) = Some (Inr q, vs', h')" "same (vs, h) (vs', h')" "vs' ! d = Some q"
        "sget h' q = Some (1, s')" "stext s' = stext s" "z_len s < 0 \<or> r \<ge> 128 \<and> z_len s > 0 \<longrightarrow> z_len s' < 0" by blast
    then show ?thesis
    proof cases
      case 1
      then show ?thesis using True Some s same_refl [OF assms(1)] by (simp add: insc_def outcome_error)
    next
      case 2
      have i: "sinv (vs', h')" "d < length vs'" using 2(2) assms(2) by (simp_all add: same_def)
      have "swf s'" using sinvD [OF i 2(3)] 2(4) by auto
      have "r < 128" if "0 \<le> z_len s'"
      proof (rule ccontr)
        assume "\<not> r < 128"
        then have "z_len s \<noteq> 0" using assms(4) Some s by (auto simp: wide_empty_def)
        then show False using 2(6) that \<open>\<not> r < 128\<close> by auto
      qed
      from insc_put_outcome [OF i 2(3,4) _ assms(3) this, of "unat v" A] 2(5)
      have "outcome d (spec_of (store_char (stext s) (unat v) (of_int r))) (vs', h') (insc_put A r (unat v) d q (vs', h'))" by simp
      from outcome_same [OF this 2(2)] show ?thesis using True Some s 2(1) by (simp add: insc_def)
    qed
  qed
qed

end
