(* ===== verification/DStrOps.thy ===== *)
theory DStrOps
  imports DStrSpec
begin

text \<open>
  Slices, concatenation and decoding of Dis strings.
\<close>

subsection \<open>Slices\<close>

definition slice_of :: "nat \<Rightarrow> nat \<Rightarrow> u16 list \<Rightarrow> disexn + u16 list" where
  "slice_of i j t = (if j < i \<or> j > length t then Inl ExBounds else Inr (take (j - i) (drop i t)))"

lemma slicer_ok:
  assumes "swf s"
  shows "slicer A i j (Some s) = Some (Inl ExHeap) \<or>
    (case slice_of i j (stext s) of
       Inl e \<Rightarrow> slicer A i j (Some s) = Some (Inl e)
     | Inr t \<Rightarrow> if t = [] then slicer A i j (Some s) = Some (Inr None)
              else \<exists>x. slicer A i j (Some s) = Some (Inr (Some x)) \<and> swf x \<and> stext x = t)"
proof -
  have l: "length (stext s) = nat \<bar>z_len s\<bar>" by (rule swf_len [OF assms])
  show ?thesis
  proof (cases "j < i \<or> j > length (stext s)")
    case True
    then show ?thesis using l by (auto simp: slicer_def slice_of_def Let_def)
  next
    case False
    let ?t = "take (j - i) (drop i (stext s))"
    have t: "slice_of i j (stext s) = Inr ?t" "length ?t = j - i" "?t = [] \<longleftrightarrow> j - i = 0" using False by (auto simp: slice_of_def)
    show ?thesis
    proof (cases "j - i = 0")
      case True
      then show ?thesis using False l t by (auto simp: slicer_def Let_def)
    next
      case nz: False
      show ?thesis
      proof (cases "z_len s < 0")
        case True
        have r: "rd_rune i (j - i) s = Some ?t" by (rule rd_rune_ok [OF assms True]) (use False l nz True in auto)
        have "makes ?t (case newrunes A (int (j - i)) of None \<Rightarrow> Some (Inl ExHeap)
          | Some ns \<Rightarrow> do { ns \<leftarrow> wr_rune 0 ?t ns; Some (Inr ns) })" by (rule makes_runes [OF t(2) nz])
        then show ?thesis using False l t nz True r
          by (auto simp: slicer_def makes_def Let_def bind_eq_Some_conv split: option.splits)
      next
        case asc: False
        obtain bs where b: "rd_ascii i (j - i) s = Some bs" "map ucast bs = ?t" "\<forall>b\<in>set bs. b < 0x80" "length bs = j - i"
          using rd_ascii_ok [OF assms, of i "j - i"] asc False l nz by auto
        from makes_ascii [OF b(3,4), of A] show ?thesis using False l t nz asc b
          by (auto simp: slicer_def makes_def Let_def bind_eq_Some_conv split: option.splits)
      qed
    qed
  qed
qed

lemma slicec_ok:
  assumes "sinv (vs, h)" "d < length vs"
  shows "outcome d (slice_of (unat s) (unat m) (vtext h (vs ! d))) (vs, h) (slicec A s m d (vs, h))"
proof -
  have clear: "\<exists>st'. assign d None (vs, h) = Some st' \<and> sets d (vtext h None) (vs, h) st'"
    by (rule assign_ok [OF assms]) simp_all
  show ?thesis
  proof (cases "vs ! d")
    case None
    then show ?thesis using clear same_refl [OF assms(1)]
      by (auto simp: slicec_def sval_def slicer_def slice_of_def outcome_def)
  next
    case (Some p)
    from sinvD [OF assms Some] obtain x where x: "sget h p = Some (count_list vs (Some p), x)" "swf x" by blast
    have u: "slicec A s m d (vs, h) = Option.bind (slicer A (unat s) (unat m) (Some x)) (\<lambda>y. case y of
        Inl e \<Rightarrow> Some (Inl e, vs, h)
      | Inr None \<Rightarrow> Option.bind (assign d None (vs, h)) (\<lambda>st. Some (Inr (), st))
      | Inr (Some ns) \<Rightarrow> sdeliver d (Inr ns) (vs, h))"
      using Some x by (simp add: slicec_def sval_def)
    note r = same_refl [OF assms(1)]
    have t: "vtext h (vs ! d) = stext x" using Some x by simp
    from slicer_ok [OF x(2), of A "unat s" "unat m"] consider
        "slicer A (unat s) (unat m) (Some x) = Some (Inl ExHeap)"
      | e where "slice_of (unat s) (unat m) (stext x) = Inl e" "slicer A (unat s) (unat m) (Some x) = Some (Inl e)"
      | "slice_of (unat s) (unat m) (stext x) = Inr []" "slicer A (unat s) (unat m) (Some x) = Some (Inr None)"
      | y where "slice_of (unat s) (unat m) (stext x) = Inr (stext y)" "slicer A (unat s) (unat m) (Some x) = Some (Inr (Some y))" "swf y"
      by (auto split: sum.splits if_splits)
    then show ?thesis
    proof cases
      case 1
      then show ?thesis using r by (simp add: u t outcome_error)
    next
      case 2
      then show ?thesis using r by (simp add: u t outcome_error)
    next
      case 3
      then show ?thesis using clear by (intro outcome_sets) (auto simp: u t)
    next
      case 4
      then show ?thesis using sdeliver_ok [OF assms 4(3)] by (intro outcome_sets) (auto simp: u t)
    qed
  qed
qed

subsection \<open>Concatenation\<close>

lemma same_data: "z_data s = d \<Longrightarrow> s\<lparr>z_data := d\<rparr> = s"
  by (metis dstring.surjective dstring.update_convs(3))

lemma wr_rune_at: "z_data s = Srune zs \<Longrightarrow> i + length b \<le> length zs \<Longrightarrow>
    wr_rune i b s = Some (s\<lparr>z_data := Srune (take i zs @ b @ drop (i + length b) zs)\<rparr>)"
  using same_data [of s] by (cases "b = []") (simp_all add: wr_rune_def runes_of_def Let_def)

lemma wr_ascii_at: "z_data s = Sascii zs \<Longrightarrow> i + length b \<le> length zs \<Longrightarrow>
    wr_ascii i b s = Some (s\<lparr>z_data := Sascii (take i zs @ b @ drop (i + length b) zs)\<rparr>)"
  by (simp add: wr_ascii_def)

lemma wr_rune_two:
  assumes "z_data s = Srune zs" "length a + length b \<le> length zs"
  shows "\<exists>s1 ys. wr_rune 0 a s = Some s1 \<and> wr_rune (length a) b s1 = Some (s\<lparr>z_data := Srune (a @ b @ ys)\<rparr>) \<and>
    length (a @ b @ ys) = length zs"
proof -
  let ?s = "s\<lparr>z_data := Srune (a @ drop (length a) zs)\<rparr>"
  have "wr_rune 0 a s = Some ?s" using wr_rune_at [OF assms(1), of 0 a] assms(2) by simp
  moreover have "wr_rune (length a) b ?s = Some (s\<lparr>z_data := Srune (a @ b @ drop (length a + length b) zs)\<rparr>)"
    using wr_rune_at [of ?s "a @ drop (length a) zs" "length a" b] assms(2) by (simp add: ac_simps)
  moreover have "length (a @ b @ drop (length a + length b) zs) = length zs" using assms by simp
  ultimately show ?thesis by blast
qed

lemma wr_ascii_two:
  assumes "z_data s = Sascii zs" "length a + length b \<le> length zs"
  shows "\<exists>s1 ys. wr_ascii 0 a s = Some s1 \<and> wr_ascii (length a) b s1 = Some (s\<lparr>z_data := Sascii (a @ b @ ys)\<rparr>) \<and>
    length (a @ b @ ys) = length zs"
proof -
  let ?s = "s\<lparr>z_data := Sascii (a @ drop (length a) zs)\<rparr>"
  have "wr_ascii 0 a s = Some ?s" using assms by (simp add: wr_ascii_def)
  moreover have "wr_ascii (length a) b ?s = Some (s\<lparr>z_data := Sascii (a @ b @ drop (length a + length b) zs)\<rparr>)"
    using assms by (simp add: wr_ascii_def ac_simps)
  moreover have "length (a @ b @ drop (length a + length b) zs) = length zs" using assms by simp
  ultimately show ?thesis by blast
qed

lemma stext_two_runes: "z_data x = Srune (a @ b @ ys) \<Longrightarrow> z_len x = - int (length a + length b) \<Longrightarrow> stext x = a @ b"
proof -
  assume a: "z_data x = Srune (a @ b @ ys)" "z_len x = - int (length a + length b)"
  then have "nat (- z_len x) = length (a @ b)" by simp
  then have "take (nat (- z_len x)) ((a @ b) @ ys) = a @ b" by simp
  then show ?thesis using a(1) by (simp add: stext_def)
qed

lemma take_two_ascii: "z_data x = Sascii (a @ b @ ys) \<Longrightarrow> z_len x = int (length a + length b) \<Longrightarrow>
    take (nat (z_len x)) (a @ b @ ys) = a @ b"
proof -
  assume a: "z_data x = Sascii (a @ b @ ys)" "z_len x = int (length a + length b)"
  then have "nat (z_len x) = length (a @ b)" by simp
  then have "take (nat (z_len x)) ((a @ b) @ ys) = a @ b" by simp
  then show ?thesis by simp
qed

lemma stext_two_ascii:
  assumes "z_data x = Sascii (a @ b @ ys)" "z_len x = int (length a + length b)"
  shows "stext x = map ucast a @ map ucast b"
  using assms(1) take_two_ascii [OF assms] by (simp add: stext_def)

lemma rd_ascii_whole:
  assumes "swf s" "0 \<le> z_len s"
  obtains bs where "rd_ascii 0 (nat (z_len s)) s = Some bs" "map ucast bs = stext s" "\<forall>b\<in>set bs. b < 0x80"
    "length bs = nat (z_len s)"
  using rd_ascii_ok [OF assms, of 0 "nat (z_len s)"] swf_len [OF assms(1)] assms(2) by auto

lemma newrunes_form: "newrunes A (int n) = Some s \<Longrightarrow> n \<noteq> 0 \<Longrightarrow>
    \<exists>k. s = \<lparr>z_len = - int n, z_max = (2 * n + k) div 2, z_data = Srune (replicate ((2 * n + k + SLOP) div 2) 0)\<rparr>"
  by (auto simp: newrunes_def Let_def split: option.splits)

lemma newstring_form: "newstring A n = Some s \<Longrightarrow>
    \<exists>k. s = \<lparr>z_len = int n, z_max = n + k, z_data = Sascii (replicate (n + k + SLOP) 0)\<rparr>"
  by (auto simp: newstring_def split: option.splits)

lemma add_new_ok:
  assumes "swf s" "swf t"
  shows "makes (stext s @ stext t) (add_new A app s t)"
proof -
  let ?l1 = "length (stext s)" and ?l2 = "length (stext t)"
  let ?l = "?l1 + ?l2"
  define R where "R = (if app then ?l + ?l div 4 else ?l)"
  have R: "?l \<le> R" by (simp add: R_def)
  have l: "nat \<bar>z_len s\<bar> = ?l1" "nat \<bar>z_len t\<bar> = ?l2" using swf_len assms by simp_all
  show ?thesis
  proof (cases "z_len s < 0 \<or> z_len t < 0")
    case True
    then have nz: "?l > 0" using l by linarith
    show ?thesis
    proof (cases "newrunes A (int R)")
      case None
      then show ?thesis using True by (simp add: add_new_def Let_def l makes_def R_def [symmetric])
    next
      case (Some ns)
      then obtain k where ns: "ns = \<lparr>z_len = - int R, z_max = (2 * R + k) div 2, z_data = Srune (replicate ((2 * R + k + 8) div 2) 0)\<rparr>"
        using newrunes_form [OF Some] nz R by auto
      have k: "(2 * R + k + 8) div 2 = (2 * R + k) div 2 + 4" by simp
      have "?l \<le> R" "R \<le> (2 * R + k) div 2" using R by simp_all
      then have le: "?l \<le> z_max ns" "z_max ns < length (replicate ((2 * R + k + 8) div 2) (0 :: u16))" unfolding ns length_replicate k by simp_all
      let ?n = "ns\<lparr>z_len := - int ?l\<rparr>"
      have "length (stext s) + length (stext t) \<le> length (replicate ((2 * R + k + 8) div 2) (0 :: u16))" using le by linarith
      from wr_rune_two [OF _ this, of ?n]
      obtain s1 ys where w: "wr_rune 0 (stext s) ?n = Some s1" "wr_rune ?l1 (stext t) s1 = Some (?n\<lparr>z_data := Srune (stext s @ stext t @ ys)\<rparr>)"
        "length (stext s @ stext t @ ys) = length (replicate ((2 * R + k + 8) div 2) (0 :: u16))"
        unfolding ns by auto
      let ?x = "?n\<lparr>z_data := Srune (stext s @ stext t @ ys)\<rparr>"
      have "stext ?x = stext s @ stext t" by (rule stext_two_runes [of _ _ _ ys]) simp_all
      moreover have "z_max ns < length (stext s @ stext t @ ys)" using le(2) w(3) by simp
      then have "swf ?x" using le(1) nz by (simp add: swf_def del: length_append of_nat_add)
      ultimately have x: "swf ?x" "stext ?x = stext s @ stext t" by blast+
      have "add_new A app s t = Some (Inr ?x)"
        using True Some w rd_text_ok [OF assms(1)] rd_text_ok [OF assms(2)] by (simp add: add_new_def Let_def l R_def [symmetric])
      then show ?thesis using x by (auto simp: makes_def)
    qed
  next
    case False
    then have z: "0 \<le> z_len s" "0 \<le> z_len t" by simp_all
    obtain b1 b2 where b: "rd_ascii 0 (nat (z_len s)) s = Some b1" "map ucast b1 = stext s" "\<forall>b\<in>set b1. b < 0x80" "length b1 = nat (z_len s)"
      "rd_ascii 0 (nat (z_len t)) t = Some b2" "map ucast b2 = stext t" "\<forall>b\<in>set b2. b < 0x80" "length b2 = nat (z_len t)"
      using rd_ascii_whole [OF assms(1) z(1)] rd_ascii_whole [OF assms(2) z(2)] by metis
    have n: "nat (z_len s) = ?l1" "nat (z_len t) = ?l2" using l z by simp_all
    have u: "add_new A app s t = (case newstring A R of
           None \<Rightarrow> Some (Inl ExHeap)
         | Some ns \<Rightarrow> do {
             b1 \<leftarrow> rd_ascii 0 ?l1 s;
             ns \<leftarrow> wr_ascii 0 b1 (ns\<lparr>z_len := int ?l\<rparr>);
             b2 \<leftarrow> rd_ascii 0 (nat (z_len t)) t;
             ns \<leftarrow> wr_ascii ?l1 b2 ns;
             Some (Inr ns)
           })"
      using False unfolding add_new_def Let_def l R_def by (simp only: if_False)
    show ?thesis
    proof (cases "newstring A R")
      case None
      then show ?thesis by (simp add: u makes_def)
    next
      case (Some ns)
      then obtain k where ns: "ns = \<lparr>z_len = int R, z_max = R + k, z_data = Sascii (replicate (R + k + 8) 0)\<rparr>"
        using newstring_form [OF Some] by auto
      let ?n = "ns\<lparr>z_len := int ?l\<rparr>"
      have "length b1 + length b2 \<le> length (replicate (R + k + 8) (0 :: u8))" using b n R by simp
      from wr_ascii_two [OF _ this, of ?n]
      obtain s1 ys where w: "wr_ascii 0 b1 ?n = Some s1" "wr_ascii (length b1) b2 s1 = Some (?n\<lparr>z_data := Sascii (b1 @ b2 @ ys)\<rparr>)"
        "length (b1 @ b2 @ ys) = length (replicate (R + k + 8) (0 :: u8))"
        unfolding ns by auto
      let ?x = "?n\<lparr>z_data := Sascii (b1 @ b2 @ ys)\<rparr>"
      have "length (b1 @ b2 @ ys) = z_max ns + 8" using w(3) by (simp add: ns)
      moreover have "?l \<le> z_max ns" using R by (simp add: ns)
      moreover have "z_len ?x = int (length b1 + length b2)" using b n by simp
      note tw = take_two_ascii [of ?x b1 b2 ys, OF _ this] stext_two_ascii [of ?x b1 b2 ys, OF _ this]
      ultimately have x: "swf ?x" "stext ?x = stext s @ stext t" using b n tw
        by (auto simp: swf_def simp del: length_append take_append)
      have "add_new A app s t = Some (Inr ?x)" using Some w b n by (simp add: u)
      then show ?thesis using x by (auto simp: makes_def)
    qed
  qed
qed

text \<open>How much a string can hold.\<close>

definition room :: "dstring \<Rightarrow> nat" where
  "room s = (case z_data s of Sascii bs \<Rightarrow> length bs | Srune rs \<Rightarrow> length rs)"

lemma add_inplace_ok:
  assumes "swf s" "swf t" "sget h p = Some (n, s)" "sget h q = Some (m, t)" "\<bar>z_len s\<bar> + \<bar>z_len t\<bar> \<le> int (z_max s)"
    "z_len s < 0 \<or> 0 \<le> z_len t" "p = q \<Longrightarrow> 3 * nat \<bar>z_len s\<bar> \<le> room s"
  shows "\<exists>s'. add_inplace p q (if z_len s < 0 then - (\<bar>z_len s\<bar> + \<bar>z_len t\<bar>) else \<bar>z_len s\<bar> + \<bar>z_len t\<bar>) h = Some (h[p := Some (n, s')]) \<and>
    swf s' \<and> stext s' = stext s @ stext t"
proof -
  let ?l = "\<bar>z_len s\<bar> + \<bar>z_len t\<bar>"
  let ?l1 = "length (stext s)" and ?l2 = "length (stext t)"
  have l: "\<bar>z_len s\<bar> = int ?l1" "\<bar>z_len t\<bar> = int ?l2" using swf_len [OF assms(1)] swf_len [OF assms(2)] by simp_all
  note v = sget_valid [OF assms(3)]
  show ?thesis
  proof (cases "z_len s < 0")
    case True
    then have z: "z_len s = - int ?l1" "?l1 > 0" using l by linarith+
    let ?s = "s\<lparr>z_len := - ?l\<rparr>"
    obtain rs where rs: "z_data s = Srune rs" "nat (- z_len s) \<le> z_max s" "z_max s < length rs" "stext s = take (nat (- z_len s)) rs"
      using swf_rune [OF assms(1) True] .
    have le: "?l1 + ?l2 \<le> z_max s" using assms(5) l by linarith
    define b where "b = (if p = q then take (?l1 + ?l2) rs else stext t)"
    have b: "take ?l2 b = stext t" "?l1 + length b \<le> length rs" "?l2 \<le> length b"
    proof -
      have "stext t = stext s" if "p = q" using that assms(3,4) by simp
      moreover have "take ?l1 rs = stext s" using rs(4) z(1) by simp
      moreover have "3 * ?l1 \<le> length rs" if "p = q" using assms(7) [OF that] l(1) rs(1) by (simp add: room_def)
      ultimately show "take ?l2 b = stext t" "?l1 + length b \<le> length rs" "?l2 \<le> length b" using le rs(3)
        by (auto simp: b_def min_def)
    qed
    have r: "\<exists>k. sget (h[p := Some (n, ?s)]) q = Some (k, if p = q then ?s else t)" using assms(4) v by (auto simp: sget_upd)
    have "rd_text (if p = q then ?s else t) = Some b"
    proof (cases "p = q")
      case False
      then show ?thesis using rd_text_ok [OF assms(2)] by (simp add: b_def)
    next
      case p: True
      have "nat (- (- ?l)) = ?l1 + ?l2" using l by linarith
      moreover have "- ?l < 0" using l z(2) by linarith
      ultimately show ?thesis using p rs(1,3) le by (simp add: rd_text_def rd_rune_def b_def)
    qed
    moreover have "wr_rune ?l1 b ?s = Some (?s\<lparr>z_data := Srune (take ?l1 rs @ b @ drop (?l1 + length b) rs)\<rparr>)"
      by (rule wr_rune_at) (use rs(1) b(2) in simp_all)
    moreover have "- ?l < 0" "nat (- z_len s) = ?l1" using l z by linarith+
    ultimately have "add_inplace p q (- ?l) h = Some (h[p := Some (n, ?s\<lparr>z_data := Srune (take ?l1 rs @ b @ drop (?l1 + length b) rs)\<rparr>)])"
      using r assms(3) v by (auto simp: add_inplace_def Let_def)
    note eq = this
    have "length (take ?l1 rs @ b @ drop (?l1 + length b) rs) = length rs" using b(2) by simp
    moreover have "nat \<bar>- ?l\<bar> \<le> z_max s" "- ?l < 0" using l z assms(5) by linarith+
    ultimately have "swf (?s\<lparr>z_data := Srune (take ?l1 rs @ b @ drop (?l1 + length b) rs)\<rparr>)"
      using rs(3) unfolding swf_def by (simp del: length_append)
    note sw = this
    have "stext (?s\<lparr>z_data := Srune (take ?l1 rs @ b @ drop (?l1 + length b) rs)\<rparr>) = stext s @ stext t"
    proof -
      have "nat (- (- ?l)) = ?l1 + ?l2" using l by linarith
      moreover have "take ?l1 rs = stext s" using rs(4) z(1) by simp
      ultimately show ?thesis using b(1,3) by (simp add: stext_def)
    qed
    then show ?thesis using True eq sw by auto
  next
    case False
    then have z: "z_len s = int ?l1" "z_len t = int ?l2" "0 \<le> z_len t" using l assms(6) by linarith+
    have ge: "0 \<le> z_len s" using False by simp
    let ?s = "s\<lparr>z_len := ?l\<rparr>"
    obtain bs where bs: "z_data s = Sascii bs" "nat (z_len s) \<le> z_max s" "z_max s + SLOP \<le> length bs"
      "\<forall>b\<in>set (take (nat (z_len s)) bs). b < 0x80" "stext s = map ucast (take (nat (z_len s)) bs)"
      using swf_ascii [OF assms(1) ge] .
    obtain ct where ct: "rd_ascii 0 (nat (z_len t)) t = Some ct" "map ucast ct = stext t" "\<forall>b\<in>set ct. b < 0x80"
      "length ct = nat (z_len t)" using rd_ascii_whole [OF assms(2) z(3)] .
    have n: "nat (z_len s) = ?l1" "nat (z_len t) = ?l2" using z by simp_all
    have le: "?l1 + ?l2 \<le> z_max s" using assms(5) l by linarith
    define b where "b = (if p = q then take (?l1 + ?l2) bs else ct)"
    have b: "take ?l2 b = ct" "?l1 + length b \<le> length bs" "?l2 \<le> length b"
    proof -
      have p: "s = t" if "p = q" using that assms(3,4) by simp
      then have "ct = take ?l2 bs" if "p = q" using that ct(1) bs(1,3) le n(2) by (auto simp: rd_ascii_def)
      moreover have "3 * ?l1 \<le> length bs" if "p = q" using assms(7) [OF that] l(1) bs(1) by (simp add: room_def)
      ultimately show "take ?l2 b = ct" "?l1 + length b \<le> length bs" "?l2 \<le> length b" using le bs(3) ct(4) n p
        by (auto simp: b_def min_def)
    qed
    have r: "\<exists>k. sget (h[p := Some (n, ?s)]) q = Some (k, if p = q then ?s else t)" using assms(4) v by (auto simp: sget_upd)
    have "rd_ascii 0 (nat (z_len (if p = q then ?s else t))) (if p = q then ?s else t) = Some b"
    proof (cases "p = q")
      case p: True
      have "nat ?l = ?l1 + ?l2" using l by linarith
      then show ?thesis using p bs(1,3) le by (simp add: rd_ascii_def b_def)
    qed (use ct in \<open>simp add: b_def\<close>)
    moreover have "wr_ascii ?l1 b ?s = Some (?s\<lparr>z_data := Sascii (take ?l1 bs @ b @ drop (?l1 + length b) bs)\<rparr>)"
      by (rule wr_ascii_at) (use bs(1) b(2) in simp_all)
    moreover have "\<not> ?l < 0" by simp
    ultimately have eq: "add_inplace p q ?l h = Some (h[p := Some (n, ?s\<lparr>z_data := Sascii (take ?l1 bs @ b @ drop (?l1 + length b) bs)\<rparr>)])"
      using r assms(3) n v by (auto simp: add_inplace_def Let_def)
    have len: "length (take ?l1 bs @ b @ drop (?l1 + length b) bs) = length bs" using b(2) by simp
    have ll: "nat ?l = ?l1 + ?l2" "0 \<le> ?l" "nat \<bar>?l\<bar> \<le> z_max s" using l assms(5) by linarith+
    have "length (take ?l1 bs) = ?l1" using bs(3) le by simp
    then have tk: "take (nat ?l) (take ?l1 bs @ b @ drop (?l1 + length b) bs) = take ?l1 bs @ ct"
      using b(1,3) unfolding ll(1) by simp
    have "\<forall>x\<in>set (take ?l1 bs @ ct). x < 0x80" using bs(4) ct(3) n(1) by auto
    then have "swf (?s\<lparr>z_data := Sascii (take ?l1 bs @ b @ drop (?l1 + length b) bs)\<rparr>)"
      unfolding swf_def using ll(2,3) len bs(3) tk by (simp del: length_append take_append set_append)
    moreover have t1: "map ucast (take ?l1 bs) = stext s" by (subst n(1) [symmetric]) (rule bs(5) [symmetric])
    have "stext (?s\<lparr>z_data := Sascii (take ?l1 bs @ b @ drop (?l1 + length b) bs)\<rparr>) =
        map ucast (take (nat ?l) (take ?l1 bs @ b @ drop (?l1 + length b) bs))" by (simp add: stext_def del: take_append)
    then have "stext (?s\<lparr>z_data := Sascii (take ?l1 bs @ b @ drop (?l1 + length b) bs)\<rparr>) = stext s @ stext t"
      unfolding tk map_append ct(2) t1 .
    ultimately show ?thesis using False eq by auto
  qed
qed

end
