(* ===== verification/DStrSys.thy ===== *)
theory DStrSys
  imports DStrOps
begin

text \<open>
  The operations on Dis strings against lists of runes: every operation gives one variable its new text and leaves
  the text of every other variable as it was, or raises the exception the text calls for.
\<close>

subsection \<open>Concatenation into a variable\<close>

definition self_add :: "nat \<Rightarrow> nat \<Rightarrow> nat \<Rightarrow> sstate \<Rightarrow> bool" where
  "self_add s m d st \<longleftrightarrow> s = d \<and> m = d \<and> (case st of (vs, h) \<Rightarrow>
     (case vs ! d of None \<Rightarrow> False | Some p \<Rightarrow>
        (case sget h p of None \<Rightarrow> False | Some (n, x) \<Rightarrow>
           n \<le> 1 \<and> 2 * \<bar>z_len x\<bar> \<le> int (z_max x) \<and> int (room x) < 3 * \<bar>z_len x\<bar>)))"

lemma count_unique:
  assumes "count_list vs (Some p) \<le> 1" "i < length vs" "d < length vs" "vs ! i = Some p" "vs ! d = Some p"
  shows "i = d"
proof (rule ccontr)
  assume "i \<noteq> d"
  then have "vs[d := None] ! i = Some p" "i < length (vs[d := None])" using assms(2,4) by simp_all
  then have "0 < count_list (vs[d := None]) (Some p)" by (metis count_pos nth_mem)
  then show False using count_update [OF assms(3), of None "Some p"] assms(1,5) by simp
qed

lemma sets_self: "sinv (vs, h) \<Longrightarrow> d < length vs \<Longrightarrow> t = vtext h (vs ! d) \<Longrightarrow> sets d t (vs, h) (vs, h)"
  by (simp add: sets_def texts_nth [symmetric])

lemma made_outcome:
  assumes "sinv (vs, h)" "d < length vs" "makes t x"
  shows "outcome d (Inr t) (vs, h) (do { x \<leftarrow> x; case x of Inl e \<Rightarrow> Some (Inl e, vs, h) | Inr ns \<Rightarrow> sdeliver d (Inr ns) (vs, h) })"
proof -
  from assms(3) consider "x = Some (Inl ExHeap)" | s where "x = Some (Inr s)" "swf s" "stext s = t" by (auto simp: makes_def)
  then show ?thesis
  proof cases
    case 1
    then show ?thesis using same_refl [OF assms(1)] by (simp add: outcome_error)
  next
    case 2
    then show ?thesis using sdeliver_ok [OF assms(1,2) 2(2)] by (intro outcome_sets) auto
  qed
qed

lemma addc_made:
  assumes "addstring A (vs ! m) (vs ! s) (m = d) h = do { x \<leftarrow> X; Some (map_sum id AddNew x, h) }"
  shows "addc A s m d (vs, h) = do { x \<leftarrow> X; case x of Inl e \<Rightarrow> Some (Inl e, vs, h) | Inr ns \<Rightarrow> sdeliver d (Inr ns) (vs, h) }"
  using assms by (cases X) (auto simp: addc_def split: sum.split)

lemma addc_ok:
  assumes "sinv (vs, h)" "s < length vs" "m < length vs" "d < length vs" "\<not> self_add s m d (vs, h)"
  shows "outcome d (Inr (vtext h (vs ! m) @ vtext h (vs ! s))) (vs, h) (addc A s m d (vs, h))"
proof (cases "vs ! m")
  case None
  note m = None
  show ?thesis
  proof (cases "vs ! s")
    case None
    have "\<exists>st'. assign d None (vs, h) = Some st' \<and> sets d (vtext h None) (vs, h) st'"
      by (rule assign_ok [OF assms(1,4)]) simp_all
    then show ?thesis using m None sets_self [OF assms(1,4), of "[]"]
      by (intro outcome_sets) (auto simp: addc_def addstring_def)
  next
    case (Some q)
    from sinvD [OF assms(1,2) Some] obtain t where t: "sget h q = Some (count_list vs (Some q), t)" "swf t" by blast
    have "addc A s m d (vs, h) = do { x \<leftarrow> stringdup A t; case x of Inl e \<Rightarrow> Some (Inl e, vs, h) | Inr ns \<Rightarrow> sdeliver d (Inr ns) (vs, h) }"
      by (rule addc_made) (use m Some t in \<open>simp add: addstring_def Let_def\<close>)
    then show ?thesis using made_outcome [OF assms(1,4) stringdup_ok [OF t(2)]] m Some t by simp
  qed
next
  case (Some p)
  note m = Some
  from sinvD [OF assms(1,3) Some] obtain x where x: "sget h p = Some (count_list vs (Some p), x)" "swf x" by blast
  let ?n = "count_list vs (Some p)"
  show ?thesis
  proof (cases "vs ! s")
    case None
    show ?thesis
    proof (cases "m = d \<and> \<not> ?n > 1")
      case True
      then show ?thesis using m None x sets_self [OF assms(1,4), of "stext x"]
        by (intro outcome_sets) (auto simp: addc_def addstring_def)
    next
      case False
      have "addc A s m d (vs, h) = do { x \<leftarrow> stringdup A x; case x of Inl e \<Rightarrow> Some (Inl e, vs, h) | Inr ns \<Rightarrow> sdeliver d (Inr ns) (vs, h) }"
        by (rule addc_made) (use m None x False in \<open>auto simp: addstring_def Let_def\<close>)
      then show ?thesis using made_outcome [OF assms(1,4) stringdup_ok [OF x(2)]] m None x by simp
    qed
  next
    case (Some q)
    from sinvD [OF assms(1,2) Some] obtain t where t: "sget h q = Some (count_list vs (Some q), t)" "swf t" by blast
    let ?app = "m = d \<and> \<not> ?n > 1"
    let ?l = "\<bar>z_len x\<bar> + \<bar>z_len t\<bar>"
    show ?thesis
    proof (cases "?app \<and> ?l \<le> int (z_max x) \<and> (z_len x < 0 \<or> 0 \<le> z_len t)")
      case True
      have al: "3 * nat \<bar>z_len x\<bar> \<le> room x" if "p = q"
      proof -
        have "s = d" using count_unique [of vs p s d] True that assms(2,4) m Some by simp
        moreover have "t = x" using that x t by simp
        ultimately show ?thesis using assms(5) True m x by (auto simp: self_add_def)
      qed
      obtain x' where x': "add_inplace p q (if z_len x < 0 then - ?l else ?l) h = Some (h[p := Some (?n, x')])"
        "swf x'" "stext x' = stext x @ stext t"
        using add_inplace_ok [OF x(2) t(2) x(1) t(1)] True al by auto
      have "addc A s m d (vs, h) = Some (Inr (), vs, h[p := Some (?n, x')])"
        using True m Some x(1) t(1) x'(1) by (auto simp: addc_def addstring_def Let_def)
      moreover have "sets d (stext x') (vs, h) (vs, h[p := Some (?n, x')])"
        by (rule modify_ok [OF assms(1,4) _ x(1) _ x'(2)]) (use True m in auto)
      ultimately show ?thesis using m Some x t x'(3) by (intro outcome_sets) auto
    next
      case False
      have "addc A s m d (vs, h) = do { x \<leftarrow> add_new A ?app x t; case x of Inl e \<Rightarrow> Some (Inl e, vs, h) | Inr ns \<Rightarrow> sdeliver d (Inr ns) (vs, h) }"
        by (rule addc_made) (use m Some x t False in \<open>auto simp: addstring_def Let_def\<close>)
      then show ?thesis using made_outcome [OF assms(1,4) add_new_ok [OF x(2) t(2)]] m Some x t by simp
    qed
  qed
qed

text \<open>Appending a string to itself in place writes past the end of the object when three times its text does not fit.\<close>

lemma self_add_overruns:
  assumes "sinv (vs, h)" "d < length vs" "self_add d d d (vs, h)"
  shows "addc A d d d (vs, h) = None"
proof -
  obtain p n x where p: "vs ! d = Some p" "sget h p = Some (n, x)" "n \<le> 1" "2 * \<bar>z_len x\<bar> \<le> int (z_max x)"
    "int (room x) < 3 * \<bar>z_len x\<bar>" using assms(3) by (auto simp: self_add_def split: option.splits)
  have w: "swf x" using sinvD [OF assms(1,2) p(1)] p(2) by auto
  let ?l = "\<bar>z_len x\<bar> + \<bar>z_len x\<bar>"
  note v = sget_valid [OF p(2)]
  have "add_inplace p p (if z_len x < 0 then - ?l else ?l) h = None"
  proof (cases "z_len x < 0")
    case True
    obtain rs where rs: "z_data x = Srune rs" "z_max x < length rs" using swf_rune [OF w True] .
    have e: "nat (- (2 * z_len x)) = 2 * nat (- z_len x)" using True by linarith
    have "nat \<bar>z_len x\<bar> + 2 * nat \<bar>z_len x\<bar> > length rs" using p(5) rs by (simp add: room_def)
    moreover have "rd_text (x\<lparr>z_len := - ?l\<rparr>) = Some (take (2 * nat \<bar>z_len x\<bar>) rs)"
      using True rs p(4) e by (auto simp: rd_text_def rd_rune_def)
    moreover have "length (take (2 * nat \<bar>z_len x\<bar>) rs) = 2 * nat \<bar>z_len x\<bar>" using rs(2) p(4) by simp
    ultimately have "wr_rune (nat (- z_len x)) (take (2 * nat \<bar>z_len x\<bar>) rs) (x\<lparr>z_len := - ?l\<rparr>) = None"
      using True rs(1) by (auto simp: wr_rune_def runes_of_def Let_def)
    then show ?thesis using True p(2) v \<open>rd_text _ = _\<close> by (simp add: add_inplace_def Let_def sget_upd)
  next
    case False
    then have ge: "0 \<le> z_len x" by simp
    obtain bs where bs: "z_data x = Sascii bs" "z_max x + SLOP \<le> length bs" using swf_ascii [OF w ge] .
    then have "nat (z_len x) + 2 * nat (z_len x) > length bs" using p(5) ge by (simp add: room_def)
    moreover have r: "rd_ascii 0 (nat ?l) (x\<lparr>z_len := ?l\<rparr>) = Some (take (nat ?l) bs)" "length (take (nat ?l) bs) = 2 * nat (z_len x)"
      using bs p(4) ge by (auto simp: rd_ascii_def)
    ultimately have "wr_ascii (nat (z_len x)) (take (nat ?l) bs) (x\<lparr>z_len := ?l\<rparr>) = None"
      using bs(1) unfolding wr_ascii_def by (simp del: length_take)
    then show ?thesis using False p(2) v r(1) by (simp add: add_inplace_def Let_def sget_upd)
  qed
  then show ?thesis using p by (auto simp: addc_def addstring_def Let_def)
qed

end
