(* ===== verification/DStrCode.thy ===== *)
theory DStrCode
  imports DStrSys
begin

text \<open>
  Decoding UTF into Dis strings and encoding them again, and decimal numbers there and back.
\<close>

subsection \<open>UTF\<close>

text \<open>The runes of a byte list, bad bytes and all, without the rune that the end may cut off.\<close>

function udecode :: "u8 list \<Rightarrow> u16 list" where
  "udecode [] = []"
| "udecode (c # cs) =
     (if c < 0x80 then ucast c # udecode cs
      else if UTFmax \<le> length (c # cs) \<or> fullrune (c # cs) (int (length (c # cs)))
      then fst (chartorune (c # cs)) # udecode (drop (snd (chartorune (c # cs))) (c # cs))
      else [])"
  by pat_completeness auto
termination
  by (relation "measure length") (use chartorune_pos in \<open>auto simp: drop_Cons'\<close>)

lemma at_take_if: "at (take n s) i = (if i < n then at s i else 0)"
  by (simp add: at_def)

lemma chartorune_ascii: "at s 0 < 0x80 \<Longrightarrow> chartorune s = (ucast (at s 0), 1)"
proof -
  assume "at s 0 < 0x80"
  then have "(ucast (at s 0) :: u32) < 0x80" by (simp add: word_less_nat_alt)
  then show ?thesis by (simp add: chartorune_def Let_def)
qed

lemma fullrune_3: "c \<ge> 0x80 \<Longrightarrow> 3 \<le> m \<Longrightarrow> fullrune (c # cs) m"
  by (auto simp: fullrune_def Let_def)

lemma c2_loops:
  assumes "p \<le> ecs" "ecs \<le> length mem"
  shows "c2_runes mem p (c2_count mem p ecs) = udecode (take (ecs - p) (drop p mem))"
  using assms
proof (induction mem p ecs rule: c2_count.induct)
  case (1 mem p ecs)
  show ?case
  proof (cases "p < ecs")
    case False
    then show ?thesis by (simp add: c2_count.simps)
  next
    case True
    let ?w = "take (ecs - p) (drop p mem)"
    define c where "c = mem ! p"
    define cs where "cs = take (ecs - Suc p) (drop (Suc p) mem)"
    have "drop p mem = mem ! p # drop (Suc p) mem" using True 1(4) by (simp add: Cons_nth_drop_Suc)
    moreover have "ecs - p = Suc (ecs - Suc p)" using True by simp
    ultimately have w: "?w = c # cs" unfolding c_def cs_def by (metis take_Suc_Cons)
    have c: "c = at mem p" "length (c # cs) = ecs - p" using True 1(4) by (simp_all add: c_def cs_def at_def)
    have a0: "at (drop p mem) 0 = at mem p" using True 1(4) by (simp add: at_def)
    show ?thesis
    proof (cases "at mem p < 0x80")
      case as: True
      have "c2_runes mem (p + 1) (c2_count mem (p + 1) ecs) = udecode cs"
        using 1(1) [OF True as] 1(4) True by (simp add: cs_def)
      then show ?thesis using True as w c chartorune_ascii [of "drop p mem"] a0
        by (subst c2_count.simps) simp
    next
      case hi: False
      have loc: "chartorune (drop p mem) = chartorune ?w \<and> int (snd (chartorune (drop p mem))) \<le> int (ecs - p)"
        if "fullrune (drop p mem) (int (ecs - p))"
        by (rule chartorune_local [OF that]) (simp add: at_take_if)
      have full: "p + 3 \<le> ecs \<or> fullrune (drop p mem) (int (ecs - p)) \<longleftrightarrow> fullrune (drop p mem) (int (ecs - p))"
        using hi True a0 by (auto simp: fullrune_def Let_def)
      have "fullrune ?w (int (ecs - p)) = fullrune (drop p mem) (int (ecs - p))"
        by (rule fullrune_local) (simp add: at_take_if)
      moreover have "3 \<le> ecs - p \<longleftrightarrow> p + 3 \<le> ecs" using True by linarith
      ultimately have fw: "3 \<le> length (c # cs) \<or> fullrune (c # cs) (int (length (c # cs))) \<longleftrightarrow> fullrune (drop p mem) (int (ecs - p))"
        unfolding w c(2) using full by simp
      show ?thesis
      proof (cases "fullrune (drop p mem) (int (ecs - p))")
        case f: True
        let ?k = "snd (chartorune (drop p mem))"
        have k: "?k \<le> ecs - p" "chartorune ?w = chartorune (drop p mem)" using loc [OF f] by (metis of_nat_le_iff, metis)
        have "take (ecs - (p + ?k)) (drop (p + ?k) mem) = drop ?k ?w"
          by (simp add: drop_take add.commute)
        moreover have "c2_runes mem (p + ?k) (c2_count mem (p + ?k) ecs) = udecode (take (ecs - (p + ?k)) (drop (p + ?k) mem))"
          by (rule 1(2) [OF True hi]) (use f full k 1(4) True in auto)
        moreover have "udecode (c # cs) = fst (chartorune (c # cs)) # udecode (drop (snd (chartorune (c # cs))) (c # cs))"
          using hi f fw c(1) by (subst udecode.simps) (simp only: if_True if_False)
        moreover have "c2_count mem p ecs = Suc (c2_count mem (p + ?k) ecs)"
          using True hi f full by (subst c2_count.simps) simp
        ultimately show ?thesis using k w by (simp add: case_prod_beta)
      next
        case False
        then have "udecode (c # cs) = []" using hi fw c(1) by (subst udecode.simps) (simp only: if_False)
        moreover have "c2_count mem p ecs = 0" using True hi False full by (subst c2_count.simps) simp
        ultimately show ?thesis using w by simp
      qed
    qed
  qed
qed

lemma c2_count_plain:
  assumes "k \<le> length (takeWhile (\<lambda>c. c < 0x80) (take len mem))"
  shows "c2_count mem 0 len = k + c2_count mem k len"
  using assms
proof (induction k)
  case (Suc k)
  let ?w = "takeWhile (\<lambda>c. c < 0x80) (take len mem)"
  have k: "k < length ?w" using Suc.prems by simp
  then have "?w ! k < 0x80" by (metis nth_mem set_takeWhileD)
  moreover have "?w ! k = take len mem ! k" by (rule takeWhile_nth [OF k])
  moreover have "k < length (take len mem)" using k length_takeWhile_le [of "\<lambda>c. c < 0x80" "take len mem"] by linarith
  ultimately have "at mem k < 0x80" "k < len" by (simp_all add: at_def)
  then have "c2_count mem k len = Suc (c2_count mem (Suc k) len)" by (subst c2_count.simps) simp
  then show ?case using Suc by simp
qed simp

lemma udecode_plain: "\<forall>b\<in>set bs. b < 0x80 \<Longrightarrow> udecode bs = map ucast bs"
  by (induction bs) auto

lemma length_c2_runes [simp]: "length (c2_runes mem p n) = n"
  by (induction n arbitrary: p) (simp_all add: case_prod_beta)

lemma c2string_ok:
  assumes "len \<le> length mem"
  shows "makes (udecode (take len mem)) (c2string A mem len)"
proof -
  let ?w = "takeWhile (\<lambda>c. c < 0x80) (take len mem)"
  show ?thesis
  proof (cases "length ?w = len")
    case True
    then have "?w = take len mem" by (metis assms length_take min.absorb2 takeWhile_eq_take take_all_iff order_refl)
    then have a: "\<forall>b\<in>set (take len mem). b < 0x80" by (metis set_takeWhileD)
    have "length (take len mem) = len" using assms by simp
    from makes_ascii [OF a this, of A] show ?thesis using True udecode_plain [OF a] by (simp add: c2string_def cong: option.case_cong)
  next
    case False
    let ?n = "length ?w + c2_count mem (length ?w) len"
    have n: "?n = c2_count mem 0 len" using c2_count_plain [of "length ?w" len mem] by simp
    have t: "c2_runes mem 0 ?n = udecode (take len mem)" unfolding n using c2_loops [of 0 len mem] assms by simp
    show ?thesis
    proof (cases "?n = 0")
      case True
      then have "c2_runes mem 0 0 = udecode (take len mem)" using t by (simp only:)
      then have "udecode (take len mem) = []" by simp
      then show ?thesis using False True
        by (auto simp: c2string_def Let_def newrunes_def newstring_def wr_rune_def makes_def swf_def stext_def split: option.split)
    next
      case nz: False
      have "c2string A mem len = (case newrunes A (int ?n) of None \<Rightarrow> Some (Inl ExHeap)
        | Some s \<Rightarrow> do { s \<leftarrow> wr_rune 0 (c2_runes mem 0 ?n) s; Some (Inr s) })"
        using False unfolding c2string_def Let_def by (simp only: if_False)
      also have "makes (c2_runes mem 0 ?n) \<dots>" by (rule makes_runes [OF length_c2_runes nz])
      finally show ?thesis unfolding t .
    qed
  qed
qed

lemma udecode_encode: "udecode (encode rs) = rs"
proof (induction rs)
  case (Cons r rs)
  obtain c cs where c: "runetochar r = c # cs" by (cases "runetochar r") simp_all
  show ?case
  proof (cases "unat r < 128")
    case True
    then have "c = ucast r" "cs = []" using c by (simp_all add: runetochar_ascii)
    moreover have "(ucast r :: u8) < 0x80" "ucast (ucast r :: u8) = r" using True
      by (simp_all add: word_less_nat_alt unat_ucast_down word_unat_eq_iff)
    ultimately show ?thesis using Cons c by simp
  next
    case False
    have ch: "chartorune (runetochar r @ encode rs) = (r, length (runetochar r))" by (rule chartorune_runetochar)
    have "\<not> c < 0x80" using runetochar_lead_ge [of r "encode rs"] False c by (simp add: word_less_nat_alt at_def)
    moreover have "fullrune (runetochar r @ encode rs) (int (length (runetochar r @ encode rs)))"
      using fullrune_runetochar [of r "encode rs"] False by simp
    ultimately have "udecode (c # cs @ encode rs) = fst (chartorune (c # cs @ encode rs)) #
        udecode (drop (snd (chartorune (c # cs @ encode rs))) (c # cs @ encode rs))"
      using c by (subst udecode.simps) (simp only: append_Cons if_False if_True simp_thms)
    then show ?thesis using Cons ch c by simp
  qed
qed simp

lemma encode_plain: "\<forall>b\<in>set bs. b < 0x80 \<Longrightarrow> encode (map ucast bs) = bs"
proof (induction bs)
  case (Cons b bs)
  have "unat (ucast b :: u16) < 128" using Cons.prems by (simp add: word_less_nat_alt)
  moreover have "ucast (ucast b :: u16) = b" by (simp add: word_unat_eq_iff unat_ucast_down)
  ultimately show ?case using Cons by (simp add: runetochar_ascii)
qed simp

lemma length_encode_le: "length (encode rs) \<le> 3 * length rs"
proof (induction rs)
  case (Cons r rs)
  have "length (runetochar r) \<le> 3" by (simp add: runetochar_def Let_def)
  then show ?case using Cons by simp
qed simp

lemma wr_nul:
  assumes "swf s" "0 \<le> z_len s"
  shows "\<exists>s'. wr_ascii (nat (z_len s)) [0] s = Some s' \<and> swf s' \<and> stext s' = stext s \<and> z_len s' = z_len s"
proof -
  obtain bs where b: "z_data s = Sascii bs" "nat (z_len s) \<le> z_max s" "z_max s + SLOP \<le> length bs"
    "\<forall>b\<in>set (take (nat (z_len s)) bs). b < 0x80" "stext s = map ucast (take (nat (z_len s)) bs)" using swf_ascii [OF assms] .
  let ?s = "s\<lparr>z_data := Sascii (take (nat (z_len s)) bs @ [0] @ drop (nat (z_len s) + 1) bs)\<rparr>"
  have "wr_ascii (nat (z_len s)) [0] s = Some ?s" using b by (simp add: wr_ascii_def)
  moreover have "swf ?s" "stext ?s = stext s" using b assms(2) by (simp_all add: swf_def stext_def)
  ultimately show ?thesis by fastforce
qed

lemma string2c_ok:
  assumes "swf s"
  shows "\<exists>s'. string2c (Some s) = Some (encode (stext s), Some s') \<and> swf s' \<and> stext s' = stext s"
proof (cases "0 \<le> z_len s")
  case True
  obtain s' where s': "wr_ascii (nat (z_len s)) [0] s = Some s'" "swf s'" "stext s' = stext s" "z_len s' = z_len s"
    using wr_nul [OF assms True] by blast
  obtain bs where "rd_ascii 0 (nat (z_len s')) s' = Some bs" "map ucast bs = stext s'" "\<forall>b\<in>set bs. b < 0x80"
    using rd_ascii_whole [OF s'(2)] True s'(4) by metis
  moreover from this have "encode (stext s) = bs" using encode_plain s'(3) by metis
  ultimately show ?thesis using True s' by (simp add: string2c_def)
next
  case False
  let ?f = "\<lambda>c :: u16. if unat c < 128 then [ucast c] else runetochar c"
  have r: "rd_rune 0 (nat (- z_len s)) s = Some (stext s)" using rd_text_ok [OF assms] False by (simp add: rd_text_def)
  have "?f = runetochar" by (auto simp: runetochar_ascii)
  then have e: "concat (map ?f (stext s)) = encode (stext s)" by (simp add: encode_def)
  have "nat (- z_len s) = length (stext s)" using swf_len [OF assms] False by simp
  then have "length (encode (stext s)) + 1 \<le> nat (- z_len s) * 3 + 3" using length_encode_le [of "stext s"] by simp
  then show ?thesis using False r assms unfolding string2c_def Let_def by (simp add: e)
qed

lemma cvtca_ok:
  assumes "sinv (vs, h)" "s < length vs"
  shows "cvtca s (vs, h) = Some (encode (vtext h (vs ! s)))"
proof (cases "vs ! s")
  case None
  then show ?thesis by (simp add: cvtca_def sval_def)
next
  case (Some p)
  from sinvD [OF assms Some] obtain x where x: "sget h p = Some (count_list vs (Some p), x)" "swf x" by blast
  show ?thesis
  proof (cases "z_len x < 0")
    case True
    have r: "rd_rune 0 (nat (- z_len x)) x = Some (stext x)" using rd_text_ok [OF x(2)] True by (simp add: rd_text_def)
    have n: "nat (- z_len x) = length (stext x)" using swf_len [OF x(2)] True by simp
    have "runenlen (stext x) (length (stext x)) = length (encode (stext x))"
      using runenlen_encode [of "length (stext x)" "stext x"] by simp
    then show ?thesis using Some x True r unfolding n by (simp add: cvtca_def sval_def Let_def n encode_def)
  next
    case False
    then have ge: "0 \<le> z_len x" by simp
    obtain bs where "rd_ascii 0 (nat (z_len x)) x = Some bs" "map ucast bs = stext x" "\<forall>b\<in>set bs. b < 0x80"
      using rd_ascii_whole [OF x(2) ge] .
    moreover from this have "encode (stext x) = bs" using encode_plain by metis
    ultimately show ?thesis using Some x False by (simp add: cvtca_def sval_def)
  qed
qed

lemma cvtac_ok:
  assumes "sinv (vs, h)" "d < length vs"
  shows "outcome d (Inr (case a of None \<Rightarrow> [] | Some a \<Rightarrow> udecode a)) (vs, h) (cvtac A a d (vs, h))"
proof (cases a)
  case None
  have "\<exists>st'. assign d None (vs, h) = Some st' \<and> sets d (vtext h None) (vs, h) st'"
    by (rule assign_ok [OF assms]) simp_all
  then show ?thesis using None by (intro outcome_sets) (auto simp: cvtac_def)
next
  case (Some b)
  have "makes (udecode b) (c2string A b (length b))" using c2string_ok [of "length b" b A] by simp
  then consider "c2string A b (length b) = Some (Inl ExHeap)"
    | s where "c2string A b (length b) = Some (Inr s)" "swf s" "stext s = udecode b" by (auto simp: makes_def)
  then show ?thesis
  proof cases
    case 1
    then show ?thesis using Some same_refl [OF assms(1)] by (simp add: cvtac_def sdeliver_def outcome_error)
  next
    case 2
    then show ?thesis using Some sdeliver_ok [OF assms 2(2)] by (intro outcome_sets) (auto simp: cvtac_def)
  qed
qed

subsection \<open>Numbers\<close>

lemma digit_val: "k < 10 \<Longrightarrow> unat (of_nat (48 + k) :: u8) = 48 + k"
  by (simp add: unat_of_nat del: of_nat_add)

lemma digits_range: "c \<in> set (digits n) \<Longrightarrow> 48 \<le> c \<and> c \<le> 57"
proof (induction n rule: digits.induct)
  case (1 n)
  have d: "48 \<le> (of_nat (48 + k) :: u8) \<and> (of_nat (48 + k) :: u8) \<le> 57" if "k < 10" for k
    using that digit_val [OF that] by (simp add: word_le_nat_alt del: of_nat_add)
  show ?case
  proof (cases "n < 10")
    case True
    then show ?thesis using 1(2) d [of n] by (simp add: digits.simps [of n] del: of_nat_add)
  next
    case False
    then show ?thesis using 1 d [of "n mod 10"] by (auto simp: digits.simps [of n] simp del: of_nat_add)
  qed
qed

lemma numeral_value_digits: "numeral_value (digits n) = int n"
proof (induction n rule: digits.induct)
  case (1 n)
  have d: "uint (of_nat (48 + k) :: u8) - 48 = int k" if "k < 10" for k
    using digit_val [OF that] by (simp add: uint_nat del: of_nat_add)
  show ?case
  proof (cases "n < 10")
    case True
    then show ?thesis using d [of n] by (simp add: digits.simps [of n] numeral_value_def del: of_nat_add)
  next
    case False
    then have "numeral_value (digits n) = 10 * int (n div 10) + int (n mod 10)"
      using 1 d [of "n mod 10"] by (simp add: digits.simps [of n] numeral_value_def del: of_nat_add)
    then show ?thesis by (simp add: zdiv_int zmod_int)
  qed
qed

lemma length_digits: "n < 10 ^ k \<Longrightarrow> 0 < k \<Longrightarrow> length (digits n) \<le> k"
proof (induction n arbitrary: k rule: digits.induct)
  case (1 n)
  show ?case
  proof (cases "n < 10")
    case True
    then show ?thesis using 1(3) by (simp add: digits.simps [of n])
  next
    case False
    then obtain j where j: "k = Suc j" "0 < j" using 1(2,3) by (cases k; cases "k - 1") auto
    have "n div 10 < 10 ^ j" using 1(2) j(1) by (simp add: less_mult_imp_div_less)
    then show ?thesis using 1(1) [OF False _ j(2)] j(1) False by (simp add: digits.simps [of n])
  qed
qed

lemma digits_nonempty [simp]: "digits n \<noteq> []"
  by (subst digits.simps) simp

lemma strtol_digits:
  assumes "\<And>c. at t 0 = c \<Longrightarrow> \<not> (48 \<le> c \<and> c \<le> 57)"
  shows "strtol (digits n @ t) = saturate 0x7FFFFFFFFFFFFFFF (int n)"
    "strtol (45 # digits n @ t) = saturate 0x7FFFFFFFFFFFFFFF (- int n)"
proof -
  obtain c cs where c: "digits n = c # cs" by (cases "digits n") simp_all
  have r: "48 \<le> c \<and> c \<le> 57" using digits_range [of c n] c by simp
  then have nb: "\<not> blank c" "c \<noteq> 45" "c \<noteq> 43"
    by (auto simp: blank_def word_le_nat_alt)
  have tw: "takeWhile (\<lambda>c. 48 \<le> c \<and> c \<le> 57) (digits n @ t) = digits n"
    using digits_range [of _ n] assms [OF refl] by (cases t) (auto simp: takeWhile_append at_def)
  show "strtol (digits n @ t) = saturate 0x7FFFFFFFFFFFFFFF (int n)"
  proof -
    have "dropWhile blank (digits n @ t) = digits n @ t" "at (digits n @ t) 0 = c" using nb by (simp_all add: c at_def)
    then show ?thesis using nb tw by (simp add: strtol_def numeral_value_digits)
  qed
  show "strtol (45 # digits n @ t) = saturate 0x7FFFFFFFFFFFFFFF (- int n)"
  proof -
    have "dropWhile blank (45 # digits n @ t) = 45 # digits n @ t" "at (45 # digits n @ t) 0 = 45" by (simp_all add: blank_def at_def)
    then show ?thesis using tw by (simp add: strtol_def numeral_value_digits)
  qed
qed

lemma strtol_decimal: "- (2 ^ 63) \<le> i \<Longrightarrow> i < 2 ^ 63 \<Longrightarrow> strtol (decimal i) = i"
  using strtol_digits [of "[]" "nat i"] strtol_digits [of "[]" "nat (- i)"]
  by (auto simp: decimal_def saturate_def at_def word_le_nat_alt)

lemma decimal_ascii: "b \<in> set (decimal i) \<Longrightarrow> b < 0x80"
  using digits_range [of b] by (auto simp: decimal_def word_le_nat_alt word_less_nat_alt split: if_splits dest!: digits_range)

lemma length_decimal: "- (10 ^ k) < i \<Longrightarrow> i < 10 ^ k \<Longrightarrow> 0 < k \<Longrightarrow> length (decimal i) \<le> k + 1"
  using length_digits [of "nat i" k] length_digits [of "nat (- i)" k]
  by (auto simp: decimal_def nat_less_iff nat_power_eq)

lemma cvt_print_ok:
  assumes "sinv (vs, h)" "d < length vs" "length (decimal i) \<le> 23" "\<And>k. A 16 = Some k \<Longrightarrow> length (decimal i) \<le> 16 + k"
  shows "outcome d (Inr (map ucast (decimal i))) (vs, h) (cvt_print A i d (vs, h))"
proof (cases "A 16")
  case None
  then show ?thesis using same_refl [OF assms(1)] by (simp add: cvt_print_def newstring_def outcome_error)
next
  case (Some k)
  let ?s = "\<lparr>z_len = 16, z_max = 16 + k, z_data = Sascii (replicate (16 + k + 8) 0)\<rparr>"
  let ?bs = "decimal i @ [0] @ drop (length (decimal i) + 1) (replicate (16 + k + 8) 0)"
  have l: "length (decimal i) \<le> 16 + k" using assms(4) [OF Some] .
  have w: "wr_ascii 0 (decimal i @ [0]) ?s = Some (?s\<lparr>z_data := Sascii ?bs\<rparr>)"
    using l by (simp add: wr_ascii_def)
  let ?x = "?s\<lparr>z_data := Sascii ?bs, z_len := int (length (decimal i))\<rparr>"
  have "swf ?x" using l decimal_ascii [of _ i] by (auto simp: swf_def)
  moreover have "stext ?x = map ucast (decimal i)" by (simp add: stext_def)
  moreover have "cvt_print A i d (vs, h) = sdeliver d (Inr ?x) (vs, h)"
    using w Some unfolding cvt_print_def newstring_def by simp
  ultimately show ?thesis using sdeliver_ok [OF assms(1,2), of ?x] by (intro outcome_sets) auto
qed

end
