(* ===== verification/DStrProps.thy ===== *)
theory DStrProps
  imports DStrCode
begin

text \<open>
  The properties of the Dis strings: a variable behaves as a list of runes whatever the representation and
  the sharing, but for two ways to write past the end of a heap object.
\<close>

datatype sop = Insc int u64 nat | Slicec u64 u64 nat | Addc nat nat nat | Cvtac "u8 list option" nat | Cvtwc u64 nat

fun sexec :: "grant \<Rightarrow> sop \<Rightarrow> sstate \<Rightarrow> ((disexn + unit) \<times> sstate) option" where
  "sexec A (Insc r v d) st = insc A r v d st"
| "sexec A (Slicec s m d) st = slicec A s m d st"
| "sexec A (Addc s m d) st = addc A s m d st"
| "sexec A (Cvtac a d) st = cvtac A a d st"
| "sexec A (Cvtwc w d) st = cvtwc A w d st"

fun dst :: "sop \<Rightarrow> nat" where
  "dst (Insc r v d) = d"
| "dst (Slicec s m d) = d"
| "dst (Addc s m d) = d"
| "dst (Cvtac a d) = d"
| "dst (Cvtwc w d) = d"

text \<open>What the operation means on the texts of the variables: the new text of its destination.\<close>

fun smeans :: "sop \<Rightarrow> u16 list list \<Rightarrow> disexn + u16 list" where
  "smeans (Insc r v d) ts = spec_of (store_char (ts ! d) (unat v) (of_int r))"
| "smeans (Slicec s m d) ts = slice_of (unat s) (unat m) (ts ! d)"
| "smeans (Addc s m d) ts = Inr (ts ! m @ ts ! s)"
| "smeans (Cvtac a d) ts = Inr (case a of None \<Rightarrow> [] | Some a \<Rightarrow> udecode a)"
| "smeans (Cvtwc w d) ts = Inr (map ucast (decimal (sint (ucast w :: u32))))"

fun operands :: "sop \<Rightarrow> nat list" where
  "operands (Addc s m d) = [s, m, d]"
| "operands op = [dst op]"

text \<open>A negative character, or one of the two cases that write past the end.\<close>

fun hazard :: "sop \<Rightarrow> sstate \<Rightarrow> bool" where
  "hazard (Insc r v d) st = (r < 0 \<or> wide_empty r d st)"
| "hazard (Addc s m d) st = self_add s m d st"
| "hazard _ st = False"

lemma length_decimal_word: "length (decimal (sint (w :: u32))) \<le> 11"
proof -
  have "- (2 ^ 31) \<le> sint w" "sint w < 2 ^ 31" using sint_greater_eq [of w] sint_less [of w] by simp_all
  then show ?thesis using length_decimal [of 10 "sint w"] by simp
qed

lemma sexec_ok:
  assumes "sinv st" "\<forall>i\<in>set (operands op). i < length (fst st)" "\<not> hazard op st"
  shows "outcome (dst op) (smeans op (texts st)) st (sexec A op st)"
proof -
  obtain vs h where st: "st = (vs, h)" by (cases st)
  have t: "i < length vs \<Longrightarrow> texts (vs, h) ! i = vtext h (vs ! i)" for i by (rule texts_nth)
  show ?thesis
  proof (cases op)
    case (Insc r v d)
    then show ?thesis using assms insc_ok [of vs h d r v A] t by (simp add: st)
  next
    case (Slicec s m d)
    then show ?thesis using assms slicec_ok [of vs h d s m A] t by (simp add: st)
  next
    case (Addc s m d)
    then show ?thesis using assms addc_ok [of vs h s m d A] t by (simp add: st)
  next
    case (Cvtac a d)
    then show ?thesis using assms cvtac_ok [of vs h d a A] by (simp add: st)
  next
    case (Cvtwc w d)
    have "length (decimal (sint (ucast w :: u32))) \<le> 11" by (rule length_decimal_word)
    then show ?thesis using Cvtwc assms cvt_print_ok [of vs h d "sint (ucast w :: u32)" A] by (simp add: st cvtwc_def)
  qed
qed

text \<open>
  C34: the operations insc, slicec, addc, cvtac and cvtwc on Dis strings, the two overrunning cases and negative
  characters apart, give their destination the text they mean and leave the text of
  every other variable as it was, however the strings are represented and shared; an exception is the one the
  texts call for, or want of memory, and changes no text.
\<close>
theorem dis_strings:
  assumes "sinv st" "\<forall>i\<in>set (operands op). i < length (fst st)" "\<not> hazard op st"
  shows "\<exists>y st'. sexec A op st = Some (y, st') \<and> sinv st' \<and>
    (case y of
       Inl e \<Rightarrow> texts st' = texts st \<and> (e = ExHeap \<or> smeans op (texts st) = Inl e)
     | Inr _ \<Rightarrow> (\<exists>t. smeans op (texts st) = Inr t \<and> texts st' = (texts st)[dst op := t]))"
  by (rule outcomeE [OF sexec_ok [OF assms, of A]]) (auto simp: same_def sets_def)

lemma dis_strings_witness:
  "\<exists>y st'. sexec (\<lambda>n. Some 48) (Insc 0xE9 0 0) ([None], []) = Some (y, st') \<and> sinv st' \<and> texts st' = [[0xE9]]"
proof -
  have i: "sinv ([None], [])" by (simp add: sinv_def)
  have t: "texts ([None], []) = [[]]" by (simp add: texts_def)
  have m: "smeans (Insc 0xE9 0 0) [[]] = Inr [0xE9]" by (simp add: store_char_def spec_of_def)
  from dis_strings [OF i, of "Insc 0xE9 0 0" "\<lambda>n. Some 48"] obtain y st' where
    st': "sexec (\<lambda>n. Some 48) (Insc 0xE9 0 0) ([None], []) = Some (y, st')" "sinv st'"
    "case y of Inl e \<Rightarrow> texts st' = [[]] \<and> (e = ExHeap \<or> (Inr [0xE9] :: disexn + u16 list) = Inl e)
      | Inr _ \<Rightarrow> (\<exists>t. (Inr [0xE9] :: disexn + u16 list) = Inr t \<and> texts st' = [[]][dst (Insc 0xE9 0 0) := t])"
    unfolding t m by (auto simp: wide_empty_def)
  have "y \<noteq> Inl ExHeap" using st'(1)
    by (auto simp: insc_def newstring_def insc_put_def sget_def put_rune_def wr_rune_def runes_of_def Let_def
      assign_def destroy_def)
  then have "texts st' = [[0xE9]]" using st'(3) by (cases y) auto
  then show ?thesis using st'(1,2) by blast
qed

text \<open>
  C38: appending a string to itself in place writes past the end of its object exactly when the sum fits
  \<open>max\<close> and three times the text does not fit the object.
\<close>
theorem self_append_overruns:
  assumes "sinv st" "d < length (fst st)"
  shows "addc A d d d st = None \<longleftrightarrow> self_add d d d st"
proof -
  obtain vs h where st: "st = (vs, h)" by (cases st)
  show ?thesis
  proof (cases "self_add d d d st")
    case True
    then show ?thesis using self_add_overruns [of vs h d A] assms by (simp add: st)
  next
    case False
    then show ?thesis using addc_ok [of vs h d d d A] assms by (auto simp: st outcome_def)
  qed
qed

definition text20 :: sstate where
  "text20 = ([Some 0], [Some (1, \<lparr>z_len = 20, z_max = 48, z_data = Sascii (replicate 56 97)\<rparr>)])"

lemma text20_inv: "sinv text20"
  by (simp add: sinv_def text20_def sget_def swf_def)

lemma self_append_overruns_witness: "addc (\<lambda>n. Some 0) 0 0 0 text20 = None"
  using self_append_overruns [OF text20_inv, of 0] by (simp add: text20_def self_add_def sget_def room_def)

subsection \<open>Appending to an empty string\<close>

text \<open>\<open>s[len s] = r\<close>, \<open>n\<close> times.\<close>

primrec append_chars :: "grant \<Rightarrow> int \<Rightarrow> nat \<Rightarrow> nat \<Rightarrow> sstate \<Rightarrow> ((disexn + unit) \<times> sstate) option" where
  "append_chars A r d 0 st = Some (Inr (), st)"
| "append_chars A r d (Suc n) st = do {
     (x, st) \<leftarrow> append_chars A r d n st;
     case x of Inl e \<Rightarrow> Some (Inl e, st) | Inr _ \<Rightarrow> do { l \<leftarrow> lenc d st; insc A r (of_int l) d st }
   }"

lemma append_wide:
  assumes "i < k" "i < (k + 8) div 2" "i < 2 ^ 64" "128 \<le> r" "z_len s = - int i" "z_max s = k" "length (runes_of (z_data s)) = (k + 8) div 2"
  shows "\<exists>s'. insc A r (of_nat i) 0 ([Some 0], [Some (1, s)]) = Some (Inr (), [Some 0], [Some (1, s')]) \<and>
    z_len s' = - int (Suc i) \<and> z_max s' = k \<and> length (runes_of (z_data s')) = (k + 8) div 2"
proof -
  have i: "unat (of_nat i :: u64) = i" using assms(3) by (simp add: unat_of_nat)
  let ?rs = "runes_of (z_data s)"
  let ?s = "s\<lparr>z_len := - int (Suc i), z_data := Srune (take i ?rs @ [of_int r] @ drop (i + 1) ?rs)\<rparr>"
  have "put_rune A (of_int r) i s = Some (Inr (False, ?s))"
    using assms by (simp add: put_rune_def wr_rune_def Let_def)
  moreover have "\<not> (z_len s > 0)" using assms(5) by simp
  ultimately have "insc A r (of_nat i) 0 ([Some 0], [Some (1, s)]) = Some (Inr (), [Some 0], [Some (1, ?s)])"
    using assms(4) by (simp add: insc_def sget_def insc_put_def i)
  moreover have "length (runes_of (z_data ?s)) = (k + 8) div 2" using assms(2,7) by (simp add: runes_of_def)
  ultimately show ?thesis using assms(6) by fastforce
qed

lemma append_wide_full:
  assumes "(k + 8) div 2 < k" "k < 2 ^ 63" "128 \<le> r" "z_len s = - int ((k + 8) div 2)" "z_max s = k"
    "length (runes_of (z_data s)) = (k + 8) div 2"
  shows "insc A r (of_nat ((k + 8) div 2)) 0 ([Some 0], [Some (1, s)]) = None"
proof -
  have i: "unat (of_nat ((k + 8) div 2) :: u64) = (k + 8) div 2" using assms(1,2) by (simp add: unat_of_nat)
  have "put_rune A (of_int r) ((k + 8) div 2) s = None"
    using assms by (simp add: put_rune_def wr_rune_def Let_def)
  then show ?thesis using assms(3,4) unfolding insc_def i by (simp add: sget_def insc_put_def)
qed

text \<open>
  C39: an empty string that is not nil, as \<open>cvtac\<close> makes it of an empty array, takes its \<open>max\<close> in bytes for one in
  runes: wide characters appended to it are in the end written past the end of the object, when the
  allocator gave the object more than eight bytes of room.
\<close>
theorem wide_append_overruns:
  assumes "A 0 = Some k" "8 < k" "k < 2 ^ 63" "128 \<le> r"
  shows "\<exists>st. cvtac A (Some []) 0 ([None], []) = Some (Inr (), st) \<and> append_chars A r 0 ((k + 8) div 2 + 1) st = None"
proof -
  define s where "s = \<lparr>z_len = 0, z_max = k, z_data = Sascii (replicate (k + 8) 0)\<rparr>"
  have c: "cvtac A (Some []) 0 ([None], []) = Some (Inr (), [Some 0], [Some (1, s)])"
    using assms(1) by (simp add: cvtac_def c2string_def newstring_def wr_ascii_def sdeliver_def assign_def destroy_def s_def)
  have "\<exists>s'. append_chars A r 0 i ([Some 0], [Some (1, s)]) = Some (Inr (), [Some 0], [Some (1, s')]) \<and>
      z_len s' = - int i \<and> z_max s' = k \<and> length (runes_of (z_data s')) = (k + 8) div 2" if "i \<le> (k + 8) div 2" for i
    using that
  proof (induction i)
    case 0
    then show ?case by (simp add: s_def runes_of_def)
  next
    case (Suc i)
    then obtain s' where s': "append_chars A r 0 i ([Some 0], [Some (1, s)]) = Some (Inr (), [Some 0], [Some (1, s')])"
      "z_len s' = - int i" "z_max s' = k" "length (runes_of (z_data s')) = (k + 8) div 2" by auto
    have "lenc 0 ([Some 0], [Some (1, s')]) = Some (int i)" using s'(2) by (auto simp: lenc_def sval_def sget_def)
    moreover have "i < k" "i < 2 ^ 64" using Suc.prems assms(2,3) by simp_all
    ultimately show ?case using s'(1) append_wide [of i k r s' A] s'(2-4) Suc.prems assms(4) by auto
  qed
  from this [of "(k + 8) div 2"] obtain s' where s': "append_chars A r 0 ((k + 8) div 2) ([Some 0], [Some (1, s)]) = Some (Inr (), [Some 0], [Some (1, s')])"
    "z_len s' = - int ((k + 8) div 2)" "z_max s' = k" "length (runes_of (z_data s')) = (k + 8) div 2" by auto
  have l: "lenc 0 ([Some 0], [Some (1, s')]) = Some (int ((k + 8) div 2))" using s'(2) by (auto simp: lenc_def sval_def sget_def)
  have "(k + 8) div 2 < k" using assms(2) by simp
  from append_wide_full [OF this assms(3,4) s'(2-4), of A]
  have "append_chars A r 0 (Suc ((k + 8) div 2)) ([Some 0], [Some (1, s)]) = None" using s'(1) l by simp
  then show ?thesis using c by (intro exI [of _ "([Some 0], [Some (1, s)])"]) (simp only: Suc_eq_plus1 simp_thms)
qed

lemma wide_append_overruns_witness:
  "\<exists>st. cvtac (\<lambda>n. Some 48) (Some []) 0 ([None], []) = Some (Inr (), st) \<and> append_chars (\<lambda>n. Some 48) 0xE9 0 29 st = None"
  using wide_append_overruns [where A = "\<lambda>n. Some 48" and k = 48 and r = "0xE9"] by simp

subsection \<open>Comparison\<close>

definition rune_less :: "(u16 \<times> u16) set" where
  "rune_less = {(a, b). uint a < uint b}"

lemma cmp_loop_lexord:
  "(cmp_loop (map uint xs) (map uint ys) = None \<longrightarrow>
     (int (length xs) - int (length ys) < 0 \<longleftrightarrow> (xs, ys) \<in> lexord rune_less) \<and>
     (int (length xs) - int (length ys) = 0 \<longleftrightarrow> xs = ys)) \<and>
   (\<forall>c. cmp_loop (map uint xs) (map uint ys) = Some c \<longrightarrow>
     (c < 0 \<longleftrightarrow> (xs, ys) \<in> lexord rune_less) \<and> c \<noteq> 0 \<and> xs \<noteq> ys)"
proof (induction xs arbitrary: ys)
  case Nil
  then show ?case by (cases ys) auto
next
  case (Cons x xs)
  show ?case
  proof (cases ys)
    case c: (Cons y ys')
    have l: "((x # xs, y # ys') \<in> lexord rune_less) \<longleftrightarrow> uint x < uint y \<or> x = y \<and> (xs, ys') \<in> lexord rune_less"
      by (simp add: rune_less_def)
    show ?thesis
    proof (cases "x = y")
      case True
      have "cmp_loop (map uint (x # xs)) (map uint ys) = cmp_loop (map uint xs) (map uint ys')" "x # xs = ys \<longleftrightarrow> xs = ys'"
        "int (length (x # xs)) - int (length ys) = int (length xs) - int (length ys')"
        "(x # xs, ys) \<in> lexord rune_less \<longleftrightarrow> (xs, ys') \<in> lexord rune_less" using True l by (simp_all add: c)
      then show ?thesis using Cons.IH [of ys'] by (simp only:)
    next
      case False
      then have "uint x \<noteq> uint y" by simp
      then have "cmp_loop (map uint (x # xs)) (map uint ys) = Some (if uint x < uint y then -1 else 1)" by (simp add: c)
      moreover have "x # xs \<noteq> ys" using False by (simp add: c)
      moreover have "(x # xs, ys) \<in> lexord rune_less \<longleftrightarrow> uint x < uint y" using False l by (simp only: c simp_thms)
      ultimately show ?thesis by (simp only: option.simps) simp
    qed
  qed simp
qed

lemma cmp_chars_ok:
  assumes "swf s"
  shows "cmp_chars raw s = Some (map uint (stext s))"
proof (cases "z_len s < 0")
  case True
  then show ?thesis using rd_text_ok [OF assms] by (simp add: cmp_chars_def rd_text_def)
next
  case False
  then have ge: "0 \<le> z_len s" by simp
  obtain bs where b: "rd_ascii 0 (nat (z_len s)) s = Some bs" "map ucast bs = stext s" "\<forall>b\<in>set bs. b < 0x80"
    using rd_ascii_whole [OF assms ge] .
  have "map uint (stext s) = map uint bs" unfolding b(2) [symmetric] by (simp add: uint_up_ucast is_up)
  moreover have "map sint bs = map uint bs" using b(3) by (simp add: uint_ascii)
  ultimately show ?thesis using False b(1) by (simp add: cmp_chars_def)
qed

lemma swf_snil: "swf snil" "stext snil = []"
  by (simp_all add: snil_def swf_def stext_def)

text \<open>
  C35: \<open>stringcmp\<close> is the lexicographic order of the texts, whichever of the two representations each string has.
\<close>
theorem stringcmp_lexicographic:
  assumes "sinv (vs, h)" "i < length vs" "j < length vs"
  shows "\<exists>c. stringcmp (vs ! i) (vs ! j) h = Some c \<and> (c = 0 \<longleftrightarrow> texts (vs, h) ! i = texts (vs, h) ! j) \<and>
    (c < 0 \<longleftrightarrow> (texts (vs, h) ! i, texts (vs, h) ! j) \<in> lexord rune_less)"
proof -
  have val: "\<exists>s. sval (vs ! k) h = Some s \<and> swf (case s of None \<Rightarrow> snil | Some s \<Rightarrow> s) \<and>
      stext (case s of None \<Rightarrow> snil | Some s \<Rightarrow> s) = vtext h (vs ! k)" if "k < length vs" for k
  proof (cases "vs ! k")
    case None
    then show ?thesis using swf_snil by (simp add: sval_def)
  next
    case (Some p)
    from sinvD [OF assms(1) that Some] show ?thesis using Some by (auto simp: sval_def)
  qed
  note t = texts_nth [OF assms(2), of h] texts_nth [OF assms(3), of h]
  have irr: "(x, x) \<notin> lexord rune_less" for x by (rule lexord_irreflexive) (simp add: rune_less_def)
  show ?thesis
  proof (cases "vs ! i = vs ! j")
    case True
    then show ?thesis using irr t by (simp add: stringcmp_def)
  next
    case False
    obtain a b where a: "sval (vs ! i) h = Some a" "swf (case a of None \<Rightarrow> snil | Some s \<Rightarrow> s)"
      "stext (case a of None \<Rightarrow> snil | Some s \<Rightarrow> s) = vtext h (vs ! i)"
      and b: "sval (vs ! j) h = Some b" "swf (case b of None \<Rightarrow> snil | Some s \<Rightarrow> s)"
      "stext (case b of None \<Rightarrow> snil | Some s \<Rightarrow> s) = vtext h (vs ! j)" using val [OF assms(2)] val [OF assms(3)] by blast
    let ?a = "case a of None \<Rightarrow> snil | Some s \<Rightarrow> s" and ?b = "case b of None \<Rightarrow> snil | Some s \<Rightarrow> s"
    let ?x = "map uint (vtext h (vs ! i))" and ?y = "map uint (vtext h (vs ! j))"
    have "stringcmp (vs ! i) (vs ! j) h =
        Some (case cmp_loop ?x ?y of None \<Rightarrow> \<bar>z_len ?a\<bar> - \<bar>z_len ?b\<bar> | Some c \<Rightarrow> c)"
      using False a(1) b(1) cmp_chars_ok [OF a(2)] cmp_chars_ok [OF b(2)] a(3) b(3)
      by (simp add: stringcmp_def Let_def)
    moreover have "\<bar>z_len ?a\<bar> = int (length (vtext h (vs ! i)))" "\<bar>z_len ?b\<bar> = int (length (vtext h (vs ! j)))"
      using swf_len [OF a(2)] swf_len [OF b(2)] a(3) b(3) by simp_all
    ultimately show ?thesis unfolding t using cmp_loop_lexord [of "vtext h (vs ! i)" "vtext h (vs ! j)"]
      by (cases "cmp_loop ?x ?y") auto
  qed
qed

lemma stringcmp_lexicographic_witness: "\<exists>c. stringcmp (Some 0) (Some 0) (snd text20) = Some c \<and> c = 0"
  using stringcmp_lexicographic [of "[Some 0]" "snd text20" 0 0] text20_inv by (simp add: text20_def)

subsection \<open>Round trips\<close>

text \<open>C36: the bytes that \<open>cvtca\<close> makes of a string are made into a string of the same text by \<open>cvtac\<close>, want of memory apart.\<close>
theorem cvtac_cvtca:
  assumes "sinv st" "s < length (fst st)" "d < length (fst st)"
  shows "\<exists>bs y st'. cvtca s st = Some bs \<and> cvtac A (Some bs) d st = Some (y, st') \<and>
    (case y of Inl e \<Rightarrow> e = ExHeap \<and> texts st' = texts st | Inr _ \<Rightarrow> texts st' = (texts st)[d := texts st ! s])"
proof -
  obtain vs h where st: "st = (vs, h)" by (cases st)
  have i: "sinv (vs, h)" "s < length vs" "d < length vs" using assms by (simp_all add: st)
  have "outcome d (Inr (texts st ! s)) (vs, h) (cvtac A (Some (encode (vtext h (vs ! s)))) d (vs, h))"
    using cvtac_ok [OF i(1,3), of "Some (encode (vtext h (vs ! s)))" A] texts_nth [OF i(2), of h] by (simp add: udecode_encode st)
  then show ?thesis
    by (rule outcomeE) (use cvtca_ok [OF i(1,2)] in \<open>auto simp: st same_def sets_def\<close>)
qed

lemma cvtac_cvtca_witness:
  "\<exists>bs y st'. cvtca 0 text20 = Some bs \<and> cvtac (\<lambda>n. None) (Some bs) 0 text20 = Some (y, st') \<and> texts st' = texts text20"
proof -
  from cvtac_cvtca [OF text20_inv, of 0 0 "\<lambda>n. None"] obtain bs y st' where
    "cvtca 0 text20 = Some bs" "cvtac (\<lambda>n. None) (Some bs) 0 text20 = Some (y, st')"
    "case y of Inl e \<Rightarrow> e = ExHeap \<and> texts st' = texts text20 | Inr _ \<Rightarrow> texts st' = (texts text20)[0 := texts text20 ! 0]"
    by (auto simp: text20_def)
  moreover from this(3) have "texts st' = texts text20" by (cases y) auto
  ultimately show ?thesis by blast
qed

lemma cvtcw_ok:
  assumes "sinv (vs, h)" "s < length vs" "vs ! s \<noteq> None"
  shows "cvtcw s (vs, h) = Some (strtoint (encode (vtext h (vs ! s))))"
proof -
  obtain p where p: "vs ! s = Some p" using assms(3) by blast
  from sinvD [OF assms(1,2) p] obtain x where x: "sget h p = Some (count_list vs (Some p), x)" "swf x" by blast
  from string2c_ok [OF x(2)] show ?thesis using p x by (auto simp: cvtcw_def sval_def)
qed

text \<open>
  C37: an \<open>int\<close> made into a string by \<open>cvtwc\<close> is read back by \<open>cvtcw\<close>: the low 32 bits of the word, signed.
\<close>
theorem cvtcw_cvtwc:
  assumes "sinv st" "d < length (fst st)" "cvtwc A w d st = Some (Inr (), st')"
  shows "cvtcw d st' = Some (sint (ucast w :: u32))"
proof -
  obtain vs h where st: "st = (vs, h)" by (cases st)
  let ?i = "sint (ucast w :: u32)"
  have i: "- (2 ^ 31) \<le> ?i" "?i < 2 ^ 31" using sint_greater_eq [of "ucast w :: u32"] sint_less [of "ucast w :: u32"] by simp_all
  have "outcome d (Inr (map ucast (decimal ?i))) (vs, h) (cvtwc A w d (vs, h))"
    using cvt_print_ok [of vs h d ?i A] assms(1,2) length_decimal_word [of "ucast w"] by (simp add: st cvtwc_def)
  then have s: "sets d (map ucast (decimal ?i)) (vs, h) st'" using assms(3) by (auto simp: st outcome_def split: sum.splits)
  obtain vs' h' where st': "st' = (vs', h')" by (cases st')
  have v: "sinv (vs', h')" "d < length vs'" "vtext h' (vs' ! d) = map ucast (decimal ?i)"
    using s assms(2) texts_nth [of d vs' h'] by (auto simp: st st' sets_def texts_def)
  have "decimal ?i \<noteq> []" by (simp add: decimal_def)
  then have "vs' ! d \<noteq> None" using v(3) by (cases "vs' ! d") auto
  moreover have "encode (map ucast (decimal ?i)) = decimal ?i" using encode_plain decimal_ascii by blast
  moreover have "strtoint (decimal ?i) = ?i" using strtol_decimal [of ?i] i by (simp add: strtoint_def saturate_def)
  ultimately show ?thesis using cvtcw_ok [OF v(1,2)] v(3) by (simp add: st')
qed

lemma cvtcw_cvtwc_witness:
  "\<exists>st'. cvtwc (\<lambda>n. Some 0) 7 0 ([None], []) = Some (Inr (), st') \<and> cvtcw 0 st' = Some 7"
proof -
  have i: "sinv ([None], [])" by (simp add: sinv_def)
  have "\<exists>st'. cvtwc (\<lambda>n. Some 0) 7 0 ([None], []) = Some (Inr (), st')"
    by (simp add: cvtwc_def cvt_print_def newstring_def wr_ascii_def sdeliver_def assign_def destroy_def decimal_def digits.simps)
  then obtain st' where st': "cvtwc (\<lambda>n. Some 0) 7 0 ([None], []) = Some (Inr (), st')" by blast
  from cvtcw_cvtwc [OF i _ this] show ?thesis using st' by simp
qed

end
