(* ===== verification/Spec2Isabelle.thy ===== *)
theory Spec2Isabelle
  imports Rune StyxCanon Fifo QueueSched Names NsProps FdSys NsSys DStrProps
begin

text \<open>
  A verification development of the core of the Inferno emulator: the part of \<open>emu/port\<close> and
  \<open>lib9\<close> through which every file operation passes, and the strings of the Dis virtual machine above it.  A system call names a file (path names), the
  name is walked through the name space, the operation becomes a 9P message on a mounted connection (message
  codec, directory entries), and the bytes travel through I/O queues of blocks between processes that sleep
  and wake each other.

  \<^bold>\<open>Runes and strings.\<close>  \<open>Rune\<close> models \<open>lib9/rune.c\<close> and \<open>lib9/utf*.c\<close>: a rune is a 16-bit word, a
  string the list of its bytes before the NUL, and \<open>at s i\<close> is \<open>s[i]\<close>, zero at the end.  The lemmas
  show that encoding and decoding are inverse, that only shortest forms are accepted, that nothing behind the
  terminator is consumed, and what counting, copying and searching compute on sequences of runes.
  \<open>Kstr\<close> is \<open>kstrcpy\<close> of \<open>emu/port/chan.c\<close>.

  \<^bold>\<open>The 9P codec.\<close>  \<open>Fcall\<close> holds the message structure and byte-order macros of \<open>include/fcall.h\<close>,
  \<open>ConvS2M\<close> and \<open>ConvM2S\<close> the two directions (\<open>lib9/convS2M.c\<close>, \<open>lib9/convM2S.c\<close>) with sizes as 32-bit words
  and strings terminated in place.  \<open>Grammar\<close> states each message as a list of fields.  \<open>StyxPack\<close> shows that
  the packer writes the grammar's bytes, \<open>StyxSim\<close> and \<open>StyxParse\<close> that the in-place reader computes the pure
  parser of the grammar without leaving the first \<open>nap\<close> bytes, \<open>StyxCanon\<close> that what is accepted is
  what is written.  Not modelled: \<open>fcallfmt.c\<close>, which prints messages.

  \<^bold>\<open>Directory entries.\<close>  \<open>Stat\<close> models \<open>lib9/convM2D.c\<close>, \<open>lib9/convD2M.c\<close> and \<open>dirpackage\<close> of
  \<open>emu/port/sysfile.c\<close>.  An unpacked \<open>Dir\<close> points into the string memory, so that the round trips show that no
  name overwrites another and none is written behind it, whatever the buffer holds.  \<open>ulong\<close> has 64 bits; sizes are
  unbounded naturals, as the pool allocator gives out no block of 1 GB or more.

  \<^bold>\<open>Path names.\<close>  \<open>Clean\<close> models \<open>lib9/cleanname.c\<close> on the buffer it rewrites and proves it equal to the
  lexical cleaning of the path, termination included.  \<open>Names\<close> models the name checks and the parser of
  \<open>emu/port/chan.c\<close> and \<open>validstat\<close> of \<open>emu/port/sysfile.c\<close>.

  \<^bold>\<open>Blocks and queues.\<close>  \<open>Blocks\<close> and \<open>Queue\<close> model \<open>emu/port/qio.c\<close>: a block is its buffer with its two
  pointers, a chain is the list of its blocks, freeing and waking are events in the order of the code.  Each
  operation is one function from a queue to its result, the new queue and its events; where it would sleep the
  result is \<open>Sleeps\<close>.  Lengths are unbounded integers, which is the code as long as a queue holds less than
  2 GB.  \<open>qread\<close> drops its lock while it copies to the reader; since \<open>rlock\<close> keeps other readers out and the
  blocks are off the queue by then, the model copies in the same step.  \<open>QueueInv\<close> and \<open>QueueWrite\<close> hold the
  invariant over every operation (a step relation and its reachable states; \<open>pullupqueue\<close> keeps all of it but the
  count \<open>len\<close> of buffer bytes, whose drift the invariant \<open>qwfd\<close> carries along) and the functional behaviour of
  the operations; \<open>Fifo\<close> states the stream and the message contract as locales and interprets them on the
  operations.

  \<^bold>\<open>Sleeping.\<close>  \<open>QueueSync\<close>, \<open>QueueSyncOps\<close> and \<open>QueueSched\<close> add the rendezvous of \<open>emu/port/proc.c\<close> and an
  interleaving semantics of one reader, one writer and any number of non-blocking producers and consumers:
  no wakeup is lost, except by the combinations that a counterexample shows, and a writer that sleeps has no
  room it was not told of.  Not modelled of \<open>proc.c\<close>:
  process creation, software interrupts and the error stack.

  \<^bold>\<open>The name space.\<close>  \<open>Chan\<close>, \<open>ChanOps\<close>, \<open>Mount\<close> and \<open>Walk\<close> model the rest of \<open>emu/port/chan.c\<close> below \<open>namec\<close>:
  channels, names and mount heads are reference-counted objects of a store, a pointer is an index into it, and an
  operation maps a store to its result and the new store, \<open>None\<close> being a panic or the use of a dead object.
  The functions that close one another are one function over the list of closes still to be made; it
  terminates because every one of them lowers a count.  \<open>ChanInv\<close> holds the invariant \<open>chinv s T R P\<close>: the count of
  every object is the number of references to it in the store, the mount table \<open>T\<close> and the local variables
  \<open>R\<close>, and the objects nothing refers to are free.  \<open>ChanSpec\<close> and \<open>NameStr\<close> give each operation its
  rule for the references it takes and returns, \<open>DevSpec\<close> the contract \<open>device\<close> of a walk routine, \<open>WalkSpec\<close>,
  \<open>WalkSound\<close> and \<open>MountSpec\<close> the rules of walking, mounting and unmounting; \<open>NsProps\<close> holds the properties.
  Three simplifications: locks are left out, so an operation is one step; a reference leaves its field before it is closed;
  and a device makes its clone only when it keeps it, so that fids and the order of the free list may differ from
  the code after a failed walk.

  \<^bold>\<open>Process groups and descriptors.\<close>  \<open>Pgrp\<close> and \<open>Fgrp\<close> model \<open>emu/port/pgrp.c\<close> and the descriptor table of
  \<open>emu/port/sysfile.c\<close> over the same store.  \<open>PgrpSpec\<close> and \<open>FgrpInv\<close> have the rules of their operations, \<open>NsSys\<close>
  and \<open>FdSys\<close> the step relations of processes that mount, unmount, fork and exit, or open, close and duplicate, with
  their invariants; \<open>NsRoot\<close> has the small name spaces of the witnesses.  An allocation never fails.

  \<^bold>\<open>Devices.\<close>  \<open>Dev\<close> models the toolkit of \<open>emu/port/dev.c\<close> over any generator, \<open>DevTab\<close> its behaviour with
  \<open>devgen\<close> and a table, and shows that its \<open>devwalk\<close> keeps the contract of a walk routine.

  \<^bold>\<open>Dis strings.\<close>  \<open>DStr\<close> and \<open>DStrConv\<close> model \<open>libinterp/string.c\<close>: the strings of the virtual machine, counted
  heap objects that hold bytes or runes, and the instructions on them.  \<open>DStrInv\<close> has their invariant (every count is the
  number of variables on the object, every text lies inside it), \<open>DStrSpec\<close>, \<open>DStrOps\<close>, \<open>DStrSys\<close> and \<open>DStrCode\<close> the rules of
  the operations over the texts of the variables, \<open>DStrProps\<close> the properties.  The heap allocator is a parameter: how many bytes
  more than asked for it gives, if it has any.  Not modelled: the conversions from and to reals, and the failure of the
  allocations \<open>cvtca\<close> and \<open>string2c\<close> make.

  \<open>Prelude\<close> holds the machine integers, the reading of strings, the lemmas on words the theories share and the
  codec contract.  Fuel is used nowhere: loops are structural, have a measure, or are partial functions (in
  \<open>Clean\<close>, \<open>Walk\<close> and \<open>Dev\<close>) whose termination is part of the theorems on them.

  Not modelled: \<open>namec\<close> and the system calls around it, whose parts are modelled but not their error-stack control
  flow; the mount driver and the other devices, the rest of the Dis virtual machine and its compilers, Limbo, Tk, the native
  kernels under \<open>os\<close>, the cryptographic libraries and the host interfaces.
\<close>

end
